(* ===== verification/Nx_Prelude.thy ===== *)
theory Nx_Prelude
  imports Main "HOL-Library.Word"
begin

text \<open>
  Shared vocabulary of the development: the fixed-width integer types of the C code, the
  NX status codes of \<^verbatim>\<open>framework/registry.h\<close>, the linear scan for the first table entry
  with a property (the kernel's fixed tables are all searched that way), and the generic
  list, word and counting lemmas that the component theories rely on.
\<close>

unbundle bit_operations_syntax

section \<open>Types\<close>

type_synonym u8 = "8 word"
type_synonym u32 = "32 word"
type_synonym u64 = "64 word"

text \<open>A pointer is a 64-bit address; the null pointer is 0.\<close>

type_synonym ptr = "64 word"

abbreviation (input) NULL :: ptr where
  "NULL \<equiv> 0"

text \<open>The page size of \<^verbatim>\<open>core/pmm/pmm.h\<close>.\<close>

abbreviation (input) PMM_PAGE_SIZE :: u64 where "PMM_PAGE_SIZE \<equiv> 4096"

text \<open>The status codes of \<^verbatim>\<open>framework/registry.h\<close>.\<close>

datatype nx_status =
    NX_OK
  | NX_EINVAL
  | NX_ENOMEM
  | NX_EEXIST
  | NX_ENOENT
  | NX_EBUSY
  | NX_ESTATE
  | NX_ELOOP
  | NX_EABORT
  | NX_EDEADLINE
  | NX_EPERM
  | NX_EAGAIN

text \<open>Invariant preservation lemmas and unfolding sets, one collection for each.\<close>

named_theorems nx_inv \<open>an operation keeps its component's invariant\<close>
named_theorems nx_defs \<open>definitions of small helpers that proofs unfold\<close>

section \<open>First match in a table\<close>

text \<open>
  The loop \<^verbatim>\<open>for (i = 0; i < CAP; i++) if (P(tab[i])) return i;\<close> that searches every fixed
  table of the kernel.
\<close>

primrec find_idx :: "('a \<Rightarrow> bool) \<Rightarrow> 'a list \<Rightarrow> nat option" where
  "find_idx P [] = None"
| "find_idx P (x # xs) = (if P x then Some 0 else map_option Suc (find_idx P xs))"

lemma find_idx_None_iff: "find_idx P xs = None \<longleftrightarrow> (\<forall>x \<in> set xs. \<not> P x)"
  by (induction xs) auto

lemma find_idx_SomeD:
  assumes "find_idx P xs = Some i"
  shows "i < length xs" and "P (xs ! i)" and "\<And>j. j < i \<Longrightarrow> \<not> P (xs ! j)"
proof -
  have "i < length xs \<and> P (xs ! i) \<and> (\<forall>j < i. \<not> P (xs ! j))"
    using assms
  proof (induction xs arbitrary: i)
    case Nil
    then show ?case by simp
  next
    case (Cons x xs)
    show ?case
    proof (cases "P x")
      case True
      with Cons.prems show ?thesis by simp
    next
      case False
      with Cons.prems obtain k where k: "find_idx P xs = Some k" and i: "i = Suc k"
        by auto
      from Cons.IH [OF k] False show ?thesis
        unfolding i by (auto simp: nth_Cons split: nat.splits)
    qed
  qed
  then show "i < length xs" "P (xs ! i)" "\<And>j. j < i \<Longrightarrow> \<not> P (xs ! j)" by auto
qed

lemma find_idx_Some_iff:
  "find_idx P xs = Some i \<longleftrightarrow> i < length xs \<and> P (xs ! i) \<and> (\<forall>j < i. \<not> P (xs ! j))"
proof
  assume "find_idx P xs = Some i"
  from find_idx_SomeD [OF this] show "i < length xs \<and> P (xs ! i) \<and> (\<forall>j < i. \<not> P (xs ! j))"
    by blast
next
  assume r: "i < length xs \<and> P (xs ! i) \<and> (\<forall>j < i. \<not> P (xs ! j))"
  then have "xs ! i \<in> set xs" by simp
  with r have "find_idx P xs \<noteq> None" by (auto simp: find_idx_None_iff)
  then obtain k where k: "find_idx P xs = Some k" by blast
  note d = find_idx_SomeD [OF k]
  have "k = i"
  proof (rule ccontr)
    assume "k \<noteq> i"
    then have "k < i \<or> i < k" by arith
    with d r show False by blast
  qed
  with k show "find_idx P xs = Some i" by simp
qed

lemma find_idx_exists: "i < length xs \<Longrightarrow> P (xs ! i) \<Longrightarrow> \<exists>k. find_idx P xs = Some k"
  by (metis find_idx_None_iff not_Some_eq nth_mem)

lemma find_idx_cong: "(\<And>x. x \<in> set xs \<Longrightarrow> P x = Q x) \<Longrightarrow> find_idx P xs = find_idx Q xs"
  by (induction xs) auto

section \<open>Counting table entries\<close>

text \<open>How a one-entry update changes the number of entries with a property.\<close>

lemma count_update_gain:
  "i < length xs \<Longrightarrow> \<not> P (xs ! i) \<Longrightarrow> P x \<Longrightarrow>
     length (filter P (xs[i := x])) = Suc (length (filter P xs))"
  by (induction xs arbitrary: i) (auto split: nat.splits)

lemma count_update_lose:
  "i < length xs \<Longrightarrow> P (xs ! i) \<Longrightarrow> \<not> P x \<Longrightarrow>
     Suc (length (filter P (xs[i := x]))) = length (filter P xs)"
proof (induction xs arbitrary: i)
  case Nil
  then show ?case by simp
next
  case (Cons y ys)
  show ?case
  proof (cases i)
    case 0
    with Cons.prems show ?thesis by simp
  next
    case (Suc k)
    with Cons.prems Cons.IH [of k] show ?thesis by auto
  qed
qed

lemma count_update_same:
  "i < length xs \<Longrightarrow> P (xs ! i) = P x \<Longrightarrow>
     length (filter P (xs[i := x])) = length (filter P xs)"
  by (induction xs arbitrary: i) (auto split: nat.splits)

lemma nth_list_update_if: "i < length xs \<Longrightarrow> xs[i := x] ! j = (if i = j then x else xs ! j)"
  by simp

section \<open>Words\<close>

lemma of_nat_Suc_minus_1 [simp]: "(of_nat (Suc n) :: 'a :: len word) - 1 = of_nat n"
  by simp

lemma unat_of_nat_u64: "n < 2 ^ 64 \<Longrightarrow> unat (of_nat n :: u64) = n"
  by (simp add: unat_of_nat take_bit_nat_eq_self)

lemma unat_of_nat_u32: "n < 2 ^ 32 \<Longrightarrow> unat (of_nat n :: u32) = n"
  by (simp add: unat_of_nat take_bit_nat_eq_self)

lemma unat_u64_less: "unat (x :: u64) < 2 ^ 64"
  using unsigned_less [of x, where ?'a = nat] by simp

text \<open>Rounding down to a power of two by masking.\<close>

lemma unat_and_not_mask: "unat (x AND NOT (mask n) :: 'a :: len word) = unat x - unat x mod 2 ^ n"
proof -
  have le: "take_bit n x \<le> x"
    by (simp add: word_le_nat_alt unsigned_take_bit_eq)
  have "x AND NOT (mask n) = push_bit n (drop_bit n x)"
    by (rule bit_word_eqI) (auto simp: bit_simps)
  also have "\<dots> = x - take_bit n x"
    using bits_ident [of n x] by (metis add_diff_cancel_right')
  finally show ?thesis
    using le by (simp only: unat_sub unsigned_take_bit_eq) (simp add: take_bit_eq_mod)
qed

lemma unat_and_not_page: "unat (x AND NOT (PMM_PAGE_SIZE - 1)) = unat x - unat x mod 4096"
  using unat_and_not_mask [of x 12] by (simp add: mask_eq_exp_minus_1)

end
