(* ===== verification/Nx_Handle.thy ===== *)
theory Nx_Handle
  imports Nx_Prelude
begin

text \<open>
  The handle table of \<^verbatim>\<open>framework/handle.c\<close>: generation-tagged capabilities. A handle is a
  32-bit value whose low 8 bits are the entry's index plus one and whose high 24 bits are
  the entry's generation; closing an entry bumps the generation, so that a handle value
  captured before the close stops resolving. The table pointer \<^verbatim>\<open>t\<close> and the out-pointers of the
  C functions are the argument and the results of the model's functions.
\<close>

section \<open>Data\<close>

datatype nx_handle_type =
    HANDLE_INVALID
  | HANDLE_CHANNEL
  | HANDLE_VMO
  | HANDLE_PROCESS
  | HANDLE_THREAD
  | HANDLE_IRQ
  | HANDLE_DIR
  | HANDLE_RESOURCE
  | HANDLE_CONFIG
  | HANDLE_TYPE_COUNT

type_synonym nx_handle_t = u32

abbreviation NX_HANDLE_INVALID :: nx_handle_t where
  "NX_HANDLE_INVALID \<equiv> 0"

abbreviation NX_HANDLE_TABLE_CAPACITY :: nat where
  "NX_HANDLE_TABLE_CAPACITY \<equiv> 64"

text \<open>
  The union \<^verbatim>\<open>{ void *object; uint32_t id; }\<close> is one 64-bit cell; \<^verbatim>\<open>id\<close> is its low half
  (little endian), so storing \<^verbatim>\<open>id\<close> leaves the high half as it was.
\<close>

record nx_handle_entry =
  he_type :: nx_handle_type
  he_rights :: u32
  he_object :: ptr
  he_generation :: u32
  he_target :: ptr

record nx_handle_table =
  entries :: "nx_handle_entry list"
  ht_count :: u64

definition he_id :: "nx_handle_entry \<Rightarrow> u32" where
  "he_id e = ucast (he_object e)"

definition he_set_id :: "u32 \<Rightarrow> nx_handle_entry \<Rightarrow> nx_handle_entry" where
  "he_set_id i e = e\<lparr>he_object := (he_object e AND NOT (mask 32)) OR ucast i\<rparr>"

section \<open>Handle values\<close>

definition encode_handle :: "u32 \<Rightarrow> nat \<Rightarrow> nx_handle_t" where
  "encode_handle generation index = (push_bit 8 generation) OR of_nat (index + 1)"

definition decode_index :: "nx_handle_t \<Rightarrow> nat option" where
  "decode_index h =
     (if h = NX_HANDLE_INVALID then None
      else let enc = unat (h AND mask 8)
           in if enc = 0 \<or> enc > NX_HANDLE_TABLE_CAPACITY then None else Some (enc - 1))"

definition decode_generation :: "nx_handle_t \<Rightarrow> u32" where
  "decode_generation h = drop_bit 8 h"

section \<open>Table operations\<close>

definition he_cleared :: "nx_handle_entry \<Rightarrow> nx_handle_entry" where
  "he_cleared e = e\<lparr>he_type := HANDLE_INVALID, he_rights := 0, he_object := NULL, he_target := NULL\<rparr>"

definition nx_handle_table_init :: "nx_handle_table \<Rightarrow> nx_handle_table" where
  "nx_handle_table_init t = t\<lparr>entries := map he_cleared (entries t), ht_count := 0\<rparr>"

definition nx_handle_table_count :: "nx_handle_table \<Rightarrow> u64" where
  "nx_handle_table_count t = ht_count t"

text \<open>The scan of \<^verbatim>\<open>alloc\<close> and \<^verbatim>\<open>alloc_resource\<close> for the first free entry.\<close>

definition free_entry :: "nx_handle_table \<Rightarrow> nat option" where
  "free_entry t = find_idx (\<lambda>e. he_type e = HANDLE_INVALID) (entries t)"

definition nx_handle_alloc ::
  "nx_handle_table \<Rightarrow> nx_handle_type \<Rightarrow> u32 \<Rightarrow> ptr \<Rightarrow> nx_handle_table \<times> (nx_status + nx_handle_t)"
where
  "nx_handle_alloc t type rights object =
     (if type = HANDLE_INVALID \<or> type = HANDLE_TYPE_COUNT then (t, Inl NX_EINVAL)
      else if object = NULL then (t, Inl NX_EINVAL)
      else case free_entry t of
          None \<Rightarrow> (t, Inl NX_ENOMEM)
        | Some i \<Rightarrow>
            let e = (entries t ! i)\<lparr>he_type := type, he_rights := rights,
                                    he_object := object, he_target := NULL\<rparr>
            in (t\<lparr>entries := (entries t)[i := e], ht_count := ht_count t + 1\<rparr>,
                Inr (encode_handle (he_generation e) i)))"

text \<open>The checks that \<^verbatim>\<open>lookup\<close>, \<^verbatim>\<open>close\<close> and \<^verbatim>\<open>entry_get\<close> start with.\<close>

definition resolve :: "nx_handle_table \<Rightarrow> nx_handle_t \<Rightarrow> nx_status + nat" where
  "resolve t h =
     (case decode_index h of
        None \<Rightarrow> Inl NX_EINVAL
      | Some idx \<Rightarrow>
          if he_type (entries t ! idx) = HANDLE_INVALID then Inl NX_ENOENT
          else if he_generation (entries t ! idx) \<noteq> decode_generation h then Inl NX_ENOENT
          else Inr idx)"

definition nx_handle_lookup ::
  "nx_handle_table \<Rightarrow> nx_handle_t \<Rightarrow> nx_status + (nx_handle_type \<times> u32 \<times> ptr)"
where
  "nx_handle_lookup t h =
     (case resolve t h of
        Inl s \<Rightarrow> Inl s
      | Inr idx \<Rightarrow> let e = entries t ! idx in Inr (he_type e, he_rights e, he_object e))"

definition nx_handle_close :: "nx_handle_table \<Rightarrow> nx_handle_t \<Rightarrow> nx_handle_table \<times> nx_status" where
  "nx_handle_close t h =
     (case resolve t h of
        Inl s \<Rightarrow> (t, s)
      | Inr idx \<Rightarrow>
          let e = he_cleared (entries t ! idx)
          in (t\<lparr>entries := (entries t)[idx := e\<lparr>he_generation := he_generation e + 1\<rparr>],
                ht_count := ht_count t - 1\<rparr>, NX_OK))"

definition nx_handle_set_slot :: "nx_handle_table \<Rightarrow> nx_handle_t \<Rightarrow> ptr \<Rightarrow> nx_handle_table" where
  "nx_handle_set_slot t h target =
     (case decode_index h of
        None \<Rightarrow> t
      | Some idx \<Rightarrow>
          let e = entries t ! idx
          in if he_type e = HANDLE_INVALID then t
             else if he_target e \<noteq> NULL then t
             else t\<lparr>entries := (entries t)[idx := e\<lparr>he_target := target\<rparr>]\<rparr>)"

definition nx_handle_duplicate ::
  "nx_handle_table \<Rightarrow> nx_handle_t \<Rightarrow> u32 \<Rightarrow> nx_handle_table \<times> (nx_status + nx_handle_t)"
where
  "nx_handle_duplicate t src new_rights =
     (case nx_handle_lookup t src of
        Inl s \<Rightarrow> (t, Inl s)
      | Inr (src_type, src_rights, src_object) \<Rightarrow>
          if new_rights AND NOT src_rights \<noteq> 0 then (t, Inl NX_EPERM)
          else let src_target = (case decode_index src of
                                   None \<Rightarrow> NULL
                                 | Some src_idx \<Rightarrow> he_target (entries t ! src_idx))
               in case nx_handle_alloc t src_type new_rights src_object of
                    (t', Inr out) \<Rightarrow>
                      (if src_target \<noteq> NULL then nx_handle_set_slot t' out src_target else t',
                       Inr out)
                  | (t', Inl s) \<Rightarrow> (t', Inl s))"

definition nx_handle_alloc_with_slot ::
  "nx_handle_table \<Rightarrow> nx_handle_type \<Rightarrow> u32 \<Rightarrow> ptr \<Rightarrow> ptr \<Rightarrow> nx_handle_table \<times> (nx_status + nx_handle_t)"
where
  "nx_handle_alloc_with_slot t type rights object target =
     (case nx_handle_alloc t type rights object of
        (t', Inr out) \<Rightarrow>
          (if target \<noteq> NULL then nx_handle_set_slot t' out target else t', Inr out)
      | (t', Inl s) \<Rightarrow> (t', Inl s))"

definition nx_handle_alloc_resource ::
  "nx_handle_table \<Rightarrow> u32 \<Rightarrow> u32 \<Rightarrow> ptr \<Rightarrow> nx_handle_table \<times> (nx_status + nx_handle_t)"
where
  "nx_handle_alloc_resource t rights rid target =
     (case free_entry t of
        None \<Rightarrow> (t, Inl NX_ENOMEM)
      | Some i \<Rightarrow>
          let e = he_set_id rid ((entries t ! i)\<lparr>he_type := HANDLE_RESOURCE, he_rights := rights,
                                                he_target := target\<rparr>)
          in (t\<lparr>entries := (entries t)[i := e], ht_count := ht_count t + 1\<rparr>,
              Inr (encode_handle (he_generation e) i)))"

definition nx_handle_entry_get :: "nx_handle_table \<Rightarrow> nx_handle_t \<Rightarrow> nx_handle_entry option" where
  "nx_handle_entry_get t h =
     (case decode_index h of
        None \<Rightarrow> None
      | Some idx \<Rightarrow>
          if he_type (entries t ! idx) = HANDLE_INVALID then None
          else if he_generation (entries t ! idx) \<noteq> decode_generation h then None
          else Some (entries t ! idx))"

text \<open>
  The loop of \<^verbatim>\<open>invalidate_slot_cb\<close> over the entries of one process's table: one step for each
  index, in order.
\<close>

definition invalidate_at :: "ptr \<Rightarrow> nat \<Rightarrow> nx_handle_table \<Rightarrow> nx_handle_table" where
  "invalidate_at dep_slot i t =
     (let e = entries t ! i
      in if he_target e \<noteq> dep_slot then t
         else if he_type e = HANDLE_INVALID then t
         else t\<lparr>entries := (entries t)
                  [i := (he_cleared e)\<lparr>he_generation := he_generation e + 1\<rparr>],
                ht_count := ht_count t - 1\<rparr>)"

definition invalidate_slot_cb :: "ptr \<Rightarrow> nx_handle_table \<Rightarrow> nx_handle_table" where
  "invalidate_slot_cb dep_slot t = fold (invalidate_at dep_slot) [0..<NX_HANDLE_TABLE_CAPACITY] t"

section \<open>Handle values: encoding and decoding\<close>

lemma index_word_small: "i < 64 \<Longrightarrow> take_bit 8 (of_nat (i + 1) :: u32) = of_nat (i + 1)"
  by (simp only: take_bit_of_nat) (simp add: take_bit_nat_eq_self)

lemma unat_index_word: "i < 64 \<Longrightarrow> unat (of_nat (i + 1) :: u32) = i + 1"
  by (rule unat_of_nat_u32) simp

lemma encode_low: "i < 64 \<Longrightarrow> encode_handle g i AND mask 8 = of_nat (i + 1)"
proof -
  assume i: "i < 64"
  have "take_bit 8 (push_bit 8 g OR of_nat (i + 1) :: u32)
          = take_bit 8 (push_bit 8 g) OR take_bit 8 (of_nat (i + 1))"
    by (rule take_bit_or)
  also have "take_bit 8 (push_bit 8 g) = 0"
    by (simp add: take_bit_push_bit)
  finally show ?thesis
    using index_word_small [OF i] by (simp add: encode_handle_def flip: take_bit_eq_mask)
qed

lemma encode_nonzero: "i < 64 \<Longrightarrow> encode_handle g i \<noteq> 0"
proof
  assume i: "i < 64" and z: "encode_handle g i = 0"
  from z encode_low [OF i, of g] have "(of_nat (i + 1) :: u32) = 0" by simp
  then have "unat (of_nat (i + 1) :: u32) = 0" by simp
  with unat_index_word [OF i] show False by simp
qed

lemma decode_index_encode [simp]: "i < 64 \<Longrightarrow> decode_index (encode_handle g i) = Some i"
  using encode_nonzero [of i g] encode_low [of i g] unat_index_word [of i]
  by (simp add: decode_index_def Let_def)

lemma drop_push_u32: "drop_bit 8 (push_bit 8 g :: u32) = take_bit 24 g"
  by (rule bit_word_eqI) (auto simp: bit_simps)

text \<open>The encoding keeps the low 24 bits of the generation only.\<close>

lemma decode_generation_encode:
  "i < 64 \<Longrightarrow> decode_generation (encode_handle g i) = take_bit 24 g"
proof -
  assume i: "i < 64"
  have "drop_bit 8 (of_nat (i + 1) :: u32) = drop_bit 8 (take_bit 8 (of_nat (i + 1)))"
    by (simp only: index_word_small [OF i])
  also have "\<dots> = 0"
    by (simp add: drop_bit_take_bit)
  finally show ?thesis
    by (simp add: decode_generation_def encode_handle_def drop_push_u32)
qed

lemma gen_fits_iff: "take_bit 24 (g :: u32) = g \<longleftrightarrow> g < 2 ^ 24"
proof -
  have "take_bit 24 g = g \<longleftrightarrow> unat g mod 2 ^ 24 = unat g"
    by (simp add: word_unat_eq_iff take_bit_eq_mod unat_mod)
  also have "\<dots> \<longleftrightarrow> unat g < 2 ^ 24"
    by (metis mod_less mod_less_divisor zero_less_numeral zero_less_power)
  also have "\<dots> \<longleftrightarrow> g < 2 ^ 24"
    by (simp add: word_less_nat_alt)
  finally show ?thesis .
qed

lemmas gen_fits = gen_fits_iff [THEN iffD2]

lemma decode_index_bound: "decode_index h = Some i \<Longrightarrow> i < 64"
  by (auto simp: decode_index_def Let_def split: if_splits)

lemma decode_generation_bound: "decode_generation h < 2 ^ 24"
proof -
  have "take_bit 24 (drop_bit 8 h) = drop_bit 8 h"
    by (rule bit_word_eqI) (auto simp: bit_simps dest: bit_imp_le_length)
  then show ?thesis by (simp add: decode_generation_def gen_fits_iff)
qed

text \<open>A handle value is determined by its two decoded parts.\<close>

lemma encode_decode:
  assumes "decode_index h = Some i"
  shows "encode_handle (decode_generation h) i = h"
proof -
  from assms have "of_nat (i + 1) = (h AND mask 8)"
    by (auto simp: decode_index_def Let_def split: if_splits)
  moreover have "push_bit 8 (drop_bit 8 h) OR (h AND mask 8) = h"
    by (rule bit_word_eqI) (auto simp: bit_simps)
  ultimately show ?thesis
    by (simp add: encode_handle_def decode_generation_def)
qed

section \<open>The table invariant\<close>

abbreviation live :: "nx_handle_entry \<Rightarrow> bool" where
  "live e \<equiv> he_type e \<noteq> HANDLE_INVALID"

text \<open>
  The table has its 64 entries, the counter is the number of live entries, and a free entry
  carries no rights, no object and no routing slot.
\<close>

definition entry_ok :: "nx_handle_entry \<Rightarrow> bool" where
  "entry_ok e \<longleftrightarrow> (\<not> live e \<longrightarrow> he_rights e = 0 \<and> he_object e = NULL \<and> he_target e = NULL)
                 \<and> he_type e \<noteq> HANDLE_TYPE_COUNT"

definition handle_inv :: "nx_handle_table \<Rightarrow> bool" where
  "handle_inv t \<longleftrightarrow> length (entries t) = NX_HANDLE_TABLE_CAPACITY
     \<and> ht_count t = of_nat (length (filter live (entries t)))
     \<and> (\<forall>e \<in> set (entries t). entry_ok e)"

text \<open>A table in zero-initialised storage.\<close>

definition zero_handle_entry :: nx_handle_entry where
  "zero_handle_entry = \<lparr>he_type = HANDLE_INVALID, he_rights = 0, he_object = NULL,
                        he_generation = 0, he_target = NULL\<rparr>"

definition zero_handle_table :: nx_handle_table where
  "zero_handle_table = \<lparr>entries = replicate NX_HANDLE_TABLE_CAPACITY zero_handle_entry, ht_count = 0\<rparr>"

lemma handle_inv_length: "handle_inv t \<Longrightarrow> length (entries t) = 64"
  by (simp add: handle_inv_def)

lemma handle_inv_entry: "handle_inv t \<Longrightarrow> i < 64 \<Longrightarrow> entry_ok (entries t ! i)"
  by (simp add: handle_inv_def)

lemma entry_ok_cleared [simp]: "entry_ok (he_cleared e)"
  by (simp add: entry_ok_def he_cleared_def)

lemma entry_ok_generation [simp]: "entry_ok (e\<lparr>he_generation := g\<rparr>) = entry_ok e"
  by (simp add: entry_ok_def)

lemma live_cleared [simp]: "he_type (he_cleared e) = HANDLE_INVALID"
  by (simp add: he_cleared_def)

lemma generation_cleared [simp]: "he_generation (he_cleared e) = he_generation e"
  by (simp add: he_cleared_def)

lemma handle_inv_zero: "handle_inv zero_handle_table"
  by (simp add: handle_inv_def zero_handle_table_def zero_handle_entry_def entry_ok_def)

lemma handle_inv_init [nx_inv]:
  "length (entries t) = 64 \<Longrightarrow> handle_inv (nx_handle_table_init t)"
  by (auto simp: handle_inv_def nx_handle_table_init_def filter_map o_def)

text \<open>The three shapes of a one-entry change of the table.\<close>

lemma handle_inv_fill:
  assumes "handle_inv t" "i < 64" "\<not> live (entries t ! i)" "live e" "entry_ok e"
  shows "handle_inv (t\<lparr>entries := (entries t)[i := e], ht_count := ht_count t + 1\<rparr>)"
  using assms count_update_gain [of i "entries t" live e]
  by (auto simp: handle_inv_def set_update_subset_insert [THEN subsetD] algebra_simps
      dest!: set_update_subset_insert [THEN subsetD])

lemma handle_inv_drop:
  assumes "handle_inv t" "i < 64" "live (entries t ! i)" "\<not> live e" "entry_ok e"
  shows "handle_inv (t\<lparr>entries := (entries t)[i := e], ht_count := ht_count t - 1\<rparr>)"
proof -
  have "ht_count t = of_nat (Suc (length (filter live ((entries t)[i := e]))))"
    using assms count_update_lose [of i "entries t" live e] by (simp add: handle_inv_def)
  then have "ht_count t - 1 = of_nat (length (filter live ((entries t)[i := e])))"
    by (simp only: of_nat_Suc_minus_1)
  then show ?thesis
    using assms by (auto simp: handle_inv_def dest!: set_update_subset_insert [THEN subsetD])
qed

lemma handle_inv_keep:
  assumes "handle_inv t" "i < 64" "live e = live (entries t ! i)" "entry_ok e"
  shows "handle_inv (t\<lparr>entries := (entries t)[i := e]\<rparr>)"
  using assms count_update_same [of i "entries t" live e]
  by (auto simp: handle_inv_def dest!: set_update_subset_insert [THEN subsetD])

subsection \<open>What the operations do\<close>

lemma free_entryD:
  "free_entry t = Some i \<Longrightarrow> i < length (entries t) \<and> \<not> live (entries t ! i)"
  using find_idx_SomeD [of "\<lambda>e. he_type e = HANDLE_INVALID" "entries t" i]
  by (simp add: free_entry_def)

lemma resolve_InrD:
  "resolve t h = Inr i \<Longrightarrow>
     decode_index h = Some i \<and> i < 64 \<and> live (entries t ! i) \<and>
     he_generation (entries t ! i) = decode_generation h"
  by (auto simp: resolve_def decode_index_bound split: option.splits if_splits)

lemma resolve_encode:
  "i < 64 \<Longrightarrow> live (entries t ! i) \<Longrightarrow> he_generation (entries t ! i) < 2 ^ 24 \<Longrightarrow>
     resolve t (encode_handle (he_generation (entries t ! i)) i) = Inr i"
  by (simp add: resolve_def decode_generation_encode gen_fits)

lemma resolve_Inr_iff:
  "resolve t h = Inr i \<longleftrightarrow>
     decode_index h = Some i \<and> live (entries t ! i) \<and>
     he_generation (entries t ! i) = decode_generation h"
  by (auto simp: resolve_def split: option.splits if_splits)

lemma nx_handle_allocE:
  assumes "nx_handle_alloc t ty r ob = (t', Inr h)"
  obtains i where "free_entry t = Some i" "ty \<noteq> HANDLE_INVALID" "ty \<noteq> HANDLE_TYPE_COUNT"
    "ob \<noteq> NULL" "h = encode_handle (he_generation (entries t ! i)) i"
    "t' = t\<lparr>entries := (entries t)[i := (entries t ! i)\<lparr>he_type := ty, he_rights := r,
             he_object := ob, he_target := NULL\<rparr>], ht_count := ht_count t + 1\<rparr>"
  using assms by (auto simp: nx_handle_alloc_def Let_def split: if_splits option.splits)

lemma nx_handle_alloc_err: "nx_handle_alloc t ty r ob = (t', Inl s) \<Longrightarrow> t' = t"
  by (auto simp: nx_handle_alloc_def Let_def split: if_splits option.splits)

lemma nx_handle_closeE:
  assumes "nx_handle_close t h = (t', NX_OK)"
  obtains i where "resolve t h = Inr i"
    "t' = t\<lparr>entries := (entries t)[i := (he_cleared (entries t ! i))
              \<lparr>he_generation := he_generation (entries t ! i) + 1\<rparr>], ht_count := ht_count t - 1\<rparr>"
proof (cases "resolve t h")
  case (Inl s)
  then have "s = NX_OK" using assms by (simp add: nx_handle_close_def)
  with Inl show thesis
    by (auto simp: resolve_def split: option.splits if_splits)
next
  case (Inr i)
  with assms that show thesis by (simp add: nx_handle_close_def Let_def)
qed

lemma nx_handle_close_err: "nx_handle_close t h = (t', s) \<Longrightarrow> s \<noteq> NX_OK \<Longrightarrow> t' = t"
  by (auto simp: nx_handle_close_def Let_def split: sum.splits)

lemma he_set_id_simps [simp]:
  "he_type (he_set_id k e) = he_type e" "he_rights (he_set_id k e) = he_rights e"
  "he_generation (he_set_id k e) = he_generation e" "he_target (he_set_id k e) = he_target e"
  by (simp_all add: he_set_id_def)

text \<open>Every operation keeps the invariant.\<close>

lemma handle_inv_alloc [nx_inv]: "handle_inv t \<Longrightarrow> handle_inv (fst (nx_handle_alloc t ty r ob))"
  by (auto simp: nx_handle_alloc_def Let_def entry_ok_def handle_inv_length
      intro!: handle_inv_fill dest!: free_entryD split: option.splits)

lemma handle_inv_close [nx_inv]: "handle_inv t \<Longrightarrow> handle_inv (fst (nx_handle_close t h))"
  by (auto simp: nx_handle_close_def Let_def intro!: handle_inv_drop
      dest!: resolve_InrD split: sum.splits)

lemma handle_inv_set_slot [nx_inv]: "handle_inv t \<Longrightarrow> handle_inv (nx_handle_set_slot t h tg)"
  by (auto simp: nx_handle_set_slot_def Let_def entry_ok_def intro!: handle_inv_keep
      dest: decode_index_bound handle_inv_entry split: option.splits)

lemma handle_inv_alloc_resource [nx_inv]:
  "handle_inv t \<Longrightarrow> handle_inv (fst (nx_handle_alloc_resource t r k tg))"
  by (auto simp: nx_handle_alloc_resource_def Let_def entry_ok_def handle_inv_length
      intro!: handle_inv_fill dest!: free_entryD split: option.splits)

lemma handle_inv_alloc_with_slot [nx_inv]:
  "handle_inv t \<Longrightarrow> handle_inv (fst (nx_handle_alloc_with_slot t ty r ob tg))"
  using handle_inv_alloc [of t ty r ob]
  by (auto simp: nx_handle_alloc_with_slot_def handle_inv_set_slot split: prod.splits sum.splits)

lemma handle_inv_duplicate [nx_inv]: "handle_inv t \<Longrightarrow> handle_inv (fst (nx_handle_duplicate t h r))"
  using handle_inv_alloc [of t]
  by (auto simp: nx_handle_duplicate_def Let_def handle_inv_set_slot split: prod.splits sum.splits)
     (metis fst_conv handle_inv_set_slot)+

lemma handle_inv_invalidate_at: "handle_inv t \<Longrightarrow> i < 64 \<Longrightarrow> handle_inv (invalidate_at d i t)"
  by (auto simp: invalidate_at_def Let_def intro!: handle_inv_drop)

lemma handle_inv_invalidate [nx_inv]: "handle_inv t \<Longrightarrow> handle_inv (invalidate_slot_cb d t)"
proof -
  have "handle_inv t \<Longrightarrow> set is \<subseteq> {..<64} \<Longrightarrow> handle_inv (fold (invalidate_at d) is t)" for "is"
    by (induction "is" arbitrary: t) (auto simp: handle_inv_invalidate_at)
  then show "handle_inv t \<Longrightarrow> handle_inv (invalidate_slot_cb d t)"
    by (simp add: invalidate_slot_cb_def lessThan_atLeast0)
qed

section \<open>Sequences of table operations\<close>

datatype handle_op =
    OpAlloc nx_handle_type u32 ptr
  | OpAllocWithSlot nx_handle_type u32 ptr ptr
  | OpAllocResource u32 u32 ptr
  | OpClose nx_handle_t
  | OpDuplicate nx_handle_t u32
  | OpSetSlot nx_handle_t ptr
  | OpInvalidate ptr

fun handle_step :: "handle_op \<Rightarrow> nx_handle_table \<Rightarrow> nx_handle_table" where
  "handle_step (OpAlloc ty r ob) t = fst (nx_handle_alloc t ty r ob)"
| "handle_step (OpAllocWithSlot ty r ob tg) t = fst (nx_handle_alloc_with_slot t ty r ob tg)"
| "handle_step (OpAllocResource r k tg) t = fst (nx_handle_alloc_resource t r k tg)"
| "handle_step (OpClose h) t = fst (nx_handle_close t h)"
| "handle_step (OpDuplicate h r) t = fst (nx_handle_duplicate t h r)"
| "handle_step (OpSetSlot h tg) t = nx_handle_set_slot t h tg"
| "handle_step (OpInvalidate d) t = invalidate_slot_cb d t"

definition handle_run :: "handle_op list \<Rightarrow> nx_handle_table \<Rightarrow> nx_handle_table" where
  "handle_run ops t = fold handle_step ops t"

lemma handle_inv_step [nx_inv]: "handle_inv t \<Longrightarrow> handle_inv (handle_step x t)"
  by (cases x) (simp_all add: nx_inv)

lemma handle_inv_run [nx_inv]: "handle_inv t \<Longrightarrow> handle_inv (handle_run ops t)"
  by (induction ops arbitrary: t) (simp_all add: handle_run_def handle_inv_step)

subsection \<open>Generations only move forward, one at a time\<close>

definition gen_advance :: "nx_handle_table \<Rightarrow> nx_handle_table \<Rightarrow> nat \<Rightarrow> bool" where
  "gen_advance t t' n \<longleftrightarrow> (\<forall>i < 64. \<exists>k \<le> n.
     he_generation (entries t' ! i) = he_generation (entries t ! i) + of_nat k)"

lemma gen_advance_refl: "gen_advance t t n"
  by (auto simp: gen_advance_def intro: exI [of _ 0])

lemma gen_advance_trans:
  assumes "gen_advance t t' m" "gen_advance t' t'' n"
  shows "gen_advance t t'' (m + n)"
  unfolding gen_advance_def
proof (intro allI impI)
  fix i :: nat
  assume i: "i < 64"
  obtain a b where "a \<le> m" "he_generation (entries t' ! i) = he_generation (entries t ! i) + of_nat a"
    and "b \<le> n" "he_generation (entries t'' ! i) = he_generation (entries t' ! i) + of_nat b"
    using assms i unfolding gen_advance_def by blast
  then show "\<exists>k \<le> m + n. he_generation (entries t'' ! i) = he_generation (entries t ! i) + of_nat k"
    by (intro exI [of _ "a + b"]) simp
qed

text \<open>An update of one entry that keeps its generation, and one that bumps it.\<close>

lemma gen_advance_same:
  "length (entries t) = 64 \<Longrightarrow> i < 64 \<Longrightarrow> he_generation e = he_generation (entries t ! i) \<Longrightarrow>
     gen_advance t (t\<lparr>entries := (entries t)[i := e], ht_count := c\<rparr>) n"
  by (auto simp: gen_advance_def nth_list_update_if intro!: exI [of _ 0])

lemma gen_advance_bump:
  "length (entries t) = 64 \<Longrightarrow> i < 64 \<Longrightarrow> he_generation e = he_generation (entries t ! i) + 1 \<Longrightarrow>
     gen_advance t (t\<lparr>entries := (entries t)[i := e], ht_count := c\<rparr>) (Suc n)"
  unfolding gen_advance_def
proof (intro allI impI)
  fix j :: nat
  assume "length (entries t) = 64" "i < 64"
    and e: "he_generation e = he_generation (entries t ! i) + 1" and "j < 64"
  then show "\<exists>k \<le> Suc n. he_generation (entries (t\<lparr>entries := (entries t)[i := e], ht_count := c\<rparr>) ! j)
              = he_generation (entries t ! j) + of_nat k"
    by (cases "i = j") (auto intro: exI [of _ 0] exI [of _ 1])
qed

lemma gen_advance_set_slot: "handle_inv t \<Longrightarrow> gen_advance t (nx_handle_set_slot t h tg) 0"
  using gen_advance_same [of t _ _ "ht_count t" 0]
  by (auto simp: nx_handle_set_slot_def Let_def gen_advance_refl handle_inv_length
      dest: decode_index_bound split: option.splits)

lemma gen_advance_alloc: "handle_inv t \<Longrightarrow> gen_advance t (fst (nx_handle_alloc t ty r ob)) 0"
  by (auto simp: nx_handle_alloc_def Let_def gen_advance_refl handle_inv_length
      intro!: gen_advance_same dest!: free_entryD split: option.splits)

lemma gen_advance_alloc_then_set:
  assumes "handle_inv t"
  shows "gen_advance t (nx_handle_set_slot (fst (nx_handle_alloc t ty r ob)) h tg) 0"
  using gen_advance_trans [OF gen_advance_alloc gen_advance_set_slot] assms handle_inv_alloc
  by fastforce

lemma gen_advance_duplicate: "handle_inv t \<Longrightarrow> gen_advance t (fst (nx_handle_duplicate t h r)) 0"
  using gen_advance_alloc [of t] gen_advance_alloc_then_set [of t]
  by (auto simp: nx_handle_duplicate_def Let_def gen_advance_refl split: prod.splits sum.splits)
     (metis fst_conv)+

lemma gen_advance_alloc_with_slot:
  "handle_inv t \<Longrightarrow> gen_advance t (fst (nx_handle_alloc_with_slot t ty r ob tg)) 0"
  using gen_advance_alloc [of t ty r ob] gen_advance_alloc_then_set [of t ty r ob]
  by (auto simp: nx_handle_alloc_with_slot_def split: prod.splits sum.splits)

lemma gen_advance_close: "handle_inv t \<Longrightarrow> gen_advance t (fst (nx_handle_close t h)) 1"
  using gen_advance_bump [of t _ _ _ 0]
  by (auto simp: nx_handle_close_def Let_def gen_advance_refl handle_inv_length
      dest!: resolve_InrD split: sum.splits)

text \<open>The invalidation loop, entry by entry: exactly the live entries routed to the slot die.\<close>

definition invalidated :: "ptr \<Rightarrow> nx_handle_entry \<Rightarrow> nx_handle_entry" where
  "invalidated d e =
     (if he_target e = d \<and> live e then (he_cleared e)\<lparr>he_generation := he_generation e + 1\<rparr> else e)"

lemma invalidate_prefix:
  "n \<le> length (entries t) \<Longrightarrow>
     entries (fold (invalidate_at d) [0..<n] t)
       = map (invalidated d) (take n (entries t)) @ drop n (entries t)"
proof (induction n)
  case 0
  then show ?case by simp
next
  case (Suc n)
  let ?t = "fold (invalidate_at d) [0..<n] t"
  let ?es = "entries t"
  have IH: "entries ?t = map (invalidated d) (take n ?es) @ drop n ?es"
    using Suc by simp
  have n: "n < length ?es" using Suc.prems by simp
  have nth: "entries ?t ! n = ?es ! n"
    using n by (simp add: IH nth_append)
  have "entries (invalidate_at d n ?t) = (entries ?t)[n := invalidated d (?es ! n)]"
    using list_update_id [of "entries ?t" n]
    by (auto simp: invalidate_at_def Let_def nth invalidated_def)
  also have "\<dots> = map (invalidated d) (take (Suc n) ?es) @ drop (Suc n) ?es"
    using n by (simp add: IH list_update_append take_Suc_conv_app_nth flip: Cons_nth_drop_Suc)
  finally show ?case by simp
qed

lemma invalidate_slot_cb_entries:
  "handle_inv t \<Longrightarrow> entries (invalidate_slot_cb d t) = map (invalidated d) (entries t)"
  using invalidate_prefix [of 64 t d] by (simp add: invalidate_slot_cb_def handle_inv_length)

lemma gen_advance_invalidate: "handle_inv t \<Longrightarrow> gen_advance t (invalidate_slot_cb d t) 1"
  unfolding gen_advance_def
proof (intro allI impI)
  fix i :: nat
  assume "handle_inv t" "i < 64"
  then show "\<exists>k \<le> 1. he_generation (entries (invalidate_slot_cb d t) ! i)
               = he_generation (entries t ! i) + of_nat k"
    by (cases "he_target (entries t ! i) = d \<and> live (entries t ! i)")
       (auto simp: invalidate_slot_cb_entries handle_inv_length invalidated_def
             intro: exI [of _ 0] exI [of _ 1])
qed

lemma gen_advance_mono: "gen_advance t t' m \<Longrightarrow> m \<le> n \<Longrightarrow> gen_advance t t' n"
  unfolding gen_advance_def by (meson le_trans)

lemma gen_advance_alloc_resource:
  "handle_inv t \<Longrightarrow> gen_advance t (fst (nx_handle_alloc_resource t r k tg)) 0"
  by (auto simp: nx_handle_alloc_resource_def Let_def gen_advance_refl handle_inv_length
      intro!: gen_advance_same dest!: free_entryD split: option.splits)

lemmas gen_advance_ops =
  gen_advance_alloc gen_advance_alloc_with_slot gen_advance_alloc_resource
  gen_advance_duplicate gen_advance_set_slot

lemma gen_advance_step: "handle_inv t \<Longrightarrow> gen_advance t (handle_step x t) 1"
  by (cases x)
     (auto simp: gen_advance_close gen_advance_invalidate
           intro: gen_advance_mono [OF gen_advance_ops(1)] gen_advance_mono [OF gen_advance_ops(2)]
             gen_advance_mono [OF gen_advance_ops(3)] gen_advance_mono [OF gen_advance_ops(4)]
             gen_advance_mono [OF gen_advance_ops(5)] simp del: One_nat_def)

lemma gen_advance_run: "handle_inv t \<Longrightarrow> gen_advance t (handle_run ops t) (length ops)"
proof (induction ops arbitrary: t)
  case Nil
  show ?case by (simp add: handle_run_def gen_advance_refl)
next
  case (Cons x ops)
  have "gen_advance (handle_step x t) (handle_run ops (handle_step x t)) (length ops)"
    using Cons by (simp add: nx_inv)
  from gen_advance_trans [OF gen_advance_step [OF Cons.prems] this] show ?case
    by (simp add: handle_run_def)
qed

section \<open>The table as a map from handles to capabilities\<close>

text \<open>
  The contract a holder of a capability table relies on. \<open>usable n\<close> says that the table can
  still take \<open>n\<close> revocations before a generation outgrows the handle encoding.
\<close>

locale capability_table =
  fixes lookup :: "'t \<Rightarrow> 'h \<Rightarrow> 'c option"
    and grant :: "'t \<Rightarrow> 'c \<Rightarrow> ('t \<times> 'h) option"
    and revoke :: "'t \<Rightarrow> 'h \<Rightarrow> 't option"
    and usable :: "nat \<Rightarrow> 't \<Rightarrow> bool"
  assumes grant_fresh: "usable n t \<Longrightarrow> grant t c = Some (t', h) \<Longrightarrow> lookup t h = None"
    and grant_lookup: "usable n t \<Longrightarrow> grant t c = Some (t', h) \<Longrightarrow> lookup t' = (lookup t)(h \<mapsto> c)"
    and grant_usable: "usable n t \<Longrightarrow> grant t c = Some (t', h) \<Longrightarrow> usable n t'"
    and revoke_lookup: "usable n t \<Longrightarrow> revoke t h = Some t' \<Longrightarrow> lookup t' = (lookup t)(h := None)"
    and revoke_usable: "usable (Suc n) t \<Longrightarrow> revoke t h = Some t' \<Longrightarrow> usable n t'"
    and revoke_iff: "usable n t \<Longrightarrow> (\<exists>t'. revoke t h = Some t') \<longleftrightarrow> lookup t h \<noteq> None"
begin

text \<open>Granting and then revoking is invisible through \<open>lookup\<close>.\<close>

lemma grant_revoke:
  assumes u: "usable n t" and g: "grant t c = Some (t', h)"
  shows "\<exists>t''. revoke t' h = Some t'' \<and> lookup t'' = lookup t"
proof -
  have u': "usable n t'" by (rule grant_usable [OF u g])
  have "lookup t' h \<noteq> None" by (simp add: grant_lookup [OF u g])
  then obtain t'' where r: "revoke t' h = Some t''" using revoke_iff [OF u'] by blast
  have "lookup t'' = (lookup t)(h := None)"
    by (simp add: revoke_lookup [OF u' r] grant_lookup [OF u g])
  also have "\<dots> = lookup t" using grant_fresh [OF u g] by (simp add: fun_upd_idem)
  finally show ?thesis using r by blast
qed

text \<open>A grant leaves every other capability as it was.\<close>

lemma grant_frame:
  "usable n t \<Longrightarrow> grant t c = Some (t', h) \<Longrightarrow> lookup t k = Some c' \<Longrightarrow> lookup t' k = Some c' \<and> k \<noteq> h"
  using grant_fresh [of n t c t' h] grant_lookup [of n t c t' h] by fastforce

text \<open>Two grants never hand out the same handle.\<close>

lemma grants_distinct:
  assumes u: "usable n t" and g: "grant t c = Some (t', h)" and g': "grant t' c' = Some (t'', h')"
  shows "h' \<noteq> h"
  using grant_fresh [OF grant_usable [OF u g] g'] grant_lookup [OF u g] by auto

end

type_synonym capability = "nx_handle_type \<times> u32 \<times> ptr"

definition cap_lookup :: "nx_handle_table \<Rightarrow> nx_handle_t \<Rightarrow> capability option" where
  "cap_lookup t h = (case nx_handle_lookup t h of Inl _ \<Rightarrow> None | Inr c \<Rightarrow> Some c)"

definition cap_grant :: "nx_handle_table \<Rightarrow> capability \<Rightarrow> (nx_handle_table \<times> nx_handle_t) option" where
  "cap_grant t c =
     (case c of (ty, r, ob) \<Rightarrow>
        (case nx_handle_alloc t ty r ob of (t', Inr h) \<Rightarrow> Some (t', h) | (_, Inl _) \<Rightarrow> None))"

definition cap_revoke :: "nx_handle_table \<Rightarrow> nx_handle_t \<Rightarrow> nx_handle_table option" where
  "cap_revoke t h = (case nx_handle_close t h of (t', s) \<Rightarrow> if s = NX_OK then Some t' else None)"

definition handle_usable :: "nat \<Rightarrow> nx_handle_table \<Rightarrow> bool" where
  "handle_usable n t \<longleftrightarrow> handle_inv t \<and> (\<forall>i < 64. unat (he_generation (entries t ! i)) + n < 2 ^ 24)"

lemma cap_lookup_eq:
  "cap_lookup t h =
     (case decode_index h of
        None \<Rightarrow> None
      | Some i \<Rightarrow> if live (entries t ! i) \<and> he_generation (entries t ! i) = decode_generation h
                  then Some (he_type (entries t ! i), he_rights (entries t ! i), he_object (entries t ! i))
                  else None)"
  by (simp add: cap_lookup_def nx_handle_lookup_def resolve_def Let_def split: option.split)

lemma handle_usable_gen:
  "handle_usable n t \<Longrightarrow> i < 64 \<Longrightarrow> he_generation (entries t ! i) < 2 ^ 24"
  by (fastforce simp: handle_usable_def word_less_nat_alt)

lemma cap_grantE:
  assumes "cap_grant t c = Some (t', h)"
  obtains i ty r ob where "c = (ty, r, ob)" "free_entry t = Some i" "ty \<noteq> HANDLE_INVALID"
    "h = encode_handle (he_generation (entries t ! i)) i"
    "t' = t\<lparr>entries := (entries t)[i := (entries t ! i)\<lparr>he_type := ty, he_rights := r,
             he_object := ob, he_target := NULL\<rparr>], ht_count := ht_count t + 1\<rparr>"
    "nx_handle_alloc t ty r ob = (t', Inr h)"
proof -
  obtain ty r ob where c: "c = (ty, r, ob)" by (cases c)
  with assms have a: "nx_handle_alloc t ty r ob = (t', Inr h)"
    by (auto simp: cap_grant_def split: prod.splits sum.splits)
  from nx_handle_allocE [OF a] that [OF c] a show thesis by metis
qed

lemma cap_grant_lookup:
  assumes u: "handle_usable n t" and g: "cap_grant t c = Some (t', h)"
  shows "cap_lookup t h = None \<and> cap_lookup t' = (cap_lookup t)(h \<mapsto> c)"
proof -
  from g obtain i ty r ob where c: "c = (ty, r, ob)" and f: "free_entry t = Some i"
    and ty: "ty \<noteq> HANDLE_INVALID" and h: "h = encode_handle (he_generation (entries t ! i)) i"
    and t': "t' = t\<lparr>entries := (entries t)[i := (entries t ! i)\<lparr>he_type := ty, he_rights := r,
             he_object := ob, he_target := NULL\<rparr>], ht_count := ht_count t + 1\<rparr>"
    by (rule cap_grantE)
  have len: "length (entries t) = 64" using u by (simp add: handle_usable_def handle_inv_def)
  from free_entryD [OF f] len have i: "i < 64" and dead: "\<not> live (entries t ! i)" by auto
  have fit: "take_bit 24 (he_generation (entries t ! i)) = he_generation (entries t ! i)"
    by (rule gen_fits [OF handle_usable_gen [OF u i]])
  have same: "decode_index k = Some i \<Longrightarrow>
      he_generation (entries t ! i) = decode_generation k \<longleftrightarrow> k = h" for k
    using encode_decode [of k i] fit i by (auto simp: h decode_generation_encode)
  have "cap_lookup t' k = ((cap_lookup t)(h \<mapsto> c)) k" for k
    using same [of k] i ty len dead
    by (auto simp: cap_lookup_eq t' c nth_list_update_if h split: option.splits)
  then show ?thesis using i dead by (auto simp: h cap_lookup_eq)
qed

lemma cap_grant_usable:
  assumes u: "handle_usable n t" and g: "cap_grant t c = Some (t', h)"
  shows "handle_usable n t'"
proof -
  from g obtain i ty r ob where f: "free_entry t = Some i"
    and t': "t' = t\<lparr>entries := (entries t)[i := (entries t ! i)\<lparr>he_type := ty, he_rights := r,
             he_object := ob, he_target := NULL\<rparr>], ht_count := ht_count t + 1\<rparr>"
    and a: "nx_handle_alloc t ty r ob = (t', Inr h)"
    by (rule cap_grantE)
  have "handle_inv t'" using handle_inv_alloc [of t ty r ob] u a by (simp add: handle_usable_def)
  then show ?thesis
    using u free_entryD [OF f] by (auto simp: handle_usable_def t' handle_inv_length nth_list_update_if)
qed

lemma cap_revoke_cases:
  "cap_revoke t h =
     (case resolve t h of
        Inl _ \<Rightarrow> None
      | Inr i \<Rightarrow> Some (t\<lparr>entries := (entries t)[i := (he_cleared (entries t ! i))
              \<lparr>he_generation := he_generation (entries t ! i) + 1\<rparr>], ht_count := ht_count t - 1\<rparr>))"
proof (cases "resolve t h")
  case (Inl s)
  then have "s \<noteq> NX_OK" by (auto simp: resolve_def split: option.splits if_splits)
  with Inl show ?thesis by (simp add: cap_revoke_def nx_handle_close_def)
next
  case (Inr i)
  then show ?thesis by (simp add: cap_revoke_def nx_handle_close_def Let_def)
qed

lemma cap_revoke_lookup:
  assumes u: "handle_usable n t" and r: "cap_revoke t h = Some t'"
  shows "cap_lookup t' = (cap_lookup t)(h := None)"
proof
  fix k
  from r obtain i where i: "resolve t h = Inr i"
    and t': "t' = t\<lparr>entries := (entries t)[i := (he_cleared (entries t ! i))
              \<lparr>he_generation := he_generation (entries t ! i) + 1\<rparr>], ht_count := ht_count t - 1\<rparr>"
    by (auto simp: cap_revoke_cases split: sum.splits)
  have len: "length (entries t) = 64" using u by (simp add: handle_usable_def handle_inv_def)
  note ri = resolve_InrD [OF i]
  have "decode_index k = Some i \<Longrightarrow> decode_generation h = decode_generation k \<Longrightarrow> k = h"
    using encode_decode [of k i] encode_decode [of h i] ri by metis
  then show "cap_lookup t' k = ((cap_lookup t)(h := None)) k"
    using ri len by (auto simp: cap_lookup_eq t' nth_list_update_if split: option.splits)
qed

lemma cap_revoke_usable:
  assumes u: "handle_usable (Suc n) t" and r: "cap_revoke t h = Some t'"
  shows "handle_usable n t'"
proof -
  from r obtain i where i: "resolve t h = Inr i"
    and t': "t' = t\<lparr>entries := (entries t)[i := (he_cleared (entries t ! i))
              \<lparr>he_generation := he_generation (entries t ! i) + 1\<rparr>], ht_count := ht_count t - 1\<rparr>"
    by (auto simp: cap_revoke_cases split: sum.splits)
  have len: "length (entries t) = 64" using u by (simp add: handle_usable_def handle_inv_def)
  have "handle_inv t'"
    using handle_inv_close [of t h] u i by (simp add: handle_usable_def nx_handle_close_def t' Let_def)
  moreover have "unat (he_generation (entries t' ! j)) + n < 2 ^ 24" if j: "j < 64" for j
  proof -
    have "unat (he_generation (entries t ! j) + 1) \<le> Suc (unat (he_generation (entries t ! j)))"
      by (simp add: unat_word_ariths)
    moreover have "unat (he_generation (entries t ! j)) + Suc n < 2 ^ 24"
      using u j by (simp add: handle_usable_def)
    ultimately show ?thesis
      using resolve_InrD [OF i] len by (cases "i = j") (auto simp: t')
  qed
  ultimately show ?thesis by (simp add: handle_usable_def)
qed

interpretation handles: capability_table cap_lookup cap_grant cap_revoke handle_usable
proof (unfold_locales, goal_cases)
  case (1 n t c t' h)
  then show ?case using cap_grant_lookup by blast
next
  case (2 n t c t' h)
  then show ?case using cap_grant_lookup by blast
next
  case (3 n t c t' h)
  then show ?case by (rule cap_grant_usable)
next
  case (4 n t h t')
  then show ?case by (rule cap_revoke_lookup)
next
  case (5 n t h t')
  then show ?case by (rule cap_revoke_usable)
next
  case (6 n t h)
  then show ?case
    by (auto simp: cap_revoke_cases cap_lookup_def nx_handle_lookup_def Let_def split: sum.splits)
qed

section \<open>Properties of the handle table\<close>

text \<open>
  C9. A closed handle never resolves again: after \<open>nx_handle_close t h\<close> succeeds, whatever
  sequence of fewer than \<open>2 ^ 32 - 1\<close> further table operations runs (allocations that reuse
  the same entry included), looking \<open>h\<close> up gives \<^const>\<open>NX_ENOENT\<close>.
\<close>

theorem closed_handle_stays_dead:
  assumes inv: "handle_inv t"
    and close: "nx_handle_close t h = (t', NX_OK)"
    and few: "length ops < 2 ^ 32 - 1"
  shows "nx_handle_lookup (handle_run ops t') h = Inl NX_ENOENT"
proof -
  from close obtain i where i: "resolve t h = Inr i"
    and t': "t' = t\<lparr>entries := (entries t)[i := (he_cleared (entries t ! i))
              \<lparr>he_generation := he_generation (entries t ! i) + 1\<rparr>], ht_count := ht_count t - 1\<rparr>"
    by (rule nx_handle_closeE)
  note ri = resolve_InrD [OF i]
  let ?g = "decode_generation h"
  have inv': "handle_inv t'" using handle_inv_close [OF inv, of h] close by simp
  have g': "he_generation (entries t' ! i) = ?g + 1"
    using ri handle_inv_length [OF inv] by (simp add: t')
  obtain k where k: "k \<le> length ops"
    and gk: "he_generation (entries (handle_run ops t') ! i) = ?g + 1 + of_nat k"
    using gen_advance_run [OF inv', of ops] ri g' unfolding gen_advance_def by metis
  have "unat (of_nat (Suc k) :: u32) = Suc k"
    using k few by (intro unat_of_nat_u32) simp
  then have "(of_nat (Suc k) :: u32) \<noteq> 0" by (metis nat.distinct(1) unat_0)
  then have "?g + 1 + of_nat k \<noteq> ?g" by (simp add: add.assoc)
  with gk ri show ?thesis
    by (simp add: nx_handle_lookup_def resolve_def)
qed

theorem closed_handle_stays_dead_witness:
  "nx_handle_lookup
     (handle_run [OpAlloc HANDLE_VMO 7 4096, OpAllocResource 1 0 0]
        (fst (nx_handle_close (fst (nx_handle_alloc zero_handle_table HANDLE_CHANNEL 3 8192)) 1))) 1
   = Inl NX_ENOENT"
proof -
  let ?t = "fst (nx_handle_alloc zero_handle_table HANDLE_CHANNEL 3 8192)"
  have inv: "handle_inv ?t" by (rule handle_inv_alloc [OF handle_inv_zero])
  have "snd (nx_handle_close ?t 1) = NX_OK" by code_simp
  then have close: "nx_handle_close ?t 1 = (fst (nx_handle_close ?t 1), NX_OK)"
    by (metis prod.collapse)
  show ?thesis by (rule closed_handle_stays_dead [OF inv close]) simp
qed

text \<open>
  Every operation of the table keeps the invariant (64 entries, the counter is the number
  of live entries, free entries hold no authority), from a zeroed table and for every sequence
  of operations.
\<close>

theorem handle_table_invariant: "handle_inv (handle_run ops zero_handle_table)"
  by (rule handle_inv_run [OF handle_inv_zero])

text \<open>
  C27. Allocating a handle inserts a fresh key: as long as no generation has outgrown 24 bits,
  the returned handle resolved to nothing before, resolves to exactly the granted type, rights
  and object afterwards, and every other handle value resolves as it did.
\<close>

theorem alloc_inserts_fresh_handle:
  assumes "handle_usable n t" and "nx_handle_alloc t ty r ob = (t', Inr h)"
  shows "cap_lookup t h = None \<and> cap_lookup t' = (cap_lookup t)(h \<mapsto> (ty, r, ob)) \<and> handle_usable n t'"
proof -
  have g: "cap_grant t (ty, r, ob) = Some (t', h)"
    using assms(2) by (simp add: cap_grant_def)
  show ?thesis
    using handles.grant_fresh [OF assms(1) g] handles.grant_lookup [OF assms(1) g]
      handles.grant_usable [OF assms(1) g] by blast
qed

lemma handle_usable_zero: "n < 2 ^ 24 \<Longrightarrow> handle_usable n zero_handle_table"
  by (simp add: handle_usable_def handle_inv_zero) (simp add: zero_handle_table_def zero_handle_entry_def)

theorem alloc_inserts_fresh_handle_witness:
  "cap_lookup zero_handle_table 1 = None \<and>
   cap_lookup (fst (nx_handle_alloc zero_handle_table HANDLE_VMO 5 4096)) 1 = Some (HANDLE_VMO, 5, 4096)"
proof -
  let ?r = "nx_handle_alloc zero_handle_table HANDLE_VMO 5 4096"
  have "snd ?r = Inr 1" by code_simp
  then have "?r = (fst ?r, Inr 1)" by (metis prod.collapse)
  from alloc_inserts_fresh_handle [OF handle_usable_zero [of 0] this] show ?thesis by simp
qed

text \<open>
  C28. Closing a handle deletes exactly its own key: \<open>nx_handle_close\<close> succeeds precisely when
  the handle resolves, and afterwards that handle resolves to nothing while all others are
  untouched; otherwise it reports an error and changes nothing.
\<close>

theorem close_deletes_only_its_handle:
  assumes "handle_usable n t"
  shows "case nx_handle_close t h of (t', s) \<Rightarrow>
           (s = NX_OK \<longleftrightarrow> cap_lookup t h \<noteq> None) \<and>
           cap_lookup t' = (cap_lookup t)(h := None) \<and> (s \<noteq> NX_OK \<longrightarrow> t' = t)"
proof -
  obtain t' s where c: "nx_handle_close t h = (t', s)" by fastforce
  show ?thesis
  proof (cases "s = NX_OK")
    case True
    then have r: "cap_revoke t h = Some t'" using c by (simp add: cap_revoke_def)
    show ?thesis
      using handles.revoke_lookup [OF assms r] handles.revoke_iff [OF assms, of h] r c True by auto
  next
    case False
    then have "cap_revoke t h = None" using c by (simp add: cap_revoke_def)
    then have "cap_lookup t h = None"
      using handles.revoke_iff [OF assms, of h] by (metis option.distinct(1))
    then show ?thesis using c False nx_handle_close_err [OF c] by (simp add: fun_upd_idem)
  qed
qed

theorem close_deletes_only_its_handle_witness:
  "cap_lookup (fst (nx_handle_close (fst (nx_handle_alloc zero_handle_table HANDLE_VMO 5 4096)) 1)) 1 = None"
proof -
  let ?t = "fst (nx_handle_alloc zero_handle_table HANDLE_VMO 5 4096)"
  have "cap_grant zero_handle_table (HANDLE_VMO, 5, 4096) = Some (?t, 1)" by code_simp
  then have "handle_usable 1 ?t"
    using handles.grant_usable [OF handle_usable_zero [of 1]] by simp
  from close_deletes_only_its_handle [OF this, of 1] show ?thesis by (simp add: case_prod_unfold)
qed

subsection \<open>Rights attenuation\<close>

lemma and_not_eq_0_iff: "(a AND NOT b = (0 :: 'a :: len word)) \<longleftrightarrow> (\<forall>n. bit a n \<longrightarrow> bit b n)"
proof -
  have "(a AND NOT b = 0) \<longleftrightarrow> (\<forall>n. \<not> bit (a AND NOT b) n)"
    by (auto simp: bit_eq_iff dest: bit_imp_le_length)
  also have "\<dots> \<longleftrightarrow> (\<forall>n. bit a n \<longrightarrow> bit b n)"
    by (auto simp: bit_simps dest: bit_imp_le_length)
  finally show ?thesis .
qed

text \<open>\<open>e'\<close> carries no authority that \<open>e\<close> does not carry.\<close>

definition attenuates :: "nx_handle_entry \<Rightarrow> nx_handle_entry \<Rightarrow> bool" where
  "attenuates e' e \<longleftrightarrow> live e \<and> he_type e' = he_type e \<and> he_object e' = he_object e
     \<and> he_rights e' AND NOT (he_rights e) = 0"

definition authority_within :: "nx_handle_table \<Rightarrow> nx_handle_table \<Rightarrow> bool" where
  "authority_within t t' \<longleftrightarrow>
     (\<forall>e' \<in> set (entries t'). live e' \<longrightarrow> (\<exists>e \<in> set (entries t). attenuates e' e))"

lemma attenuates_refl: "live e \<Longrightarrow> attenuates e e"
  by (simp add: attenuates_def)

lemma attenuates_trans: "attenuates a b \<Longrightarrow> attenuates b c \<Longrightarrow> attenuates a c"
  by (auto simp: attenuates_def and_not_eq_0_iff)

lemma authority_refl: "authority_within t t"
  by (auto simp: authority_within_def intro: attenuates_refl)

lemma authority_trans: "authority_within t t' \<Longrightarrow> authority_within t' t'' \<Longrightarrow> authority_within t t''"
  unfolding authority_within_def by (meson attenuates_def attenuates_trans)

lemma authority_update:
  assumes "live e' \<Longrightarrow> \<exists>e \<in> set (entries t). attenuates e' e"
  shows "authority_within t (t\<lparr>entries := (entries t)[i := e'], ht_count := c\<rparr>)"
  using assms
  by (auto simp: authority_within_def intro: attenuates_refl dest!: set_update_subset_insert [THEN subsetD])

lemma authority_close: "authority_within t (fst (nx_handle_close t h))"
  by (auto simp: nx_handle_close_def Let_def authority_refl intro!: authority_update split: sum.splits)

lemma authority_set_slot:
  assumes "handle_inv t"
  shows "authority_within t (nx_handle_set_slot t h tg)"
proof (cases "decode_index h")
  case None
  then show ?thesis by (simp add: nx_handle_set_slot_def authority_refl)
next
  case (Some i)
  then have "entries t ! i \<in> set (entries t)"
    using assms by (simp add: decode_index_bound handle_inv_length)
  then have "live (entries t ! i) \<Longrightarrow>
      authority_within t (t\<lparr>entries := (entries t)[i := (entries t ! i)\<lparr>he_target := tg\<rparr>], ht_count := ht_count t\<rparr>)"
    by (intro authority_update) (auto simp: attenuates_def)
  with Some show ?thesis by (auto simp: nx_handle_set_slot_def Let_def authority_refl)
qed

lemma authority_invalidate: "handle_inv t \<Longrightarrow> authority_within t (invalidate_slot_cb d t)"
  by (auto simp: authority_within_def invalidate_slot_cb_entries invalidated_def
      intro: attenuates_refl split: if_splits)

lemma authority_duplicate:
  assumes inv: "handle_inv t"
  shows "authority_within t (fst (nx_handle_duplicate t h r))"
proof (cases "nx_handle_lookup t h")
  case (Inl s)
  then show ?thesis by (simp add: nx_handle_duplicate_def authority_refl)
next
  case (Inr c)
  then obtain i where i: "resolve t h = Inr i"
    and c: "c = (he_type (entries t ! i), he_rights (entries t ! i), he_object (entries t ! i))"
    by (auto simp: nx_handle_lookup_def Let_def split: sum.splits)
  let ?e = "entries t ! i"
  have mem: "?e \<in> set (entries t)" using resolve_InrD [OF i] inv by (simp add: handle_inv_length)
  let ?a = "nx_handle_alloc t (he_type ?e) r (he_object ?e)"
  have alloc: "authority_within t (fst ?a)" if "r AND NOT (he_rights ?e) = 0"
    using mem that resolve_InrD [OF i]
    by (auto simp: nx_handle_alloc_def Let_def authority_refl attenuates_def
        intro!: authority_update split: option.splits)
  have "authority_within t (nx_handle_set_slot (fst ?a) out tg)" if "r AND NOT (he_rights ?e) = 0" for out tg
    using authority_trans [OF alloc authority_set_slot] handle_inv_alloc [OF inv] that by blast
  with alloc show ?thesis
    using Inr by (auto simp: nx_handle_duplicate_def c Let_def authority_refl split: prod.splits sum.splits)
qed

text \<open>The operations that create no authority of their own.\<close>

fun derives :: "handle_op \<Rightarrow> bool" where
  "derives (OpClose _) = True"
| "derives (OpDuplicate _ _) = True"
| "derives (OpSetSlot _ _) = True"
| "derives (OpInvalidate _) = True"
| "derives _ = False"

lemma authority_step: "handle_inv t \<Longrightarrow> derives x \<Longrightarrow> authority_within t (handle_step x t)"
  by (cases x) (simp_all add: authority_close authority_duplicate authority_set_slot authority_invalidate)

text \<open>
  C29. Rights only shrink: after any sequence of duplications, closes, slot wirings and slot
  invalidations, every live entry has the type and the object of an entry that was live
  before, with a subset of its rights.
\<close>

theorem rights_never_grow:
  assumes "handle_inv t" and "list_all derives ops"
  shows "authority_within t (handle_run ops t)"
  using assms
proof (induction ops arbitrary: t)
  case Nil
  show ?case by (simp add: handle_run_def authority_refl)
next
  case (Cons x ops)
  then have "authority_within t (handle_step x t)" by (simp add: authority_step)
  moreover have "authority_within (handle_step x t) (handle_run ops (handle_step x t))"
    using Cons by (simp add: handle_inv_step)
  ultimately have "authority_within t (handle_run ops (handle_step x t))" by (rule authority_trans)
  then show ?case by (simp add: handle_run_def)
qed

theorem rights_never_grow_witness:
  "authority_within (fst (nx_handle_alloc zero_handle_table HANDLE_VMO 5 4096))
     (handle_run [OpDuplicate 1 4, OpClose 1] (fst (nx_handle_alloc zero_handle_table HANDLE_VMO 5 4096)))"
  by (rule rights_never_grow [OF handle_inv_alloc [OF handle_inv_zero]]) simp

text \<open>
  An entry whose generation has reached \<open>2 ^ 24\<close> hands out handles that do not resolve:
  the allocation reports success, but \<open>encode_handle\<close> drops the generation's high 8 bits
  while the table keeps and compares all 32, so the owner's lookup fails.
\<close>

theorem exhausted_generation_handle_unusable:
  assumes "nx_handle_alloc t ty r ob = (t', Inr h)"
    and "handle_inv t"
    and "\<forall>e \<in> set (entries t). 2 ^ 24 \<le> he_generation e"
  shows "nx_handle_lookup t' h = Inl NX_ENOENT"
proof -
  from assms(1) obtain i where f: "free_entry t = Some i"
    and h: "h = encode_handle (he_generation (entries t ! i)) i"
    and t': "t' = t\<lparr>entries := (entries t)[i := (entries t ! i)\<lparr>he_type := ty, he_rights := r,
             he_object := ob, he_target := NULL\<rparr>], ht_count := ht_count t + 1\<rparr>"
    by (rule nx_handle_allocE)
  from free_entryD [OF f] have i: "i < 64" "i < length (entries t)"
    using assms(2) by (auto simp: handle_inv_length)
  then have "2 ^ 24 \<le> he_generation (entries t ! i)"
    using assms(3) nth_mem by blast
  then have "take_bit 24 (he_generation (entries t ! i)) \<noteq> he_generation (entries t ! i)"
    by (simp add: gen_fits_iff not_less)
  then show ?thesis
    using i by (simp add: nx_handle_lookup_def resolve_def t' h decode_generation_encode)
qed

definition worn_handle_table :: nx_handle_table where
  "worn_handle_table =
     \<lparr>entries = replicate 64 (zero_handle_entry\<lparr>he_generation := 2 ^ 24\<rparr>), ht_count = 0\<rparr>"

theorem exhausted_generation_handle_unusable_witness:
  "nx_handle_lookup (fst (nx_handle_alloc worn_handle_table HANDLE_VMO 5 4096)) 1 = Inl NX_ENOENT"
proof -
  let ?r = "nx_handle_alloc worn_handle_table HANDLE_VMO 5 4096"
  have "snd ?r = Inr 1" by code_simp
  then have r: "?r = (fst ?r, Inr 1)" by (metis prod.collapse)
  have inv: "handle_inv worn_handle_table"
    by (simp add: handle_inv_def worn_handle_table_def zero_handle_entry_def entry_ok_def)
  show ?thesis
    by (rule exhausted_generation_handle_unusable [OF r inv]) (simp add: worn_handle_table_def)
qed

end
