(* ===== verification/Nx_Fifo.thy ===== *)
theory Nx_Fifo
  imports Nx_Prelude
begin

text \<open>
  The contract of a first-in first-out queue with a possibly failing \<open>put\<close> and a possibly
  failing \<open>get\<close>, and what it implies for every interleaving of producers and consumers.
  The channel rings, the router's inboxes and hold queues and the dispatcher queue are its
  providers.
\<close>

datatype ('m, 'g, 'o) fifo_event = Put 'm | Get 'g | Other 'o

text \<open>
  A run of events: an attempt that fails leaves the queue as it is, and other operations of
  the component may happen in between. The two lists are the messages accepted and the
  messages delivered, both in order.
\<close>

fun fifo_run ::
  "('m \<Rightarrow> 's \<Rightarrow> 's option) \<Rightarrow> ('g \<Rightarrow> 's \<Rightarrow> ('m \<times> 's) option) \<Rightarrow> ('o \<Rightarrow> 's \<Rightarrow> 's) \<Rightarrow>
     ('m, 'g, 'o) fifo_event list \<Rightarrow> 's \<Rightarrow> 's \<times> 'm list \<times> 'm list"
where
  "fifo_run put get oth [] s = (s, [], [])"
| "fifo_run put get oth (Put m # evs) s =
     (case put m s of
        None \<Rightarrow> fifo_run put get oth evs s
      | Some s' \<Rightarrow> (case fifo_run put get oth evs s' of (t, sent, got) \<Rightarrow> (t, m # sent, got)))"
| "fifo_run put get oth (Get g # evs) s =
     (case get g s of
        None \<Rightarrow> fifo_run put get oth evs s
      | Some (m, s') \<Rightarrow> (case fifo_run put get oth evs s' of (t, sent, got) \<Rightarrow> (t, sent, m # got)))"
| "fifo_run put get oth (Other x # evs) s = fifo_run put get oth evs (oth x s)"

locale fifo =
  fixes invar :: "'s \<Rightarrow> bool"
    and contents :: "'s \<Rightarrow> 'm list"
    and put :: "'m \<Rightarrow> 's \<Rightarrow> 's option"
    and get :: "'g \<Rightarrow> 's \<Rightarrow> ('m \<times> 's) option"
    and oth :: "'o \<Rightarrow> 's \<Rightarrow> 's"
  assumes put_invar: "invar s \<Longrightarrow> put m s = Some s' \<Longrightarrow> invar s'"
    and put_contents: "invar s \<Longrightarrow> put m s = Some s' \<Longrightarrow> contents s' = contents s @ [m]"
    and get_invar: "invar s \<Longrightarrow> get g s = Some (m, s') \<Longrightarrow> invar s'"
    and get_contents: "invar s \<Longrightarrow> get g s = Some (m, s') \<Longrightarrow> contents s = m # contents s'"
    and oth_invar: "invar s \<Longrightarrow> invar (oth x s)"
    and oth_contents: "invar s \<Longrightarrow> contents (oth x s) = contents s"
begin

text \<open>No message is lost, duplicated or reordered.\<close>

lemma run_invar: "invar s \<Longrightarrow> fifo_run put get oth evs s = (t, sent, got) \<Longrightarrow> invar t"
proof (induction evs arbitrary: s sent got)
  case Nil
  then show ?case by simp
next
  case (Cons ev evs)
  then show ?case
    by (cases ev) (auto split: option.splits prod.splits dest: put_invar get_invar oth_invar)
qed

lemma run_conserves:
  "invar s \<Longrightarrow> fifo_run put get oth evs s = (t, sent, got) \<Longrightarrow> contents s @ sent = got @ contents t"
proof (induction evs arbitrary: s sent got)
  case Nil
  then show ?case by simp
next
  case (Cons ev evs)
  show ?case
  proof (cases ev)
    case (Put m)
    show ?thesis
    proof (cases "put m s")
      case None
      with Put Cons show ?thesis by simp
    next
      case (Some s')
      with Put Cons.prems obtain sent' where run: "fifo_run put get oth evs s' = (t, sent', got)"
        and sent: "sent = m # sent'" by (auto split: prod.splits)
      from Cons.IH [OF put_invar [OF Cons.prems(1) Some] run] show ?thesis
        by (simp add: sent put_contents [OF Cons.prems(1) Some])
    qed
  next
    case (Get g)
    show ?thesis
    proof (cases "get g s")
      case None
      with Get Cons show ?thesis by simp
    next
      case (Some r)
      obtain m s' where r: "r = (m, s')" by (cases r)
      with Get Some Cons.prems obtain got' where run: "fifo_run put get oth evs s' = (t, sent, got')"
        and got: "got = m # got'" by (auto split: prod.splits)
      note g = Some [unfolded r]
      from Cons.IH [OF get_invar [OF Cons.prems(1) g] run] show ?thesis
        by (simp add: got get_contents [OF Cons.prems(1) g])
    qed
  next
    case (Other x)
    then have "fifo_run put get oth evs (oth x s) = (t, sent, got)" using Cons.prems by simp
    from Cons.IH [OF oth_invar [OF Cons.prems(1)] this] show ?thesis
      by (simp add: oth_contents [OF Cons.prems(1)])
  qed
qed

end

end
