(* ===== verification/Nx_Channel.thy ===== *)
theory Nx_Channel
  imports Nx_Fifo
begin

text \<open>
  IPC channels (\<^verbatim>\<open>framework/channel.c\<close>): two endpoints, each with an inbox ring of eight message
  cells, a handle reference count and the pollset listeners to wake. An endpoint is named by
  its index in the channel (0 or 1), as \<^verbatim>\<open>e->idx\<close> does. The functions return, besides the new
  channel and the C result, the listeners whose wait queues were woken, in order; freeing the
  allocation clears \<open>ch_live\<close>.
\<close>

section \<open>Data\<close>

abbreviation NX_CHANNEL_MSG_MAX :: nat where
  "NX_CHANNEL_MSG_MAX \<equiv> 256"

abbreviation NX_CHANNEL_RING_LEN :: nat where
  "NX_CHANNEL_RING_LEN \<equiv> 8"

record channel_msg =
  cm_len :: "16 word"
  cm_data :: "u8 list"

type_synonym listener = nat

record nx_channel_endpoint =
  ep_closed :: bool
  ep_handle_refs :: int
  ep_head :: nat
  ep_tail :: nat
  ep_ring :: "channel_msg list"
  ep_listeners :: "listener list"

record nx_channel =
  ch_ends :: "nx_channel_endpoint list"
  ch_live :: bool

abbreviation ep :: "nx_channel \<Rightarrow> nat \<Rightarrow> nx_channel_endpoint" where
  "ep c i \<equiv> ch_ends c ! i"

definition peer_of :: "nat \<Rightarrow> nat" where
  "peer_of idx = 1 - idx"

definition set_ep :: "nat \<Rightarrow> nx_channel_endpoint \<Rightarrow> nx_channel \<Rightarrow> nx_channel" where
  "set_ep i e c = c\<lparr>ch_ends := (ch_ends c)[i := e]\<rparr>"

section \<open>Operations\<close>

text \<open>\<^verbatim>\<open>calloc\<close> zeroes the allocation; the argument says whether it succeeds.\<close>

definition zero_msg :: channel_msg where
  "zero_msg = \<lparr>cm_len = 0, cm_data = replicate NX_CHANNEL_MSG_MAX 0\<rparr>"

definition fresh_endpoint :: nx_channel_endpoint where
  "fresh_endpoint = \<lparr>ep_closed = False, ep_handle_refs = 1, ep_head = 0, ep_tail = 0,
     ep_ring = replicate NX_CHANNEL_RING_LEN zero_msg, ep_listeners = []\<rparr>"

definition nx_channel_create :: "bool \<Rightarrow> nx_status + nx_channel" where
  "nx_channel_create calloc_ok =
     (if \<not> calloc_ok then Inl NX_ENOMEM
      else Inr \<lparr>ch_ends = [fresh_endpoint, fresh_endpoint], ch_live = True\<rparr>)"

text \<open>\<^verbatim>\<open>memcpy\<close> into a message cell: the bytes after the copied ones stay.\<close>

definition fill_msg :: "u8 list \<Rightarrow> channel_msg \<Rightarrow> channel_msg" where
  "fill_msg data m =
     \<lparr>cm_len = of_nat (length data), cm_data = data @ drop (length data) (cm_data m)\<rparr>"

definition nx_channel_send ::
  "nx_channel \<Rightarrow> nat \<Rightarrow> u8 list option \<Rightarrow> nx_channel \<times> (nx_status + nat) \<times> listener list"
where
  "nx_channel_send c i data =
     (case data of
        None \<Rightarrow> (c, Inl NX_EINVAL, [])
      | Some bytes \<Rightarrow>
          if length bytes > NX_CHANNEL_MSG_MAX then (c, Inl NX_EINVAL, [])
          else if ep_closed (ep c i) then (c, Inl NX_EBUSY, [])
          else let p = ep c (peer_of i) in
            if ep_closed p then (c, Inl NX_EBUSY, [])
            else let tail = ep_tail p; nxt = (tail + 1) mod NX_CHANNEL_RING_LEN in
              if nxt = ep_head p then (c, Inl NX_EBUSY, [])
              else (set_ep (peer_of i)
                      (p\<lparr>ep_ring := (ep_ring p)[tail := fill_msg bytes (ep_ring p ! tail)],
                         ep_tail := nxt\<rparr>) c,
                    Inr (length bytes), ep_listeners p))"

text \<open>On success the result is the bytes copied to the caller's buffer of capacity \<open>cap\<close>.\<close>

definition nx_channel_recv ::
  "nx_channel \<Rightarrow> nat \<Rightarrow> nat \<Rightarrow> nx_channel \<times> (nx_status + u8 list)"
where
  "nx_channel_recv c i cap =
     (let e = ep c i in
      if cap = 0 then (c, Inl NX_EINVAL)
      else if ep_closed e then (c, Inl NX_EBUSY)
      else if ep_head e = ep_tail e then
        (if ep_closed (ep c (peer_of i)) then (c, Inr []) else (c, Inl NX_EAGAIN))
      else let m = ep_ring e ! ep_head e in
        if unat (cm_len m) > cap then (c, Inl NX_ENOMEM)
        else (set_ep i (e\<lparr>ep_head := (ep_head e + 1) mod NX_CHANNEL_RING_LEN\<rparr>) c,
              Inr (take (unat (cm_len m)) (cm_data m))))"

definition nx_channel_endpoint_retain :: "nx_channel \<Rightarrow> nat \<Rightarrow> nx_channel" where
  "nx_channel_endpoint_retain c i =
     set_ep i ((ep c i)\<lparr>ep_handle_refs := ep_handle_refs (ep c i) + 1\<rparr>) c"

definition nx_channel_endpoint_close :: "nx_channel \<Rightarrow> nat \<Rightarrow> nx_channel \<times> listener list" where
  "nx_channel_endpoint_close c i =
     (let prev = ep_handle_refs (ep c i);
          c1 = set_ep i ((ep c i)\<lparr>ep_handle_refs := prev - 1\<rparr>) c
      in if prev \<noteq> 1 then (c1, [])
         else let c2 = set_ep i ((ep c1 i)\<lparr>ep_closed := True\<rparr>) c1;
                  woken = ep_listeners (ep c2 (peer_of i)) @ ep_listeners (ep c2 i)
              in if ep_handle_refs (ep c2 (peer_of i)) = 0 then (c2\<lparr>ch_live := False\<rparr>, woken)
                 else (c2, woken))"

definition nx_channel_endpoint_depth :: "nx_channel_endpoint \<Rightarrow> nat" where
  "nx_channel_endpoint_depth e =
     (if ep_tail e \<ge> ep_head e then ep_tail e - ep_head e
      else ep_tail e + NX_CHANNEL_RING_LEN - ep_head e)"

definition nx_channel_endpoint_is_closed :: "nx_channel \<Rightarrow> nat \<Rightarrow> bool" where
  "nx_channel_endpoint_is_closed c i = ep_closed (ep c i)"

definition nx_channel_endpoint_peer_closed :: "nx_channel \<Rightarrow> nat \<Rightarrow> bool" where
  "nx_channel_endpoint_peer_closed c i = ep_closed (ep c (peer_of i))"

definition nx_channel_endpoint_register_pollset :: "nx_channel \<Rightarrow> nat \<Rightarrow> listener \<Rightarrow> nx_channel" where
  "nx_channel_endpoint_register_pollset c i l =
     set_ep i ((ep c i)\<lparr>ep_listeners := ep_listeners (ep c i) @ [l]\<rparr>) c"

text \<open>Unlinking a listener that is on no list does nothing.\<close>

definition nx_channel_endpoint_unregister_pollset :: "nx_channel \<Rightarrow> listener \<Rightarrow> nx_channel" where
  "nx_channel_endpoint_unregister_pollset c l =
     c\<lparr>ch_ends := map (\<lambda>e. e\<lparr>ep_listeners := remove1 l (ep_listeners e)\<rparr>) (ch_ends c)\<rparr>"

text \<open>The poll mask: \<^verbatim>\<open>POLLIN\<close> 1, \<^verbatim>\<open>POLLOUT\<close> 4, \<^verbatim>\<open>POLLHUP\<close> 16.\<close>

abbreviation NX_POLLIN :: "16 word" where "NX_POLLIN \<equiv> 1"
abbreviation NX_POLLOUT :: "16 word" where "NX_POLLOUT \<equiv> 4"
abbreviation NX_POLLHUP :: "16 word" where "NX_POLLHUP \<equiv> 16"

definition nx_channel_endpoint_readiness :: "nx_channel \<Rightarrow> nat \<Rightarrow> 16 word \<Rightarrow> 16 word" where
  "nx_channel_endpoint_readiness c i want =
     (let e = ep c i; p = ep c (peer_of i);
          r0 = (if want AND NX_POLLIN \<noteq> 0 \<and> (ep_head e \<noteq> ep_tail e \<or> ep_closed p)
                then NX_POLLIN else 0);
          r1 = (if want AND NX_POLLOUT \<noteq> 0 \<and> \<not> ep_closed e \<and> \<not> ep_closed p \<and>
                   (ep_tail p + 1) mod NX_CHANNEL_RING_LEN \<noteq> ep_head p
                then r0 OR NX_POLLOUT else r0)
      in if ep_closed p then r1 OR NX_POLLHUP else r1)"

section \<open>The invariant and the messages in a ring\<close>

definition msg_ok :: "channel_msg \<Rightarrow> bool" where
  "msg_ok m \<longleftrightarrow> length (cm_data m) = NX_CHANNEL_MSG_MAX \<and> unat (cm_len m) \<le> NX_CHANNEL_MSG_MAX"

definition ep_inv :: "nx_channel_endpoint \<Rightarrow> bool" where
  "ep_inv e \<longleftrightarrow> ep_head e < NX_CHANNEL_RING_LEN \<and> ep_tail e < NX_CHANNEL_RING_LEN \<and>
     length (ep_ring e) = NX_CHANNEL_RING_LEN \<and> (\<forall>m \<in> set (ep_ring e). msg_ok m)"

definition channel_inv :: "nx_channel \<Rightarrow> bool" where
  "channel_inv c \<longleftrightarrow> length (ch_ends c) = 2 \<and> (\<forall>e \<in> set (ch_ends c). ep_inv e)"

definition payload :: "channel_msg \<Rightarrow> u8 list" where
  "payload m = take (unat (cm_len m)) (cm_data m)"

text \<open>The queued messages of an endpoint, oldest first.\<close>

definition inbox :: "nx_channel_endpoint \<Rightarrow> u8 list list" where
  "inbox e = map (\<lambda>k. payload (ep_ring e ! ((ep_head e + k) mod NX_CHANNEL_RING_LEN)))
               [0..<nx_channel_endpoint_depth e]"

lemma peer_lt [simp]: "peer_of i < 2"
  by (simp add: peer_of_def)

lemma peer_neq: "i < 2 \<Longrightarrow> peer_of i \<noteq> i"
  unfolding peer_of_def by arith

lemma peer_peer: "i < 2 \<Longrightarrow> peer_of (peer_of i) = i"
  by (auto simp: peer_of_def)

lemma side_cases: "i < 2 \<Longrightarrow> j < 2 \<Longrightarrow> j = i \<or> j = peer_of i"
  by (auto simp: peer_of_def)

lemma channel_inv_length: "channel_inv c \<Longrightarrow> length (ch_ends c) = 2"
  by (simp add: channel_inv_def)

lemma channel_inv_ep: "channel_inv c \<Longrightarrow> i < 2 \<Longrightarrow> ep_inv (ep c i)"
  by (simp add: channel_inv_def)

lemma ep_set_ep: "length (ch_ends c) = 2 \<Longrightarrow> i < 2 \<Longrightarrow> ep (set_ep i e c) j = (if i = j then e else ep c j)"
  by (simp add: set_ep_def)

lemma channel_inv_set_ep [nx_inv]: "channel_inv c \<Longrightarrow> ep_inv e \<Longrightarrow> channel_inv (set_ep i e c)"
  by (auto simp: channel_inv_def set_ep_def dest!: set_update_subset_insert [THEN subsetD])

text \<open>Arithmetic of the ring indices.\<close>

lemma depth_lt: "ep_inv e \<Longrightarrow> nx_channel_endpoint_depth e < NX_CHANNEL_RING_LEN"
  by (auto simp: ep_inv_def nx_channel_endpoint_depth_def)

lemma ring_end: "ep_inv e \<Longrightarrow> (ep_head e + nx_channel_endpoint_depth e) mod 8 = ep_tail e"
  by (auto simp: ep_inv_def nx_channel_endpoint_depth_def)

lemma ring_not_tail:
  "ep_inv e \<Longrightarrow> k < nx_channel_endpoint_depth e \<Longrightarrow> (ep_head e + k) mod 8 \<noteq> ep_tail e"
  unfolding ep_inv_def nx_channel_endpoint_depth_def
  by (cases "ep_head e + k < 8") (auto simp: le_mod_geq split: if_splits)

lemma depth_0_iff: "ep_inv e \<Longrightarrow> nx_channel_endpoint_depth e = 0 \<longleftrightarrow> ep_head e = ep_tail e"
  by (auto simp: ep_inv_def nx_channel_endpoint_depth_def)

lemma inbox_length [simp]: "length (inbox e) = nx_channel_endpoint_depth e"
  by (simp add: inbox_def)

lemma inbox_empty_iff: "ep_inv e \<Longrightarrow> inbox e = [] \<longleftrightarrow> ep_head e = ep_tail e"
  using depth_0_iff [of e] by (metis inbox_length length_0_conv)

lemma inbox_full_iff:
  "ep_inv e \<Longrightarrow> (ep_tail e + 1) mod 8 = ep_head e \<longleftrightarrow> length (inbox e) = 7"
  by (cases "ep_tail e = 7") (auto simp: ep_inv_def nx_channel_endpoint_depth_def)

lemma inbox_cong:
  "ep_ring e' = ep_ring e \<Longrightarrow> ep_head e' = ep_head e \<Longrightarrow> ep_tail e' = ep_tail e \<Longrightarrow> inbox e' = inbox e"
  by (simp add: inbox_def nx_channel_endpoint_depth_def)

lemma payload_fill: "length d \<le> NX_CHANNEL_MSG_MAX \<Longrightarrow> payload (fill_msg d m) = d"
  by (simp add: payload_def fill_msg_def unat_of_nat take_bit_nat_eq_self)

lemma msg_ok_fill: "msg_ok m \<Longrightarrow> length d \<le> NX_CHANNEL_MSG_MAX \<Longrightarrow> msg_ok (fill_msg d m)"
  by (simp add: msg_ok_def fill_msg_def unat_of_nat take_bit_nat_eq_self)

definition push_msg :: "u8 list \<Rightarrow> nx_channel_endpoint \<Rightarrow> nx_channel_endpoint" where
  "push_msg d p = p\<lparr>ep_ring := (ep_ring p)[ep_tail p := fill_msg d (ep_ring p ! ep_tail p)],
                    ep_tail := (ep_tail p + 1) mod NX_CHANNEL_RING_LEN\<rparr>"

definition pop_msg :: "nx_channel_endpoint \<Rightarrow> nx_channel_endpoint" where
  "pop_msg e = e\<lparr>ep_head := (ep_head e + 1) mod NX_CHANNEL_RING_LEN\<rparr>"

lemma ep_inv_push: "ep_inv p \<Longrightarrow> length d \<le> NX_CHANNEL_MSG_MAX \<Longrightarrow> ep_inv (push_msg d p)"
  by (auto simp: ep_inv_def push_msg_def msg_ok_fill dest!: set_update_subset_insert [THEN subsetD])

lemma ep_inv_pop: "ep_inv e \<Longrightarrow> ep_inv (pop_msg e)"
  by (simp add: ep_inv_def pop_msg_def)

lemma depth_push:
  "ep_inv p \<Longrightarrow> length (inbox p) \<noteq> 7 \<Longrightarrow>
     nx_channel_endpoint_depth (push_msg d p) = Suc (nx_channel_endpoint_depth p)"
  by (cases "ep_tail p = 7") (auto simp: ep_inv_def nx_channel_endpoint_depth_def push_msg_def)

lemma inbox_push:
  assumes inv: "ep_inv p" and room: "length (inbox p) \<noteq> 7" and d: "length d \<le> NX_CHANNEL_MSG_MAX"
  shows "inbox (push_msg d p) = inbox p @ [d]"
proof -
  let ?q = "push_msg d p" and ?n = "nx_channel_endpoint_depth p"
  have tl: "ep_tail p < length (ep_ring p)" using inv by (simp add: ep_inv_def)
  have last: "ep_ring ?q ! ((ep_head p + ?n) mod 8) = fill_msg d (ep_ring p ! ep_tail p)"
    using tl by (simp add: ring_end [OF inv] push_msg_def)
  have old: "ep_ring ?q ! ((ep_head p + k) mod 8) = ep_ring p ! ((ep_head p + k) mod 8)" if "k < ?n" for k
    using ring_not_tail [OF inv that] by (simp add: push_msg_def)
  have hd: "ep_head ?q = ep_head p" by (simp add: push_msg_def)
  have "inbox ?q = map (\<lambda>k. payload (ep_ring ?q ! ((ep_head p + k) mod 8))) [0..<?n]
                    @ [payload (ep_ring ?q ! ((ep_head p + ?n) mod 8))]"
    by (simp add: inbox_def hd depth_push [OF inv room])
  also have "\<dots> = inbox p @ [d]"
    by (simp add: last payload_fill [OF d] inbox_def old)
  finally show ?thesis .
qed

lemma depth_pop:
  "ep_inv e \<Longrightarrow> ep_head e \<noteq> ep_tail e \<Longrightarrow>
     nx_channel_endpoint_depth e = Suc (nx_channel_endpoint_depth (pop_msg e))"
  by (cases "ep_head e = 7") (auto simp: ep_inv_def nx_channel_endpoint_depth_def pop_msg_def)

lemma inbox_pop:
  assumes inv: "ep_inv e" and ne: "ep_head e \<noteq> ep_tail e"
  shows "inbox e = payload (ep_ring e ! ep_head e) # inbox (pop_msg e)"
proof -
  let ?n = "nx_channel_endpoint_depth (pop_msg e)"
  have h: "ep_head e mod 8 = ep_head e" using inv by (simp add: ep_inv_def)
  have "inbox e = map (\<lambda>k. payload (ep_ring e ! ((ep_head e + k) mod 8))) (0 # map Suc [0..<?n])"
    unfolding inbox_def depth_pop [OF inv ne] by (simp only: map_Suc_upt upt_conv_Cons)
  also have "\<dots> = payload (ep_ring e ! ep_head e) # inbox (pop_msg e)"
    by (simp add: h inbox_def pop_msg_def o_def mod_add_left_eq)
  finally show ?thesis .
qed

section \<open>What the operations do to the inboxes\<close>

lemma nx_channel_send_eq:
  assumes "channel_inv c" "i < 2"
  shows "nx_channel_send c i (Some d) =
    (let p = ep c (peer_of i) in
     if length d > NX_CHANNEL_MSG_MAX then (c, Inl NX_EINVAL, [])
     else if ep_closed (ep c i) \<or> ep_closed p \<or> length (inbox p) = 7 then (c, Inl NX_EBUSY, [])
     else (set_ep (peer_of i) (push_msg d p) c, Inr (length d), ep_listeners p))"
  using inbox_full_iff [OF channel_inv_ep [OF assms(1) peer_lt]]
  by (simp add: nx_channel_send_def Let_def push_msg_def)

lemma nx_channel_recv_eq:
  assumes "channel_inv c" "i < 2"
  shows "nx_channel_recv c i cap =
    (let e = ep c i in
     if cap = 0 then (c, Inl NX_EINVAL)
     else if ep_closed e then (c, Inl NX_EBUSY)
     else case inbox e of
       [] \<Rightarrow> (if ep_closed (ep c (peer_of i)) then (c, Inr []) else (c, Inl NX_EAGAIN))
     | m # _ \<Rightarrow> if length m > cap then (c, Inl NX_ENOMEM) else (set_ep i (pop_msg e) c, Inr m))"
proof -
  let ?e = "ep c i"
  have inv: "ep_inv ?e" by (rule channel_inv_ep [OF assms])
  show ?thesis
  proof (cases "ep_head ?e = ep_tail ?e")
    case True
    then show ?thesis using inbox_empty_iff [OF inv] by (simp add: nx_channel_recv_def Let_def)
  next
    case False
    have "ep_ring ?e ! ep_head ?e \<in> set (ep_ring ?e)" using inv by (simp add: ep_inv_def)
    then have "msg_ok (ep_ring ?e ! ep_head ?e)" using inv by (simp add: ep_inv_def)
    then have "length (payload (ep_ring ?e ! ep_head ?e)) = unat (cm_len (ep_ring ?e ! ep_head ?e))"
      by (simp add: payload_def msg_ok_def)
    then show ?thesis
      using False inbox_pop [OF inv False] by (simp add: nx_channel_recv_def Let_def pop_msg_def payload_def)
  qed
qed

lemma channel_inv_create [nx_inv]: "nx_channel_create ok = Inr c \<Longrightarrow> channel_inv c"
  by (auto simp: nx_channel_create_def channel_inv_def ep_inv_def fresh_endpoint_def zero_msg_def
      msg_ok_def split: if_splits)

lemma channel_inv_send [nx_inv]:
  "channel_inv c \<Longrightarrow> i < 2 \<Longrightarrow> channel_inv (fst (nx_channel_send c i d))"
  by (cases d)
     (simp_all add: nx_channel_send_def [of _ _ None] nx_channel_send_eq Let_def nx_inv ep_inv_push channel_inv_ep)

lemma channel_inv_recv [nx_inv]:
  "channel_inv c \<Longrightarrow> i < 2 \<Longrightarrow> channel_inv (fst (nx_channel_recv c i cap))"
  by (simp add: nx_channel_recv_eq Let_def nx_inv ep_inv_pop channel_inv_ep split: list.split)

lemma ep_inv_simps [simp]:
  "ep_inv (e\<lparr>ep_handle_refs := n\<rparr>) = ep_inv e" "ep_inv (e\<lparr>ep_closed := b\<rparr>) = ep_inv e"
  "ep_inv (e\<lparr>ep_listeners := ls\<rparr>) = ep_inv e"
  by (simp_all add: ep_inv_def)

lemma inbox_simps [simp]:
  "inbox (e\<lparr>ep_handle_refs := n\<rparr>) = inbox e" "inbox (e\<lparr>ep_closed := b\<rparr>) = inbox e"
  "inbox (e\<lparr>ep_listeners := ls\<rparr>) = inbox e"
  by (rule inbox_cong; simp)+

lemma channel_inv_retain [nx_inv]:
  "channel_inv c \<Longrightarrow> i < 2 \<Longrightarrow> channel_inv (nx_channel_endpoint_retain c i)"
  by (simp add: nx_channel_endpoint_retain_def nx_inv channel_inv_ep)

lemma ch_live_inv [simp]: "channel_inv (c\<lparr>ch_live := b\<rparr>) = channel_inv c"
  by (simp add: channel_inv_def)

lemma channel_inv_close [nx_inv]:
  assumes "channel_inv c" "i < 2"
  shows "channel_inv (fst (nx_channel_endpoint_close c i))"
  using assms
  by (auto simp: nx_channel_endpoint_close_def Let_def channel_inv_ep ep_set_ep channel_inv_length
      intro!: channel_inv_set_ep)

lemma channel_inv_register [nx_inv]:
  "channel_inv c \<Longrightarrow> i < 2 \<Longrightarrow> channel_inv (nx_channel_endpoint_register_pollset c i l)"
  by (simp add: nx_channel_endpoint_register_pollset_def nx_inv channel_inv_ep)

lemma channel_inv_unregister [nx_inv]:
  "channel_inv c \<Longrightarrow> channel_inv (nx_channel_endpoint_unregister_pollset c l)"
  by (simp add: nx_channel_endpoint_unregister_pollset_def channel_inv_def)

section \<open>One direction of a channel as a queue\<close>

text \<open>
  The direction from endpoint \<open>i\<close> to its peer: what is put is what \<open>nx_channel_send\<close> accepted,
  what is got is what \<open>nx_channel_recv\<close> delivered (with some buffer capacity), and everything
  else that can happen to the channel is an operation of the third kind.
\<close>

datatype channel_op =
    CSend "u8 list option"
  | CRecv nat
  | CRetain bool
  | CClose bool
  | CRegister bool listener
  | CUnregister listener

abbreviation side :: "bool \<Rightarrow> nat" where
  "side b \<equiv> of_bool b"

fun channel_other :: "nat \<Rightarrow> channel_op \<Rightarrow> nx_channel \<Rightarrow> nx_channel" where
  "channel_other i (CSend d) c = fst (nx_channel_send c (peer_of i) d)"
| "channel_other i (CRecv cap) c = fst (nx_channel_recv c i cap)"
| "channel_other i (CRetain b) c = nx_channel_endpoint_retain c (side b)"
| "channel_other i (CClose b) c = fst (nx_channel_endpoint_close c (side b))"
| "channel_other i (CRegister b l) c = nx_channel_endpoint_register_pollset c (side b) l"
| "channel_other i (CUnregister l) c = nx_channel_endpoint_unregister_pollset c l"

definition channel_put :: "nat \<Rightarrow> u8 list \<Rightarrow> nx_channel \<Rightarrow> nx_channel option" where
  "channel_put i d c = (case nx_channel_send c i (Some d) of (c', Inr _, _) \<Rightarrow> Some c' | _ \<Rightarrow> None)"

definition channel_get :: "nat \<Rightarrow> nat \<Rightarrow> nx_channel \<Rightarrow> (u8 list \<times> nx_channel) option" where
  "channel_get i cap c =
     (if nx_channel_endpoint_depth (ep c (peer_of i)) = 0 then None
      else case nx_channel_recv c (peer_of i) cap of (c', Inr m) \<Rightarrow> Some (m, c') | _ \<Rightarrow> None)"

definition direction_inv :: "nat \<Rightarrow> nx_channel \<Rightarrow> bool" where
  "direction_inv i c \<longleftrightarrow> channel_inv c \<and> i < 2"

definition in_transit :: "nat \<Rightarrow> nx_channel \<Rightarrow> u8 list list" where
  "in_transit i c = inbox (ep c (peer_of i))"

lemma side_lt [simp]: "side b < 2"
  by (cases b) simp_all

lemma direction_inv_other: "direction_inv i c \<Longrightarrow> direction_inv i (channel_other i x c)"
  by (cases x) (simp_all add: direction_inv_def nx_inv)

lemma inbox_refs:
  "channel_inv c \<Longrightarrow> inbox (ep (nx_channel_endpoint_retain c (side b)) j) = inbox (ep c j)"
  by (simp add: nx_channel_endpoint_retain_def ep_set_ep channel_inv_length)

lemma inbox_close:
  "channel_inv c \<Longrightarrow> inbox (ep (fst (nx_channel_endpoint_close c (side b))) j) = inbox (ep c j)"
  by (auto simp: nx_channel_endpoint_close_def Let_def ep_set_ep channel_inv_length set_ep_def nth_list_update)

lemma in_transit_other: "direction_inv i c \<Longrightarrow> in_transit i (channel_other i x c) = in_transit i c"
proof -
  assume "direction_inv i c"
  then have inv: "channel_inv c" and i: "i < 2" by (auto simp: direction_inv_def)
  note len = channel_inv_length [OF inv]
  show ?thesis
  proof (cases x)
    case (CSend d)
    show ?thesis
    proof (cases d)
      case None
      then show ?thesis by (simp add: CSend nx_channel_send_def)
    next
      case (Some b)
      then show ?thesis
        using i by (simp add: CSend in_transit_def nx_channel_send_eq [OF inv] Let_def ep_set_ep len
            peer_peer peer_neq [symmetric])
    qed
  next
    case (CRecv cap)
    then show ?thesis
      using i by (simp add: in_transit_def nx_channel_recv_eq [OF inv] Let_def ep_set_ep len
          peer_neq [symmetric] split: list.split)
  next
    case (CRegister b l)
    then show ?thesis
      by (simp add: in_transit_def nx_channel_endpoint_register_pollset_def ep_set_ep len)
  next
    case (CUnregister l)
    then show ?thesis
      by (simp add: in_transit_def nx_channel_endpoint_unregister_pollset_def len)
  qed (simp_all add: in_transit_def inbox_refs inbox_close inv)
qed

lemma channel_putE:
  assumes "direction_inv i c" "channel_put i d c = Some c'"
  shows "c' = set_ep (peer_of i) (push_msg d (ep c (peer_of i))) c \<and>
         length d \<le> NX_CHANNEL_MSG_MAX \<and> length (in_transit i c) \<noteq> 7"
  using assms
  by (auto simp: channel_put_def direction_inv_def nx_channel_send_eq Let_def in_transit_def
      split: if_splits)

lemma channel_getE:
  assumes "direction_inv i c" "channel_get i cap c = Some (m, c')"
  shows "c' = set_ep (peer_of i) (pop_msg (ep c (peer_of i))) c \<and>
         in_transit i c = m # inbox (pop_msg (ep c (peer_of i)))"
proof -
  have inv: "channel_inv c" and i: "i < 2" using assms(1) by (auto simp: direction_inv_def)
  let ?e = "ep c (peer_of i)"
  have e: "ep_inv ?e" by (rule channel_inv_ep [OF inv peer_lt])
  from assms(2) have ne: "ep_head ?e \<noteq> ep_tail ?e"
    using depth_0_iff [OF e] by (auto simp: channel_get_def split: if_splits)
  from assms(2) ne show ?thesis
    using depth_0_iff [OF e] inbox_pop [OF e ne]
    by (auto simp: channel_get_def nx_channel_recv_eq [OF inv peer_lt] in_transit_def Let_def
        split: if_splits)
qed

interpretation channel: fifo "direction_inv i" "in_transit i" "channel_put i" "channel_get i" "channel_other i"
  for i
proof (unfold_locales, goal_cases)
  case (1 s m s')
  from channel_putE [OF 1] 1 show ?case
    by (simp add: direction_inv_def channel_inv_set_ep ep_inv_push channel_inv_ep)
next
  case (2 s m s')
  from channel_putE [OF 2] 2 show ?case
    by (simp add: direction_inv_def in_transit_def ep_set_ep channel_inv_length inbox_push channel_inv_ep)
next
  case (3 s g m s')
  from channel_getE [OF 3] 3 show ?case
    by (simp add: direction_inv_def channel_inv_set_ep ep_inv_pop channel_inv_ep)
next
  case (4 s g m s')
  from channel_getE [OF 4] 4 show ?case
    by (simp add: direction_inv_def in_transit_def ep_set_ep channel_inv_length)
next
  case (5 s x)
  then show ?case by (rule direction_inv_other)
next
  case (6 s x)
  then show ?case by (rule in_transit_other)
qed

section \<open>Reference counts and the life of the allocation\<close>

text \<open>
  The states a channel reaches when every operation on an endpoint is performed by an owner
  of one of its handle references, the discipline the handle tables follow.
\<close>

definition ep_owned :: "nx_channel \<Rightarrow> nat \<Rightarrow> bool" where
  "ep_owned c i \<longleftrightarrow> i < 2 \<and> ep_handle_refs (ep c i) > 0"

inductive channel_reach :: "nx_channel \<Rightarrow> bool" where
  create: "nx_channel_create ok = Inr c \<Longrightarrow> channel_reach c"
| send: "channel_reach c \<Longrightarrow> ep_owned c i \<Longrightarrow> channel_reach (fst (nx_channel_send c i d))"
| recv: "channel_reach c \<Longrightarrow> ep_owned c i \<Longrightarrow> channel_reach (fst (nx_channel_recv c i cap))"
| retain: "channel_reach c \<Longrightarrow> ep_owned c i \<Longrightarrow> channel_reach (nx_channel_endpoint_retain c i)"
| close: "channel_reach c \<Longrightarrow> ep_owned c i \<Longrightarrow> channel_reach (fst (nx_channel_endpoint_close c i))"
| register: "channel_reach c \<Longrightarrow> ep_owned c i \<Longrightarrow>
    channel_reach (nx_channel_endpoint_register_pollset c i l)"
| unregister: "channel_reach c \<Longrightarrow> channel_reach (nx_channel_endpoint_unregister_pollset c l)"

definition refs_ok :: "nx_channel \<Rightarrow> bool" where
  "refs_ok c \<longleftrightarrow> (\<forall>i < 2. ep_handle_refs (ep c i) \<ge> 0 \<and>
                             (ep_closed (ep c i) \<longleftrightarrow> ep_handle_refs (ep c i) = 0)) \<and>
     (ch_live c \<longleftrightarrow> (\<exists>i < 2. ep_handle_refs (ep c i) > 0))"

lemma refs_ok_cong:
  assumes "refs_ok c" "ch_live c' = ch_live c"
    and "\<And>j. j < 2 \<Longrightarrow> ep_handle_refs (ep c' j) = ep_handle_refs (ep c j) \<and> ep_closed (ep c' j) = ep_closed (ep c j)"
  shows "refs_ok c'"
  using assms by (auto simp: refs_ok_def)

lemma set_ep_live [simp]: "ch_live (set_ep i e c) = ch_live c"
  by (simp add: set_ep_def)

lemma push_pop_refs [simp]:
  "ep_handle_refs (push_msg d p) = ep_handle_refs p" "ep_closed (push_msg d p) = ep_closed p"
  "ep_handle_refs (pop_msg p) = ep_handle_refs p" "ep_closed (pop_msg p) = ep_closed p"
  by (simp_all add: push_msg_def pop_msg_def)

lemma refs_ok_set_ep:
  assumes "refs_ok c" "channel_inv c" "i < 2"
    and "ep_handle_refs e = ep_handle_refs (ep c i)" "ep_closed e = ep_closed (ep c i)"
  shows "refs_ok (set_ep i e c)"
  by (rule refs_ok_cong [OF assms(1)]) (use assms in \<open>simp_all add: ep_set_ep channel_inv_length\<close>)

lemma refs_ok_send: "channel_inv c \<Longrightarrow> i < 2 \<Longrightarrow> refs_ok c \<Longrightarrow> refs_ok (fst (nx_channel_send c i d))"
  by (cases d)
     (auto simp: nx_channel_send_def [of _ _ None] nx_channel_send_eq Let_def refs_ok_set_ep)

lemma refs_ok_recv: "channel_inv c \<Longrightarrow> i < 2 \<Longrightarrow> refs_ok c \<Longrightarrow> refs_ok (fst (nx_channel_recv c i cap))"
  by (simp add: nx_channel_recv_eq Let_def refs_ok_set_ep split: list.split)

lemma refs_ok_retain: "channel_inv c \<Longrightarrow> ep_owned c i \<Longrightarrow> refs_ok c \<Longrightarrow> refs_ok (nx_channel_endpoint_retain c i)"
  by (fastforce simp: refs_ok_def ep_owned_def nx_channel_endpoint_retain_def ep_set_ep channel_inv_length)

lemma less_2_peer: "i < 2 \<Longrightarrow> (\<forall>j < 2. P j) \<longleftrightarrow> P i \<and> P (peer_of i)"
  "i < 2 \<Longrightarrow> (\<exists>j < 2. P j) \<longleftrightarrow> P i \<or> P (peer_of i)"
  using side_cases [of i] peer_lt by blast+

lemma refs_ok_close:
  assumes "channel_inv c" "ep_owned c i" "refs_ok c"
  shows "refs_ok (fst (nx_channel_endpoint_close c i))"
proof -
  have i: "i < 2" using assms(2) by (simp add: ep_owned_def)
  show ?thesis
    using assms peer_neq [OF i]
    by (auto simp: refs_ok_def less_2_peer [OF i] ep_owned_def nx_channel_endpoint_close_def Let_def
        ep_set_ep channel_inv_length set_ep_def)
qed

lemma channel_reach_inv: "channel_reach c \<Longrightarrow> channel_inv c \<and> refs_ok c"
proof (induction rule: channel_reach.induct)
  case (create ok c)
  then show ?case
    by (auto simp: nx_inv) (auto simp: nx_channel_create_def refs_ok_def fresh_endpoint_def less_Suc_eq numeral_2_eq_2
        split: if_splits)
next
  case (register c i l)
  then show ?case
    by (simp add: nx_channel_endpoint_register_pollset_def ep_owned_def refs_ok_set_ep channel_inv_set_ep channel_inv_ep)
next
  case (unregister c l)
  then show ?case
    by (auto intro!: channel_inv_unregister)
       (auto simp: nx_channel_endpoint_unregister_pollset_def channel_inv_length intro: refs_ok_cong)
qed (auto simp: nx_inv ep_owned_def refs_ok_send refs_ok_recv refs_ok_retain refs_ok_close)

section \<open>Two final closers\<close>

text \<open>
  \<^verbatim>\<open>nx_channel_endpoint_close\<close> as the sequence of its accesses to shared memory, one closer per
  endpoint: the atomic decrement, the store to \<^verbatim>\<open>closed\<close> with the wake-ups, the load of the peer's
  count, and the test that frees. \<open>cs_frees\<close> counts the calls of \<^verbatim>\<open>free\<close>.
\<close>

datatype close_pc = C_Sub | C_Mark int | C_Load | C_Free int | C_Done

record close_state =
  cs_chan :: nx_channel
  cs_pc :: "close_pc list"
  cs_frees :: nat

definition close_step :: "nat \<Rightarrow> close_state \<Rightarrow> close_state" where
  "close_step i s =
     (let c = cs_chan s; goto = (\<lambda>l. (cs_pc s)[i := l]) in
      case cs_pc s ! i of
        C_Sub \<Rightarrow>
          let prev = ep_handle_refs (ep c i) in
          s\<lparr>cs_chan := set_ep i ((ep c i)\<lparr>ep_handle_refs := prev - 1\<rparr>) c, cs_pc := goto (C_Mark prev)\<rparr>
      | C_Mark prev \<Rightarrow>
          if prev \<noteq> 1 then s\<lparr>cs_pc := goto C_Done\<rparr>
          else s\<lparr>cs_chan := set_ep i ((ep c i)\<lparr>ep_closed := True\<rparr>) c, cs_pc := goto C_Load\<rparr>
      | C_Load \<Rightarrow> s\<lparr>cs_pc := goto (C_Free (ep_handle_refs (ep c (peer_of i))))\<rparr>
      | C_Free peer_refs \<Rightarrow>
          if peer_refs = 0 then s\<lparr>cs_chan := c\<lparr>ch_live := False\<rparr>, cs_pc := goto C_Done,
                                  cs_frees := cs_frees s + 1\<rparr>
          else s\<lparr>cs_pc := goto C_Done\<rparr>
      | C_Done \<Rightarrow> s)"

definition close_start :: "nx_channel \<Rightarrow> close_state" where
  "close_start c = \<lparr>cs_chan = c, cs_pc = [C_Sub, C_Sub], cs_frees = 0\<rparr>"

lemmas close_steps_simps = close_step_def close_start_def Let_def ep_set_ep set_ep_def nth_list_update

text \<open>Uninterrupted, the four accesses are the function.\<close>

lemma close_steps_alone:
  assumes "channel_inv c" "i < 2"
  shows "cs_chan (fold close_step [i, i, i, i] (close_start c)) = fst (nx_channel_endpoint_close c i)"
proof -
  have len: "length (ch_ends c) = 2" using assms(1) by (rule channel_inv_length)
  from assms(2) consider "i = 0" | "i = 1" by linarith
  then show ?thesis
    by cases (auto simp: close_steps_simps nx_channel_endpoint_close_def len peer_of_def)
qed

section \<open>Properties\<close>

text \<open>
  C19. From a fresh channel, whatever the interleaving of sends by endpoint \<open>i\<close>, receives (with any
  buffer sizes) by its peer and other operations on the channel (traffic in the other direction, retains,
  closes, pollset registrations), the messages delivered are a prefix of the messages accepted, in the
  same order and with the same bytes, the rest is in the ring, and the ring never has more than seven.\<close>

theorem channel_delivers_in_order:
  assumes "nx_channel_create True = Inr c" "i < 2"
    and "fifo_run (channel_put i) (channel_get i) (channel_other i) evs c = (c', sent, got)"
  shows "sent = got @ in_transit i c' \<and> length (in_transit i c') \<le> 7"
proof -
  have inv: "direction_inv i c"
    using channel_inv_create [OF assms(1)] assms(2) by (simp add: direction_inv_def)
  have "in_transit i c = []"
    using assms(1,2) by (auto simp: nx_channel_create_def in_transit_def inbox_def fresh_endpoint_def
        nx_channel_endpoint_depth_def peer_of_def less_Suc_eq numeral_2_eq_2)
  moreover have "direction_inv i c'" by (rule channel.run_invar [OF inv assms(3)])
  then have "length (in_transit i c') \<le> 7"
    using depth_lt [OF channel_inv_ep [OF _ peer_lt], of c' i] by (simp add: direction_inv_def in_transit_def)
  ultimately show ?thesis using channel.run_conserves [OF inv assms(3)] by simp
qed

definition demo_events :: "(u8 list, nat, channel_op) fifo_event list" where
  "demo_events = [Put [1, 2], Other (CRetain True), Put [3], Get 1, Get 256, Other (CClose False), Put [4], Get 8]"

theorem channel_delivers_in_order_witness:
  "\<exists>c c'. nx_channel_create True = Inr c \<and>
     fifo_run (channel_put 0) (channel_get 0) (channel_other 0) demo_events c
       = (c', [[1, 2], [3]], [[1, 2], [3]]) \<and> in_transit 0 c' = []"
proof -
  let ?c = "\<lparr>ch_ends = [fresh_endpoint, fresh_endpoint], ch_live = True\<rparr>"
  let ?r = "fifo_run (channel_put 0) (channel_get 0) (channel_other 0) demo_events ?c"
  have c: "nx_channel_create True = Inr ?c" by (simp add: nx_channel_create_def)
  have "snd ?r = ([[1, 2], [3]], [[1, 2], [3]])" by code_simp
  then have r: "?r = (fst ?r, [[1, 2], [3]], [[1, 2], [3]])" by (metis prod.collapse)
  from channel_delivers_in_order [OF c _ r] show ?thesis using c r by auto
qed

text \<open>
  The behaviour of \<^verbatim>\<open>nx_channel_send\<close> on every branch: NULL data and oversized messages are
  rejected with EINVAL, a closed side or a peer ring with seven messages gives EBUSY, nothing changes in
  those cases; otherwise the message is appended to the peer's inbox only, its length is returned and
  the peer's listeners are woken.\<close>

theorem channel_send_spec:
  assumes "channel_inv c" "i < 2"
  shows "case nx_channel_send c i d of (c', r, woken) \<Rightarrow>
    (case d of None \<Rightarrow> r = Inl NX_EINVAL
     | Some m \<Rightarrow>
        if length m > 256 then r = Inl NX_EINVAL
        else if ep_closed (ep c i) \<or> ep_closed (ep c (peer_of i)) \<or> length (inbox (ep c (peer_of i))) = 7
        then r = Inl NX_EBUSY
        else r = Inr (length m) \<and> woken = ep_listeners (ep c (peer_of i)) \<and>
             inbox (ep c' (peer_of i)) = inbox (ep c (peer_of i)) @ [m] \<and> ep c' i = ep c i) \<and>
    (isl r \<longrightarrow> c' = c \<and> woken = [])"
proof (cases d)
  case None
  then show ?thesis by (simp add: nx_channel_send_def)
next
  case (Some m)
  then show ?thesis
    using assms by (simp add: nx_channel_send_eq Let_def ep_set_ep channel_inv_length peer_neq inbox_push channel_inv_ep)
qed

definition demo_channel :: nx_channel where
  "demo_channel = \<lparr>ch_ends = [fresh_endpoint, fresh_endpoint], ch_live = True\<rparr>"

lemma demo_channel_inv: "channel_inv demo_channel"
  by (rule channel_inv_create [of True]) (simp add: nx_channel_create_def demo_channel_def)

theorem channel_send_spec_witness:
  "fst (snd (nx_channel_send demo_channel 0 (Some [7, 8]))) = Inr 2 \<and>
   inbox (ep (fst (nx_channel_send demo_channel 0 (Some [7, 8]))) 1) = [[7, 8]]"
proof -
  have "inbox (ep demo_channel 1) = []" "nx_channel_endpoint_depth (ep demo_channel 1) = 0"
    "\<not> ep_closed (ep demo_channel 0)" "\<not> ep_closed (ep demo_channel 1)" by code_simp+
  with channel_send_spec [OF demo_channel_inv, of 0 "Some [7, 8]"] show ?thesis
    by (auto simp: peer_of_def split: prod.splits)
qed

text \<open>
  The behaviour of \<^verbatim>\<open>nx_channel_recv\<close> on every branch: with an empty ring, end of file (zero
  bytes) exactly when the peer is closed and EAGAIN otherwise; the oldest message is delivered whole and
  removed, or left in place with ENOMEM when the buffer is too small; the peer is never touched.\<close>

theorem channel_recv_spec:
  assumes "channel_inv c" "i < 2"
  shows "case nx_channel_recv c i cap of (c', r) \<Rightarrow>
    (if cap = 0 then r = Inl NX_EINVAL
     else if ep_closed (ep c i) then r = Inl NX_EBUSY
     else case inbox (ep c i) of
       [] \<Rightarrow> r = (if ep_closed (ep c (peer_of i)) then Inr [] else Inl NX_EAGAIN) \<and> c' = c
     | m # ms \<Rightarrow> if length m > cap then r = Inl NX_ENOMEM
                 else r = Inr m \<and> inbox (ep c' i) = ms) \<and>
    ep c' (peer_of i) = ep c (peer_of i) \<and> (isl r \<longrightarrow> c' = c)"
proof (cases "inbox (ep c i)")
  case Nil
  then show ?thesis using assms by (simp add: nx_channel_recv_eq Let_def)
next
  case (Cons m ms)
  have e: "ep_inv (ep c i)" by (rule channel_inv_ep [OF assms])
  have "ep_head (ep c i) \<noteq> ep_tail (ep c i)" using inbox_empty_iff [OF e] Cons by simp
  from inbox_pop [OF e this] have "inbox (pop_msg (ep c i)) = ms" using Cons by simp
  then show ?thesis
    using assms Cons peer_neq [OF assms(2)] by (simp add: nx_channel_recv_eq Let_def ep_set_ep channel_inv_length)
qed

theorem channel_recv_spec_witness:
  "snd (nx_channel_recv (fst (nx_channel_send demo_channel 0 (Some [7, 8]))) 1 1) = Inl NX_ENOMEM \<and>
   snd (nx_channel_recv (fst (nx_channel_send demo_channel 0 (Some [7, 8]))) 1 2) = Inr [7, 8]"
proof -
  let ?c = "fst (nx_channel_send demo_channel 0 (Some [7, 8]))"
  have inv: "channel_inv ?c" by (rule channel_inv_send [OF demo_channel_inv]) simp
  have "inbox (ep ?c 1) = [[7, 8]]" "\<not> ep_closed (ep ?c 1)" by code_simp+
  with channel_recv_spec [OF inv, of 1 1] channel_recv_spec [OF inv, of 1 2] show ?thesis
    by (simp split: prod.splits)
qed

text \<open>
  The poll mask predicts the operations, as its comments promise: \<^verbatim>\<open>POLLOUT\<close> is reported exactly
  when a send of a message of legal size would be accepted, and for an open endpoint \<^verbatim>\<open>POLLIN\<close> is
  reported exactly when a receive into a large enough buffer would not give EAGAIN; \<^verbatim>\<open>POLLHUP\<close> exactly
  when the peer is closed, whatever was asked.\<close>

theorem channel_readiness_predicts:
  assumes "channel_inv c" "i < 2" "want AND NX_POLLIN \<noteq> 0" "want AND NX_POLLOUT \<noteq> 0" "length m \<le> 256"
  defines "r \<equiv> nx_channel_endpoint_readiness c i want"
  shows "(r AND NX_POLLOUT \<noteq> 0 \<longleftrightarrow> fst (snd (nx_channel_send c i (Some m))) = Inr (length m)) \<and>
         (\<not> ep_closed (ep c i) \<longrightarrow>
            (r AND NX_POLLIN \<noteq> 0 \<longleftrightarrow> snd (nx_channel_recv c i 256) \<noteq> Inl NX_EAGAIN)) \<and>
         (r AND NX_POLLHUP \<noteq> 0 \<longleftrightarrow> ep_closed (ep c (peer_of i)))"
proof -
  have e: "inbox (ep c i) = [] \<longleftrightarrow> ep_head (ep c i) = ep_tail (ep c i)"
    by (rule inbox_empty_iff [OF channel_inv_ep [OF assms(1,2)]])
  have p: "(ep_tail (ep c (peer_of i)) + 1) mod 8 = ep_head (ep c (peer_of i)) \<longleftrightarrow>
           nx_channel_endpoint_depth (ep c (peer_of i)) = 7"
    using inbox_full_iff [OF channel_inv_ep [OF assms(1) peer_lt [of i]]] by simp
  have r: "r = (if ep_head (ep c i) \<noteq> ep_tail (ep c i) \<or> ep_closed (ep c (peer_of i)) then 1 else 0) OR
      (if \<not> ep_closed (ep c i) \<and> \<not> ep_closed (ep c (peer_of i)) \<and>
           nx_channel_endpoint_depth (ep c (peer_of i)) \<noteq> 7 then 4 else 0) OR
      (if ep_closed (ep c (peer_of i)) then 16 else 0)"
    using assms(3,4) p by (simp add: r_def nx_channel_endpoint_readiness_def Let_def)
  have out: "r AND 4 \<noteq> 0 \<longleftrightarrow> \<not> ep_closed (ep c i) \<and> \<not> ep_closed (ep c (peer_of i)) \<and>
      nx_channel_endpoint_depth (ep c (peer_of i)) \<noteq> 7"
    and inp: "r AND 1 \<noteq> 0 \<longleftrightarrow> inbox (ep c i) \<noteq> [] \<or> ep_closed (ep c (peer_of i))"
    and hup: "r AND 16 \<noteq> 0 \<longleftrightarrow> ep_closed (ep c (peer_of i))"
    unfolding r e by simp_all
  show ?thesis
    using assms(5) out inp hup
    by (auto simp: nx_channel_send_eq [OF assms(1,2)] nx_channel_recv_eq [OF assms(1,2)] Let_def split: list.splits if_splits)
qed

theorem channel_readiness_predicts_witness:
  "nx_channel_endpoint_readiness demo_channel 0 5 AND NX_POLLOUT \<noteq> 0 \<and>
   nx_channel_endpoint_readiness demo_channel 0 5 AND NX_POLLIN = 0 \<and>
   snd (nx_channel_recv demo_channel 0 256) = Inl NX_EAGAIN"
proof -
  have "fst (snd (nx_channel_send demo_channel 0 (Some []))) = Inr 0" "\<not> ep_closed (ep demo_channel 0)"
    "snd (nx_channel_recv demo_channel 0 256) = Inl NX_EAGAIN" by code_simp+
  with channel_readiness_predicts [OF demo_channel_inv, of 0 5 "[]"] show ?thesis by simp
qed




end
