(* ===== verification/Nx_List.thy ===== *)
theory Nx_List
  imports Nx_Prelude
begin

text \<open>
  The intrusive doubly-linked list (\<^verbatim>\<open>core/lib/list.h\<close>) on an explicit store of links: a node is
  an address, the store maps a node to its \<^verbatim>\<open>next\<close> and \<^verbatim>\<open>prev\<close>, and a list head is the address of its
  sentinel. The operations are the C assignments in their order. \<open>is_list h hdr xs\<close> says that the
  store holds the list of nodes \<open>xs\<close> under the sentinel \<open>hdr\<close>; the lemmas show that each operation
  does to \<open>xs\<close> what its name says and leaves every other list alone. The components above use the
  abstract lists.
\<close>

section \<open>Links and operations\<close>

record 'n links =
  ln_next :: "'n \<Rightarrow> 'n"
  ln_prev :: "'n \<Rightarrow> 'n"

definition set_next :: "'n \<Rightarrow> 'n \<Rightarrow> 'n links \<Rightarrow> 'n links" where
  "set_next a b h = h\<lparr>ln_next := (ln_next h)(a := b)\<rparr>"

definition set_prev :: "'n \<Rightarrow> 'n \<Rightarrow> 'n links \<Rightarrow> 'n links" where
  "set_prev a b h = h\<lparr>ln_prev := (ln_prev h)(a := b)\<rparr>"

definition nx_list_init :: "'n \<Rightarrow> 'n links \<Rightarrow> 'n links" where
  "nx_list_init hdr h = set_prev hdr hdr (set_next hdr hdr h)"

definition nx_list_empty :: "'n \<Rightarrow> 'n links \<Rightarrow> bool" where
  "nx_list_empty hdr h \<longleftrightarrow> ln_next h hdr = hdr"

definition nx_list_add_after :: "'n \<Rightarrow> 'n \<Rightarrow> 'n links \<Rightarrow> 'n links" where
  "nx_list_add_after pos node h =
     (let h1 = set_prev node pos h;
          h2 = set_next node (ln_next h1 pos) h1;
          h3 = set_prev (ln_next h2 pos) node h2
      in set_next pos node h3)"

definition nx_list_add_tail :: "'n \<Rightarrow> 'n \<Rightarrow> 'n links \<Rightarrow> 'n links" where
  "nx_list_add_tail hdr node h = nx_list_add_after (ln_prev h hdr) node h"

definition nx_list_remove :: "'n \<Rightarrow> 'n links \<Rightarrow> 'n links" where
  "nx_list_remove node h =
     (let h1 = set_next (ln_prev h node) (ln_next h node) h;
          h2 = set_prev (ln_next h1 node) (ln_prev h1 node) h1;
          h3 = set_next node node h2
      in set_prev node node h3)"

definition nx_list_pop_front :: "'n \<Rightarrow> 'n links \<Rightarrow> 'n option \<times> 'n links" where
  "nx_list_pop_front hdr h =
     (if nx_list_empty hdr h then (None, h)
      else let node = ln_next h hdr in (Some node, nx_list_remove node h))"

text \<open>
  \<^verbatim>\<open>nx_list_for_each\<close>: the nodes visited, in order. The loop has no bound of its own; the fuel is the
  number of tests of the loop condition, and running out is \<open>None\<close>.
\<close>

fun nx_list_for_each :: "nat \<Rightarrow> 'n links \<Rightarrow> 'n \<Rightarrow> 'n \<Rightarrow> 'n list option" where
  "nx_list_for_each 0 h hdr var = None"
| "nx_list_for_each (Suc fuel) h hdr var =
     (if var = hdr then Some []
      else map_option ((#) var) (nx_list_for_each fuel h hdr (ln_next h var)))"

section \<open>The list held by a store\<close>

fun linked :: "'n links \<Rightarrow> 'n list \<Rightarrow> bool" where
  "linked h (a # b # r) \<longleftrightarrow> ln_next h a = b \<and> ln_prev h b = a \<and> linked h (b # r)"
| "linked h _ \<longleftrightarrow> True"

definition is_list :: "'n links \<Rightarrow> 'n \<Rightarrow> 'n list \<Rightarrow> bool" where
  "is_list h hdr xs \<longleftrightarrow> linked h (hdr # xs @ [hdr]) \<and> distinct (hdr # xs)"

lemma linked_append: "linked h (xs @ y # zs) \<longleftrightarrow> linked h (xs @ [y]) \<and> linked h (y # zs)"
proof (induction xs)
  case Nil
  then show ?case by (cases zs) auto
next
  case (Cons a xs)
  then show ?case by (cases xs) auto
qed

lemma linked_cong:
  "(\<And>a. a \<in> set (butlast xs) \<Longrightarrow> ln_next h' a = ln_next h a) \<Longrightarrow> (\<And>a. a \<in> set (tl xs) \<Longrightarrow> ln_prev h' a = ln_prev h a) \<Longrightarrow>
     linked h' xs = linked h xs"
  by (induction h xs rule: linked.induct) auto

lemma links_simps [simp]:
  "ln_next (set_next a b h) = (ln_next h)(a := b)" "ln_prev (set_next a b h) = ln_prev h"
  "ln_next (set_prev a b h) = ln_next h" "ln_prev (set_prev a b h) = (ln_prev h)(a := b)"
  by (simp_all add: set_next_def set_prev_def)

lemma is_list_init: "is_list (nx_list_init hdr h) hdr []"
  by (simp add: is_list_def nx_list_init_def)

lemma is_list_next: "is_list h hdr xs \<Longrightarrow> ln_next h hdr = (case xs of [] \<Rightarrow> hdr | x # _ \<Rightarrow> x)"
  by (cases xs) (auto simp: is_list_def)

lemma is_list_empty_iff: "is_list h hdr xs \<Longrightarrow> nx_list_empty hdr h \<longleftrightarrow> xs = []"
  by (cases xs) (auto simp: is_list_def nx_list_empty_def)

lemma is_list_prev: "is_list h hdr xs \<Longrightarrow> ln_prev h hdr = (if xs = [] then hdr else last xs)"
proof (cases xs rule: rev_cases)
  case (snoc ys y)
  assume "is_list h hdr xs"
  then have "linked h ((hdr # ys) @ y # [hdr])" using snoc by (simp add: is_list_def)
  then have "linked h (y # [hdr])" by (subst (asm) linked_append) simp
  then show ?thesis using snoc by simp
qed (simp add: is_list_def)

text \<open>An operation that writes no link of the nodes of another list leaves that list alone.\<close>

lemma is_list_frame:
  assumes "is_list h hdr xs"
    and "\<And>a. a \<in> set (hdr # xs) \<Longrightarrow> ln_next h' a = ln_next h a \<and> ln_prev h' a = ln_prev h a"
  shows "is_list h' hdr xs"
proof -
  have "linked h' (hdr # xs @ [hdr]) = linked h (hdr # xs @ [hdr])"
    by (rule linked_cong) (use assms(2) in \<open>auto simp: butlast_append\<close>)
  then show ?thesis using assms(1) by (simp add: is_list_def)
qed

lemma last_notin_butlast: "distinct ys \<Longrightarrow> ys \<noteq> [] \<Longrightarrow> last ys \<notin> set (butlast ys)"
  by (cases ys rule: rev_cases) auto

lemma is_list_add_tail:
  assumes l: "is_list h hdr xs" and n: "n \<notin> set (hdr # xs)"
  shows "is_list (nx_list_add_tail hdr n h) hdr (xs @ [n])"
proof -
  let ?p = "last (hdr # xs)"
  have p: "ln_prev h hdr = ?p" using is_list_prev [OF l] by simp
  have lk: "linked h (butlast (hdr # xs) @ [?p] @ [hdr])"
    using l by (metis append.assoc append_Cons append_butlast_last_id is_list_def list.distinct(1))
  then have nx: "ln_next h ?p = hdr"
    using linked_append [of h "butlast (hdr # xs)" ?p "[hdr]"] by simp
  have d: "distinct (hdr # xs)" using l by (simp add: is_list_def)
  have pn: "?p \<noteq> n" using n last_in_set [of "hdr # xs"] by auto
  let ?h = "nx_list_add_tail hdr n h"
  have h: "ln_next ?h = (ln_next h)(n := hdr, ?p := n)" "ln_prev ?h = (ln_prev h)(n := ?p, hdr := n)"
    using pn nx by (auto simp: nx_list_add_tail_def nx_list_add_after_def Let_def p)
  have "linked ?h (butlast (hdr # xs) @ [?p]) = linked h (butlast (hdr # xs) @ [?p])"
  proof (rule linked_cong)
    show "a \<in> set (butlast (butlast (hdr # xs) @ [?p])) \<Longrightarrow> ln_next ?h a = ln_next h a" for a
      using n last_notin_butlast [OF d] by (auto simp: h dest: in_set_butlastD)
    show "a \<in> set (tl (butlast (hdr # xs) @ [?p])) \<Longrightarrow> ln_prev ?h a = ln_prev h a" for a
      using d n by (auto simp: h)
  qed
  then have "linked ?h (butlast (hdr # xs) @ [?p])" using lk linked_append [of h "butlast (hdr # xs)" ?p "[hdr]"] by simp
  moreover have "linked ?h [?p, n, hdr]" using pn n by (auto simp: h)
  ultimately have "linked ?h (butlast (hdr # xs) @ ?p # [n, hdr])" by (subst linked_append) simp
  then have "linked ?h ((butlast (hdr # xs) @ [?p]) @ [n, hdr])" by simp
  also have "butlast (hdr # xs) @ [?p] = hdr # xs" by (rule append_butlast_last_id) simp
  finally have "linked ?h ((hdr # xs) @ [n, hdr])" .
  then show ?thesis using d n by (auto simp: is_list_def)
qed

lemma is_list_removal:
  assumes l: "is_list h hdr (ys @ n # zs)"
  shows "is_list (nx_list_remove n h) hdr (ys @ zs)"
proof -
  define A a where "A = butlast (hdr # ys)" and "a = last (hdr # ys)"
  have Aa: "hdr # ys = A @ [a]" unfolding A_def a_def by (rule append_butlast_last_id [symmetric]) simp
  obtain b C where bC: "zs @ [hdr] = b # C" by (cases zs) auto
  have d: "distinct (hdr # ys @ n # zs)" using l by (simp add: is_list_def)
  then have dA: "distinct (A @ a # n # zs)" using Aa by (metis append.assoc append_Cons append_Nil)
  have "linked h (A @ a # n # b # C)"
  proof -
    have "hdr # (ys @ n # zs) @ [hdr] = (hdr # ys) @ n # (zs @ [hdr])" by simp
    also have "\<dots> = A @ a # n # b # C" unfolding Aa bC by simp
    finally show ?thesis using l by (simp add: is_list_def)
  qed
  then have lk: "linked h (A @ [a])" "ln_next h a = n" "ln_prev h n = a" "ln_next h n = b" "ln_prev h b = n"
      "linked h (b # C)"
    using linked_append [of h A a "n # b # C"] by auto
  have hdr: "hdr \<in> set (A @ [a])" "hdr \<notin> set (tl (A @ [a]))" using d unfolding Aa [symmetric] by auto
  have an: "a \<noteq> n" and bn: "b \<noteq> n" using dA bC hdr d by (auto simp: Cons_eq_append_conv append_eq_Cons_conv)
  let ?h = "nx_list_remove n h"
  have h: "ln_next ?h = (ln_next h)(a := b, n := n)" "ln_prev ?h = (ln_prev h)(b := a, n := n)"
    using an bn lk by (auto simp: nx_list_remove_def Let_def)
  have "linked ?h (A @ [a])"
  proof (subst linked_cong [of _ _ h])
    show "x \<in> set (butlast (A @ [a])) \<Longrightarrow> ln_next ?h x = ln_next h x" for x using dA by (auto simp: h)
    show "x \<in> set (tl (A @ [a])) \<Longrightarrow> ln_prev ?h x = ln_prev h x" for x
      using dA hdr(2) bC by (cases zs; cases A) (auto simp: h)
  qed (rule lk(1))
  moreover have "linked ?h (b # C)"
  proof (subst linked_cong [of _ _ h])
    show "x \<in> set (butlast (b # C)) \<Longrightarrow> ln_next ?h x = ln_next h x" for x
      unfolding bC [symmetric] using dA by (auto simp: h)
    show "x \<in> set (tl (b # C)) \<Longrightarrow> ln_prev ?h x = ln_prev h x" for x
      using d bC hdr by (cases zs) (auto simp: h)
  qed (rule lk(6))
  moreover have "ln_next ?h a = b" "ln_prev ?h b = a" using an bn by (simp_all add: h)
  ultimately have "linked ?h (A @ a # b # C)" by (subst linked_append) simp
  moreover have "A @ a # b # C = hdr # (ys @ zs) @ [hdr]"
    using Aa bC by (metis append.assoc append_Cons append_Nil)
  ultimately show ?thesis using d by (simp add: is_list_def)
qed

lemma is_list_remove:
  assumes "is_list h hdr xs" "n \<in> set xs"
  shows "is_list (nx_list_remove n h) hdr (remove1 n xs)"
proof -
  obtain ys zs where "xs = ys @ n # zs" "n \<notin> set ys" using split_list_first [OF assms(2)] by blast
  then show ?thesis using is_list_removal [of h hdr ys n zs] assms(1) by (simp add: remove1_append)
qed

text \<open>Removing a node that points to itself changes nothing.\<close>

lemma nx_list_remove_self: "ln_next h n = n \<Longrightarrow> ln_prev h n = n \<Longrightarrow> nx_list_remove n h = h"
  by (simp add: nx_list_remove_def Let_def set_next_def set_prev_def fun_upd_idem)

lemma nx_list_remove_self_linked: "ln_next (nx_list_remove n h) n = n \<and> ln_prev (nx_list_remove n h) n = n"
  by (simp add: nx_list_remove_def Let_def)

text \<open>The loop visits the nodes of the list, and one test per node and one at the end are enough.\<close>

lemma for_each_linked:
  "linked h (xs @ [hdr]) \<Longrightarrow> hdr \<notin> set xs \<Longrightarrow> length xs < fuel \<Longrightarrow>
     nx_list_for_each fuel h hdr (case xs of [] \<Rightarrow> hdr | x # _ \<Rightarrow> x) = Some xs"
proof (induction xs arbitrary: fuel)
  case Nil
  then show ?case by (cases fuel) auto
next
  case (Cons x xs)
  then obtain f where f: "fuel = Suc f" by (cases fuel) auto
  have "ln_next h x = (case xs of [] \<Rightarrow> hdr | y # _ \<Rightarrow> y)" "linked h (xs @ [hdr])"
    using Cons.prems(1) by (cases xs; simp)+
  with Cons f show ?case by auto
qed

lemma is_list_for_each:
  assumes "is_list h hdr xs" "length xs < fuel"
  shows "nx_list_for_each fuel h hdr (ln_next h hdr) = Some xs"
proof -
  have "linked h (xs @ [hdr])" using assms(1) by (cases xs) (auto simp: is_list_def)
  then show ?thesis
    using for_each_linked [of h xs hdr fuel] assms is_list_next [OF assms(1)] by (simp add: is_list_def)
qed

lemma is_list_pop_front:
  "is_list h hdr xs \<Longrightarrow> nx_list_pop_front hdr h =
     (case xs of [] \<Rightarrow> (None, h) | x # _ \<Rightarrow> (Some x, nx_list_remove x h))"
  by (auto simp: nx_list_pop_front_def is_list_empty_iff is_list_next split: list.split)

lemma is_list_node_links:
  "is_list h hdr xs \<Longrightarrow> a \<in> set (hdr # xs) \<Longrightarrow> ln_next h a \<in> set (hdr # xs) \<and> ln_prev h a \<in> set (hdr # xs)"
proof -
  assume l: "is_list h hdr xs" and a: "a \<in> set (hdr # xs)"
  from a obtain ys zs where s: "hdr # xs = ys @ a # zs" by (meson split_list)
  have e: "hdr # xs @ [hdr] = ys @ a # zs @ [hdr]" using arg_cong [OF s, of "\<lambda>l. l @ [hdr]"] by simp
  have lk: "linked h (ys @ a # zs @ [hdr])" unfolding e [symmetric] using l unfolding is_list_def by (rule conjunct1)
  then have "linked h (a # zs @ [hdr])" using linked_append [of h ys a "zs @ [hdr]"] by simp
  then have n: "ln_next h a = (case zs of [] \<Rightarrow> hdr | z # _ \<Rightarrow> z)" by (cases zs) auto
  have p: "ln_prev h a = (if xs = [] then hdr else last xs)" if "ys = []"
    using that s is_list_prev [OF l] by simp
  have "ln_prev h a = last ys" if ne: "ys \<noteq> []"
  proof -
    obtain us u where "ys = us @ [u]" using ne by (meson rev_exhaust)
    then show ?thesis using lk linked_append [of h us u "a # zs @ [hdr]"] by simp
  qed
  with n p s show ?thesis
    by (cases zs; cases "ys = []") (auto simp: Cons_eq_append_conv split: if_splits)
qed

lemma add_tail_frame:
  assumes "is_list h h1 xs" "is_list h h2 ys" "set (h1 # xs) \<inter> set (h2 # ys) = {}" "n \<notin> set (h2 # ys)"
  shows "is_list (nx_list_add_tail h1 n h) h2 ys"
proof (rule is_list_frame [OF assms(2)])
  fix a assume a: "a \<in> set (h2 # ys)"
  have p: "ln_prev h h1 \<in> set (h1 # xs)" using is_list_node_links [OF assms(1)] by simp
  then have "ln_next h (ln_prev h h1) \<in> set (h1 # xs)" using is_list_node_links [OF assms(1)] by blast
  then have "a \<noteq> ln_prev h h1" "a \<noteq> ln_next h (ln_prev h h1)" "a \<noteq> n" using a p assms(3,4) by blast+
  then show "ln_next (nx_list_add_tail h1 n h) a = ln_next h a \<and> ln_prev (nx_list_add_tail h1 n h) a = ln_prev h a"
    by (simp add: nx_list_add_tail_def nx_list_add_after_def Let_def)
qed

lemma remove_frame:
  assumes "is_list h h1 xs" "n \<in> set xs" "is_list h h2 ys" "set (h1 # xs) \<inter> set (h2 # ys) = {}"
  shows "is_list (nx_list_remove n h) h2 ys"
proof (rule is_list_frame [OF assms(3)])
  fix a assume a: "a \<in> set (h2 # ys)"
  have "ln_next h n \<in> set (h1 # xs)" "ln_prev h n \<in> set (h1 # xs)"
    using is_list_node_links [OF assms(1)] assms(2) by auto
  then have "a \<noteq> ln_next h n" "a \<noteq> ln_prev h n" "a \<noteq> n" using a assms(2,4) by auto
  then show "ln_next (nx_list_remove n h) a = ln_next h a \<and> ln_prev (nx_list_remove n h) a = ln_prev h a"
    by (simp add: nx_list_remove_def Let_def)
qed

lemma for_each_trapped:
  assumes "\<And>v. v \<in> S \<Longrightarrow> v \<noteq> hdr \<and> ln_next h v \<in> S"
  shows "v \<in> S \<Longrightarrow> nx_list_for_each fuel h hdr v = None"
proof (induction fuel arbitrary: v)
  case (Suc fuel)
  from assms [OF Suc.prems] Suc.IH [of "ln_next h v"] show ?case by simp
qed simp

lemma linked_next_mem: "linked h (ys @ [z]) \<Longrightarrow> v \<in> set ys \<Longrightarrow> ln_next h v \<in> set (tl (ys @ [z]))"
proof (induction ys)
  case (Cons y ys)
  show ?case
  proof (cases ys)
    case Nil
    then show ?thesis using Cons.prems by simp
  next
    case (Cons y' ys')
    then have "ln_next h y = y'" "linked h (ys @ [z])" using Cons.prems(1) by auto
    then show ?thesis using Cons.prems(2) Cons.IH Cons by (auto dest: list.set_sel(2) [rotated])
  qed
qed simp

section \<open>Properties\<close>

text \<open>
  C35. The pointer operations implement lists: on a store that holds the list \<open>xs\<close> under a sentinel,
  adding a fresh node at the tail appends it, removing a member deletes it, popping returns and
  deletes the first node or reports the empty list, the emptiness test is right, and the traversal visits
  exactly \<open>xs\<close> in order and ends; and a second list in the same store with other nodes is left as it is.\<close>

theorem intrusive_list_implements_list:
  assumes "is_list h hdr xs" "is_list h hdr' ys" "set (hdr # xs) \<inter> set (hdr' # ys) = {}"
  shows "(n \<notin> set (hdr # xs) \<union> set (hdr' # ys) \<longrightarrow>
            is_list (nx_list_add_tail hdr n h) hdr (xs @ [n]) \<and> is_list (nx_list_add_tail hdr n h) hdr' ys) \<and>
         (n \<in> set xs \<longrightarrow>
            is_list (nx_list_remove n h) hdr (remove1 n xs) \<and> is_list (nx_list_remove n h) hdr' ys) \<and>
         (case nx_list_pop_front hdr h of
            (None, h') \<Rightarrow> xs = [] \<and> h' = h
          | (Some x, h') \<Rightarrow> \<exists>r. xs = x # r \<and> is_list h' hdr r \<and> is_list h' hdr' ys) \<and>
         (nx_list_empty hdr h \<longleftrightarrow> xs = []) \<and>
         nx_list_for_each (Suc (length xs)) h hdr (ln_next h hdr) = Some xs"
proof -
  have "case nx_list_pop_front hdr h of
            (None, h') \<Rightarrow> xs = [] \<and> h' = h
          | (Some x, h') \<Rightarrow> \<exists>r. xs = x # r \<and> is_list h' hdr r \<and> is_list h' hdr' ys"
    using is_list_remove [OF assms(1), of "hd xs"] remove_frame [OF assms(1) _ assms(2,3), of "hd xs"]
    by (cases xs) (simp_all add: is_list_pop_front [OF assms(1)])
  then show ?thesis
    using is_list_add_tail [OF assms(1), of n] add_tail_frame [OF assms, of n] is_list_remove [OF assms(1), of n]
      remove_frame [OF assms(1) _ assms(2,3), of n] is_list_empty_iff [OF assms(1)]
      is_list_for_each [OF assms(1), of "Suc (length xs)"]
    by simp
qed

text \<open>A store with the list 1, 2 under the sentinel 100 and the list 3 under 200.\<close>

definition demo_links :: "nat links" where
  "demo_links = nx_list_add_tail 200 3 (nx_list_init 200 (nx_list_add_tail 100 2 (nx_list_add_tail 100 1
     (nx_list_init 100 \<lparr>ln_next = \<lambda>n. n, ln_prev = \<lambda>n. n\<rparr>))))"

lemma demo_links_lists: "is_list demo_links 100 [1, 2]" "is_list demo_links 200 [3]"
  by (simp_all add: is_list_def demo_links_def nx_list_add_tail_def nx_list_add_after_def nx_list_init_def Let_def)

theorem intrusive_list_implements_list_witness:
  "is_list (nx_list_add_tail 100 9 demo_links) 100 [1, 2, 9] \<and>
   is_list (nx_list_remove 1 demo_links) 100 [2] \<and> is_list (nx_list_remove 1 demo_links) 200 [3] \<and>
   nx_list_for_each 3 demo_links 100 (ln_next demo_links 100) = Some [1, 2]"
proof -
  have d: "set (100 # [1, 2]) \<inter> set (200 # [3 :: nat]) = {}" by simp
  note P = intrusive_list_implements_list [OF demo_links_lists d]
  show ?thesis using P [of 9] P [of 1] by (simp add: numeral_3_eq_3)
qed

text \<open>
  Linking a node that is still on another list breaks the other list for good: after
  \<^verbatim>\<open>nx_list_add_tail\<close> of such a node, a traversal of its former list never ends.\<close>

theorem double_link_traps_traversal:
  assumes l1: "is_list h hdr xs" and l2: "is_list h hdr' ys" and d: "set (hdr # xs) \<inter> set (hdr' # ys) = {}"
    and n: "n \<in> set xs"
  shows "nx_list_for_each fuel (nx_list_add_tail hdr' n h) hdr (ln_next (nx_list_add_tail hdr' n h) hdr) = None"
proof -
  let ?h = "nx_list_add_tail hdr' n h" and ?p = "ln_prev h hdr'"
  obtain as bs where xs: "xs = as @ n # bs" and nas: "n \<notin> set as" using split_list_first [OF n] by blast
  have dx: "distinct (hdr # xs)" using l1 by (simp add: is_list_def)
  have p: "?p \<in> set (hdr' # ys)" using is_list_node_links [OF l2] by simp
  have np: "n \<noteq> ?p" using p n d by auto
  have pn: "ln_next h ?p = hdr'"
  proof (cases ys rule: rev_cases)
    case Nil
    then show ?thesis using l2 by (simp add: is_list_def)
  next
    case (snoc zs z)
    then have "linked h ((hdr' # zs) @ z # [hdr'])" using l2 by (simp add: is_list_def)
    then have "linked h (z # [hdr'])" using linked_append [of h "hdr' # zs" z "[hdr']"] by simp
    then show ?thesis using is_list_prev [OF l2] snoc by simp
  qed
  have nx: "ln_next ?h = (ln_next h)(n := hdr', ?p := n)"
    using np pn by (simp add: nx_list_add_tail_def nx_list_add_after_def Let_def)
  have "linked h ((hdr # as) @ n # bs @ [hdr])" using l1 unfolding xs by (simp add: is_list_def)
  then have pre: "linked h ((hdr # as) @ [n])" using linked_append [of h "hdr # as" n "bs @ [hdr]"] by simp
  define S where "S = set as \<union> {n} \<union> set (hdr' # ys)"
  have nxt: "ln_next ?h v \<in> S" if v: "v \<in> insert hdr S" for v
  proof (cases "v = n \<or> v = ?p")
    case True
    then show ?thesis by (auto simp: nx S_def)
  next
    case False
    then have e: "ln_next ?h v = ln_next h v" by (simp add: nx)
    have "v \<in> set (hdr # as) \<or> v \<in> set (hdr' # ys)" using v False unfolding S_def by auto
    then show ?thesis
    proof
      assume "v \<in> set (hdr # as)"
      from linked_next_mem [OF pre this] show ?thesis unfolding e S_def by auto
    next
      assume "v \<in> set (hdr' # ys)"
      from is_list_node_links [OF l2 this] show ?thesis unfolding e S_def by auto
    qed
  qed
  have "hdr \<notin> S" using dx d n unfolding S_def xs by auto
  then have closed: "v \<noteq> hdr \<and> ln_next ?h v \<in> S" if "v \<in> S" for v using nxt that by blast
  have "ln_next ?h hdr \<in> S" by (rule nxt) simp
  then show ?thesis using for_each_trapped [of S hdr ?h "ln_next ?h hdr" fuel] closed by blast
qed

theorem double_link_traps_traversal_witness:
  "nx_list_for_each 1000 (nx_list_add_tail 200 1 demo_links) 100 (ln_next (nx_list_add_tail 200 1 demo_links) 100) = None"
  by (rule double_link_traps_traversal [OF demo_links_lists]) simp_all

end
