(* ===== verification/Nx_Sched.thy ===== *)
theory Nx_Sched
  imports Nx_List "HOL-Library.Multiset"
begin

text \<open>
  Tasks (\<^verbatim>\<open>core/sched/task.h\<close>), the scheduler interface (\<^verbatim>\<open>interfaces/scheduler.h\<close>) and its two
  policies, round robin (\<^verbatim>\<open>components/sched_rr\<close>) and fixed priorities (\<^verbatim>\<open>components/sched_priority\<close>), in
  the kernel build. A task is named by its index in the task list, the idle task by 0. A run queue
  is the list of the tasks linked on it; the theory of intrusive lists shows that the link operations
  do to the links what the list functions here do to the lists. The locale \<open>scheduler_policy\<close> is the contract
  of the interface, and both policies are interpretations of it.
\<close>

section \<open>Tasks\<close>

datatype nx_task_state = NX_TASK_READY | NX_TASK_RUNNING | NX_TASK_BLOCKED | NX_TASK_ZOMBIE

type_synonym task_id = nat
type_synonym process_id = nat

abbreviation (input) g_idle_task :: task_id where "g_idle_task \<equiv> 0"
abbreviation (input) g_kernel_process :: process_id where "g_kernel_process \<equiv> 0"

record nx_deadline =
  dl_start :: u64
  dl_threshold :: u64
  dl_valid :: bool

text \<open>
  \<open>tk_switched_out\<close> stands for the saved program counter: it says that the saved context is the one
  of a task that is inside \<^verbatim>\<open>sched_check_resched\<close>, just after \<^verbatim>\<open>cpu_switch_to\<close>.
\<close>

record nx_task =
  tk_state :: nx_task_state
  tk_preempt_count :: int
  tk_need_resched :: bool
  tk_process :: "process_id option"
  tk_tpidr_el0 :: u64
  tk_wait_q :: "nat option"
  tk_wait_deadline :: nx_deadline
  tk_wait_has_deadline :: bool
  tk_wait_woken :: bool
  tk_switched_out :: bool

record cpu =
  cpu_tasks :: "nx_task list"
  cpu_current :: "task_id option"

abbreviation task :: "cpu \<Rightarrow> task_id \<Rightarrow> nx_task" where
  "task c t \<equiv> cpu_tasks c ! t"

definition upd_task :: "task_id \<Rightarrow> (nx_task \<Rightarrow> nx_task) \<Rightarrow> cpu \<Rightarrow> cpu" where
  "upd_task t f c = c\<lparr>cpu_tasks := (cpu_tasks c)[t := f (task c t)]\<rparr>"

lemma upd_task_simps [simp]:
  "length (cpu_tasks (upd_task t f c)) = length (cpu_tasks c)"
  "cpu_current (upd_task t f c) = cpu_current c"
  by (simp_all add: upd_task_def)

lemma task_upd_task: "t < length (cpu_tasks c) \<Longrightarrow> task (upd_task t f c) u = (if u = t then f (task c t) else task c u)"
  by (simp add: upd_task_def nth_list_update)

lemma task_upd_field:
  "(\<And>k. p (f k) = p k) \<Longrightarrow> p (task (upd_task t f c) u) = p (task c u)"
  by (cases "u = t"; cases "t < length (cpu_tasks c)") (simp_all add: upd_task_def list_update_beyond)

section \<open>The interface\<close>

record 's nx_scheduler_ops =
  so_pick_next :: "cpu \<Rightarrow> 's \<Rightarrow> task_id option"
  so_enqueue :: "cpu \<Rightarrow> 's \<Rightarrow> task_id option \<Rightarrow> cpu \<times> 's \<times> nx_status"
  so_dequeue :: "'s \<Rightarrow> task_id option \<Rightarrow> 's \<times> nx_status"
  so_yield :: "cpu \<Rightarrow> 's \<Rightarrow> 's"
  so_set_priority :: "'s \<Rightarrow> task_id option \<Rightarrow> int \<Rightarrow> 's \<times> nx_status"
  so_tick :: "cpu \<Rightarrow> 's \<Rightarrow> cpu \<times> 's"
  so_runqueue_size :: "'s \<Rightarrow> nat"

text \<open>
  Shared by both policies: when a task other than idle becomes runnable while idle runs, idle is
  flagged for rescheduling.
\<close>

definition flag_idle :: "task_id \<Rightarrow> cpu \<Rightarrow> cpu" where
  "flag_idle t c =
     (if cpu_current c = Some g_idle_task \<and> t \<noteq> g_idle_task
      then upd_task g_idle_task (\<lambda>k. k\<lparr>tk_need_resched := True\<rparr>) c else c)"

section \<open>Round robin\<close>

abbreviation (input) SCHED_RR_DEFAULT_QUANTUM_TICKS :: u32 where "SCHED_RR_DEFAULT_QUANTUM_TICKS \<equiv> 2"

record sched_rr_state =
  runqueue :: "task_id list"
  quantum_ticks :: u32
  remaining :: u32
  init_called :: u32
  enable_called :: u32
  disable_called :: u32
  destroy_called :: u32

definition on_queue :: "sched_rr_state \<Rightarrow> task_id \<Rightarrow> bool" where
  "on_queue s t \<longleftrightarrow> t \<in> set (runqueue s)"

definition sched_rr_pick_next :: "cpu \<Rightarrow> sched_rr_state \<Rightarrow> task_id option" where
  "sched_rr_pick_next c s = find (\<lambda>t. tk_state (task c t) \<noteq> NX_TASK_BLOCKED) (runqueue s)"

definition sched_rr_enqueue :: "cpu \<Rightarrow> sched_rr_state \<Rightarrow> task_id option \<Rightarrow> cpu \<times> sched_rr_state \<times> nx_status" where
  "sched_rr_enqueue c s tsk =
     (case tsk of
        None \<Rightarrow> (c, s, NX_EINVAL)
      | Some t \<Rightarrow>
          if on_queue s t then (c, s, NX_EEXIST)
          else (flag_idle t c, s\<lparr>runqueue := runqueue s @ [t]\<rparr>, NX_OK))"

definition sched_rr_dequeue :: "sched_rr_state \<Rightarrow> task_id option \<Rightarrow> sched_rr_state \<times> nx_status" where
  "sched_rr_dequeue s tsk =
     (case tsk of
        None \<Rightarrow> (s, NX_EINVAL)
      | Some t \<Rightarrow>
          if \<not> on_queue s t then (s, NX_ENOENT)
          else (s\<lparr>runqueue := remove1 t (runqueue s)\<rparr>, NX_OK))"

text \<open>\<open>user_task\<close> is the guard of both purge loops, which unlink one node per turn.\<close>

definition user_task :: "cpu \<Rightarrow> task_id option \<Rightarrow> task_id \<Rightarrow> bool" where
  "user_task c keep t \<longleftrightarrow> Some t \<noteq> keep \<and>
     (case tk_process (task c t) of None \<Rightarrow> False | Some p \<Rightarrow> p \<noteq> g_kernel_process)"

definition sched_rr_purge_user_tasks :: "cpu \<Rightarrow> sched_rr_state \<Rightarrow> task_id option \<Rightarrow> sched_rr_state" where
  "sched_rr_purge_user_tasks c s keep =
     fold (\<lambda>t s. if user_task c keep t then s\<lparr>runqueue := remove1 t (runqueue s)\<rparr> else s) (runqueue s) s"

definition sched_rr_yield :: "cpu \<Rightarrow> sched_rr_state \<Rightarrow> sched_rr_state" where
  "sched_rr_yield c s =
     (case runqueue s of
        [] \<Rightarrow> s
      | t # ts \<Rightarrow> s\<lparr>runqueue := ts @ [t], remaining := quantum_ticks s\<rparr>)"

definition sched_rr_runqueue_size :: "sched_rr_state \<Rightarrow> nat" where
  "sched_rr_runqueue_size s = fold (\<lambda>t n. if t = g_idle_task then n else n + 1) (runqueue s) 0"

definition sched_rr_set_priority :: "sched_rr_state \<Rightarrow> task_id option \<Rightarrow> int \<Rightarrow> sched_rr_state \<times> nx_status" where
  "sched_rr_set_priority s tsk priority = (case tsk of None \<Rightarrow> (s, NX_EINVAL) | Some t \<Rightarrow> (s, NX_EINVAL))"

definition sched_rr_tick :: "cpu \<Rightarrow> sched_rr_state \<Rightarrow> cpu \<times> sched_rr_state" where
  "sched_rr_tick c s =
     (case cpu_current c of
        None \<Rightarrow> (c, s)
      | Some cur \<Rightarrow>
          let s1 = (if remaining s > 0 then s\<lparr>remaining := remaining s - 1\<rparr> else s) in
          if remaining s1 = 0
          then (upd_task cur (\<lambda>k. k\<lparr>tk_need_resched := True\<rparr>) c, s1\<lparr>remaining := quantum_ticks s1\<rparr>)
          else (c, s1))"

definition sched_rr_scheduler_ops :: "sched_rr_state nx_scheduler_ops" where
  "sched_rr_scheduler_ops =
     \<lparr>so_pick_next = sched_rr_pick_next, so_enqueue = sched_rr_enqueue, so_dequeue = sched_rr_dequeue,
      so_yield = sched_rr_yield, so_set_priority = sched_rr_set_priority, so_tick = sched_rr_tick,
      so_runqueue_size = sched_rr_runqueue_size\<rparr>"

definition sched_rr_init :: "sched_rr_state \<Rightarrow> sched_rr_state \<times> nx_status" where
  "sched_rr_init s =
     (s\<lparr>runqueue := [], quantum_ticks := SCHED_RR_DEFAULT_QUANTUM_TICKS,
        remaining := SCHED_RR_DEFAULT_QUANTUM_TICKS, init_called := init_called s + 1\<rparr>, NX_OK)"

text \<open>The call of \<^verbatim>\<open>sched_init\<close> makes this policy the one the core driver is given.\<close>

definition sched_rr_enable :: "cpu \<Rightarrow> sched_rr_state \<Rightarrow> cpu \<times> sched_rr_state \<times> nx_status" where
  "sched_rr_enable c s =
     (let s1 = s\<lparr>enable_called := enable_called s + 1\<rparr> in
      if \<not> on_queue s1 g_idle_task
      then case sched_rr_enqueue c s1 (Some g_idle_task) of (c', s2, _) \<Rightarrow> (c', s2, NX_OK)
      else (c, s1, NX_OK))"

definition sched_rr_disable :: "sched_rr_state \<Rightarrow> sched_rr_state \<times> nx_status" where
  "sched_rr_disable s = (s\<lparr>disable_called := disable_called s + 1\<rparr>, NX_OK)"

definition sched_rr_destroy :: "sched_rr_state \<Rightarrow> sched_rr_state" where
  "sched_rr_destroy s = s\<lparr>destroy_called := destroy_called s + 1\<rparr>"

section \<open>Fixed priorities\<close>

abbreviation (input) SCHED_PRIORITY_LEVELS :: nat where "SCHED_PRIORITY_LEVELS \<equiv> 8"
abbreviation (input) SCHED_PRIORITY_DEFAULT :: nat where "SCHED_PRIORITY_DEFAULT \<equiv> 0"

record sched_priority_state =
  queues :: "task_id list list"
  pr_quantum_ticks :: u32
  pr_remaining :: u32
  pr_init_called :: u32
  pr_enable_called :: u32
  pr_disable_called :: u32
  pr_destroy_called :: u32

text \<open>The level of a queued task, \<open>None\<close> for the C value -1.\<close>

definition task_priority :: "sched_priority_state \<Rightarrow> task_id \<Rightarrow> nat option" where
  "task_priority s t = find (\<lambda>p. t \<in> set (queues s ! p)) [0..<SCHED_PRIORITY_LEVELS]"

definition pr_on_queue :: "sched_priority_state \<Rightarrow> task_id \<Rightarrow> bool" where
  "pr_on_queue s t \<longleftrightarrow> task_priority s t \<noteq> None"

text \<open>The loop over the buckets from the highest index below \<open>p\<close> down to 0.\<close>

fun pick_from :: "cpu \<Rightarrow> sched_priority_state \<Rightarrow> nat \<Rightarrow> task_id option" where
  "pick_from c s 0 = None"
| "pick_from c s (Suc p) =
     (case find (\<lambda>t. tk_state (task c t) \<noteq> NX_TASK_BLOCKED) (queues s ! p) of
        Some t \<Rightarrow> Some t
      | None \<Rightarrow> pick_from c s p)"

definition sched_priority_pick_next :: "cpu \<Rightarrow> sched_priority_state \<Rightarrow> task_id option" where
  "sched_priority_pick_next c s = pick_from c s SCHED_PRIORITY_LEVELS"

definition pr_add_tail :: "nat \<Rightarrow> task_id \<Rightarrow> sched_priority_state \<Rightarrow> sched_priority_state" where
  "pr_add_tail p t s = s\<lparr>queues := (queues s)[p := queues s ! p @ [t]]\<rparr>"

text \<open>Unlinking a node takes it off whichever bucket it is on.\<close>

definition pr_remove :: "task_id \<Rightarrow> sched_priority_state \<Rightarrow> sched_priority_state" where
  "pr_remove t s = s\<lparr>queues := map (remove1 t) (queues s)\<rparr>"

definition sched_priority_enqueue ::
  "cpu \<Rightarrow> sched_priority_state \<Rightarrow> task_id option \<Rightarrow> cpu \<times> sched_priority_state \<times> nx_status"
where
  "sched_priority_enqueue c s tsk =
     (case tsk of
        None \<Rightarrow> (c, s, NX_EINVAL)
      | Some t \<Rightarrow>
          if pr_on_queue s t then (c, s, NX_EEXIST)
          else (flag_idle t c, pr_add_tail SCHED_PRIORITY_DEFAULT t s, NX_OK))"

definition sched_priority_dequeue :: "sched_priority_state \<Rightarrow> task_id option \<Rightarrow> sched_priority_state \<times> nx_status" where
  "sched_priority_dequeue s tsk =
     (case tsk of
        None \<Rightarrow> (s, NX_EINVAL)
      | Some t \<Rightarrow> if \<not> pr_on_queue s t then (s, NX_ENOENT) else (pr_remove t s, NX_OK))"

text \<open>The fallback of the yield: rotate the highest non-empty bucket below \<open>p\<close>.\<close>

fun rotate_highest :: "sched_priority_state \<Rightarrow> nat \<Rightarrow> sched_priority_state" where
  "rotate_highest s 0 = s"
| "rotate_highest s (Suc p) =
     (case queues s ! p of
        [] \<Rightarrow> rotate_highest s p
      | t # _ \<Rightarrow> (pr_add_tail p t (pr_remove t s))\<lparr>pr_remaining := pr_quantum_ticks s\<rparr>)"

definition sched_priority_yield :: "cpu \<Rightarrow> sched_priority_state \<Rightarrow> sched_priority_state" where
  "sched_priority_yield c s =
     (case cpu_current c of
        None \<Rightarrow> rotate_highest s SCHED_PRIORITY_LEVELS
      | Some cur \<Rightarrow>
          (case task_priority s cur of
             None \<Rightarrow> rotate_highest s SCHED_PRIORITY_LEVELS
           | Some p \<Rightarrow> (pr_add_tail p cur (pr_remove cur s))\<lparr>pr_remaining := pr_quantum_ticks s\<rparr>))"

definition sched_priority_set_priority ::
  "sched_priority_state \<Rightarrow> task_id option \<Rightarrow> int \<Rightarrow> sched_priority_state \<times> nx_status"
where
  "sched_priority_set_priority s tsk priority =
     (case tsk of
        None \<Rightarrow> (s, NX_EINVAL)
      | Some t \<Rightarrow>
          if priority < 0 \<or> priority \<ge> int SCHED_PRIORITY_LEVELS then (s, NX_EINVAL)
          else case task_priority s t of
              None \<Rightarrow> (s, NX_ENOENT)
            | Some cur_p \<Rightarrow>
                if int cur_p = priority then (s, NX_OK)
                else (pr_add_tail (nat priority) t (pr_remove t s), NX_OK))"

definition sched_priority_tick :: "cpu \<Rightarrow> sched_priority_state \<Rightarrow> cpu \<times> sched_priority_state" where
  "sched_priority_tick c s =
     (case cpu_current c of
        None \<Rightarrow> (c, s)
      | Some cur \<Rightarrow>
          let s1 = (if pr_remaining s > 0 then s\<lparr>pr_remaining := pr_remaining s - 1\<rparr> else s) in
          if pr_remaining s1 = 0
          then (upd_task cur (\<lambda>k. k\<lparr>tk_need_resched := True\<rparr>) c, s1\<lparr>pr_remaining := pr_quantum_ticks s1\<rparr>)
          else (c, s1))"

definition sched_priority_runqueue_size :: "sched_priority_state \<Rightarrow> nat" where
  "sched_priority_runqueue_size s =
     fold (\<lambda>p n. fold (\<lambda>t n. if t = g_idle_task then n else n + 1) (queues s ! p) n) [0..<SCHED_PRIORITY_LEVELS] 0"

definition sched_priority_scheduler_ops :: "sched_priority_state nx_scheduler_ops" where
  "sched_priority_scheduler_ops =
     \<lparr>so_pick_next = sched_priority_pick_next, so_enqueue = sched_priority_enqueue,
      so_dequeue = sched_priority_dequeue, so_yield = sched_priority_yield,
      so_set_priority = sched_priority_set_priority, so_tick = sched_priority_tick,
      so_runqueue_size = sched_priority_runqueue_size\<rparr>"

definition sched_priority_init :: "sched_priority_state \<Rightarrow> sched_priority_state \<times> nx_status" where
  "sched_priority_init s =
     (s\<lparr>queues := replicate SCHED_PRIORITY_LEVELS [], pr_quantum_ticks := 2, pr_remaining := 2,
        pr_init_called := pr_init_called s + 1\<rparr>, NX_OK)"

definition sched_priority_enable :: "sched_priority_state \<Rightarrow> sched_priority_state \<times> nx_status" where
  "sched_priority_enable s = (s\<lparr>pr_enable_called := pr_enable_called s + 1\<rparr>, NX_OK)"

definition sched_priority_disable :: "sched_priority_state \<Rightarrow> sched_priority_state \<times> nx_status" where
  "sched_priority_disable s = (s\<lparr>pr_disable_called := pr_disable_called s + 1\<rparr>, NX_OK)"

definition sched_priority_destroy :: "sched_priority_state \<Rightarrow> sched_priority_state" where
  "sched_priority_destroy s = s\<lparr>pr_destroy_called := pr_destroy_called s + 1\<rparr>"

definition sched_priority_purge_user_tasks ::
  "cpu \<Rightarrow> sched_priority_state \<Rightarrow> task_id option \<Rightarrow> sched_priority_state"
where
  "sched_priority_purge_user_tasks c s keep =
     fold (\<lambda>p s. fold (\<lambda>t s. if user_task c keep t then pr_remove t s else s) (queues s ! p) s)
       [0..<SCHED_PRIORITY_LEVELS] s"

section \<open>The contract\<close>

text \<open>
  What the header of the interface promises of a policy. \<open>queue s\<close> lists the queued tasks in the
  order in which \<^verbatim>\<open>pick_next\<close> considers them.
\<close>

datatype sched_event = SEnq "task_id option" | SDeq "task_id option" | SYield | STick | SPrio "task_id option" int

fun sched_step :: "'s nx_scheduler_ops \<Rightarrow> sched_event \<Rightarrow> cpu \<times> 's \<Rightarrow> (cpu \<times> 's) \<times> nx_status" where
  "sched_step ops (SEnq tsk) (c, s) = (case so_enqueue ops c s tsk of (c', s', r) \<Rightarrow> ((c', s'), r))"
| "sched_step ops (SDeq tsk) (c, s) = (case so_dequeue ops s tsk of (s', r) \<Rightarrow> ((c, s'), r))"
| "sched_step ops SYield (c, s) = ((c, so_yield ops c s), NX_OK)"
| "sched_step ops STick (c, s) = (so_tick ops c s, NX_OK)"
| "sched_step ops (SPrio tsk p) (c, s) = ((c, fst (so_set_priority ops s tsk p)), NX_OK)"

fun sched_run :: "'s nx_scheduler_ops \<Rightarrow> sched_event list \<Rightarrow> cpu \<times> 's \<Rightarrow> (cpu \<times> 's) \<times> nx_status list" where
  "sched_run ops [] z = (z, [])"
| "sched_run ops (ev # evs) z =
     (case sched_step ops ev z of (z', r) \<Rightarrow> case sched_run ops evs z' of (z'', rs) \<Rightarrow> (z'', r # rs))"

text \<open>The abstract run queue: a set of tasks, with the documented status codes.\<close>

fun runqueue_spec :: "sched_event \<Rightarrow> task_id set \<Rightarrow> task_id set \<times> nx_status" where
  "runqueue_spec (SEnq None) Q = (Q, NX_EINVAL)"
| "runqueue_spec (SEnq (Some t)) Q = (if t \<in> Q then (Q, NX_EEXIST) else (insert t Q, NX_OK))"
| "runqueue_spec (SDeq None) Q = (Q, NX_EINVAL)"
| "runqueue_spec (SDeq (Some t)) Q = (if t \<in> Q then (Q - {t}, NX_OK) else (Q, NX_ENOENT))"
| "runqueue_spec _ Q = (Q, NX_OK)"

fun runqueue_spec_run :: "sched_event list \<Rightarrow> task_id set \<Rightarrow> task_id set \<times> nx_status list" where
  "runqueue_spec_run [] Q = (Q, [])"
| "runqueue_spec_run (ev # evs) Q =
     (case runqueue_spec ev Q of (Q', r) \<Rightarrow> case runqueue_spec_run evs Q' of (Q'', rs) \<Rightarrow> (Q'', r # rs))"

locale scheduler_policy =
  fixes ops :: "'s nx_scheduler_ops"
    and invar :: "'s \<Rightarrow> bool"
    and queue :: "'s \<Rightarrow> task_id list"
  assumes distinct_queue: "invar s \<Longrightarrow> distinct (queue s)"
    and pick_next_find: "invar s \<Longrightarrow>
      so_pick_next ops c s = find (\<lambda>t. tk_state (task c t) \<noteq> NX_TASK_BLOCKED) (queue s)"
    and enqueue_null: "so_enqueue ops c s None = (c, s, NX_EINVAL)"
    and enqueue_queued: "invar s \<Longrightarrow> t \<in> set (queue s) \<Longrightarrow> so_enqueue ops c s (Some t) = (c, s, NX_EEXIST)"
    and enqueue_fresh: "invar s \<Longrightarrow> t \<notin> set (queue s) \<Longrightarrow>
      \<exists>s'. so_enqueue ops c s (Some t) = (flag_idle t c, s', NX_OK) \<and> invar s' \<and>
           set (queue s') = insert t (set (queue s)) \<and> remove1 t (queue s') = queue s"
    and dequeue_null: "so_dequeue ops s None = (s, NX_EINVAL)"
    and dequeue_unqueued: "invar s \<Longrightarrow> t \<notin> set (queue s) \<Longrightarrow> so_dequeue ops s (Some t) = (s, NX_ENOENT)"
    and dequeue_queued: "invar s \<Longrightarrow> t \<in> set (queue s) \<Longrightarrow>
      \<exists>s'. so_dequeue ops s (Some t) = (s', NX_OK) \<and> invar s' \<and> queue s' = remove1 t (queue s)"
    and yield_permutes: "invar s \<Longrightarrow> invar (so_yield ops c s) \<and> mset (queue (so_yield ops c s)) = mset (queue s)"
    and tick_keeps: "invar s \<Longrightarrow> so_tick ops c s = (c', s') \<Longrightarrow> invar s' \<and> queue s' = queue s \<and>
      (c' = c \<or> (\<exists>cur. cpu_current c = Some cur \<and> c' = upd_task cur (\<lambda>k. k\<lparr>tk_need_resched := True\<rparr>) c))"
    and set_priority_permutes: "invar s \<Longrightarrow> so_set_priority ops s tsk pr = (s', r) \<Longrightarrow>
      invar s' \<and> mset (queue s') = mset (queue s)"
    and runqueue_size_counts: "invar s \<Longrightarrow> so_runqueue_size ops s = length (filter (\<lambda>t. t \<noteq> g_idle_task) (queue s))"
begin

lemma pick_next_SomeD:
  "invar s \<Longrightarrow> so_pick_next ops c s = Some t \<Longrightarrow> t \<in> set (queue s) \<and> tk_state (task c t) \<noteq> NX_TASK_BLOCKED"
  by (auto simp: pick_next_find find_Some_iff)

lemma pick_next_None_iff:
  "invar s \<Longrightarrow> so_pick_next ops c s = None \<longleftrightarrow> (\<forall>t \<in> set (queue s). tk_state (task c t) = NX_TASK_BLOCKED)"
  by (auto simp: pick_next_find find_None_iff)

text \<open>Enqueueing a fresh task and dequeueing it restores the order of the others.\<close>

lemma enqueue_dequeue:
  assumes "invar s" "t \<notin> set (queue s)" "so_enqueue ops c s (Some t) = (c', s', r)"
  shows "r = NX_OK \<and> (\<exists>s''. so_dequeue ops s' (Some t) = (s'', NX_OK) \<and> queue s'' = queue s)"
proof -
  from enqueue_fresh [OF assms(1,2), of c] assms(3)
  have s': "r = NX_OK" "invar s'" "t \<in> set (queue s')" "remove1 t (queue s') = queue s" by auto
  with dequeue_queued [OF s'(2,3)] show ?thesis by metis
qed

lemma enqueue_invar:
  assumes "invar s" "so_enqueue ops c s tsk = (c', s', r)"
  shows "invar s'"
proof (cases tsk)
  case None
  then show ?thesis using assms enqueue_null by simp
next
  case (Some t)
  then show ?thesis
    using assms enqueue_queued [of s t c] enqueue_fresh [of s t c] by (cases "t \<in> set (queue s)") auto
qed

lemma dequeue_invar:
  assumes "invar s" "so_dequeue ops s tsk = (s', r)"
  shows "invar s'"
proof (cases tsk)
  case None
  then show ?thesis using assms dequeue_null by simp
next
  case (Some t)
  then show ?thesis
    using assms dequeue_unqueued [of s t] dequeue_queued [of s t] by (cases "t \<in> set (queue s)") auto
qed

lemma enqueue_set:
  "invar s \<Longrightarrow> so_enqueue ops c s (Some t) = (c', s', r) \<Longrightarrow> set (queue s') = insert t (set (queue s))"
  using enqueue_queued [of s t c] enqueue_fresh [of s t c] by (cases "t \<in> set (queue s)") auto

lemma dequeue_set:
  "invar s \<Longrightarrow> so_dequeue ops s (Some t) = (s', r) \<Longrightarrow> set (queue s') = set (queue s) - {t}"
  using dequeue_unqueued [of s t] dequeue_queued [of s t] distinct_queue [of s]
  by (cases "t \<in> set (queue s)") (auto simp: set_remove1_eq)

lemma yield_set: "invar s \<Longrightarrow> set (queue (so_yield ops c s)) = set (queue s)"
  using yield_permutes mset_eq_setD by blast

lemma step_refines:
  assumes "invar s" "sched_step ops ev (c, s) = ((c', s'), r)"
  shows "invar s' \<and> runqueue_spec ev (set (queue s)) = (set (queue s'), r)"
proof (cases ev)
  case (SEnq tsk)
  obtain c1 s1 r1 where e: "so_enqueue ops c s tsk = (c1, s1, r1)" by (metis surj_pair)
  then have eq: "c1 = c'" "s1 = s'" "r1 = r" using assms(2) SEnq by auto
  have inv: "invar s'" using enqueue_invar [OF assms(1) e] eq by simp
  show ?thesis
  proof (cases tsk)
    case None
    then show ?thesis using e eq enqueue_null [of c s] inv SEnq by simp
  next
    case (Some t)
    then show ?thesis
      using e eq inv SEnq enqueue_queued [OF assms(1), of t c] enqueue_fresh [OF assms(1), of t c]
      by (cases "t \<in> set (queue s)") auto
  qed
next
  case (SDeq tsk)
  obtain s1 r1 where e: "so_dequeue ops s tsk = (s1, r1)" by (metis surj_pair)
  then have eq: "s1 = s'" "r1 = r" using assms(2) SDeq by auto
  have inv: "invar s'" using dequeue_invar [OF assms(1) e] eq by simp
  show ?thesis
  proof (cases tsk)
    case None
    then show ?thesis using e eq dequeue_null [of s] inv SDeq by simp
  next
    case (Some t)
    then show ?thesis
      using e eq inv SDeq dequeue_unqueued [OF assms(1), of t] dequeue_queued [OF assms(1), of t]
        distinct_queue [OF assms(1)]
      by (cases "t \<in> set (queue s)") (auto simp: set_remove1_eq)
  qed
next
  case SYield
  then show ?thesis using assms yield_permutes [OF assms(1)] yield_set [OF assms(1)] by auto
next
  case STick
  then show ?thesis using assms tick_keeps [OF assms(1), of c] by (auto split: prod.splits)
next
  case (SPrio tsk pr)
  then show ?thesis
    using assms(2) set_priority_permutes [OF assms(1) surjective_pairing, of tsk pr] by (auto dest: mset_eq_setD)
qed

lemma run_refines:
  "invar s \<Longrightarrow> sched_run ops evs (c, s) = ((c', s'), rs) \<Longrightarrow>
     invar s' \<and> runqueue_spec_run evs (set (queue s)) = (set (queue s'), rs)"
proof (induction evs arbitrary: c s rs)
  case Nil
  then show ?case by simp
next
  case (Cons ev evs)
  obtain c1 s1 r where st: "sched_step ops ev (c, s) = ((c1, s1), r)" by (metis surj_pair)
  obtain z rs' where rn: "sched_run ops evs (c1, s1) = (z, rs')" by fastforce
  from step_refines [OF Cons.prems(1) st] Cons.IH [of s1 c1 rs'] Cons.prems(2) st rn show ?case by auto
qed

end

section \<open>Both policies satisfy the contract\<close>

lemma fold_count_nonidle: "fold (\<lambda>t n. if t = g_idle_task then n else n + 1) ts n = n + length (filter (\<lambda>t. t \<noteq> g_idle_task) ts)"
  by (induction ts arbitrary: n) auto

definition rr_inv :: "sched_rr_state \<Rightarrow> bool" where
  "rr_inv s \<longleftrightarrow> distinct (runqueue s)"

lemmas sched_rr_ops_defs = sched_rr_scheduler_ops_def sched_rr_pick_next_def sched_rr_enqueue_def
  sched_rr_dequeue_def sched_rr_yield_def sched_rr_set_priority_def sched_rr_runqueue_size_def on_queue_def

interpretation rr: scheduler_policy sched_rr_scheduler_ops rr_inv runqueue
proof (unfold_locales, goal_cases)
  case (9 s c)
  then show ?case by (cases "runqueue s") (auto simp: rr_inv_def sched_rr_ops_defs)
next
  case (10 s c c' s')
  then show ?case
    by (auto simp: sched_rr_scheduler_ops_def sched_rr_tick_def rr_inv_def Let_def split: option.splits if_splits)
next
  case (11 s tsk pr s' r)
  then show ?case by (cases tsk) (auto simp: sched_rr_ops_defs)
qed (simp_all add: rr_inv_def sched_rr_ops_defs fold_count_nonidle remove1_append)

definition prio_inv :: "sched_priority_state \<Rightarrow> bool" where
  "prio_inv s \<longleftrightarrow> length (queues s) = SCHED_PRIORITY_LEVELS \<and> distinct (concat (rev (queues s)))"

definition prio_queue :: "sched_priority_state \<Rightarrow> task_id list" where
  "prio_queue s = concat (rev (queues s))"

lemma prio_inv_length: "prio_inv s \<Longrightarrow> length (queues s) = 8"
  by (simp add: prio_inv_def)

lemma find_append: "find P (xs @ ys) = (case find P xs of Some x \<Rightarrow> Some x | None \<Rightarrow> find P ys)"
  by (induction xs) auto

lemma pick_from_find:
  "p \<le> length (queues s) \<Longrightarrow>
     pick_from c s p = find (\<lambda>t. tk_state (task c t) \<noteq> NX_TASK_BLOCKED) (concat (rev (take p (queues s))))"
  by (induction p) (auto simp: take_Suc_conv_app_nth find_append split: option.split)

lemma prio_pick_next:
  "prio_inv s \<Longrightarrow> sched_priority_pick_next c s = find (\<lambda>t. tk_state (task c t) \<noteq> NX_TASK_BLOCKED) (prio_queue s)"
  by (simp add: sched_priority_pick_next_def pick_from_find prio_inv_def prio_queue_def)

lemma bucket_in_queue: "prio_inv s \<Longrightarrow> p < 8 \<Longrightarrow> t \<in> set (queues s ! p) \<Longrightarrow> t \<in> set (prio_queue s)"
  by (auto simp: prio_queue_def prio_inv_def)

lemma distinct_concat_nth:
  "distinct (concat qs) \<Longrightarrow> i < length qs \<Longrightarrow> j < length qs \<Longrightarrow> x \<in> set (qs ! i) \<Longrightarrow> x \<in> set (qs ! j) \<Longrightarrow> i = j"
proof (induction qs arbitrary: i j)
  case (Cons q qs)
  have notin: "x \<notin> set (qs ! k)" if "k < length qs" "x \<in> set q" for k
    using Cons.prems(1) that(2) nth_mem [OF that(1)] by simp blast
  show ?case
  proof (cases i; cases j)
    fix j' assume "i = 0" "j = Suc j'"
    then show ?thesis using Cons.prems(3-5) notin [of j'] by simp
  next
    fix i' assume "i = Suc i'" "j = 0"
    then show ?thesis using Cons.prems(2,4,5) notin [of i'] by simp
  next
    fix i' j' assume "i = Suc i'" "j = Suc j'"
    then show ?thesis using Cons.prems Cons.IH [of i' j'] by simp
  qed simp
qed simp

lemma distinct_concat_rev: "distinct (concat (rev qs)) = distinct (concat qs)"
  by (rule mset_eq_imp_distinct_iff) (simp add: mset_concat sum_list_rev flip: rev_map)

lemma bucket_unique:
  "prio_inv s \<Longrightarrow> p < 8 \<Longrightarrow> q < 8 \<Longrightarrow> t \<in> set (queues s ! p) \<Longrightarrow> t \<in> set (queues s ! q) \<Longrightarrow> p = q"
  using distinct_concat_nth [of "queues s" p q t] by (simp add: prio_inv_def distinct_concat_rev)

lemma task_priority_Some_iff:
  "prio_inv s \<Longrightarrow> task_priority s t = Some p \<longleftrightarrow> p < 8 \<and> t \<in> set (queues s ! p)"
  unfolding task_priority_def find_Some_iff
  by (auto intro!: exI [of _ p]) (metis bucket_unique less_trans nat_neq_iff)

lemma task_priority_None_iff: "prio_inv s \<Longrightarrow> task_priority s t = None \<longleftrightarrow> t \<notin> set (prio_queue s)"
  by (auto simp: task_priority_def find_None_iff prio_queue_def in_set_conv_nth [of _ "queues s"] prio_inv_def
      atLeast0LessThan lessThan_iff) (metis nth_mem)

lemma pr_on_queue_iff: "prio_inv s \<Longrightarrow> pr_on_queue s t \<longleftrightarrow> t \<in> set (prio_queue s)"
  using task_priority_None_iff by (simp add: pr_on_queue_def)

lemma mset_prio_add_tail:
  assumes "p < length (queues s)"
  shows "mset (prio_queue (pr_add_tail p t s)) = add_mset t (mset (prio_queue s))"
proof -
  obtain A q B where q: "queues s = A @ q # B" and p: "length A = p"
    using assms by (metis id_take_nth_drop length_take min.absorb4)
  have "queues (pr_add_tail p t s) = A @ (q @ [t]) # B" using q p by (auto simp: pr_add_tail_def)
  then show ?thesis by (simp add: prio_queue_def q)
qed

lemma prio_queue_remove:
  assumes "prio_inv s"
  shows "prio_queue (pr_remove t s) = remove1 t (prio_queue s)"
proof -
  have "\<forall>q \<in> set (queues s). remove1 t q = filter (\<lambda>u. t \<noteq> u) q"
    using assms by (auto simp: prio_inv_def distinct_concat_rev distinct_concat_iff distinct_remove1_removeAll removeAll_filter_not_eq)
  then have "map (remove1 t) (rev (queues s)) = map (filter (\<lambda>u. t \<noteq> u)) (rev (queues s))" by simp
  then show ?thesis
    using assms
    by (simp add: prio_queue_def pr_remove_def filter_concat rev_map prio_inv_def distinct_remove1_removeAll
        removeAll_filter_not_eq del: map_eq_conv)
qed

lemma prio_inv_remove: "prio_inv s \<Longrightarrow> prio_inv (pr_remove t s)"
  using prio_queue_remove [of s t] by (simp add: prio_inv_def prio_queue_def pr_remove_def)

lemma prio_inv_add_tail:
  assumes "prio_inv s" "p < 8" "t \<notin> set (prio_queue s)"
  shows "prio_inv (pr_add_tail p t s)"
proof -
  have "mset (prio_queue (pr_add_tail p t s)) = mset (t # prio_queue s)"
    using mset_prio_add_tail [of p s t] assms by (simp add: prio_inv_def)
  then have "distinct (prio_queue (pr_add_tail p t s)) = distinct (t # prio_queue s)" by (rule mset_eq_imp_distinct_iff)
  then show ?thesis using assms by (simp add: prio_inv_def prio_queue_def pr_add_tail_def)
qed

text \<open>Moving a queued task to the tail of a bucket permutes the queue.\<close>

lemma prio_move:
  assumes "prio_inv s" "p < 8" "t \<in> set (prio_queue s)"
  shows "prio_inv (pr_add_tail p t (pr_remove t s)) \<and>
         mset (prio_queue (pr_add_tail p t (pr_remove t s))) = mset (prio_queue s)"
proof -
  have r: "prio_inv (pr_remove t s)" by (rule prio_inv_remove [OF assms(1)])
  have "t \<notin> set (prio_queue (pr_remove t s))"
    using assms(1) by (simp add: prio_queue_remove) (simp add: prio_queue_def prio_inv_def)
  then have "prio_inv (pr_add_tail p t (pr_remove t s))" by (rule prio_inv_add_tail [OF r assms(2)])
  moreover have "mset (prio_queue (pr_add_tail p t (pr_remove t s))) = mset (prio_queue s)"
    using assms r by (simp add: mset_prio_add_tail prio_inv_length prio_queue_remove)
  ultimately show ?thesis by simp
qed

lemma prio_inv_fields [simp]:
  "prio_inv (s\<lparr>pr_remaining := r\<rparr>) = prio_inv s" "prio_queue (s\<lparr>pr_remaining := r\<rparr>) = prio_queue s"
  by (simp_all add: prio_inv_def prio_queue_def)

lemma prio_rotate_highest:
  "prio_inv s \<Longrightarrow> p \<le> 8 \<Longrightarrow> prio_inv (rotate_highest s p) \<and> mset (prio_queue (rotate_highest s p)) = mset (prio_queue s)"
proof (induction p)
  case (Suc p)
  show ?case
  proof (cases "queues s ! p")
    case Nil
    then show ?thesis using Suc by simp
  next
    case (Cons t ts)
    then have "t \<in> set (prio_queue s)" using Suc.prems bucket_in_queue [of s p t] by simp
    then show ?thesis using Cons prio_move [of s p t] Suc.prems by simp
  qed
qed simp

lemma prio_enqueue_queue:
  assumes "prio_inv s"
  shows "prio_queue (pr_add_tail 0 t s) = prio_queue s @ [t]"
  using assms by (cases "queues s") (simp_all add: prio_inv_def prio_queue_def pr_add_tail_def)

lemmas sched_priority_ops_defs = sched_priority_scheduler_ops_def sched_priority_enqueue_def
  sched_priority_dequeue_def sched_priority_yield_def sched_priority_set_priority_def

interpretation prio: scheduler_policy sched_priority_scheduler_ops prio_inv prio_queue
proof (unfold_locales, goal_cases)
  case (1 s)
  then show ?case by (simp add: prio_inv_def prio_queue_def)
next
  case (5 s t c)
  then show ?case
    using prio_inv_add_tail [of s 0 t]
    by (simp add: sched_priority_ops_defs pr_on_queue_iff prio_enqueue_queue remove1_append)
next
  case (9 s c)
  then show ?case
    using prio_rotate_highest [of s 8] prio_move [of s _ "the (cpu_current c)"] bucket_in_queue
    by (auto simp: sched_priority_ops_defs task_priority_Some_iff split: option.split)
next
  case (10 s c c' s')
  then show ?case
    by (auto simp: sched_priority_scheduler_ops_def sched_priority_tick_def Let_def split: option.splits if_splits)
next
  case (11 s tsk pr s' r)
  then show ?case
    using prio_move [of s "nat pr" "the tsk"] bucket_in_queue
    by (auto simp: sched_priority_ops_defs task_priority_Some_iff split: option.splits if_splits)
next
  case (12 s)
  let ?f = "\<lambda>q n :: nat. fold (\<lambda>t n. if t = g_idle_task then n else n + 1) q n"
  have "fold ?f qs n = n + length (filter (\<lambda>t. t \<noteq> g_idle_task) (concat qs))" for qs n
    by (induction qs arbitrary: n) (auto simp: fold_count_nonidle)
  moreover have "fold (\<lambda>p. ?f (queues s ! p)) [0..<8] 0 = fold ?f (queues s) 0"
    using fold_map [of ?f "(!) (queues s)" "[0..<8]"] map_nth [of "queues s"] prio_inv_length [OF 12]
    by (simp add: o_def)
  moreover have "length (filter (\<lambda>t. t \<noteq> g_idle_task) (prio_queue s)) = length (filter (\<lambda>t. t \<noteq> g_idle_task) (concat (queues s)))"
    by (simp add: prio_queue_def filter_concat length_concat sum_list_rev flip: rev_map)
  ultimately show ?case
    by (simp add: sched_priority_scheduler_ops_def sched_priority_runqueue_size_def)
qed (simp_all add: sched_priority_ops_defs prio_pick_next pr_on_queue_iff prio_queue_remove prio_inv_remove)

section \<open>Properties\<close>


text \<open>
  C37. Round robin is fair: while no queued task is blocked, \<open>k\<close> consecutive yields make
  \<^verbatim>\<open>sched_rr_pick_next\<close> return the \<open>k\<close>-th task of the queue modulo its length, so each of the \<open>n\<close> queued
  tasks is picked exactly once in any \<open>n\<close> consecutive turns.\<close>

theorem rr_picks_in_rotation:
  assumes "runqueue s \<noteq> []" and "\<forall>t \<in> set (runqueue s). tk_state (task c t) \<noteq> NX_TASK_BLOCKED"
  shows "sched_rr_pick_next c ((sched_rr_yield c ^^ k) s) = Some (runqueue s ! (k mod length (runqueue s)))"
proof -
  have rot: "runqueue ((sched_rr_yield c ^^ k) s) = rotate k (runqueue s)"
    by (induction k) (auto simp: sched_rr_yield_def rotate1_hd_tl split: list.split)
  have "find (\<lambda>t. tk_state (task c t) \<noteq> NX_TASK_BLOCKED) q = Some (hd q)"
    if "q \<noteq> []" "\<forall>t \<in> set q. tk_state (task c t) \<noteq> NX_TASK_BLOCKED" for q
    using that by (cases q) auto
  from this [of "rotate k (runqueue s)"] show ?thesis
    using assms by (simp add: sched_rr_pick_next_def rot hd_rotate_conv_nth)
qed

definition demo_task :: nx_task where
  "demo_task = \<lparr>tk_state = NX_TASK_READY, tk_preempt_count = 0, tk_need_resched = False, tk_process = Some 0,
     tk_tpidr_el0 = 0, tk_wait_q = None, tk_wait_deadline = \<lparr>dl_start = 0, dl_threshold = 0, dl_valid = False\<rparr>,
     tk_wait_has_deadline = False, tk_wait_woken = False, tk_switched_out = False\<rparr>"

definition demo_cpu :: cpu where
  "demo_cpu = \<lparr>cpu_tasks = replicate 4 demo_task, cpu_current = Some 0\<rparr>"

definition demo_rr :: sched_rr_state where
  "demo_rr = \<lparr>runqueue = [0, 1, 2], quantum_ticks = 2, remaining = 2, init_called = 1, enable_called = 1,
     disable_called = 0, destroy_called = 0\<rparr>"

theorem rr_picks_in_rotation_witness: "sched_rr_pick_next demo_cpu ((sched_rr_yield demo_cpu ^^ 4) demo_rr) = Some 1"
proof -
  have "runqueue demo_rr \<noteq> []" "\<forall>t \<in> set (runqueue demo_rr). tk_state (task demo_cpu t) \<noteq> NX_TASK_BLOCKED"
    by code_simp+
  from rr_picks_in_rotation [OF this, of 4] show ?thesis by (simp add: demo_rr_def)
qed

text \<open>
  The priority policy picks by priority and then in queue order: the task \<^verbatim>\<open>sched_priority_pick_next\<close>
  returns is queued and not blocked, no queued task of a higher level is runnable, and every task before it
  in its own bucket is blocked; it returns none only when every queued task is blocked.\<close>

theorem priority_picks_highest:
  assumes "prio_inv s"
  shows "case sched_priority_pick_next c s of
      None \<Rightarrow> (\<forall>p < 8. \<forall>t \<in> set (queues s ! p). tk_state (task c t) = NX_TASK_BLOCKED)
    | Some t \<Rightarrow> tk_state (task c t) \<noteq> NX_TASK_BLOCKED \<and>
        (\<exists>p < 8. task_priority s t = Some p \<and>
           (\<forall>q < 8. p < q \<longrightarrow> (\<forall>u \<in> set (queues s ! q). tk_state (task c u) = NX_TASK_BLOCKED)) \<and>
           (\<exists>ys zs. queues s ! p = ys @ t # zs \<and> (\<forall>u \<in> set ys. tk_state (task c u) = NX_TASK_BLOCKED)))"
proof -
  let ?P = "\<lambda>t. tk_state (task c t) \<noteq> NX_TASK_BLOCKED"
  have *: "case pick_from c s m of
      None \<Rightarrow> (\<forall>p < m. \<forall>t \<in> set (queues s ! p). \<not> ?P t)
    | Some t \<Rightarrow> ?P t \<and> (\<exists>p < m. (\<forall>q < m. p < q \<longrightarrow> (\<forall>u \<in> set (queues s ! q). \<not> ?P u)) \<and>
           (\<exists>ys zs. queues s ! p = ys @ t # zs \<and> (\<forall>u \<in> set ys. \<not> ?P u)))" for m
  proof (induction m)
    case (Suc m)
    show ?case
    proof (cases "find ?P (queues s ! m)")
      case None
      then have none: "\<forall>t \<in> set (queues s ! m). \<not> ?P t" by (simp add: find_None_iff)
      show ?thesis
      proof (cases "pick_from c s m")
        case N: None
        then show ?thesis using Suc.IH None none by (auto simp: less_Suc_eq)
      next
        case S: (Some t)
        then obtain p where "p < m" "?P t" "\<forall>q < m. p < q \<longrightarrow> (\<forall>u \<in> set (queues s ! q). \<not> ?P u)"
          "\<exists>ys zs. queues s ! p = ys @ t # zs \<and> (\<forall>u \<in> set ys. \<not> ?P u)" using Suc.IH by auto
        then have "p < Suc m \<and> (\<forall>q < Suc m. p < q \<longrightarrow> (\<forall>u \<in> set (queues s ! q). \<not> ?P u))"
          using none by (metis less_Suc_eq)
        then show ?thesis using S None \<open>?P t\<close> \<open>\<exists>ys zs. _ ys zs\<close> by auto
      qed
    next
      case (Some t)
      then obtain i where i: "i < length (queues s ! m)" "?P (queues s ! m ! i)" "t = queues s ! m ! i"
        "\<forall>j < i. \<not> ?P (queues s ! m ! j)" by (auto simp: find_Some_iff)
      then have "queues s ! m = take i (queues s ! m) @ t # drop (Suc i) (queues s ! m)" "\<forall>u \<in> set (take i (queues s ! m)). \<not> ?P u"
        by (simp add: id_take_nth_drop, auto simp: in_set_conv_nth)
      then show ?thesis using Some i(2,3) by (auto intro!: exI [of _ m])
    qed
  qed simp
  show ?thesis
    using * [of 8] task_priority_Some_iff [OF assms]
    by (auto simp: sched_priority_pick_next_def split: option.splits) (metis in_set_conv_decomp)
qed

definition demo_prio :: sched_priority_state where
  "demo_prio = \<lparr>queues = [[0, 1], [], [3, 2], [], [], [], [], []], pr_quantum_ticks = 2, pr_remaining = 2,
     pr_init_called = 1, pr_enable_called = 1, pr_disable_called = 0, pr_destroy_called = 0\<rparr>"

theorem priority_picks_highest_witness:
  "sched_priority_pick_next demo_cpu demo_prio = Some 3 \<and>
   (\<exists>p < 8. task_priority demo_prio 3 = Some p \<and>
      (\<forall>q < 8. p < q \<longrightarrow> (\<forall>u \<in> set (queues demo_prio ! q). tk_state (task demo_cpu u) = NX_TASK_BLOCKED)))"
proof -
  have inv: "prio_inv demo_prio" and "sched_priority_pick_next demo_cpu demo_prio = Some 3" by code_simp+
  with priority_picks_highest [OF inv, of demo_cpu] show ?thesis by auto
qed

end
