(* ===== verification/Nx_Waitq.thy ===== *)
theory Nx_Waitq
  imports Nx_Sched
begin

text \<open>
  The core scheduler driver (\<^verbatim>\<open>core/sched/sched.c\<close>), the wait queues (\<^verbatim>\<open>core/sched/waitq.c\<close>) and the
  monotonic deadlines (\<^verbatim>\<open>core/cpu/monotonic.h\<close>), over any policy: the policy table is an argument, as
  it is a global pointer in the code. The world holds what the driver reads and writes: the tasks and
  the current one, the policy's state, the wait queues, the deadline list, the counter register,
  what it reads of the processes, and the two registers it saves and loads. Interrupt masking
  has no effect of its own here, since each function is one step.
\<close>

section \<open>The world\<close>

record proc_view =
  pv_active :: bool
  pv_pending_signals :: u32
  pv_ttbr0_root :: u64

record 's sched_world =
  w_cpu :: cpu
  w_self :: 's
  w_waiters :: "task_id list list"
  w_deadlines :: "task_id list"
  w_now :: u64
  w_freq :: u64
  w_procs :: "proc_view list"
  w_ttbr0 :: u64
  w_tpidr_el0 :: u64
  w_switches :: "(task_id \<times> task_id) list"

text \<open>A function that may call \<^verbatim>\<open>nx_process_exit\<close>, which does not return.\<close>

datatype 'w outcome = Exits int | Continues 'w

definition w_upd :: "task_id \<Rightarrow> (nx_task \<Rightarrow> nx_task) \<Rightarrow> 's sched_world \<Rightarrow> 's sched_world" where
  "w_upd t f w = w\<lparr>w_cpu := upd_task t f (w_cpu w)\<rparr>"

abbreviation w_task :: "'s sched_world \<Rightarrow> task_id \<Rightarrow> nx_task" where
  "w_task w t \<equiv> task (w_cpu w) t"

section \<open>Deadlines\<close>

definition nx_deadline_start :: "u64 \<Rightarrow> u64 \<Rightarrow> u64 \<Rightarrow> nx_deadline" where
  "nx_deadline_start now freq budget_ns =
     \<lparr>dl_start = now,
      dl_threshold = (budget_ns div 1000000000) * freq + ((budget_ns mod 1000000000) * freq) div 1000000000,
      dl_valid = True\<rparr>"

definition nx_deadline_exceeded :: "u64 \<Rightarrow> nx_deadline \<Rightarrow> bool" where
  "nx_deadline_exceeded now d = (if \<not> dl_valid d then True else now - dl_start d > dl_threshold d)"

section \<open>The driver\<close>

definition nx_preempt_disable :: "cpu \<Rightarrow> cpu" where
  "nx_preempt_disable c =
     (case cpu_current c of
        None \<Rightarrow> c
      | Some t \<Rightarrow> upd_task t (\<lambda>k. k\<lparr>tk_preempt_count := tk_preempt_count k + 1\<rparr>) c)"

definition nx_preempt_enable :: "cpu \<Rightarrow> cpu" where
  "nx_preempt_enable c =
     (case cpu_current c of
        None \<Rightarrow> c
      | Some t \<Rightarrow>
          upd_task t (\<lambda>k. if tk_preempt_count k > 0 then k\<lparr>tk_preempt_count := tk_preempt_count k - 1\<rparr> else k) c)"

definition nx_preempt_count :: "cpu \<Rightarrow> int" where
  "nx_preempt_count c = (case cpu_current c of None \<Rightarrow> 0 | Some t \<Rightarrow> tk_preempt_count (task c t))"

definition NX_SIGKILL :: nat where "NX_SIGKILL = 9"
definition NX_SIGTERM :: nat where "NX_SIGTERM = 15"

text \<open>The polled signal delivery at the head of \<^verbatim>\<open>sched_check_resched\<close>.\<close>

definition fatal_signal :: "'s sched_world \<Rightarrow> task_id \<Rightarrow> int option" where
  "fatal_signal w cur =
     (case tk_process (w_task w cur) of
        None \<Rightarrow> None
      | Some p \<Rightarrow>
          let pr = w_procs w ! p in
          if \<not> pv_active pr then None
          else if bit (pv_pending_signals pr) NX_SIGKILL then Some (128 + int NX_SIGKILL)
          else if bit (pv_pending_signals pr) NX_SIGTERM then Some (128 + int NX_SIGTERM)
          else None)"

definition switch_root :: "'s sched_world \<Rightarrow> task_id \<Rightarrow> task_id \<Rightarrow> u64" where
  "switch_root w cur nxt =
     (case (tk_process (w_task w nxt), tk_process (w_task w cur)) of
        (Some np, Some cp) \<Rightarrow>
          if np \<noteq> cp \<and> pv_ttbr0_root (w_procs w ! np) \<noteq> pv_ttbr0_root (w_procs w ! cp) \<and>
             pv_ttbr0_root (w_procs w ! np) \<noteq> 0
          then pv_ttbr0_root (w_procs w ! np) else w_ttbr0 w
      | _ \<Rightarrow> w_ttbr0 w)"

text \<open>
  \<^verbatim>\<open>cpu_switch_to\<close> and what runs after it in the context of the incoming task: a task that was
  switched out before resumes after the call and enables preemption; a fresh task starts at its entry.
\<close>

definition cpu_switch_to :: "task_id \<Rightarrow> task_id \<Rightarrow> cpu \<Rightarrow> cpu" where
  "cpu_switch_to cur nxt c =
     (let c1 = (upd_task cur (\<lambda>k. k\<lparr>tk_switched_out := True\<rparr>) c)\<lparr>cpu_current := Some nxt\<rparr>
      in if tk_switched_out (task c1 nxt)
         then nx_preempt_enable (upd_task nxt (\<lambda>k. k\<lparr>tk_switched_out := False\<rparr>) c1)
         else c1)"

text \<open>
  The tail of \<^verbatim>\<open>sched_check_resched\<close>, from the hook dispatch on. The dispatch of the context-switch hooks is
  recorded, and their return value is ignored as in the code.
\<close>

definition context_switch :: "task_id \<Rightarrow> task_id \<Rightarrow> 's sched_world \<Rightarrow> 's sched_world" where
  "context_switch cur nxt w2 =
     (let w3 = w2\<lparr>w_cpu := nx_preempt_disable (w_cpu w2), w_switches := w_switches w2 @ [(cur, nxt)]\<rparr>;
          w4 = w3\<lparr>w_ttbr0 := switch_root w3 cur nxt\<rparr>;
          w5 = w_upd cur (\<lambda>k. k\<lparr>tk_tpidr_el0 := w_tpidr_el0 w4\<rparr>) w4;
          w6 = w5\<lparr>w_tpidr_el0 := tk_tpidr_el0 (w_task w5 nxt)\<rparr>
      in w6\<lparr>w_cpu := cpu_switch_to cur nxt (w_cpu w6)\<rparr>)"

definition sched_check_resched :: "'s nx_scheduler_ops option \<Rightarrow> 's sched_world \<Rightarrow> 's sched_world outcome" where
  "sched_check_resched g_sched_ops w =
     (case cpu_current (w_cpu w) of
        None \<Rightarrow> Continues w
      | Some cur \<Rightarrow>
          (case g_sched_ops of
             None \<Rightarrow> Continues w
           | Some ops \<Rightarrow>
               (case fatal_signal w cur of
                  Some code \<Rightarrow> Exits code
                | None \<Rightarrow>
                    if \<not> tk_need_resched (w_task w cur) then Continues w
                    else if tk_preempt_count (w_task w cur) > 0 then Continues w
                    else
                      let w1 = w_upd cur (\<lambda>k. k\<lparr>tk_need_resched := False\<rparr>) w;
                          w2 = w1\<lparr>w_self := so_yield ops (w_cpu w1) (w_self w1)\<rparr>
                      in case so_pick_next ops (w_cpu w2) (w_self w2) of
                           None \<Rightarrow> Continues w2
                         | Some nxt \<Rightarrow>
                             if nxt = cur then Continues w2
                             else Continues (context_switch cur nxt w2))))"

definition nx_task_yield :: "'s nx_scheduler_ops option \<Rightarrow> 's sched_world \<Rightarrow> 's sched_world outcome" where
  "nx_task_yield g_sched_ops w =
     (case cpu_current (w_cpu w) of
        None \<Rightarrow> Continues w
      | Some cur \<Rightarrow> sched_check_resched g_sched_ops (w_upd cur (\<lambda>k. k\<lparr>tk_need_resched := True\<rparr>) w))"

definition sched_runqueue_size :: "'s nx_scheduler_ops option \<Rightarrow> 's sched_world \<Rightarrow> nat" where
  "sched_runqueue_size g_sched_ops w =
     (case g_sched_ops of None \<Rightarrow> 0 | Some ops \<Rightarrow> so_runqueue_size ops (w_self w))"

text \<open>\<^verbatim>\<open>idle_task_init\<close> writes every field of the idle task that the model has, and leaves the saved context alone.\<close>

definition idle_task_init :: "cpu \<Rightarrow> cpu" where
  "idle_task_init c =
     upd_task g_idle_task
       (\<lambda>k. k\<lparr>tk_state := NX_TASK_RUNNING, tk_preempt_count := 0, tk_need_resched := False,
              tk_wait_q := None, tk_wait_has_deadline := False, tk_wait_woken := False,
              tk_process := Some g_kernel_process\<rparr>) c"

definition sched_start :: "'s nx_scheduler_ops option \<Rightarrow> bool \<Rightarrow> 's sched_world \<Rightarrow> bool \<times> 's sched_world" where
  "sched_start g_sched_ops g_sched_started w =
     (if g_sched_started then (g_sched_started, w)
      else
        let w1 = w\<lparr>w_cpu := (idle_task_init (w_cpu w))\<lparr>cpu_current := Some g_idle_task\<rparr>\<rparr>
        in case g_sched_ops of
             None \<Rightarrow> (True, w1)
           | Some ops \<Rightarrow>
               (case so_enqueue ops (w_cpu w1) (w_self w1) (Some g_idle_task) of
                  (c', s', _) \<Rightarrow> (True, w1\<lparr>w_cpu := c', w_self := s'\<rparr>)))"

section \<open>Wait queues\<close>

definition nx_waitq_init :: "nat \<Rightarrow> 's sched_world \<Rightarrow> 's sched_world" where
  "nx_waitq_init wq w = w\<lparr>w_waiters := (w_waiters w)[wq := []]\<rparr>"

text \<open>What the wait functions do up to the call of \<^verbatim>\<open>nx_task_yield\<close>.\<close>

definition waitq_register ::
  "'s nx_scheduler_ops option \<Rightarrow> nat \<Rightarrow> task_id \<Rightarrow> u64 \<Rightarrow> 's sched_world \<Rightarrow> 's sched_world"
where
  "waitq_register g_sched_ops wq t budget_ns w =
     (let w1 = (case g_sched_ops of None \<Rightarrow> w
                | Some ops \<Rightarrow> w\<lparr>w_self := fst (so_dequeue ops (w_self w) (Some t))\<rparr>);
          w2 = w1\<lparr>w_waiters := (w_waiters w1)[wq := w_waiters w1 ! wq @ [t]]\<rparr>;
          w3 = w_upd t (\<lambda>k. k\<lparr>tk_wait_q := Some wq, tk_wait_woken := False\<rparr>) w2;
          w4 = (if budget_ns > 0
                then (w_upd t (\<lambda>k. k\<lparr>tk_wait_deadline := nx_deadline_start (w_now w3) (w_freq w3) budget_ns,
                                    tk_wait_has_deadline := True\<rparr>) w3)
                     \<lparr>w_deadlines := w_deadlines w3 @ [t]\<rparr>
                else w_upd t (\<lambda>k. k\<lparr>tk_wait_has_deadline := False\<rparr>) w3)
      in w_upd t (\<lambda>k. k\<lparr>tk_state := NX_TASK_BLOCKED\<rparr>) w4)"

text \<open>
  The wait: registration between \<^verbatim>\<open>nx_preempt_disable\<close> and \<^verbatim>\<open>nx_preempt_enable\<close>, then the yield. When the
  yield switches away, the function's result is computed once the task runs again (\<open>W_Switched\<close>, with
  \<open>waitq_result\<close>); when it does not, it is computed at once.
\<close>

datatype 's wait_result = W_Return nx_status "'s sched_world" | W_Switched "'s sched_world" | W_Exits int

definition waitq_result :: "'s sched_world \<Rightarrow> task_id \<Rightarrow> nx_status" where
  "waitq_result w t = (if tk_wait_woken (w_task w t) then NX_OK else NX_EDEADLINE)"

definition waitq_register_and_wait_locked ::
  "'s nx_scheduler_ops option \<Rightarrow> nat \<Rightarrow> task_id \<Rightarrow> u64 \<Rightarrow> 's sched_world \<Rightarrow> 's wait_result"
where
  "waitq_register_and_wait_locked g_sched_ops wq t budget_ns w =
     (let w1 = waitq_register g_sched_ops wq t budget_ns w;
          w2 = w1\<lparr>w_cpu := nx_preempt_enable (w_cpu w1)\<rparr>
      in case nx_task_yield g_sched_ops w2 of
           Exits code \<Rightarrow> W_Exits code
         | Continues w3 \<Rightarrow>
             if cpu_current (w_cpu w3) = Some t then W_Return (waitq_result w3 t) w3 else W_Switched w3)"

definition nx_waitq_wait_with_deadline ::
  "'s nx_scheduler_ops option \<Rightarrow> nat option \<Rightarrow> u64 \<Rightarrow> 's sched_world \<Rightarrow> 's wait_result"
where
  "nx_waitq_wait_with_deadline g_sched_ops wq budget_ns w =
     (case wq of
        None \<Rightarrow> W_Return NX_EINVAL w
      | Some q \<Rightarrow>
          (case cpu_current (w_cpu w) of
             None \<Rightarrow> W_Return NX_EINVAL w
           | Some t \<Rightarrow>
               waitq_register_and_wait_locked g_sched_ops q t budget_ns
                 (w\<lparr>w_cpu := nx_preempt_disable (w_cpu w)\<rparr>)))"

definition nx_waitq_wait_unless ::
  "'s nx_scheduler_ops option \<Rightarrow> nat option \<Rightarrow> u64 \<Rightarrow> ('s sched_world \<Rightarrow> bool) option \<Rightarrow> 's sched_world \<Rightarrow>
     's wait_result"
where
  "nx_waitq_wait_unless g_sched_ops wq budget_ns pred w =
     (case wq of
        None \<Rightarrow> W_Return NX_EINVAL w
      | Some q \<Rightarrow>
          (case cpu_current (w_cpu w) of
             None \<Rightarrow> W_Return NX_EINVAL w
           | Some t \<Rightarrow>
               let w1 = w\<lparr>w_cpu := nx_preempt_disable (w_cpu w)\<rparr> in
               if (case pred of None \<Rightarrow> False | Some p \<Rightarrow> p w1)
               then W_Return NX_OK (w1\<lparr>w_cpu := nx_preempt_enable (w_cpu w1)\<rparr>)
               else waitq_register_and_wait_locked g_sched_ops q t budget_ns w1))"

text \<open>Unlinking a task's \<^verbatim>\<open>sched_node\<close> while it waits takes it off the wait queue it is on.\<close>

definition unlink_waiter :: "task_id \<Rightarrow> 's sched_world \<Rightarrow> 's sched_world" where
  "unlink_waiter t w = w\<lparr>w_waiters := map (remove1 t) (w_waiters w)\<rparr>"

definition enqueue_ready :: "'s nx_scheduler_ops option \<Rightarrow> task_id \<Rightarrow> 's sched_world \<Rightarrow> 's sched_world" where
  "enqueue_ready g_sched_ops t w =
     (case g_sched_ops of
        None \<Rightarrow> w
      | Some ops \<Rightarrow>
          (case so_enqueue ops (w_cpu w) (w_self w) (Some t) of
             (c', s', _) \<Rightarrow> w\<lparr>w_cpu := c', w_self := s'\<rparr>))"

definition waitq_release_locked :: "'s nx_scheduler_ops option \<Rightarrow> task_id \<Rightarrow> 's sched_world \<Rightarrow> 's sched_world" where
  "waitq_release_locked g_sched_ops t w =
     (let w1 = unlink_waiter t w;
          w2 = (if tk_wait_has_deadline (w_task w1 t)
                then w_upd t (\<lambda>k. k\<lparr>tk_wait_has_deadline := False\<rparr>) (w1\<lparr>w_deadlines := remove1 t (w_deadlines w1)\<rparr>)
                else w1);
          w3 = w_upd t (\<lambda>k. k\<lparr>tk_wait_q := None, tk_wait_woken := True, tk_state := NX_TASK_READY\<rparr>) w2
      in enqueue_ready g_sched_ops t w3)"

definition bracketed :: "('s sched_world \<Rightarrow> 's sched_world) \<Rightarrow> 's sched_world \<Rightarrow> 's sched_world" where
  "bracketed body w =
     (let w1 = body (w\<lparr>w_cpu := nx_preempt_disable (w_cpu w)\<rparr>)
      in w1\<lparr>w_cpu := nx_preempt_enable (w_cpu w1)\<rparr>)"

definition nx_waitq_wake_one :: "'s nx_scheduler_ops option \<Rightarrow> nat \<Rightarrow> 's sched_world \<Rightarrow> 's sched_world" where
  "nx_waitq_wake_one g_sched_ops wq =
     bracketed (\<lambda>w. case w_waiters w ! wq of
                      [] \<Rightarrow> w
                    | t # _ \<Rightarrow> waitq_release_locked g_sched_ops t w)"

lemma enqueue_ready_waiters [simp]: "w_waiters (enqueue_ready g t w) = w_waiters w"
  by (auto simp: enqueue_ready_def split: option.split prod.split)

lemma w_upd_simps [simp]:
  "w_waiters (w_upd t f w) = w_waiters w" "w_self (w_upd t f w) = w_self w"
  "w_deadlines (w_upd t f w) = w_deadlines w" "w_now (w_upd t f w) = w_now w" "w_freq (w_upd t f w) = w_freq w"
  "w_procs (w_upd t f w) = w_procs w" "w_cpu (w_upd t f w) = upd_task t f (w_cpu w)"
  "w_ttbr0 (w_upd t f w) = w_ttbr0 w" "w_tpidr_el0 (w_upd t f w) = w_tpidr_el0 w"
  by (simp_all add: w_upd_def)

lemma release_waiters: "w_waiters (waitq_release_locked g t w) = map (remove1 t) (w_waiters w)"
  by (simp add: waitq_release_locked_def unlink_waiter_def Let_def)

text \<open>The loop of \<^verbatim>\<open>nx_waitq_wake_all\<close>: each turn releases the head, so the queue gets shorter.\<close>

function wake_all_loop :: "'s nx_scheduler_ops option \<Rightarrow> nat \<Rightarrow> 's sched_world \<Rightarrow> 's sched_world" where
  "wake_all_loop g_sched_ops wq w =
     (if wq < length (w_waiters w)
      then case w_waiters w ! wq of
             [] \<Rightarrow> w
           | t # _ \<Rightarrow> wake_all_loop g_sched_ops wq (waitq_release_locked g_sched_ops t w)
      else w)"
  by auto
termination
  by (relation "measure (\<lambda>(g, wq, w). length (w_waiters w ! wq))") (auto simp: release_waiters)

definition nx_waitq_wake_all :: "'s nx_scheduler_ops option \<Rightarrow> nat \<Rightarrow> 's sched_world \<Rightarrow> 's sched_world" where
  "nx_waitq_wake_all g_sched_ops wq = bracketed (wake_all_loop g_sched_ops wq)"

definition expire_waiter :: "'s nx_scheduler_ops option \<Rightarrow> task_id \<Rightarrow> 's sched_world \<Rightarrow> 's sched_world" where
  "expire_waiter g_sched_ops t w =
     (if \<not> nx_deadline_exceeded (w_now w) (tk_wait_deadline (w_task w t)) then w
      else
        let w1 = (unlink_waiter t w)\<lparr>w_deadlines := remove1 t (w_deadlines w)\<rparr>;
            w2 = w_upd t (\<lambda>k. k\<lparr>tk_wait_has_deadline := False, tk_wait_q := None, tk_state := NX_TASK_READY\<rparr>) w1
        in enqueue_ready g_sched_ops t w2)"

text \<open>The safe traversal visits the nodes that were on the list when it began.\<close>

definition nx_waitq_tick_deadlines :: "'s nx_scheduler_ops option \<Rightarrow> 's sched_world \<Rightarrow> 's sched_world" where
  "nx_waitq_tick_deadlines g_sched_ops =
     bracketed (\<lambda>w. fold (expire_waiter g_sched_ops) (w_deadlines w) w)"

definition sched_tick :: "'s nx_scheduler_ops option \<Rightarrow> 's sched_world \<Rightarrow> 's sched_world" where
  "sched_tick g_sched_ops w =
     (case g_sched_ops of
        None \<Rightarrow> w
      | Some ops \<Rightarrow>
          (case so_tick ops (w_cpu w) (w_self w) of
             (c', s') \<Rightarrow> nx_waitq_tick_deadlines g_sched_ops (w\<lparr>w_cpu := c', w_self := s'\<rparr>)))"

section \<open>Where the tasks are\<close>

text \<open>
  The fields of a task that the wait queues own, and the invariant: a task is linked at most once, on the run
  queue or on one wait queue; the waiters are exactly the blocked linked tasks, each knows its queue, and those
  with a deadline are exactly the tasks on the deadline list.
\<close>

definition wait_view :: "nx_task \<Rightarrow> nx_task_state \<times> nat option \<times> bool" where
  "wait_view k = (tk_state k, tk_wait_q k, tk_wait_has_deadline k)"

definition linked_once :: "('s \<Rightarrow> task_id list) \<Rightarrow> 's sched_world \<Rightarrow> bool" where
  "linked_once queue w \<longleftrightarrow>
     distinct (queue (w_self w)) \<and> distinct (concat (w_waiters w)) \<and>
     set (queue (w_self w)) \<inter> set (concat (w_waiters w)) = {} \<and>
     set (queue (w_self w)) \<union> set (concat (w_waiters w)) \<subseteq> {..<length (cpu_tasks (w_cpu w))} \<and>
     (\<forall>t \<in> set (queue (w_self w)). tk_state (w_task w t) \<noteq> NX_TASK_BLOCKED \<and> tk_wait_q (w_task w t) = None) \<and>
     (\<forall>q < length (w_waiters w). \<forall>t \<in> set (w_waiters w ! q).
        tk_state (w_task w t) = NX_TASK_BLOCKED \<and> tk_wait_q (w_task w t) = Some q) \<and>
     distinct (w_deadlines w) \<and> set (w_deadlines w) \<subseteq> set (concat (w_waiters w)) \<and>
     (\<forall>t \<in> set (concat (w_waiters w)). tk_wait_has_deadline (w_task w t) \<longleftrightarrow> t \<in> set (w_deadlines w))"

definition linked_tasks :: "('s \<Rightarrow> task_id list) \<Rightarrow> 's sched_world \<Rightarrow> task_id set" where
  "linked_tasks queue w = set (queue (w_self w)) \<union> set (concat (w_waiters w))"

text \<open>Steps that change neither the lists, up to the order of the run queue, nor the view of any task.\<close>

definition same_links :: "('s \<Rightarrow> task_id list) \<Rightarrow> 's sched_world \<Rightarrow> 's sched_world \<Rightarrow> bool" where
  "same_links queue w w' \<longleftrightarrow>
     mset (queue (w_self w')) = mset (queue (w_self w)) \<and> w_waiters w' = w_waiters w \<and>
     w_deadlines w' = w_deadlines w \<and> length (cpu_tasks (w_cpu w')) = length (cpu_tasks (w_cpu w)) \<and>
     (\<forall>t. wait_view (w_task w' t) = wait_view (w_task w t))"

lemma same_links_refl [simp]: "same_links queue w w"
  by (simp add: same_links_def)

lemma same_links_trans: "same_links queue w w' \<Longrightarrow> same_links queue w' w'' \<Longrightarrow> same_links queue w w''"
  by (simp add: same_links_def)

lemma same_links_inv:
  assumes "same_links queue w w'"
  shows "linked_once queue w' = linked_once queue w" "linked_tasks queue w' = linked_tasks queue w"
proof -
  have m: "mset (queue (w_self w')) = mset (queue (w_self w))" using assms by (simp add: same_links_def)
  note q = mset_eq_setD [OF m] mset_eq_imp_distinct_iff [OF m]
  have v: "tk_state (w_task w' t) = tk_state (w_task w t)" "tk_wait_q (w_task w' t) = tk_wait_q (w_task w t)"
    "tk_wait_has_deadline (w_task w' t) = tk_wait_has_deadline (w_task w t)" for t
    using assms by (auto simp: same_links_def wait_view_def)
  have l: "w_waiters w' = w_waiters w" "w_deadlines w' = w_deadlines w"
    "length (cpu_tasks (w_cpu w')) = length (cpu_tasks (w_cpu w))" using assms by (auto simp: same_links_def)
  show "linked_once queue w' = linked_once queue w" unfolding linked_once_def q v l ..
  show "linked_tasks queue w' = linked_tasks queue w" unfolding linked_tasks_def q l ..
qed

definition same_tasks :: "cpu \<Rightarrow> cpu \<Rightarrow> bool" where
  "same_tasks c c' \<longleftrightarrow> length (cpu_tasks c') = length (cpu_tasks c) \<and> (\<forall>t. wait_view (task c' t) = wait_view (task c t))"

lemma same_tasks_refl [simp]: "same_tasks c c"
  by (simp add: same_tasks_def)

lemma same_tasks_trans: "same_tasks c c' \<Longrightarrow> same_tasks c' c'' \<Longrightarrow> same_tasks c c''"
  by (simp add: same_tasks_def)

lemma same_tasks_upd: "(\<And>k. wait_view (f k) = wait_view k) \<Longrightarrow> same_tasks c (upd_task t f c)"
  by (simp add: same_tasks_def task_upd_field [where p = wait_view])

lemma same_tasks_current [simp]: "same_tasks c (c'\<lparr>cpu_current := x\<rparr>) = same_tasks c c'"
  by (simp add: same_tasks_def)

lemma same_tasks_preempt [simp]: "same_tasks c (nx_preempt_disable c)" "same_tasks c (nx_preempt_enable c)"
  by (auto simp: nx_preempt_disable_def nx_preempt_enable_def wait_view_def intro!: same_tasks_upd split: option.split)

lemma same_tasks_flag_idle [simp]: "same_tasks c (flag_idle t c)"
  by (auto simp: flag_idle_def wait_view_def intro!: same_tasks_upd)

lemma same_tasks_switch: "same_tasks c (cpu_switch_to cur nxt c)"
proof -
  let ?c1 = "(upd_task cur (\<lambda>k. k\<lparr>tk_switched_out := True\<rparr>) c)\<lparr>cpu_current := Some nxt\<rparr>"
  let ?c2 = "upd_task nxt (\<lambda>k. k\<lparr>tk_switched_out := False\<rparr>) ?c1"
  have 1: "same_tasks c ?c1" by (auto simp: wait_view_def intro!: same_tasks_upd)
  have "same_tasks ?c1 ?c2" by (auto simp: wait_view_def intro!: same_tasks_upd)
  then have "same_tasks c (nx_preempt_enable ?c2)" using 1 same_tasks_trans same_tasks_preempt(2) by blast
  then show ?thesis using 1 by (simp add: cpu_switch_to_def Let_def)
qed

lemma same_links_cpu:
  "same_tasks (w_cpu w) (w_cpu w') \<Longrightarrow> w_self w' = w_self w \<Longrightarrow> w_waiters w' = w_waiters w \<Longrightarrow>
     w_deadlines w' = w_deadlines w \<Longrightarrow> same_links queue w w'"
  by (simp add: same_tasks_def same_links_def)

lemma same_links_w_upd: "(\<And>k. wait_view (f k) = wait_view k) \<Longrightarrow> same_links queue w (w_upd t f w)"
  by (rule same_links_cpu) (simp_all add: same_tasks_upd)

lemma context_switch_same: "same_links queue w (context_switch cur nxt w)"
proof (rule same_links_cpu)
  let ?c = "upd_task cur (\<lambda>k. k\<lparr>tk_tpidr_el0 := w_tpidr_el0 w\<rparr>) (nx_preempt_disable (w_cpu w))"
  have "same_tasks (nx_preempt_disable (w_cpu w)) ?c" by (rule same_tasks_upd) (simp add: wait_view_def)
  moreover have "w_cpu (context_switch cur nxt w) = cpu_switch_to cur nxt ?c" by (simp add: context_switch_def Let_def)
  ultimately show "same_tasks (w_cpu w) (w_cpu (context_switch cur nxt w))"
    using same_tasks_switch [of ?c cur nxt] same_tasks_preempt(1) [of "w_cpu w"] same_tasks_trans by metis
qed (simp_all add: context_switch_def Let_def)

text \<open>The ways \<^verbatim>\<open>sched_check_resched\<close> returns: unchanged, after the yield, or after a switch.\<close>

definition yielded :: "'s nx_scheduler_ops \<Rightarrow> task_id \<Rightarrow> 's sched_world \<Rightarrow> 's sched_world" where
  "yielded ops cur w =
     (let w1 = w_upd cur (\<lambda>k. k\<lparr>tk_need_resched := False\<rparr>) w in w1\<lparr>w_self := so_yield ops (w_cpu w1) (w_self w1)\<rparr>)"

lemma sched_check_resched_cases:
  assumes "sched_check_resched (Some ops) w = Continues w'" "cpu_current (w_cpu w) = Some cur"
  shows "w' = w \<or> w' = yielded ops cur w \<or>
     (\<exists>nxt. so_pick_next ops (w_cpu (yielded ops cur w)) (w_self (yielded ops cur w)) = Some nxt \<and> nxt \<noteq> cur \<and>
            w' = context_switch cur nxt (yielded ops cur w))"
  using assms by (auto simp: sched_check_resched_def yielded_def Let_def split: option.splits if_splits)

text \<open>A blocked or released task: the change of the lists, stated once for all three functions that move tasks.\<close>

lemma distinct_concat_update:
  assumes "distinct (concat ws)" "q < length ws" "t \<notin> set (concat ws)"
  shows "distinct (concat (ws[q := ws ! q @ [t]])) \<and> set (concat (ws[q := ws ! q @ [t]])) = insert t (set (concat ws))"
proof -
  obtain A x B where ws: "ws = A @ x # B" and q: "length A = q"
    using assms(2) by (metis id_take_nth_drop length_take min.absorb4)
  then have "ws[q := ws ! q @ [t]] = A @ (x @ [t]) # B" by auto
  then show ?thesis using assms(1,3) unfolding ws by auto
qed

lemma distinct_concat_remove:
  assumes "distinct (concat ws)"
  shows "distinct (concat (map (remove1 t) ws)) \<and> set (concat (map (remove1 t) ws)) = set (concat ws) - {t}"
  using assms by (induction ws) (auto simp: set_remove1_eq)

lemma set_nth_concat: "q < length ws \<Longrightarrow> x \<in> set (ws ! q) \<Longrightarrow> x \<in> set (concat ws)"
  by auto

lemma linked_once_block:
  assumes inv: "linked_once queue w" and t: "t \<in> set (queue (w_self w))" and q: "q < length (w_waiters w)"
    and self: "queue (w_self w') = remove1 t (queue (w_self w))"
    and wait: "w_waiters w' = (w_waiters w)[q := w_waiters w ! q @ [t]]"
    and len: "length (cpu_tasks (w_cpu w')) = length (cpu_tasks (w_cpu w))"
    and oth: "\<And>u. u \<noteq> t \<Longrightarrow> wait_view (w_task w' u) = wait_view (w_task w u)"
    and own: "wait_view (w_task w' t) = (NX_TASK_BLOCKED, Some q, d)"
    and dl: "w_deadlines w' = (if d then w_deadlines w @ [t] else w_deadlines w)"
  shows "linked_once queue w' \<and> linked_tasks queue w' = linked_tasks queue w"
proof -
  have tn: "t \<notin> set (concat (w_waiters w))" using inv t by (auto simp: linked_once_def)
  have tdl: "t \<notin> set (w_deadlines w)" using inv tn by (auto simp: linked_once_def)
  have ws: "distinct (concat (w_waiters w'))" "set (concat (w_waiters w')) = insert t (set (concat (w_waiters w)))"
    using distinct_concat_update [OF _ q tn] inv unfolding wait linked_once_def by auto
  have dq: "distinct (queue (w_self w))" using inv by (simp add: linked_once_def)
  have qs: "set (queue (w_self w')) = set (queue (w_self w)) - {t}" unfolding self using dq by simp
  have v: "tk_state (w_task w' u) = tk_state (w_task w u)" "tk_wait_q (w_task w' u) = tk_wait_q (w_task w u)"
    "tk_wait_has_deadline (w_task w' u) = tk_wait_has_deadline (w_task w u)" if "u \<noteq> t" for u
    using oth [OF that] by (auto simp: wait_view_def)
  have vt: "tk_state (w_task w' t) = NX_TASK_BLOCKED" "tk_wait_q (w_task w' t) = Some q"
    "tk_wait_has_deadline (w_task w' t) = d" using own by (auto simp: wait_view_def)
  have "linked_once queue w'"
    unfolding linked_once_def
  proof (intro conjI)
    show "distinct (queue (w_self w'))" using self dq by simp
    show "distinct (concat (w_waiters w'))" by (rule ws(1))
    show "set (queue (w_self w')) \<inter> set (concat (w_waiters w')) = {}"
      unfolding qs ws(2) using inv unfolding linked_once_def by blast
    show "set (queue (w_self w')) \<union> set (concat (w_waiters w')) \<subseteq> {..<length (cpu_tasks (w_cpu w'))}"
      unfolding qs ws(2) len using inv t unfolding linked_once_def by blast
    show "\<forall>u \<in> set (queue (w_self w')). tk_state (w_task w' u) \<noteq> NX_TASK_BLOCKED \<and> tk_wait_q (w_task w' u) = None"
      unfolding qs using inv v unfolding linked_once_def by auto
    show "\<forall>p < length (w_waiters w'). \<forall>u \<in> set (w_waiters w' ! p).
        tk_state (w_task w' u) = NX_TASK_BLOCKED \<and> tk_wait_q (w_task w' u) = Some p"
    proof (intro allI impI ballI)
      fix p u assume p: "p < length (w_waiters w')" and u: "u \<in> set (w_waiters w' ! p)"
      show "tk_state (w_task w' u) = NX_TASK_BLOCKED \<and> tk_wait_q (w_task w' u) = Some p"
      proof (cases "u = t")
        case True
        then have "p = q" using u p tn q set_nth_concat [of p "w_waiters w" t]
          by (cases "p = q") (simp_all add: wait)
        then show ?thesis using True vt by simp
      next
        case False
        then have "u \<in> set (w_waiters w ! p)" using u p q unfolding wait by (cases "p = q") auto
        then show ?thesis using inv v [OF False] p unfolding linked_once_def wait by simp
      qed
    qed
    show "distinct (w_deadlines w')" unfolding dl using inv tdl unfolding linked_once_def by simp
    show "set (w_deadlines w') \<subseteq> set (concat (w_waiters w'))" unfolding dl ws(2) using inv unfolding linked_once_def by auto
    show "\<forall>u \<in> set (concat (w_waiters w')). tk_wait_has_deadline (w_task w' u) \<longleftrightarrow> u \<in> set (w_deadlines w')"
    proof
      fix u assume "u \<in> set (concat (w_waiters w'))"
      then show "tk_wait_has_deadline (w_task w' u) \<longleftrightarrow> u \<in> set (w_deadlines w')"
        using inv tdl vt v [of u] unfolding ws(2) dl linked_once_def by (cases "u = t") auto
    qed
  qed
  moreover have "linked_tasks queue w' = linked_tasks queue w"
    using t unfolding linked_tasks_def qs ws(2) by blast
  ultimately show ?thesis ..
qed

lemma linked_once_release:
  assumes inv: "linked_once queue w" and t: "t \<in> set (concat (w_waiters w))"
    and self: "set (queue (w_self w')) = insert t (set (queue (w_self w)))" "distinct (queue (w_self w'))"
    and wait: "w_waiters w' = map (remove1 t) (w_waiters w)"
    and len: "length (cpu_tasks (w_cpu w')) = length (cpu_tasks (w_cpu w))"
    and oth: "\<And>u. u \<noteq> t \<Longrightarrow> wait_view (w_task w' u) = wait_view (w_task w u)"
    and own: "wait_view (w_task w' t) = (NX_TASK_READY, None, False)"
    and dl: "w_deadlines w' = remove1 t (w_deadlines w)"
  shows "linked_once queue w' \<and> linked_tasks queue w' = linked_tasks queue w"
proof -
  have ws: "distinct (concat (w_waiters w'))" "set (concat (w_waiters w')) = set (concat (w_waiters w)) - {t}"
    using distinct_concat_remove [of "w_waiters w" t] inv unfolding wait linked_once_def by auto
  have v: "tk_state (w_task w' u) = tk_state (w_task w u)" "tk_wait_q (w_task w' u) = tk_wait_q (w_task w u)"
    "tk_wait_has_deadline (w_task w' u) = tk_wait_has_deadline (w_task w u)" if "u \<noteq> t" for u
    using oth [OF that] by (auto simp: wait_view_def)
  have vt: "tk_state (w_task w' t) = NX_TASK_READY" "tk_wait_q (w_task w' t) = None"
    using own by (auto simp: wait_view_def)
  have sd: "set (w_deadlines w') = set (w_deadlines w) - {t}" unfolding dl using inv unfolding linked_once_def by simp
  have "linked_once queue w'"
    unfolding linked_once_def
  proof (intro conjI)
    show "distinct (queue (w_self w'))" by (rule self(2))
    show "distinct (concat (w_waiters w'))" by (rule ws(1))
    show "set (queue (w_self w')) \<inter> set (concat (w_waiters w')) = {}"
      unfolding self ws(2) using inv unfolding linked_once_def by blast
    show "set (queue (w_self w')) \<union> set (concat (w_waiters w')) \<subseteq> {..<length (cpu_tasks (w_cpu w'))}"
      unfolding self ws(2) len using inv t unfolding linked_once_def by blast
    show "\<forall>u \<in> set (queue (w_self w')). tk_state (w_task w' u) \<noteq> NX_TASK_BLOCKED \<and> tk_wait_q (w_task w' u) = None"
    proof
      fix u assume "u \<in> set (queue (w_self w'))"
      then show "tk_state (w_task w' u) \<noteq> NX_TASK_BLOCKED \<and> tk_wait_q (w_task w' u) = None"
        using inv vt v [of u] unfolding self linked_once_def by (cases "u = t") auto
    qed
    show "\<forall>p < length (w_waiters w'). \<forall>u \<in> set (w_waiters w' ! p).
        tk_state (w_task w' u) = NX_TASK_BLOCKED \<and> tk_wait_q (w_task w' u) = Some p"
    proof (intro allI impI ballI)
      fix p u assume p: "p < length (w_waiters w')" and u: "u \<in> set (w_waiters w' ! p)"
      then have "u \<noteq> t" using set_nth_concat [OF p u] ws(2) by blast
      moreover have "u \<in> set (w_waiters w ! p)" using u p set_remove1_subset [of t "w_waiters w ! p"] unfolding wait by auto
      ultimately show "tk_state (w_task w' u) = NX_TASK_BLOCKED \<and> tk_wait_q (w_task w' u) = Some p"
        using inv v p unfolding linked_once_def wait by simp
    qed
    show "distinct (w_deadlines w')" unfolding dl using inv unfolding linked_once_def by simp
    show "set (w_deadlines w') \<subseteq> set (concat (w_waiters w'))" unfolding sd ws(2) using inv unfolding linked_once_def by blast
    show "\<forall>u \<in> set (concat (w_waiters w')). tk_wait_has_deadline (w_task w' u) \<longleftrightarrow> u \<in> set (w_deadlines w')"
      unfolding sd ws(2) using inv v unfolding linked_once_def by auto
  qed
  moreover have "linked_tasks queue w' = linked_tasks queue w"
    using t unfolding linked_tasks_def self ws(2) by blast
  ultimately show ?thesis ..
qed

text \<open>The states the kernel reaches from \<open>w0\<close>; the task that waits is a running one, so it is on the run queue.\<close>

inductive sched_reach ::
  "'s nx_scheduler_ops \<Rightarrow> ('s \<Rightarrow> task_id list) \<Rightarrow> 's sched_world \<Rightarrow> 's sched_world \<Rightarrow> bool"
  for ops queue w0
where
  start: "sched_reach ops queue w0 w0"
| resched: "sched_reach ops queue w0 w \<Longrightarrow> sched_check_resched (Some ops) w = Continues w' \<Longrightarrow> sched_reach ops queue w0 w'"
| yield: "sched_reach ops queue w0 w \<Longrightarrow> nx_task_yield (Some ops) w = Continues w' \<Longrightarrow> sched_reach ops queue w0 w'"
| wait: "sched_reach ops queue w0 w \<Longrightarrow> cpu_current (w_cpu w) = Some t \<Longrightarrow> t \<in> set (queue (w_self w)) \<Longrightarrow>
    q < length (w_waiters w) \<Longrightarrow>
    nx_waitq_wait_unless (Some ops) (Some q) budget pred w \<in> {W_Return r w', W_Switched w'} \<Longrightarrow>
    sched_reach ops queue w0 w'"
| wake_one: "sched_reach ops queue w0 w \<Longrightarrow> q < length (w_waiters w) \<Longrightarrow>
    sched_reach ops queue w0 (nx_waitq_wake_one (Some ops) q w)"
| wake_all: "sched_reach ops queue w0 w \<Longrightarrow> sched_reach ops queue w0 (nx_waitq_wake_all (Some ops) q w)"
| tick: "sched_reach ops queue w0 w \<Longrightarrow> sched_reach ops queue w0 (sched_tick (Some ops) (w\<lparr>w_now := now\<rparr>))"

context scheduler_policy
begin

definition world_ok :: "'s sched_world \<Rightarrow> task_id set \<Rightarrow> bool" where
  "world_ok w T \<longleftrightarrow> invar (w_self w) \<and> linked_once queue w \<and> linked_tasks queue w = T"

lemma world_ok_same: "same_links queue w w' \<Longrightarrow> invar (w_self w') \<Longrightarrow> world_ok w T \<Longrightarrow> world_ok w' T"
  by (auto simp: world_ok_def same_links_inv)

lemma world_ok_cpu:
  "same_tasks (w_cpu w) c \<Longrightarrow> world_ok w T \<Longrightarrow> world_ok (w\<lparr>w_cpu := c\<rparr>) T"
  by (rule world_ok_same [of w]) (auto simp: world_ok_def same_links_def same_tasks_def)

lemma resched_world_ok:
  assumes "world_ok w T" "sched_check_resched (Some ops) w = Continues w'"
  shows "world_ok w' T"
proof (cases "cpu_current (w_cpu w)")
  case None
  then show ?thesis using assms by (simp add: sched_check_resched_def)
next
  case (Some cur)
  let ?w1 = "w_upd cur (\<lambda>k. k\<lparr>tk_need_resched := False\<rparr>) w"
  let ?w2 = "?w1\<lparr>w_self := so_yield ops (w_cpu ?w1) (w_self ?w1)\<rparr>"
  have inv: "invar (w_self w)" using assms(1) by (simp add: world_ok_def)
  have y: "invar (so_yield ops (w_cpu ?w1) (w_self w))"
    "mset (queue (so_yield ops (w_cpu ?w1) (w_self w))) = mset (queue (w_self w))"
    using yield_permutes [OF inv] by blast+
  have "same_links queue w ?w1" by (rule same_links_w_upd) (simp add: wait_view_def)
  then have "same_links queue w ?w2" using y(2) by (simp add: same_links_def)
  then have 2: "world_ok ?w2 T" by (rule world_ok_same) (use y assms(1) in simp_all)
  have 3: "world_ok (context_switch cur nxt ?w2) T" for nxt
    by (rule world_ok_same [OF context_switch_same _ 2]) (use y in \<open>simp add: context_switch_def Let_def\<close>)
  from assms(2) Some have "w' = w \<or> w' = ?w2 \<or> (\<exists>nxt. w' = context_switch cur nxt ?w2)"
    by (auto simp: sched_check_resched_def Let_def split: option.splits if_splits)
  then show ?thesis using assms(1) 2 3 by blast
qed

lemma yield_world_ok:
  assumes "world_ok w T" "nx_task_yield (Some ops) w = Continues w'"
  shows "world_ok w' T"
proof (cases "cpu_current (w_cpu w)")
  case None
  then show ?thesis using assms by (simp add: nx_task_yield_def)
next
  case (Some cur)
  let ?w1 = "w_upd cur (\<lambda>k. k\<lparr>tk_need_resched := True\<rparr>) w"
  have "same_links queue w ?w1" by (rule same_links_w_upd) (simp add: wait_view_def)
  then have "world_ok ?w1 T" by (rule world_ok_same) (use assms(1) in \<open>simp_all add: world_ok_def\<close>)
  then show ?thesis using resched_world_ok assms(2) Some by (simp add: nx_task_yield_def)
qed

lemma register_world_ok:
  assumes ok: "world_ok w T" and t: "t \<in> set (queue (w_self w))" and q: "q < length (w_waiters w)"
  shows "world_ok (waitq_register (Some ops) q t budget w) T"
proof -
  let ?w' = "waitq_register (Some ops) q t budget w"
  have inv: "invar (w_self w)" and lo: "linked_once queue w" using ok by (simp_all add: world_ok_def)
  obtain s' where s': "so_dequeue ops (w_self w) (Some t) = (s', NX_OK)" "invar s'" "queue s' = remove1 t (queue (w_self w))"
    using dequeue_queued [OF inv t] by blast
  have tl: "t < length (cpu_tasks (w_cpu w))" using lo t by (auto simp: linked_once_def)
  have self: "w_self ?w' = s'" by (simp add: waitq_register_def Let_def s')
  have "linked_once queue ?w' \<and> linked_tasks queue ?w' = linked_tasks queue w"
    by (rule linked_once_block [OF lo t q, where d = "budget > 0"])
       (use tl in \<open>simp_all add: self s' waitq_register_def Let_def task_upd_task wait_view_def\<close>)
  then show ?thesis using ok s' by (simp add: world_ok_def self)
qed

lemma locked_wait_world_ok:
  assumes ok: "world_ok w T" and t: "t \<in> set (queue (w_self w))" and q: "q < length (w_waiters w)"
    and r: "waitq_register_and_wait_locked (Some ops) q t budget w \<in> {W_Return r w', W_Switched w'}"
  shows "world_ok w' T"
proof -
  let ?w1 = "waitq_register (Some ops) q t budget w"
  let ?w2 = "?w1\<lparr>w_cpu := nx_preempt_enable (w_cpu ?w1)\<rparr>"
  have "world_ok ?w2 T" by (rule world_ok_cpu [OF same_tasks_preempt(2) register_world_ok [OF ok t q]])
  moreover have "nx_task_yield (Some ops) ?w2 = Continues w'"
    using r by (auto simp: waitq_register_and_wait_locked_def Let_def split: outcome.splits if_splits)
  ultimately show ?thesis by (rule yield_world_ok)
qed

lemma wait_world_ok:
  assumes ok: "world_ok w T" and t: "cpu_current (w_cpu w) = Some t" "t \<in> set (queue (w_self w))"
    and q: "q < length (w_waiters w)"
    and r: "nx_waitq_wait_unless (Some ops) (Some q) budget pred w \<in> {W_Return r w', W_Switched w'}"
  shows "world_ok w' T"
proof -
  let ?w1 = "w\<lparr>w_cpu := nx_preempt_disable (w_cpu w)\<rparr>"
  have 1: "world_ok ?w1 T" by (rule world_ok_cpu [OF same_tasks_preempt(1) ok])
  have 2: "world_ok (?w1\<lparr>w_cpu := nx_preempt_enable (w_cpu ?w1)\<rparr>) T"
    by (rule world_ok_cpu [OF same_tasks_preempt(2) 1])
  from r t(1) consider "w' = ?w1\<lparr>w_cpu := nx_preempt_enable (w_cpu ?w1)\<rparr>"
    | "waitq_register_and_wait_locked (Some ops) q t budget ?w1 \<in> {W_Return r w', W_Switched w'}"
    by (auto simp: nx_waitq_wait_unless_def Let_def split: if_splits option.splits)
  then show ?thesis
  proof cases
    case 1
    then show ?thesis using 2 by simp
  next
    case 2
    then show ?thesis using locked_wait_world_ok [OF 1, of t q] t(2) q by simp
  qed
qed

lemma enqueue_ready_self:
  assumes "invar (w_self w)" "t \<notin> set (queue (w_self w))"
  shows "invar (w_self (enqueue_ready (Some ops) t w))"
    "set (queue (w_self (enqueue_ready (Some ops) t w))) = insert t (set (queue (w_self w)))"
    "w_cpu (enqueue_ready (Some ops) t w) = flag_idle t (w_cpu w)"
    "w_deadlines (enqueue_ready (Some ops) t w) = w_deadlines w" "w_now (enqueue_ready (Some ops) t w) = w_now w"
proof -
  obtain s' where "so_enqueue ops (w_cpu w) (w_self w) (Some t) = (flag_idle t (w_cpu w), s', NX_OK)"
    "invar s'" "set (queue s') = insert t (set (queue (w_self w)))"
    using enqueue_fresh [OF assms, of "w_cpu w"] by blast
  then show "invar (w_self (enqueue_ready (Some ops) t w))"
    "set (queue (w_self (enqueue_ready (Some ops) t w))) = insert t (set (queue (w_self w)))"
    "w_cpu (enqueue_ready (Some ops) t w) = flag_idle t (w_cpu w)"
    "w_deadlines (enqueue_ready (Some ops) t w) = w_deadlines w" "w_now (enqueue_ready (Some ops) t w) = w_now w"
    by (simp_all add: enqueue_ready_def)
qed

lemma flag_idle_simps [simp]:
  "length (cpu_tasks (flag_idle t c)) = length (cpu_tasks c)" "wait_view (task (flag_idle t c) u) = wait_view (task c u)"
  using same_tasks_flag_idle [of c t] by (simp_all add: same_tasks_def)

lemma wait_view_simps:
  "wait_view (k\<lparr>tk_wait_q := q, tk_wait_woken := b, tk_state := s\<rparr>) = (s, q, tk_wait_has_deadline k)"
  "wait_view (k\<lparr>tk_wait_has_deadline := d, tk_wait_q := q, tk_wait_woken := b, tk_state := s\<rparr>) = (s, q, d)"
  "wait_view (k\<lparr>tk_wait_has_deadline := d, tk_wait_q := q, tk_state := s\<rparr>) = (s, q, d)"
  by (simp_all add: wait_view_def)

lemma release_world_ok:
  assumes ok: "world_ok w T" and t: "t \<in> set (concat (w_waiters w))"
  shows "world_ok (waitq_release_locked (Some ops) t w) T"
proof -
  let ?w' = "waitq_release_locked (Some ops) t w"
  have inv: "invar (w_self w)" and lo: "linked_once queue w" using ok by (simp_all add: world_ok_def)
  have tl: "t < length (cpu_tasks (w_cpu w))" and tq: "t \<notin> set (queue (w_self w))"
    and td: "tk_wait_has_deadline (w_task w t) \<longleftrightarrow> t \<in> set (w_deadlines w)"
    using lo t unfolding linked_once_def by blast+
  have e: "invar (w_self ?w')" "set (queue (w_self ?w')) = insert t (set (queue (w_self w)))"
    using inv tq by (simp_all add: waitq_release_locked_def Let_def unlink_waiter_def enqueue_ready_self)
  have "linked_once queue ?w' \<and> linked_tasks queue ?w' = linked_tasks queue w"
    by (rule linked_once_release [OF lo t e(2) distinct_queue [OF e(1)] release_waiters])
       (use tl inv tq td in \<open>auto simp: waitq_release_locked_def Let_def unlink_waiter_def enqueue_ready_self
          task_upd_task remove1_idem wait_view_simps\<close>)
  then show ?thesis using ok e by (simp add: world_ok_def)
qed

lemma expire_world_ok:
  assumes ok: "world_ok w T" and t: "t \<in> set (w_deadlines w)"
  shows "world_ok (expire_waiter (Some ops) t w) T"
proof (cases "nx_deadline_exceeded (w_now w) (tk_wait_deadline (w_task w t))")
  case False
  then show ?thesis using ok by (simp add: expire_waiter_def)
next
  case True
  let ?w' = "expire_waiter (Some ops) t w"
  have inv: "invar (w_self w)" and lo: "linked_once queue w" using ok by (simp_all add: world_ok_def)
  have tw: "t \<in> set (concat (w_waiters w))" using lo t unfolding linked_once_def by blast
  have tl: "t < length (cpu_tasks (w_cpu w))" and tq: "t \<notin> set (queue (w_self w))"
    using lo tw unfolding linked_once_def by blast+
  have e: "invar (w_self ?w')" "set (queue (w_self ?w')) = insert t (set (queue (w_self w)))"
    "w_waiters ?w' = map (remove1 t) (w_waiters w)"
    using inv tq True by (simp_all add: expire_waiter_def Let_def unlink_waiter_def enqueue_ready_self)
  have "linked_once queue ?w' \<and> linked_tasks queue ?w' = linked_tasks queue w"
    by (rule linked_once_release [OF lo tw e(2) distinct_queue [OF e(1)] e(3)])
       (use tl inv tq True in \<open>auto simp: expire_waiter_def Let_def unlink_waiter_def enqueue_ready_self
          task_upd_task wait_view_simps\<close>)
  then show ?thesis using ok e by (simp add: world_ok_def)
qed

lemma wake_all_loop_world_ok: "world_ok w T \<Longrightarrow> world_ok (wake_all_loop (Some ops) q w) T"
proof (induction "Some ops" q w rule: wake_all_loop.induct)
  case (1 q w)
  show ?case
  proof (cases "q < length (w_waiters w) \<and> w_waiters w ! q \<noteq> []")
    case True
    then obtain t ts where ts: "w_waiters w ! q = t # ts" by (cases "w_waiters w ! q") auto
    then have "t \<in> set (concat (w_waiters w))" using True set_nth_concat [of q "w_waiters w" t] by simp
    from 1(1) [OF _ ts release_world_ok [OF 1(2) this]] True ts show ?thesis
      by (subst wake_all_loop.simps) simp
  next
    case False
    then show ?thesis using 1(2) by (subst wake_all_loop.simps) (auto split: list.split)
  qed
qed

lemma expire_keeps_others:
  assumes "world_ok w T" "t \<in> set (w_deadlines w)"
  shows "set (w_deadlines w) - {t} \<subseteq> set (w_deadlines (expire_waiter (Some ops) t w))"
proof -
  have "t \<notin> set (queue (w_self w))" and "invar (w_self w)"
    using assms unfolding world_ok_def linked_once_def by blast+
  then show ?thesis
    by (auto simp: expire_waiter_def Let_def unlink_waiter_def enqueue_ready_self intro: in_set_remove1 [THEN iffD2])
qed

lemma expire_fold_world_ok:
  "world_ok w T \<Longrightarrow> distinct ts \<Longrightarrow> set ts \<subseteq> set (w_deadlines w) \<Longrightarrow> world_ok (fold (expire_waiter (Some ops)) ts w) T"
proof (induction ts arbitrary: w)
  case (Cons t ts)
  then have "set ts \<subseteq> set (w_deadlines (expire_waiter (Some ops) t w))"
    using expire_keeps_others [of w T t] by auto
  then show ?case using Cons expire_world_ok [of w T t] by simp
qed simp

lemma bracketed_world_ok:
  assumes "world_ok w T"
    and "\<And>v. world_ok v T \<Longrightarrow> w_waiters v = w_waiters w \<Longrightarrow> w_deadlines v = w_deadlines w \<Longrightarrow> world_ok (body v) T"
  shows "world_ok (bracketed body w) T"
  using assms(2) [of "w\<lparr>w_cpu := nx_preempt_disable (w_cpu w)\<rparr>"] assms(1)
  by (simp add: bracketed_def Let_def world_ok_cpu)

lemma wake_one_world_ok:
  "world_ok w T \<Longrightarrow> q < length (w_waiters w) \<Longrightarrow> world_ok (nx_waitq_wake_one (Some ops) q w) T"
  unfolding nx_waitq_wake_one_def
  by (rule bracketed_world_ok) (auto split: list.split intro!: release_world_ok dest: set_nth_concat)

lemma tick_world_ok:
  assumes "world_ok w T"
  shows "world_ok (sched_tick (Some ops) (w\<lparr>w_now := now\<rparr>)) T"
proof -
  obtain c' s' where t: "so_tick ops (w_cpu w) (w_self w) = (c', s')" by fastforce
  let ?w = "w\<lparr>w_now := now, w_cpu := c', w_self := s'\<rparr>"
  have k: "invar s' \<and> queue s' = queue (w_self w) \<and>
      (c' = w_cpu w \<or> (\<exists>cur. c' = upd_task cur (\<lambda>k. k\<lparr>tk_need_resched := True\<rparr>) (w_cpu w)))"
    using tick_keeps [OF _ t] assms unfolding world_ok_def by blast
  then have "same_tasks (w_cpu w) c'" by (auto simp: wait_view_def intro: same_tasks_upd)
  with k have ok: "world_ok ?w T"
    by (intro world_ok_same [OF _ _ assms]) (auto simp: same_links_def same_tasks_def)
  have "world_ok (nx_waitq_tick_deadlines (Some ops) ?w) T"
    unfolding nx_waitq_tick_deadlines_def
    by (rule bracketed_world_ok [OF ok], rule expire_fold_world_ok) (auto simp: world_ok_def linked_once_def)
  then show ?thesis by (simp add: sched_tick_def t)
qed

lemma reach_world_ok: "sched_reach ops queue w0 w \<Longrightarrow> world_ok w0 T \<Longrightarrow> world_ok w T"
proof (induction rule: sched_reach.induct)
  case (wait w t q budget pred r w')
  show ?case by (rule wait_world_ok [OF wait.IH [OF wait.prems] wait.hyps(2-5)])
next
  case (wake_all w q)
  then show ?case unfolding nx_waitq_wake_all_def by (intro bracketed_world_ok wake_all_loop_world_ok) auto
qed (auto intro: resched_world_ok yield_world_ok wake_one_world_ok tick_world_ok)

end

section \<open>Deadline ticks\<close>

context scheduler_policy
begin

lemma expire_other_deadline:
  assumes "world_ok w T" "t \<in> set (w_deadlines w)" "u \<noteq> t"
  shows "tk_wait_deadline (w_task (expire_waiter (Some ops) t w) u) = tk_wait_deadline (w_task w u) \<and>
         w_now (expire_waiter (Some ops) t w) = w_now w"
proof -
  have *: "t \<notin> set (queue (w_self w))" "invar (w_self w)" "t < length (cpu_tasks (w_cpu w))"
    using assms unfolding world_ok_def linked_once_def by blast+
  have "tk_wait_deadline (task (flag_idle t c) u) = tk_wait_deadline (task c u)" for c
    by (simp add: flag_idle_def task_upd_field [where p = tk_wait_deadline])
  with * assms(3) show ?thesis
    by (simp add: expire_waiter_def Let_def unlink_waiter_def enqueue_ready_self task_upd_task)
qed

lemma expire_deadlines:
  assumes "world_ok w T" "t \<in> set (w_deadlines w)"
  shows "w_deadlines (expire_waiter (Some ops) t w) =
     (if nx_deadline_exceeded (w_now w) (tk_wait_deadline (w_task w t)) then remove1 t (w_deadlines w) else w_deadlines w)"
proof -
  have "t \<notin> set (queue (w_self w))" "invar (w_self w)"
    using assms unfolding world_ok_def linked_once_def by blast+
  then show ?thesis by (simp add: expire_waiter_def Let_def unlink_waiter_def enqueue_ready_self)
qed

lemma expire_fold_deadlines:
  "world_ok w T \<Longrightarrow> w_deadlines w = pre @ ts \<Longrightarrow>
   w_deadlines (fold (expire_waiter (Some ops)) ts w) =
     pre @ filter (\<lambda>t. \<not> nx_deadline_exceeded (w_now w) (tk_wait_deadline (w_task w t))) ts"
proof (induction ts arbitrary: w pre)
  case (Cons t ts)
  let ?w = "expire_waiter (Some ops) t w"
  have t: "t \<in> set (w_deadlines w)" using Cons.prems(2) by simp
  have d: "distinct (pre @ t # ts)" using Cons.prems unfolding world_ok_def linked_once_def by metis
  have ok: "world_ok ?w T" by (rule expire_world_ok [OF Cons.prems(1) t])
  have same: "tk_wait_deadline (w_task ?w u) = tk_wait_deadline (w_task w u)" "w_now ?w = w_now w" if "u \<noteq> t" for u
    using expire_other_deadline [OF Cons.prems(1) t that] by simp_all
  have now: "w_now ?w = w_now w" using same(2) [of "Suc t"] by simp
  have f: "filter (\<lambda>u. \<not> nx_deadline_exceeded (w_now ?w) (tk_wait_deadline (w_task ?w u))) ts =
           filter (\<lambda>u. \<not> nx_deadline_exceeded (w_now w) (tk_wait_deadline (w_task w u))) ts"
  proof (rule filter_cong [OF refl])
    fix u assume "u \<in> set ts"
    then have "u \<noteq> t" using d by auto
    then show "(\<not> nx_deadline_exceeded (w_now ?w) (tk_wait_deadline (w_task ?w u))) =
               (\<not> nx_deadline_exceeded (w_now w) (tk_wait_deadline (w_task w u)))" by (simp add: now same)
  qed
  show ?case
  proof (cases "nx_deadline_exceeded (w_now w) (tk_wait_deadline (w_task w t))")
    case True
    then have "w_deadlines ?w = pre @ ts"
      using expire_deadlines [OF Cons.prems(1) t] d Cons.prems(2) by (simp add: remove1_append)
    from Cons.IH [OF ok this] f True show ?thesis by simp
  next
    case False
    then have "w_deadlines ?w = (pre @ [t]) @ ts" using expire_deadlines [OF Cons.prems(1) t] Cons.prems(2) by simp
    from Cons.IH [OF ok this] f False show ?thesis by simp
  qed
qed simp

lemma tick_deadlines_filter:
  assumes "world_ok w T"
  shows "w_deadlines (nx_waitq_tick_deadlines (Some ops) w) =
     filter (\<lambda>t. \<not> nx_deadline_exceeded (w_now w) (tk_wait_deadline (w_task w t))) (w_deadlines w)"
proof -
  have "tk_wait_deadline (task (nx_preempt_disable c) u) = tk_wait_deadline (task c u)" for c u
    by (auto simp: nx_preempt_disable_def task_upd_field [where p = tk_wait_deadline] split: option.split)
  then show ?thesis
    using expire_fold_deadlines [OF world_ok_cpu [OF same_tasks_preempt(1) assms], of "[]" "w_deadlines w"]
    by (simp add: nx_waitq_tick_deadlines_def bracketed_def Let_def)
qed

end

section \<open>Properties\<close>


definition demo_world :: "'s \<Rightarrow> 's sched_world" where
  "demo_world s = \<lparr>w_cpu = \<lparr>cpu_tasks = replicate 4 demo_task, cpu_current = Some 1\<rparr>, w_self = s,
     w_waiters = [[], []], w_deadlines = [], w_now = 100, w_freq = 62500000,
     w_procs = [\<lparr>pv_active = True, pv_pending_signals = 0, pv_ttbr0_root = 0\<rparr>], w_ttbr0 = 0, w_tpidr_el0 = 0,
     w_switches = []\<rparr>"

lemma demo_world_rr: "rr_inv (demo_rr\<lparr>runqueue := [1, 2, 0]\<rparr>)" "linked_once runqueue (demo_world (demo_rr\<lparr>runqueue := [1, 2, 0]\<rparr>))"
  by (auto simp: rr_inv_def linked_once_def demo_world_def demo_task_def less_Suc_eq numeral_2_eq_2 nth_Cons')

lemma demo_world_prio: "prio_inv demo_prio" "linked_once prio_queue (demo_world demo_prio)"
  by (auto simp: prio_inv_def prio_queue_def demo_prio_def linked_once_def demo_world_def demo_task_def
      less_Suc_eq numeral_2_eq_2 nth_Cons')


text \<open>
  A timer tick expires exactly the waiters whose deadline has passed: after
  \<^verbatim>\<open>nx_waitq_tick_deadlines\<close> the deadline list has the tasks whose deadline is not exceeded, in their order,
  and every expired task is on the run queue, no longer blocked and on no wait queue.\<close>

theorem deadline_tick_expires_exactly:
  assumes "rr_inv (w_self w)" "linked_once runqueue w"
  defines "w' \<equiv> nx_waitq_tick_deadlines (Some sched_rr_scheduler_ops) w"
  shows "w_deadlines w' = filter (\<lambda>t. \<not> nx_deadline_exceeded (w_now w) (tk_wait_deadline (w_task w t))) (w_deadlines w) \<and>
         linked_once runqueue w' \<and> linked_tasks runqueue w' = linked_tasks runqueue w"
proof -
  have ok: "rr.world_ok w (linked_tasks runqueue w)" using assms(1,2) by (simp add: rr.world_ok_def)
  have "rr.world_ok w' (linked_tasks runqueue w)"
    unfolding w'_def nx_waitq_tick_deadlines_def
    by (rule rr.bracketed_world_ok [OF ok], rule rr.expire_fold_world_ok) (auto simp: rr.world_ok_def linked_once_def)
  then show ?thesis using rr.tick_deadlines_filter [OF ok] by (simp add: w'_def rr.world_ok_def)
qed

text \<open>A world in which task 1 waits with a deadline that has passed and task 3 with one that has not.\<close>

definition demo_waiting :: "sched_rr_state sched_world" where
  "demo_waiting = (demo_world (demo_rr\<lparr>runqueue := [2, 0]\<rparr>))
     \<lparr>w_cpu := \<lparr>cpu_tasks =
        [demo_task,
         demo_task\<lparr>tk_state := NX_TASK_BLOCKED, tk_wait_q := Some 0, tk_wait_has_deadline := True,
           tk_wait_deadline := \<lparr>dl_start = 10, dl_threshold = 50, dl_valid = True\<rparr>\<rparr>,
         demo_task,
         demo_task\<lparr>tk_state := NX_TASK_BLOCKED, tk_wait_q := Some 0, tk_wait_has_deadline := True,
           tk_wait_deadline := \<lparr>dl_start = 10, dl_threshold = 500, dl_valid = True\<rparr>\<rparr>],
        cpu_current = Some 2\<rparr>,
      w_waiters := [[1, 3], []], w_deadlines := [1, 3]\<rparr>"

theorem deadline_tick_expires_exactly_witness:
  "w_deadlines (nx_waitq_tick_deadlines (Some sched_rr_scheduler_ops) demo_waiting) = [3] \<and>
   linked_once runqueue (nx_waitq_tick_deadlines (Some sched_rr_scheduler_ops) demo_waiting)"
proof -
  have "rr_inv (w_self demo_waiting)" by code_simp
  moreover have "linked_once runqueue demo_waiting"
    by (auto simp: linked_once_def demo_waiting_def demo_world_def demo_task_def less_Suc_eq numeral_2_eq_2 nth_Cons')
  moreover have "filter (\<lambda>t. \<not> nx_deadline_exceeded (w_now demo_waiting) (tk_wait_deadline (w_task demo_waiting t)))
      (w_deadlines demo_waiting) = [3]" by code_simp
  ultimately show ?thesis using deadline_tick_expires_exactly [of demo_waiting] by simp
qed

text \<open>
  \<^verbatim>\<open>nx_waitq_wake_one\<close> is first come first served: it takes the longest waiting task off the wait queue, puts
  it at the tail of the round-robin queue ready to run, clears its deadline, and makes its wait return NX_OK.\<close>

theorem wake_one_releases_oldest:
  assumes "rr_inv (w_self w)" "linked_once runqueue w" "q < length (w_waiters w)" "w_waiters w ! q = t # ts"
  defines "w' \<equiv> nx_waitq_wake_one (Some sched_rr_scheduler_ops) q w"
  shows "w_waiters w' ! q = ts \<and> runqueue (w_self w') = runqueue (w_self w) @ [t] \<and>
         tk_state (w_task w' t) = NX_TASK_READY \<and> waitq_result w' t = NX_OK \<and> t \<notin> set (w_deadlines w')"
proof -
  have t: "t \<in> set (concat (w_waiters w))" using assms(3,4) set_nth_concat [of q "w_waiters w" t] by simp
  have tl: "t < length (cpu_tasks (w_cpu w))" and tq: "t \<notin> set (runqueue (w_self w))"
    and td: "tk_wait_has_deadline (w_task w t) \<longleftrightarrow> t \<in> set (w_deadlines w)" and dd: "distinct (w_deadlines w)"
    using assms(2) t unfolding linked_once_def by blast+
  let ?v = "w\<lparr>w_cpu := nx_preempt_disable (w_cpu w)\<rparr>"
  have lenv: "length (cpu_tasks (w_cpu ?v)) = length (cpu_tasks (w_cpu w))"
    and dlv: "tk_wait_has_deadline (w_task ?v t) = tk_wait_has_deadline (w_task w t)"
    using same_tasks_preempt(1) [of "w_cpu w"] by (auto simp: same_tasks_def wait_view_def)
  let ?r = "waitq_release_locked (Some sched_rr_scheduler_ops) t ?v"
  have w': "w' = ?r\<lparr>w_cpu := nx_preempt_enable (w_cpu ?r)\<rparr>"
    by (simp add: w'_def nx_waitq_wake_one_def bracketed_def Let_def assms(4))
  have keep: "tk_wait_woken (task (nx_preempt_enable c) u) = tk_wait_woken (task c u)"
    "tk_state (task (nx_preempt_enable c) u) = tk_state (task c u)"
    "tk_wait_woken (task (flag_idle x c) u) = tk_wait_woken (task c u)"
    "tk_state (task (flag_idle x c) u) = tk_state (task c u)" for c u x
    by (auto simp: nx_preempt_enable_def flag_idle_def task_upd_field [where p = tk_wait_woken]
        task_upd_field [where p = tk_state] split: option.split)
  have enq: "enqueue_ready (Some sched_rr_scheduler_ops) t x =
      x\<lparr>w_cpu := flag_idle t (w_cpu x), w_self := (w_self x)\<lparr>runqueue := runqueue (w_self x) @ [t]\<rparr>\<rparr>"
    if "t \<notin> set (runqueue (w_self x))" for x
    using that by (simp add: enqueue_ready_def sched_rr_ops_defs)
  have r: "w_waiters ?r = map (remove1 t) (w_waiters w)" "runqueue (w_self ?r) = runqueue (w_self w) @ [t]"
    "w_deadlines ?r = remove1 t (w_deadlines w)"
    "tk_state (w_task ?r t) = NX_TASK_READY" "tk_wait_woken (w_task ?r t)"
    using tq tl td dlv lenv
    by (auto simp: waitq_release_locked_def Let_def unlink_waiter_def enq keep task_upd_task remove1_idem)
  show ?thesis using r assms(3,4) dd by (simp add: w' keep waitq_result_def)
qed

theorem wake_one_releases_oldest_witness:
  "runqueue (w_self (nx_waitq_wake_one (Some sched_rr_scheduler_ops) 0 demo_waiting)) = [2, 0, 1] \<and>
   waitq_result (nx_waitq_wake_one (Some sched_rr_scheduler_ops) 0 demo_waiting) 1 = NX_OK"
proof -
  have 1: "rr_inv (w_self demo_waiting)" and 2: "0 < length (w_waiters demo_waiting)"
    and 3: "w_waiters demo_waiting ! 0 = 1 # [3]" and 4: "runqueue (w_self demo_waiting) = [2, 0]" by code_simp+
  have "linked_once runqueue demo_waiting"
    by (auto simp: linked_once_def demo_waiting_def demo_world_def demo_task_def less_Suc_eq numeral_2_eq_2 nth_Cons')
  from wake_one_releases_oldest [OF 1 this 2 3] 4 show ?thesis by simp
qed

text \<open>The state in which \<^verbatim>\<open>nx_task_yield\<close> is called by a waiting task.\<close>

lemma fatal_signal_cong:
  "tk_process (w_task v t) = tk_process (w_task w t) \<Longrightarrow> w_procs v = w_procs w \<Longrightarrow> fatal_signal v t = fatal_signal w t"
  by (cases "tk_process (w_task w t)") (simp_all add: fatal_signal_def)

lemma preempt_pair_register:
  fixes w :: "'s sched_world" and g :: "'s nx_scheduler_ops option" and q :: nat and t :: task_id and budget :: u64
  assumes "cpu_current (w_cpu w) = Some t" "t < length (cpu_tasks (w_cpu w))" "tk_preempt_count (w_task w t) = 0"
  defines "v \<equiv> waitq_register g q t budget (w\<lparr>w_cpu := nx_preempt_disable (w_cpu w)\<rparr>)"
  defines "v' \<equiv> v\<lparr>w_cpu := nx_preempt_enable (w_cpu v)\<rparr>"
  shows "cpu_current (w_cpu v') = Some t" "tk_preempt_count (w_task v' t) = 0" "t < length (cpu_tasks (w_cpu v'))"
    "tk_process (w_task v' t) = tk_process (w_task w t)" "w_procs v' = w_procs w" "tk_wait_woken (w_task v' t) = False"
    "tk_state (w_task v' t) = NX_TASK_BLOCKED" "w_waiters v' = (w_waiters w)[q := w_waiters w ! q @ [t]]"
    "\<And>u. u \<noteq> t \<Longrightarrow> w_task v' u = w_task w u"
    "w_self v' = (case g of None \<Rightarrow> w_self w | Some ops \<Rightarrow> fst (so_dequeue ops (w_self w) (Some t)))"
  using assms(1-3)
  by (cases g; cases "budget > 0"; simp add: v'_def v_def waitq_register_def nx_preempt_disable_def
      nx_preempt_enable_def Let_def task_upd_task)+

text \<open>
  When the running task blocks, the round-robin driver skips the next task: with the run queue
  \<open>t # u # v # rest\<close> and \<open>t\<close> running, a wait by \<open>t\<close> switches to \<open>v\<close>, because the yield in
  \<^verbatim>\<open>sched_check_resched\<close> rotates the head of the queue, which after the dequeue is \<open>u\<close> and no longer the
  current task. With \<open>v\<close> the idle task, the CPU idles while \<open>u\<close> is ready.\<close>

theorem blocking_skips_next_task:
  assumes "rr_inv (w_self w)" "linked_once runqueue w" "cpu_current (w_cpu w) = Some t" "q < length (w_waiters w)"
    and "runqueue (w_self w) = t # u # v # rest"
    and "tk_preempt_count (w_task w t) = 0" "fatal_signal w t = None"
  shows "\<exists>w'. nx_waitq_wait_with_deadline (Some sched_rr_scheduler_ops) (Some q) budget w = W_Switched w' \<and>
     cpu_current (w_cpu w') = Some v \<and> runqueue (w_self w') = v # rest @ [u]"
proof -
  let ?g = "Some sched_rr_scheduler_ops"
  let ?r = "waitq_register ?g q t budget (w\<lparr>w_cpu := nx_preempt_disable (w_cpu w)\<rparr>)"
  let ?v = "?r\<lparr>w_cpu := nx_preempt_enable (w_cpu ?r)\<rparr>"
  let ?x = "w_upd t (\<lambda>k. k\<lparr>tk_need_resched := True\<rparr>) ?v"
  have tl: "t < length (cpu_tasks (w_cpu w))" and vt: "v \<noteq> t" and vb: "tk_state (w_task w v) \<noteq> NX_TASK_BLOCKED"
    using assms(2,5) unfolding linked_once_def by auto
  note V = preempt_pair_register [OF assms(3) tl assms(6), where g = ?g and q = q and budget = budget]
  have rq: "runqueue (w_self ?v) = u # v # rest"
    using V(10) assms(1,5) by (simp add: sched_rr_ops_defs)
  have sig: "fatal_signal ?x t = None"
    using fatal_signal_cong [of ?x t w] V(3-5) assms(7) by (simp add: task_upd_task)
  let ?w1 = "w_upd t (\<lambda>k. k\<lparr>tk_need_resched := False\<rparr>) ?x"
  let ?w2 = "?w1\<lparr>w_self := so_yield sched_rr_scheduler_ops (w_cpu ?w1) (w_self ?w1)\<rparr>"
  have rq2: "runqueue (w_self ?w2) = v # rest @ [u]" using rq by (simp add: sched_rr_ops_defs)
  have "tk_state (task (w_cpu ?w2) v) \<noteq> NX_TASK_BLOCKED"
    using V(3) V(9) [OF vt] vb vt by (simp add: task_upd_task)
  then have pick: "so_pick_next sched_rr_scheduler_ops (w_cpu ?w2) (w_self ?w2) = Some v"
    using rq2 unfolding sched_rr_scheduler_ops_def sched_rr_pick_next_def by simp
  have need: "tk_need_resched (w_task ?x t)" "tk_preempt_count (w_task ?x t) = 0" using V(2,3) by (simp_all add: task_upd_task)
  have "sched_check_resched ?g ?x = Continues (context_switch t v ?w2)"
    using V(1) sig need pick vt unfolding sched_check_resched_def by (simp add: Let_def)
  then have y: "nx_task_yield ?g ?v = Continues (context_switch t v ?w2)" using V(1) by (simp add: nx_task_yield_def)
  have cur: "cpu_current (w_cpu (context_switch t v ?w2)) = Some v"
    by (simp add: context_switch_def cpu_switch_to_def nx_preempt_enable_def Let_def split: option.split)
  have "w_self (context_switch t v ?w2) = w_self ?w2" by (simp add: context_switch_def Let_def)
  then show ?thesis
    using y cur vt rq2 assms(3)
    by (simp add: nx_waitq_wait_with_deadline_def waitq_register_and_wait_locked_def Let_def)
qed

theorem blocking_skips_next_task_witness:
  "\<exists>w'. nx_waitq_wait_with_deadline (Some sched_rr_scheduler_ops) (Some 0) 0 (demo_world (demo_rr\<lparr>runqueue := [1, 2, 0]\<rparr>))
        = W_Switched w' \<and> cpu_current (w_cpu w') = Some g_idle_task \<and> runqueue (w_self w') = [0, 2]"
proof -
  let ?w = "demo_world (demo_rr\<lparr>runqueue := [1, 2, 0]\<rparr>)"
  have "rr_inv (w_self ?w)" using demo_world_rr(1) by (simp add: demo_world_def)
  moreover have "cpu_current (w_cpu ?w) = Some 1" "0 < length (w_waiters ?w)" "runqueue (w_self ?w) = 1 # 2 # 0 # []"
    "tk_preempt_count (w_task ?w 1) = 0" "fatal_signal ?w 1 = None" by code_simp+
  ultimately show ?thesis using blocking_skips_next_task [of ?w 1 0 2 0 "[]" 0] demo_world_rr(2) by simp
qed

text \<open>
  A wait by the only runnable task does not wait: with nothing else on the run queue
  \<^verbatim>\<open>nx_task_yield\<close> returns at once, so the wait returns NX_EDEADLINE even when no deadline was given, and the
  task is left blocked and linked on the wait queue while it keeps running.\<close>

theorem wait_alone_returns_deadline:
  assumes "cpu_current (w_cpu w) = Some t" "t < length (cpu_tasks (w_cpu w))" "runqueue (w_self w) = [t]"
    and "q < length (w_waiters w)" "tk_preempt_count (w_task w t) = 0" "fatal_signal w t = None"
  shows "\<exists>w'. nx_waitq_wait_with_deadline (Some sched_rr_scheduler_ops) (Some q) 0 w = W_Return NX_EDEADLINE w' \<and>
     cpu_current (w_cpu w') = Some t \<and> t \<in> set (w_waiters w' ! q) \<and> tk_state (w_task w' t) = NX_TASK_BLOCKED"
proof -
  let ?g = "Some sched_rr_scheduler_ops"
  let ?r = "waitq_register ?g q t 0 (w\<lparr>w_cpu := nx_preempt_disable (w_cpu w)\<rparr>)"
  let ?v = "?r\<lparr>w_cpu := nx_preempt_enable (w_cpu ?r)\<rparr>"
  let ?x = "w_upd t (\<lambda>k. k\<lparr>tk_need_resched := True\<rparr>) ?v"
  let ?w1 = "w_upd t (\<lambda>k. k\<lparr>tk_need_resched := False\<rparr>) ?x"
  note V = preempt_pair_register [OF assms(1,2,5), where g = ?g and q = q and budget = 0]
  have rq: "runqueue (w_self ?v) = []" using V(10) assms(3) by (simp add: sched_rr_ops_defs)
  have sig: "fatal_signal ?x t = None"
    using fatal_signal_cong [of ?x t w] V(3-5) assms(6) by (simp add: task_upd_task)
  have need: "tk_need_resched (w_task ?x t)" "tk_preempt_count (w_task ?x t) = 0" using V(2,3) by (simp_all add: task_upd_task)
  have "sched_check_resched ?g ?x = Continues ?w1"
    using V(1) sig need rq unfolding sched_check_resched_def by (simp add: Let_def sched_rr_ops_defs w_upd_def)
  then have y: "nx_task_yield ?g ?v = Continues ?w1" using V(1) by (simp add: nx_task_yield_def)
  show ?thesis
    using y V(1,3,6,7,8) assms(1,4)
    by (simp add: nx_waitq_wait_with_deadline_def waitq_register_and_wait_locked_def Let_def waitq_result_def task_upd_task)
qed

theorem wait_alone_returns_deadline_witness:
  "\<exists>w'. nx_waitq_wait_with_deadline (Some sched_rr_scheduler_ops) (Some 0) 0 (demo_world (demo_rr\<lparr>runqueue := [1]\<rparr>))
        = W_Return NX_EDEADLINE w' \<and> 1 \<in> set (w_waiters w' ! 0)"
proof -
  let ?w = "demo_world (demo_rr\<lparr>runqueue := [1]\<rparr>)"
  have "cpu_current (w_cpu ?w) = Some 1" "1 < length (cpu_tasks (w_cpu ?w))" "runqueue (w_self ?w) = [1]"
    "0 < length (w_waiters ?w)" "tk_preempt_count (w_task ?w 1) = 0" "fatal_signal ?w 1 = None" by code_simp+
  from wait_alone_returns_deadline [OF this] show ?thesis by blast
qed

text \<open>
  The address space follows the running task: if every task has a process and the table-base
  register holds the root of the running task's process whenever that root is not zero, then so it does after
  \<^verbatim>\<open>sched_check_resched\<close>, whatever it switched to, although the code skips the write when the roots agree or the
  incoming root is zero.\<close>

theorem address_space_follows_task:
  assumes "linked_once runqueue w" "\<forall>t < length (cpu_tasks (w_cpu w)). tk_process (w_task w t) \<noteq> None"
    and "rr_inv (w_self w)" "cpu_current (w_cpu w) = Some cur" "cur < length (cpu_tasks (w_cpu w))"
    and "pv_ttbr0_root (w_procs w ! the (tk_process (w_task w cur))) \<noteq> 0 \<longrightarrow>
         w_ttbr0 w = pv_ttbr0_root (w_procs w ! the (tk_process (w_task w cur)))"
    and "sched_check_resched (Some sched_rr_scheduler_ops) w = Continues w'"
  shows "\<exists>cur'. cpu_current (w_cpu w') = Some cur' \<and>
     (pv_ttbr0_root (w_procs w' ! the (tk_process (w_task w' cur'))) \<noteq> 0 \<longrightarrow>
      w_ttbr0 w' = pv_ttbr0_root (w_procs w' ! the (tk_process (w_task w' cur'))))"
proof -
  define w2 where "w2 = yielded sched_rr_scheduler_ops cur w"
  have pr: "tk_process (w_task w2 t) = tk_process (w_task w t)" for t
    by (simp add: w2_def yielded_def Let_def task_upd_field [where p = tk_process])
  have w2: "w_procs w2 = w_procs w" "w_ttbr0 w2 = w_ttbr0 w" "cpu_current (w_cpu w2) = Some cur"
    using assms(4) by (simp_all add: w2_def yielded_def Let_def)
  have keep: "tk_process (task (nx_preempt_disable c) u) = tk_process (task c u)"
    "tk_process (task (nx_preempt_enable c) u) = tk_process (task c u)" for c u
    by (auto simp: nx_preempt_enable_def nx_preempt_disable_def task_upd_field [where p = tk_process] split: option.split)
  have inr: "nxt < length (cpu_tasks (w_cpu w))" if "so_pick_next sched_rr_scheduler_ops (w_cpu w2) (w_self w2) = Some nxt" for nxt
  proof -
    have "rr_inv (w_self w2)" using rr.yield_permutes [OF assms(3)] by (simp add: w2_def yielded_def Let_def)
    then have "nxt \<in> set (runqueue (w_self w2))" using rr.pick_next_SomeD that by blast
    then have "nxt \<in> set (runqueue (w_self w))" using rr.yield_set [OF assms(3)] by (simp add: w2_def yielded_def Let_def)
    then show ?thesis using assms(1) unfolding linked_once_def by blast
  qed
  from sched_check_resched_cases [OF assms(7,4), folded w2_def] consider "w' = w" | "w' = w2"
    | nxt where "so_pick_next sched_rr_scheduler_ops (w_cpu w2) (w_self w2) = Some nxt" "w' = context_switch cur nxt w2"
    by blast
  then show ?thesis
  proof cases
    case 3
    obtain np cp where p: "tk_process (w_task w nxt) = Some np" "tk_process (w_task w cur) = Some cp"
      using assms(2,5) inr [OF 3(1)] by blast
    have "cpu_current (w_cpu w') = Some nxt" "w_procs w' = w_procs w2" "tk_process (w_task w' nxt) = tk_process (w_task w2 nxt)"
      "w_ttbr0 w' = switch_root (w2\<lparr>w_cpu := nx_preempt_disable (w_cpu w2)\<rparr>) cur nxt"
      unfolding 3(2)
      by (auto simp: context_switch_def cpu_switch_to_def Let_def keep task_upd_field [where p = tk_process] nx_preempt_enable_def
          switch_root_def split: option.split)
    then show ?thesis
      using p assms(6) pr w2 by (auto simp: switch_root_def keep)
  qed (use assms(4,6) pr w2 in auto)
qed

definition demo_two_processes :: "sched_rr_state sched_world" where
  "demo_two_processes = (demo_world (demo_rr\<lparr>runqueue := [1, 2, 0]\<rparr>))
     \<lparr>w_cpu := \<lparr>cpu_tasks = [demo_task, demo_task\<lparr>tk_process := Some 1, tk_need_resched := True\<rparr>,
                          demo_task\<lparr>tk_process := Some 2\<rparr>, demo_task], cpu_current = Some 1\<rparr>,
      w_procs := [\<lparr>pv_active = True, pv_pending_signals = 0, pv_ttbr0_root = 0\<rparr>,
                  \<lparr>pv_active = True, pv_pending_signals = 0, pv_ttbr0_root = 4096\<rparr>,
                  \<lparr>pv_active = True, pv_pending_signals = 0, pv_ttbr0_root = 8192\<rparr>],
      w_ttbr0 := 4096\<rparr>"

theorem address_space_follows_task_witness:
  "\<exists>w'. sched_check_resched (Some sched_rr_scheduler_ops) demo_two_processes = Continues w' \<and>
     cpu_current (w_cpu w') = Some 2 \<and> w_ttbr0 w' = 8192"
proof -
  let ?w = demo_two_processes and ?g = "Some sched_rr_scheduler_ops"
  have "(case sched_check_resched ?g ?w of Continues w' \<Rightarrow> cpu_current (w_cpu w') = Some 2 \<and>
      tk_process (w_task w' 2) = Some 2 \<and> pv_ttbr0_root (w_procs w' ! 2) = 8192 | Exits _ \<Rightarrow> False)" by code_simp
  then obtain w' where w': "sched_check_resched ?g ?w = Continues w'" "cpu_current (w_cpu w') = Some 2"
    "tk_process (w_task w' 2) = Some 2" "pv_ttbr0_root (w_procs w' ! 2) = 8192" by (auto split: outcome.splits)
  have "linked_once runqueue ?w"
    by (auto simp: linked_once_def demo_two_processes_def demo_world_def demo_task_def less_Suc_eq numeral_2_eq_2 nth_Cons')
  moreover have "\<forall>t < length (cpu_tasks (w_cpu ?w)). tk_process (w_task ?w t) \<noteq> None"
    by (auto simp: demo_two_processes_def demo_task_def less_Suc_eq nth_Cons')
  moreover have "rr_inv (w_self ?w)" "cpu_current (w_cpu ?w) = Some 1" "1 < length (cpu_tasks (w_cpu ?w))"
    "pv_ttbr0_root (w_procs ?w ! the (tk_process (w_task ?w 1))) \<noteq> 0 \<longrightarrow>
     w_ttbr0 ?w = pv_ttbr0_root (w_procs ?w ! the (tk_process (w_task ?w 1)))" by code_simp+
  ultimately show ?thesis using address_space_follows_task [of ?w 1 w'] w' by auto
qed

lemma scale_split:
  fixes b f g q r :: nat
  assumes "b = q * g + r" "0 < g"
  shows "b * f div g = q * f + r * f div g"
proof -
  have "b * f = r * f + g * (q * f)" unfolding assms(1) by (simp add: algebra_simps)
  then show ?thesis using assms(2) by simp
qed

text \<open>
  Deadlines measure the budget exactly: with a counter of at most \<open>2 ^ 34\<close> Hz and a budget whose length in
  counter units fits 64 bits, a deadline started at any counter value and checked \<open>d\<close> units later is
  exceeded exactly when \<open>d\<close> is more than the budget times the frequency divided by a billion, rounded down; the
  split multiplication does not overflow and the subtraction is right across a wrap of the counter.\<close>

theorem deadline_exact:
  assumes "unat freq \<le> 2 ^ 34" "unat budget * unat freq div 1000000000 < 2 ^ 64"
  shows "nx_deadline_exceeded (start + d) (nx_deadline_start start freq budget) \<longleftrightarrow>
         unat d > unat budget * unat freq div 1000000000"
proof -
  let ?b = "unat budget" and ?f = "unat freq" and ?g = "1000000000 :: nat"
  have split: "?b * ?f div ?g = ?b div ?g * ?f + (?b mod ?g) * ?f div ?g"
    by (rule scale_split [OF div_mult_mod_eq [symmetric]]) simp
  have "(?b mod ?g) * ?f < ?g * 2 ^ 34 + 1"
    using assms(1) mult_le_mono [of "?b mod ?g" ?g ?f "2 ^ 34"] by (simp add: less_Suc_eq_le)
  then have lf: "(?b mod ?g) * ?f < 2 ^ 64" by simp
  have q: "unat (budget div 1000000000) = ?b div ?g" "unat (budget mod 1000000000) = ?b mod ?g"
    by (simp_all add: unat_div_distrib unat_mod_distrib)
  have l: "unat ((budget mod 1000000000) * freq div 1000000000) = (?b mod ?g) * ?f div ?g"
    using lf by (simp add: unat_div_distrib unat_mod_distrib unat_word_ariths q)
  have h: "unat (budget div 1000000000 * freq) = ?b div ?g * ?f"
    using assms(2) split by (simp add: unat_word_ariths(2) q)
  have "unat (dl_threshold (nx_deadline_start start freq budget)) = ?b * ?f div ?g"
    using assms(2) by (simp add: nx_deadline_start_def unat_word_ariths(1) h l split)
  then show ?thesis
    by (simp add: nx_deadline_exceeded_def word_less_nat_alt) (simp add: nx_deadline_start_def)
qed

theorem deadline_exact_witness:
  "nx_deadline_exceeded (18446744073709551610 + 125001) (nx_deadline_start 18446744073709551610 62500000 2000000) \<and>
   \<not> nx_deadline_exceeded (18446744073709551610 + 125000) (nx_deadline_start 18446744073709551610 62500000 2000000)"
  using deadline_exact [of 62500000 2000000 18446744073709551610 125001]
    deadline_exact [of 62500000 2000000 18446744073709551610 125000] by simp

end
