(* ===== verification/Nx_Buddy.thy ===== *)
theory Nx_Buddy
  imports Nx_Prelude
begin

text \<open>
  The buddy page allocator (\<^verbatim>\<open>components/mm_buddy/mm_buddy.c\<close>): a pool of sixteen pages and five free
  lists, one per order. A free list is the list of the addresses of its blocks, head first; addresses are
  64-bit words and the address arithmetic (offsets, shifts, exclusive or) is the code's. The proofs
  follow the pages: a block of order \<open>k\<close> at page \<open>p\<close> is the set of pages with the same quotient by \<open>2 ^ k\<close>.
\<close>

section \<open>State and operations\<close>

abbreviation (input) MM_BUDDY_POOL_ORDER :: nat where "MM_BUDDY_POOL_ORDER \<equiv> 4"

record mm_buddy_state =
  pool_base :: u64
  free_lists :: "u64 list list"
  mb_init_called :: u32
  mb_enable_called :: u32
  mb_disable_called :: u32
  mb_destroy_called :: u32

definition free_list_push :: "mm_buddy_state \<Rightarrow> nat \<Rightarrow> u64 \<Rightarrow> mm_buddy_state" where
  "free_list_push s order node = s\<lparr>free_lists := (free_lists s)[order := node # free_lists s ! order]\<rparr>"

definition free_list_pop :: "mm_buddy_state \<Rightarrow> nat \<Rightarrow> mm_buddy_state \<times> u64" where
  "free_list_pop s order =
     (case free_lists s ! order of
        [] \<Rightarrow> (s, NULL)
      | n # rest \<Rightarrow> (s\<lparr>free_lists := (free_lists s)[order := rest]\<rparr>, n))"

definition free_list_remove :: "mm_buddy_state \<Rightarrow> nat \<Rightarrow> u64 \<Rightarrow> mm_buddy_state \<times> bool" where
  "free_list_remove s order target =
     (if target \<notin> set (free_lists s ! order) then (s, False)
      else (s\<lparr>free_lists := (free_lists s)[order := remove1 target (free_lists s ! order)]\<rparr>, True))"

text \<open>The first loop of \<^verbatim>\<open>mm_buddy_alloc_pages\<close>.\<close>

function find_found :: "mm_buddy_state \<Rightarrow> nat \<Rightarrow> nat" where
  "find_found s found =
     (if found \<le> MM_BUDDY_POOL_ORDER \<and> free_lists s ! found = [] then find_found s (found + 1) else found)"
  by auto
termination by (relation "measure (\<lambda>(s, found). 5 - found)") auto

text \<open>The second loop: the upper half of each split goes back on the smaller order's list.\<close>

function split_down :: "mm_buddy_state \<Rightarrow> u64 \<Rightarrow> nat \<Rightarrow> nat \<Rightarrow> mm_buddy_state" where
  "split_down s block order found =
     (if found > order then
        let found' = found - 1;
            half_size = push_bit found' PMM_PAGE_SIZE
        in split_down (free_list_push s found' (block + half_size)) block order found'
      else s)"
  by auto
termination by (relation "measure (\<lambda>(s, block, order, found). found)") auto

definition mm_buddy_alloc_pages :: "mm_buddy_state \<Rightarrow> nat \<Rightarrow> mm_buddy_state \<times> u64" where
  "mm_buddy_alloc_pages s order =
     (if order > MM_BUDDY_POOL_ORDER then (s, NULL)
      else let found = find_found s order in
        if found > MM_BUDDY_POOL_ORDER then (s, NULL)
        else case free_list_pop s found of (s1, block) \<Rightarrow> (split_down s1 block order found, block))"

text \<open>The loop of \<^verbatim>\<open>mm_buddy_free_pages\<close>, with the address and order it ends with.\<close>

function coalesce :: "mm_buddy_state \<Rightarrow> u64 \<Rightarrow> nat \<Rightarrow> mm_buddy_state \<times> u64 \<times> nat" where
  "coalesce s addr order =
     (if order < MM_BUDDY_POOL_ORDER then
        let block_size = push_bit order PMM_PAGE_SIZE;
            buddy_addr = pool_base s + ((addr - pool_base s) XOR block_size)
        in case free_list_remove s order buddy_addr of
             (s1, removed) \<Rightarrow>
               if \<not> removed then (s, addr, order)
               else coalesce s1 (if buddy_addr < addr then buddy_addr else addr) (order + 1)
      else (s, addr, order))"
  by auto
termination by (relation "measure (\<lambda>(s, addr, order). 4 - order)") auto

definition mm_buddy_free_pages :: "mm_buddy_state \<Rightarrow> u64 \<Rightarrow> nat \<Rightarrow> mm_buddy_state" where
  "mm_buddy_free_pages s p order =
     (if p = NULL then s
      else if order > MM_BUDDY_POOL_ORDER then s
      else case coalesce s p order of (s1, addr, order') \<Rightarrow> free_list_push s1 order' addr)"

definition mm_buddy_page_size :: u64 where "mm_buddy_page_size = PMM_PAGE_SIZE"
definition mm_buddy_max_order :: nat where "mm_buddy_max_order = MM_BUDDY_POOL_ORDER"

text \<open>The argument \<open>pool\<close> is what the backing allocator returned.\<close>

definition mm_buddy_init :: "u64 \<Rightarrow> mm_buddy_state \<Rightarrow> mm_buddy_state \<times> nx_status" where
  "mm_buddy_init pool s =
     (let s1 = s\<lparr>pool_base := pool\<rparr> in
      if pool = NULL then (s1, NX_ENOMEM)
      else
        let s2 = free_list_push (s1\<lparr>free_lists := replicate (MM_BUDDY_POOL_ORDER + 1) []\<rparr>) MM_BUDDY_POOL_ORDER pool
        in (s2\<lparr>mb_init_called := mb_init_called s2 + 1\<rparr>, NX_OK))"

definition mm_buddy_enable :: "mm_buddy_state \<Rightarrow> mm_buddy_state \<times> nx_status" where
  "mm_buddy_enable s = (s\<lparr>mb_enable_called := mb_enable_called s + 1\<rparr>, NX_OK)"

definition mm_buddy_disable :: "mm_buddy_state \<Rightarrow> mm_buddy_state \<times> nx_status" where
  "mm_buddy_disable s = (s\<lparr>mb_disable_called := mb_disable_called s + 1\<rparr>, NX_OK)"

text \<open>The second result is the pool handed back to the backing allocator.\<close>

definition mm_buddy_destroy :: "mm_buddy_state \<Rightarrow> mm_buddy_state \<times> u64 option" where
  "mm_buddy_destroy s =
     (let s1 = s\<lparr>mb_destroy_called := mb_destroy_called s + 1\<rparr>;
          freed = (if pool_base s1 \<noteq> NULL then Some (pool_base s1) else None);
          s2 = (if pool_base s1 \<noteq> NULL then s1\<lparr>pool_base := NULL\<rparr> else s1)
      in (s2\<lparr>free_lists := replicate (MM_BUDDY_POOL_ORDER + 1) []\<rparr>, freed))"

declare find_found.simps [simp del] split_down.simps [simp del] coalesce.simps [simp del]

section \<open>Pages and blocks\<close>

type_synonym block = "nat \<times> nat"

fun pages :: "block \<Rightarrow> nat set" where
  "pages (p, k) = {x. x div 2 ^ k = p div 2 ^ k}"

definition block_ok :: "block \<Rightarrow> bool" where
  "block_ok b \<longleftrightarrow> snd b \<le> 4 \<and> fst b < 16 \<and> 2 ^ snd b dvd fst b"

definition buddy :: "nat \<Rightarrow> nat \<Rightarrow> nat" where
  "buddy p k = (if even (p div 2 ^ k) then p + 2 ^ k else p - 2 ^ k)"

text \<open>
  The consistent states of an allocator with free blocks \<open>F\<close> and allocated blocks \<open>A\<close>: every page of the
  pool is in exactly one block, and no free block has a free buddy.
\<close>

definition tiling :: "block set \<Rightarrow> bool" where
  "tiling B \<longleftrightarrow> (\<forall>b \<in> B. block_ok b) \<and> (\<forall>x < 16. \<exists>b \<in> B. x \<in> pages b) \<and>
     (\<forall>b \<in> B. \<forall>b' \<in> B. pages b \<inter> pages b' \<noteq> {} \<longrightarrow> b = b')"

definition partitioned :: "block set \<Rightarrow> block set \<Rightarrow> bool" where
  "partitioned F A \<longleftrightarrow> tiling (F \<union> A) \<and> F \<inter> A = {} \<and>
     (\<forall>p k. (p, k) \<in> F \<longrightarrow> k < 4 \<longrightarrow> (buddy p k, k) \<notin> F)"

lemma start_in_pages [simp]: "p \<in> pages (p, k)"
  by simp

lemma pages_split:
  assumes "2 ^ Suc k dvd p"
  shows "pages (p, Suc k) = pages (p, k) \<union> pages (p + 2 ^ k, k)" "pages (p, k) \<inter> pages (p + 2 ^ k, k) = {}"
proof -
  obtain m where m: "p = 2 ^ Suc k * m" using assms by blast
  have d: "p div 2 ^ k = 2 * m" "(p + 2 ^ k) div 2 ^ k = Suc (2 * m)" "p div 2 ^ Suc k = m" using m by simp_all
  have h: "x div 2 ^ Suc k = x div 2 ^ k div 2" for x :: nat by (metis div_mult2_eq mult.commute power_Suc)
  have "y div 2 = m \<longleftrightarrow> y = 2 * m \<or> y = Suc (2 * m)" for y :: nat by presburger
  then have "x div 2 ^ Suc k = m \<longleftrightarrow> x div 2 ^ k = 2 * m \<or> x div 2 ^ k = Suc (2 * m)" for x :: nat unfolding h .
  then show "pages (p, Suc k) = pages (p, k) \<union> pages (p + 2 ^ k, k)" unfolding pages.simps d by blast
  show "pages (p, k) \<inter> pages (p + 2 ^ k, k) = {}" unfolding pages.simps d by auto
qed

lemma buddy_cases:
  assumes "2 ^ k dvd p"
  obtains "2 ^ Suc k dvd p" "buddy p k = p + 2 ^ k"
  | "2 ^ Suc k dvd p - 2 ^ k" "p = (p - 2 ^ k) + 2 ^ k" "buddy p k = p - 2 ^ k"
proof (cases "even (p div 2 ^ k)")
  case True
  then have "2 ^ Suc k dvd p" using assms by (metis dvd_mult_div_cancel mult.commute mult_dvd_mono dvd_refl power_Suc2)
  then show ?thesis using that(1) True by (simp add: buddy_def)
next
  case False
  then obtain m where m: "p div 2 ^ k = Suc (2 * m)" by (metis oddE Suc_eq_plus1)
  then have p: "p = 2 ^ k * Suc (2 * m)" using assms by (metis dvd_mult_div_cancel)
  then have "p - 2 ^ k = 2 ^ Suc k * m" by simp
  then show ?thesis using that(2) False p by (simp add: buddy_def)
qed

lemma buddy_merge:
  assumes "2 ^ k dvd p"
  defines "q \<equiv> min p (buddy p k)"
  shows "2 ^ Suc k dvd q" "pages (q, Suc k) = pages (p, k) \<union> pages (buddy p k, k)"
    "pages (p, k) \<inter> pages (buddy p k, k) = {}"
proof -
  show "2 ^ Suc k dvd q" by (rule buddy_cases [OF assms(1)]) (auto simp: q_def)
  show "pages (q, Suc k) = pages (p, k) \<union> pages (buddy p k, k)"
  proof (rule buddy_cases [OF assms(1)])
    assume b: "2 ^ Suc k dvd p" "buddy p k = p + 2 ^ k"
    then have "q = p" by (simp add: q_def)
    then show ?thesis using pages_split(1) [OF b(1)] b(2) by simp
  next
    assume b: "2 ^ Suc k dvd p - 2 ^ k" "p = (p - 2 ^ k) + 2 ^ k" "buddy p k = p - 2 ^ k"
    then have "q = p - 2 ^ k" by (simp add: q_def)
    then show ?thesis using pages_split(1) [OF b(1)] b(2,3) by auto
  qed
  show "pages (p, k) \<inter> pages (buddy p k, k) = {}"
  proof (rule buddy_cases [OF assms(1)])
    assume b: "2 ^ Suc k dvd p" "buddy p k = p + 2 ^ k"
    then show ?thesis using pages_split(2) [OF b(1)] by simp
  next
    assume b: "2 ^ Suc k dvd p - 2 ^ k" "p = (p - 2 ^ k) + 2 ^ k" "buddy p k = p - 2 ^ k"
    then show ?thesis using pages_split(2) [OF b(1)] by auto
  qed
qed

lemma buddy_aligned: "2 ^ k dvd p \<Longrightarrow> 2 ^ k dvd buddy p k"
  by (rule buddy_cases [of k p]) (auto simp: power_Suc dvd_mult_left intro: dvd_trans [of _ "2 * 2 ^ k"])

lemma buddy_buddy: "2 ^ k dvd p \<Longrightarrow> buddy (buddy p k) k = p"
proof -
  assume "2 ^ k dvd p"
  then obtain m where "p = 2 ^ k * m" by blast
  moreover have "2 ^ k * m + 2 ^ k = 2 ^ k * (m + 1)" by simp
  ultimately show ?thesis by (cases m) (simp_all add: buddy_def)
qed

lemma buddy_less: "p < 16 \<Longrightarrow> k < 4 \<Longrightarrow> 2 ^ k dvd p \<Longrightarrow> buddy p k < 16"
proof -
  assume p: "p < 16" and k: "k < 4" and d: "2 ^ k dvd p"
  show ?thesis
  proof (rule buddy_cases [OF d])
    assume b: "2 ^ Suc k dvd p" "buddy p k = p + 2 ^ k"
    have "2 ^ Suc k dvd (2 ^ 4 :: nat)" using k by (intro le_imp_power_dvd) simp
    then have "2 ^ Suc k dvd 16 - p" using b(1) by (simp add: dvd_diff_nat)
    then have "2 ^ Suc k \<le> 16 - p" using p by (intro dvd_imp_le) auto
    moreover have "0 < (2 :: nat) ^ k" by simp
    ultimately show ?thesis using b(2) p by simp
  qed (use p in simp)
qed

lemma pages_nonempty: "pages b \<noteq> {}"
  by (cases b) auto

lemma tiling_replace:
  assumes t: "tiling (X \<union> R)" and XR: "X \<inter> R = {}" and u: "(\<Union>b\<in>X. pages b) = (\<Union>b\<in>Y. pages b)"
    and ok: "\<forall>b \<in> Y. block_ok b" and dj: "\<And>b b'. b \<in> Y \<Longrightarrow> b' \<in> Y \<Longrightarrow> pages b \<inter> pages b' \<noteq> {} \<Longrightarrow> b = b'"
  shows "tiling (Y \<union> R) \<and> Y \<inter> R = {}"
proof -
  have apart: "pages b \<inter> pages r = {}" if b: "b \<in> Y" and r: "r \<in> R" for b r
  proof (rule ccontr)
    assume "pages b \<inter> pages r \<noteq> {}"
    then obtain x where x: "x \<in> pages b" "x \<in> pages r" by blast
    then obtain c where c: "c \<in> X" "x \<in> pages c" using b u by blast
    then have "c = r" using t r x(2) unfolding tiling_def by blast
    then show False using c r XR by blast
  qed
  have "Y \<inter> R = {}" using apart pages_nonempty by fastforce
  moreover have "\<exists>b \<in> Y \<union> R. x \<in> pages b" if x: "x < 16" for x
  proof -
    obtain b where b: "b \<in> X \<union> R" "x \<in> pages b" using t x unfolding tiling_def by blast
    then show ?thesis using u by (cases "b \<in> R") blast+
  qed
  moreover have "b = b'" if "b \<in> Y \<union> R" "b' \<in> Y \<union> R" "pages b \<inter> pages b' \<noteq> {}" for b b'
    using that apart dj t unfolding tiling_def by (metis Int_commute UnCI UnE)
  moreover have "\<forall>b \<in> Y \<union> R. block_ok b" using t ok unfolding tiling_def by blast
  ultimately show ?thesis unfolding tiling_def by blast
qed

lemma part_take: "partitioned F A \<Longrightarrow> b \<in> F \<Longrightarrow> partitioned (F - {b}) (insert b A)"
proof -
  assume p: "partitioned F A" and b: "b \<in> F"
  have "F - {b} \<union> insert b A = F \<union> A" using b by blast
  then show ?thesis using p b unfolding partitioned_def by auto
qed

lemma part_split:
  assumes p: "partitioned F (insert (p, Suc k) A)" and n: "(p, Suc k) \<notin> A"
  shows "partitioned (insert (p + 2 ^ k, k) F) (insert (p, k) A) \<and> (p, k) \<notin> A \<and> (p + 2 ^ k, k) \<notin> F"
proof -
  have ok: "block_ok (p, Suc k)" using p unfolding partitioned_def tiling_def by simp
  then have d: "2 ^ Suc k dvd p" and k: "k < 4" by (auto simp: block_ok_def)
  note sp = pages_split [OF d]
  have dk: "2 ^ k dvd p" using d by (metis dvd_trans le_SucI le_imp_power_dvd order_refl)
  have up: "p + 2 ^ k < 16"
    using buddy_less [of p k] ok dk k d by (auto simp: block_ok_def buddy_def dvd_div_eq_mult elim: dvdE)
  let ?Y = "{(p, k), (p + 2 ^ k, k)}"
  have ne: "(p, Suc k) \<notin> F \<union> A" using p n unfolding partitioned_def by blast
  have "tiling (?Y \<union> (F \<union> A)) \<and> ?Y \<inter> (F \<union> A) = {}"
  proof (rule tiling_replace [of "{(p, Suc k)}"])
    show "tiling ({(p, Suc k)} \<union> (F \<union> A))" using p unfolding partitioned_def by (simp add: Un_commute)
    show "\<forall>b \<in> ?Y. block_ok b" using ok dk k up by (auto simp: block_ok_def)
    show "(\<Union>b\<in>{(p, Suc k)}. pages b) = (\<Union>b\<in>?Y. pages b)" using sp(1) by simp
    show "b = b'" if "b \<in> ?Y" "b' \<in> ?Y" "pages b \<inter> pages b' \<noteq> {}" for b b'
      using that sp(2) by (auto simp: Int_commute)
  qed (use ne in blast)
  then have t: "tiling (?Y \<union> (F \<union> A))" and new: "(p, k) \<notin> F \<union> A" "(p + 2 ^ k, k) \<notin> F \<union> A" by blast+
  have nb: "(buddy q j, j) \<notin> insert (p + 2 ^ k, k) F" if q: "(q, j) \<in> insert (p + 2 ^ k, k) F" "j < 4" for q j
  proof
    assume b: "(buddy q j, j) \<in> insert (p + 2 ^ k, k) F"
    have al: "2 ^ k dvd p + 2 ^ k" using dk by simp
    have bp: "buddy (p + 2 ^ k) k = p"
      using buddy_buddy [OF dk] d by (auto simp: buddy_def elim: dvdE)
    have "block_ok (q, j)" using q(1) t unfolding tiling_def by blast
    then have qd: "2 ^ j dvd q" by (simp add: block_ok_def)
    consider "(q, j) = (p + 2 ^ k, k)" | "(q, j) \<in> F" "(buddy q j, j) = (p + 2 ^ k, k)" | "(q, j) \<in> F" "(buddy q j, j) \<in> F"
      using q(1) b by blast
    then show False
    proof cases
      case 1
      then have "(p, k) \<in> insert (p + 2 ^ k, k) F" using b bp by simp
      then show False using new by auto
    next
      case 2
      then have "q = p" using buddy_buddy [OF qd] bp by (metis Pair_inject)
      then show False using 2 new by simp
    next
      case 3
      then show False using p q(2) unfolding partitioned_def by blast
    qed
  qed
  have "insert (p + 2 ^ k, k) F \<union> insert (p, k) A = ?Y \<union> (F \<union> A)" by blast
  moreover have "insert (p + 2 ^ k, k) F \<inter> insert (p, k) A = {}" using new p unfolding partitioned_def by auto
  ultimately show ?thesis using t nb new unfolding partitioned_def by auto
qed

lemma part_merge:
  assumes p: "partitioned F (insert (p, k) A)" and n: "(p, k) \<notin> A" and k: "k < 4" and b: "(buddy p k, k) \<in> F"
  defines "q \<equiv> min p (buddy p k)"
  shows "partitioned (F - {(buddy p k, k)}) (insert (q, Suc k) A) \<and> (q, Suc k) \<notin> A"
proof -
  let ?b = "(buddy p k, k)" and ?F = "F - {(buddy p k, k)}"
  have ok: "block_ok (p, k)" "block_ok ?b" using p b unfolding partitioned_def tiling_def by blast+
  then have d: "2 ^ k dvd p" by (simp add: block_ok_def)
  note mg = buddy_merge [OF d]
  have pF: "(p, k) \<notin> F" using p unfolding partitioned_def by blast
  have bA: "?b \<notin> A" using p b unfolding partitioned_def by blast
  have "tiling ({(q, Suc k)} \<union> (?F \<union> A)) \<and> {(q, Suc k)} \<inter> (?F \<union> A) = {}"
  proof (rule tiling_replace [of "{(p, k), ?b}"])
    have "{(p, k), ?b} \<union> (?F \<union> A) = F \<union> insert (p, k) A" using b by blast
    then show "tiling ({(p, k), ?b} \<union> (?F \<union> A))" using p unfolding partitioned_def by simp
    show "{(p, k), ?b} \<inter> (?F \<union> A) = {}" using n pF bA by blast
    show "(\<Union>b\<in>{(p, k), ?b}. pages b) = (\<Union>b\<in>{(q, Suc k)}. pages b)" using mg(2) unfolding q_def by simp
    show "\<forall>b \<in> {(q, Suc k)}. block_ok b" using mg(1) ok k unfolding q_def by (simp add: block_ok_def min_def)
  qed simp
  then have t: "tiling ({(q, Suc k)} \<union> (?F \<union> A))" and new: "(q, Suc k) \<notin> ?F \<union> A" by blast+
  have "?F \<union> insert (q, Suc k) A = {(q, Suc k)} \<union> (?F \<union> A)" by blast
  moreover have "?F \<inter> insert (q, Suc k) A = {}" using new p unfolding partitioned_def by blast
  ultimately show ?thesis using t new p unfolding partitioned_def by auto
qed

lemma part_give:
  assumes p: "partitioned F (insert (p, k) A)" and n: "(p, k) \<notin> A" and b: "k < 4 \<Longrightarrow> (buddy p k, k) \<notin> F"
  shows "partitioned (insert (p, k) F) A"
proof -
  have ok: "block_ok c" if "c \<in> F \<union> insert (p, k) A" for c using p that unfolding partitioned_def tiling_def by blast
  then have dp: "2 ^ k dvd p" by (fastforce simp: block_ok_def)
  have nb: "(buddy q j, j) \<notin> insert (p, k) F" if q: "(q, j) \<in> insert (p, k) F" "j < 4" for q j
  proof
    assume B: "(buddy q j, j) \<in> insert (p, k) F"
    have "block_ok (q, j)" using ok q(1) by blast
    then have dq: "2 ^ j dvd q" by (simp add: block_ok_def)
    consider "(q, j) = (p, k)" "(buddy q j, j) = (p, k)" | "(q, j) = (p, k)" "(buddy q j, j) \<in> F"
      | "(q, j) \<in> F" "(buddy q j, j) = (p, k)" | "(q, j) \<in> F" "(buddy q j, j) \<in> F" using q(1) B by blast
    then show False
    proof cases
      case 1
      then have "buddy p k = p" by simp
      then show False using buddy_merge(3) [OF dp] start_in_pages [of p k] by auto
    next
      case 2
      then show False using b q(2) by simp
    next
      case 3
      then have "buddy p k = q" using buddy_buddy [OF dq] by (metis Pair_inject)
      then show False using 3 b q(2) by simp
    next
      case 4
      then show False using p q(2) unfolding partitioned_def by blast
    qed
  qed
  have "insert (p, k) F \<union> A = F \<union> insert (p, k) A" by blast
  moreover have "insert (p, k) F \<inter> A = {}" using p n unfolding partitioned_def by blast
  ultimately show ?thesis using p nb unfolding partitioned_def by auto
qed

text \<open>
  If every page of an aligned region lies in a free block, then one free block holds the whole region:
  otherwise the smallest free block inside it would have a free buddy.
\<close>

lemma pages_nested:
  assumes "j \<le> k" "pages (q, j) \<inter> pages (p, k) \<noteq> {}"
  shows "pages (q, j) \<subseteq> pages (p, k)"
proof -
  have h: "y div 2 ^ k = y div 2 ^ j div 2 ^ (k - j)" for y :: nat
    using assms(1) by (simp add: div_mult2_eq [symmetric] power_add [symmetric])
  obtain z where z: "z div 2 ^ j = q div 2 ^ j" "z div 2 ^ k = p div 2 ^ k" using assms(2) by auto
  have "x div 2 ^ k = p div 2 ^ k" if "x div 2 ^ j = q div 2 ^ j" for x
    using that z unfolding h by metis
  then show ?thesis by auto
qed

lemma free_region_one_block:
  assumes part: "partitioned F A" and ok: "block_ok (P, K)"
    and free: "\<And>x. x \<in> pages (P, K) \<Longrightarrow> \<exists>b \<in> F. x \<in> pages b"
  shows "\<exists>p k. (p, k) \<in> F \<and> K \<le> k \<and> P \<in> pages (p, k)"
proof (rule ccontr)
  assume none: "\<not> ?thesis"
  let ?in = "\<lambda>j. \<exists>q. (q, j) \<in> F \<and> pages (q, j) \<inter> pages (P, K) \<noteq> {}"
  have small: "j < K" if "(q, j) \<in> F" "pages (q, j) \<inter> pages (P, K) \<noteq> {}" for q j
  proof (rule ccontr)
    assume "\<not> j < K"
    then have "pages (P, K) \<subseteq> pages (q, j)" using pages_nested [of K j P q] that(2) by (simp add: Int_commute)
    then show False using none that(1) \<open>\<not> j < K\<close> start_in_pages [of P K] by (meson not_less subsetD)
  qed
  obtain p0 k0 where "(p0, k0) \<in> F" "P \<in> pages (p0, k0)" using free [OF start_in_pages] by (metis surj_pair)
  then have "?in k0" using start_in_pages [of P K] by blast
  then have ex: "?in (LEAST j. ?in j)" by (rule LeastI)
  define j where "j = (LEAST j. ?in j)"
  obtain q where q: "(q, j) \<in> F" "pages (q, j) \<inter> pages (P, K) \<noteq> {}" using ex unfolding j_def by blast
  have jK: "j < K" by (rule small [OF q])
  have okq: "block_ok (q, j)" using part q(1) unfolding partitioned_def tiling_def by blast
  then have dq: "2 ^ j dvd q" by (simp add: block_ok_def)
  note mg = buddy_merge [OF dq]
  let ?b = "buddy q j" and ?m = "min q (buddy q j)"
  have up: "pages (?m, Suc j) \<subseteq> pages (P, K)"
    by (rule pages_nested) (use jK q(2) mg(2) in auto)
  then have "?b \<in> pages (P, K)" using mg(2) start_in_pages [of ?b j] by blast
  then obtain c l where c: "(c, l) \<in> F" "?b \<in> pages (c, l)" using free by (metis surj_pair)
  have jl: "j \<le> l"
    using c \<open>?b \<in> pages (P, K)\<close> unfolding j_def by (intro Least_le) blast
  have okc: "block_ok (c, l)" using part c(1) unfolding partitioned_def tiling_def by blast
  show False
  proof (cases "l = j")
    case True
    have "c = ?b"
    proof -
      have "c div 2 ^ j = ?b div 2 ^ j" using c(2) True by simp
      moreover have "2 ^ j dvd c" "2 ^ j dvd ?b" using okc True buddy_aligned [OF dq] by (auto simp: block_ok_def)
      ultimately show ?thesis by (metis dvd_mult_div_cancel)
    qed
    then show False using c(1) q(1) True part jK ok unfolding partitioned_def block_ok_def by auto
  next
    case False
    then have "Suc j \<le> l" using jl by simp
    then have "pages (?m, Suc j) \<subseteq> pages (c, l)"
      using pages_nested [of "Suc j" l ?m c] c(2) mg(2) start_in_pages [of ?b j] by blast
    then have "q \<in> pages (c, l)" using mg(2) start_in_pages [of q j] by blast
    then have "(c, l) = (q, j)" using part c(1) q(1) start_in_pages [of q j] unfolding partitioned_def tiling_def by blast
    then show False using False by simp
  qed
qed

section \<open>Addresses and free lists\<close>

definition page_addr :: "u64 \<Rightarrow> nat \<Rightarrow> u64" where
  "page_addr base p = base + of_nat (4096 * p)"

definition pool_ok :: "mm_buddy_state \<Rightarrow> bool" where
  "pool_ok s \<longleftrightarrow> pool_base s \<noteq> NULL \<and> unat (pool_base s) + 65536 \<le> 2 ^ 64"

definition free_blocks :: "mm_buddy_state \<Rightarrow> block set" where
  "free_blocks s = {(p, k). k < 5 \<and> p < 16 \<and> page_addr (pool_base s) p \<in> set (free_lists s ! k)}"

definition lists_ok :: "mm_buddy_state \<Rightarrow> bool" where
  "lists_ok s \<longleftrightarrow> length (free_lists s) = 5 \<and>
     (\<forall>k < 5. distinct (free_lists s ! k) \<and> set (free_lists s ! k) \<subseteq> page_addr (pool_base s) ` {..<16})"

definition buddy_inv :: "mm_buddy_state \<Rightarrow> block set \<Rightarrow> bool" where
  "buddy_inv s A \<longleftrightarrow> pool_ok s \<and> lists_ok s \<and> partitioned (free_blocks s) A"

lemma unat_page_offset: "p < 16 \<Longrightarrow> unat (of_nat (4096 * p) :: u64) = 4096 * p"
  by (rule unat_of_nat_u64) simp

lemma page_addr_inj: "p < 16 \<Longrightarrow> q < 16 \<Longrightarrow> page_addr b p = page_addr b q \<longleftrightarrow> p = q"
proof
  assume p: "p < 16" "q < 16" and "page_addr b p = page_addr b q"
  then have "unat (of_nat (4096 * p) :: u64) = unat (of_nat (4096 * q) :: u64)" unfolding page_addr_def by (metis add_left_cancel)
  then show "p = q" by (simp only: unat_page_offset [OF p(1)] unat_page_offset [OF p(2)])
qed simp

lemma unat_page_addr: "pool_ok s \<Longrightarrow> p < 16 \<Longrightarrow> unat (page_addr (pool_base s) p) = unat (pool_base s) + 4096 * p"
proof -
  assume "pool_ok s" and p: "p < 16"
  then have "unat (pool_base s) + 4096 * p < 2 ^ LENGTH(64)" by (auto simp: pool_ok_def)
  then show ?thesis
    unfolding page_addr_def using unat_add_lem [of "pool_base s" "of_nat (4096 * p)"] unat_page_offset [OF p] by metis
qed

lemma page_addr_nonnull: "pool_ok s \<Longrightarrow> p < 16 \<Longrightarrow> page_addr (pool_base s) p \<noteq> NULL"
  using unat_page_addr [of s p] by (auto simp: pool_ok_def unat_eq_zero)

lemma page_addr_split: "page_addr b p + push_bit k PMM_PAGE_SIZE = page_addr b (p + 2 ^ k)"
  by (simp add: page_addr_def push_bit_eq_mult algebra_simps)

lemma xor_offsets:
  "list_all (\<lambda>p. list_all (\<lambda>k. 2 ^ k dvd p \<longrightarrow>
      (of_nat (4096 * p) :: u64) XOR push_bit k PMM_PAGE_SIZE = of_nat (4096 * buddy p k)) [0, 1, 2, 3])
    [0, 1, 2, 3, 4, 5, 6, 7, 8, 9, 10, 11, 12, 13, 14, 15]"
  by (simp add: buddy_def)

lemma page_addr_xor:
  assumes "p < 16" "k < 4" "2 ^ k dvd p"
  shows "b + ((page_addr b p - b) XOR push_bit k PMM_PAGE_SIZE) = page_addr b (buddy p k)"
proof -
  have "p \<in> set [0, 1, 2, 3, 4, 5, 6, 7, 8, 9, 10, 11, 12, 13, 14, 15]" using assms(1) by simp presburger
  moreover have "k \<in> set [0, 1, 2, 3]" using assms(2) by auto
  ultimately have "(of_nat (4096 * p) :: u64) XOR push_bit k PMM_PAGE_SIZE = of_nat (4096 * buddy p k)"
    using xor_offsets assms(3) unfolding list_all_iff by blast
  then show ?thesis by (simp add: page_addr_def)
qed

text \<open>Replacing one free list.\<close>

definition set_list :: "nat \<Rightarrow> u64 list \<Rightarrow> mm_buddy_state \<Rightarrow> mm_buddy_state" where
  "set_list k l s = s\<lparr>free_lists := (free_lists s)[k := l]\<rparr>"

lemma set_list_base [simp]: "pool_base (set_list k l s) = pool_base s"
  by (simp add: set_list_def)

lemma pool_ok_set_list [simp]: "pool_ok (set_list k l s) = pool_ok s"
  by (simp add: pool_ok_def)

lemma lists_ok_set_list:
  "lists_ok s \<Longrightarrow> k < 5 \<Longrightarrow> distinct l \<Longrightarrow> set l \<subseteq> page_addr (pool_base s) ` {..<16} \<Longrightarrow> lists_ok (set_list k l s)"
  unfolding lists_ok_def set_list_def by (auto simp: nth_list_update)

lemma free_blocks_set_list:
  "lists_ok s \<Longrightarrow> k < 5 \<Longrightarrow>
     free_blocks (set_list k l s) = {(p, j) \<in> free_blocks s. j \<noteq> k} \<union> {(p, k) | p. p < 16 \<and> page_addr (pool_base s) p \<in> set l}"
  unfolding free_blocks_def lists_ok_def set_list_def by (auto simp: nth_list_update split: if_splits)

lemma push_block:
  assumes "lists_ok s" "k < 5" "p < 16" "(p, k) \<notin> free_blocks s"
  defines "s' \<equiv> free_list_push s k (page_addr (pool_base s) p)"
  shows "lists_ok s' \<and> free_blocks s' = insert (p, k) (free_blocks s) \<and> pool_base s' = pool_base s"
proof -
  let ?a = "page_addr (pool_base s) p"
  have s': "s' = set_list k (?a # free_lists s ! k) s" by (simp add: s'_def free_list_push_def set_list_def)
  have "?a \<notin> set (free_lists s ! k)" using assms by (simp add: free_blocks_def)
  then have "lists_ok s'" unfolding s' using assms(1-3) by (intro lists_ok_set_list) (auto simp: lists_ok_def)
  moreover have "free_blocks s' = insert (p, k) (free_blocks s)"
    unfolding s' free_blocks_set_list [OF assms(1,2)]
    using assms(2,3) page_addr_inj by (auto simp: free_blocks_def)
  ultimately show ?thesis by (simp add: s')
qed

lemma remove_block:
  assumes "lists_ok s" "k < 5" "p < 16"
  shows "free_list_remove s k (page_addr (pool_base s) p) =
     (if (p, k) \<in> free_blocks s then (set_list k (remove1 (page_addr (pool_base s) p) (free_lists s ! k)) s, True) else (s, False))"
  using assms by (auto simp: free_list_remove_def set_list_def free_blocks_def)

lemma removed_block:
  assumes "lists_ok s" "k < 5" "p < 16"
  defines "s' \<equiv> set_list k (remove1 (page_addr (pool_base s) p) (free_lists s ! k)) s"
  shows "lists_ok s' \<and> free_blocks s' = free_blocks s - {(p, k)} \<and> pool_base s' = pool_base s"
proof -
  have d: "distinct (free_lists s ! k)" "set (free_lists s ! k) \<subseteq> page_addr (pool_base s) ` {..<16}"
    using assms(1,2) by (auto simp: lists_ok_def)
  then have "lists_ok s'" unfolding s'_def using assms(1,2) by (intro lists_ok_set_list) auto
  moreover have "free_blocks s' = free_blocks s - {(p, k)}"
    unfolding s'_def free_blocks_set_list [OF assms(1,2)]
    using d(1) assms(2,3) page_addr_inj by (auto simp: free_blocks_def)
  ultimately show ?thesis by (simp add: s'_def)
qed

section \<open>Allocation and release\<close>

lemma partitioned_block_ok: "partitioned F A \<Longrightarrow> b \<in> F \<union> A \<Longrightarrow> block_ok b"
  unfolding partitioned_def tiling_def by blast

lemma split_down_partitioned:
  "lists_ok s \<Longrightarrow> partitioned (free_blocks s) (insert (p, found) A) \<Longrightarrow> (p, found) \<notin> A \<Longrightarrow> order \<le> found \<Longrightarrow>
   (let s' = split_down s (page_addr (pool_base s) p) order found in
      lists_ok s' \<and> pool_base s' = pool_base s \<and> partitioned (free_blocks s') (insert (p, order) A) \<and> (p, order) \<notin> A)"
proof (induction found arbitrary: s)
  case 0
  then show ?case by (subst split_down.simps) simp
next
  case (Suc k)
  show ?case
  proof (cases "order = Suc k")
    case True
    then show ?thesis using Suc.prems by (subst split_down.simps) simp
  next
    case False
    let ?s1 = "free_list_push s k (page_addr (pool_base s) (p + 2 ^ k))"
    note sp = part_split [OF Suc.prems(2,3)]
    have "block_ok (p + 2 ^ k, k)" using sp partitioned_block_ok by blast
    then have b: "p + 2 ^ k < 16" "k < 5" by (auto simp: block_ok_def)
    have ps: "lists_ok ?s1 \<and> free_blocks ?s1 = insert (p + 2 ^ k, k) (free_blocks s) \<and> pool_base ?s1 = pool_base s"
      by (rule push_block [OF Suc.prems(1) b(2,1)]) (use sp in blast)
    have "split_down s (page_addr (pool_base s) p) order (Suc k) = split_down ?s1 (page_addr (pool_base ?s1) p) order k"
      using False Suc.prems(4) ps by (subst split_down.simps) (simp add: Let_def page_addr_split)
    then show ?thesis using Suc.IH [of ?s1] ps sp False Suc.prems(4) by (simp add: Let_def)
  qed
qed

lemma find_found_spec:
  "order \<le> find_found s order \<and> (find_found s order \<le> 4 \<longrightarrow> free_lists s ! find_found s order \<noteq> []) \<and>
   (\<forall>j. order \<le> j \<and> j < find_found s order \<and> j \<le> 4 \<longrightarrow> free_lists s ! j = [])"
proof (induction s order rule: find_found.induct)
  case (1 s order)
  show ?case
  proof (cases "order \<le> 4 \<and> free_lists s ! order = []")
    case True
    then have e: "find_found s order = find_found s (order + 1)" by (subst find_found.simps) simp
    show ?thesis using 1 [OF True] True unfolding e by (metis Suc_eq_plus1 Suc_leD le_antisym not_less_eq_eq)
  next
    case False
    then have "find_found s order = order" by (subst find_found.simps) auto
    then show ?thesis using False by auto
  qed
qed

lemma pop_block:
  assumes "lists_ok s" "k < 5" "free_lists s ! k \<noteq> []"
  shows "\<exists>s1 p. free_list_pop s k = (s1, page_addr (pool_base s) p) \<and> p < 16 \<and> (p, k) \<in> free_blocks s \<and>
     lists_ok s1 \<and> free_blocks s1 = free_blocks s - {(p, k)} \<and> pool_base s1 = pool_base s"
proof -
  obtain a r where l: "free_lists s ! k = a # r" using assms(3) by (cases "free_lists s ! k") auto
  then have "a \<in> page_addr (pool_base s) ` {..<16}" using assms(1,2) unfolding lists_ok_def by fastforce
  then obtain p where p: "a = page_addr (pool_base s) p" "p < 16" by auto
  have "free_list_pop s k = (set_list k (remove1 a (free_lists s ! k)) s, a)"
    by (simp add: free_list_pop_def l set_list_def)
  then show ?thesis using removed_block [OF assms(1,2) p(2)] p l assms(2) by (auto simp: free_blocks_def)
qed

lemma alloc_success:
  assumes inv: "buddy_inv s A" and ne: "snd (mm_buddy_alloc_pages s order) \<noteq> NULL"
  shows "\<exists>p. snd (mm_buddy_alloc_pages s order) = page_addr (pool_base s) p \<and> (p, order) \<notin> A \<and>
     pool_base (fst (mm_buddy_alloc_pages s order)) = pool_base s \<and>
     buddy_inv (fst (mm_buddy_alloc_pages s order)) (insert (p, order) A)"
proof -
  let ?f = "find_found s order"
  have o: "order \<le> 4" "?f \<le> 4" using ne by (auto simp: mm_buddy_alloc_pages_def Let_def split: if_splits)
  have l: "lists_ok s" and part: "partitioned (free_blocks s) A" using inv by (auto simp: buddy_inv_def)
  have fne: "free_lists s ! ?f \<noteq> []" "order \<le> ?f" using find_found_spec [of order s] o by auto
  have f5: "?f < 5" using o by simp
  from pop_block [OF l f5 fne(1)] obtain s1 p where
    pop: "free_list_pop s ?f = (s1, page_addr (pool_base s) p)" "(p, ?f) \<in> free_blocks s"
      "lists_ok s1" "free_blocks s1 = free_blocks s - {(p, ?f)}" "pool_base s1 = pool_base s" by blast
  have n: "(p, ?f) \<notin> A" using part pop(2) unfolding partitioned_def by blast
  have "partitioned (free_blocks s1) (insert (p, ?f) A)" using part_take [OF part pop(2)] pop(4) by simp
  from split_down_partitioned [OF pop(3) this n fne(2)]
  have "let s' = split_down s1 (page_addr (pool_base s) p) order ?f in
      lists_ok s' \<and> pool_base s' = pool_base s \<and> partitioned (free_blocks s') (insert (p, order) A) \<and> (p, order) \<notin> A"
    unfolding pop(5) .
  moreover have "mm_buddy_alloc_pages s order = (split_down s1 (page_addr (pool_base s) p) order ?f, page_addr (pool_base s) p)"
    using o pop(1) by (simp add: mm_buddy_alloc_pages_def Let_def)
  ultimately show ?thesis using inv by (auto simp: Let_def buddy_inv_def pool_ok_def)
qed

lemma alloc_failure:
  assumes inv: "buddy_inv s A" and e: "snd (mm_buddy_alloc_pages s order) = NULL"
  shows "fst (mm_buddy_alloc_pages s order) = s \<and> (\<forall>p k. (p, k) \<in> free_blocks s \<longrightarrow> k < order)"
proof (cases "order > 4 \<or> find_found s order > 4")
  case True
  have "k < order" if f: "(p, k) \<in> free_blocks s" for p k
  proof (rule ccontr)
    assume "\<not> k < order"
    moreover have "k \<le> 4" "free_lists s ! k \<noteq> []" using f by (auto simp: free_blocks_def)
    ultimately show False using True find_found_spec [of order s] by auto
  qed
  then show ?thesis using True by (auto simp: mm_buddy_alloc_pages_def Let_def)
next
  case False
  have l: "lists_ok s" "pool_ok s" using inv by (auto simp: buddy_inv_def)
  have "free_lists s ! find_found s order \<noteq> []" using find_found_spec [of order s] False by auto
  from pop_block [OF l(1) _ this] False l(2) page_addr_nonnull e show ?thesis
    by (fastforce simp: mm_buddy_alloc_pages_def Let_def)
qed

lemma coalesce_partitioned:
  "pool_ok s \<Longrightarrow> lists_ok s \<Longrightarrow> partitioned (free_blocks s) (insert (p, k) A) \<Longrightarrow> (p, k) \<notin> A \<Longrightarrow>
   \<exists>s' p' k'. coalesce s (page_addr (pool_base s) p) k = (s', page_addr (pool_base s) p', k') \<and>
     pool_base s' = pool_base s \<and> lists_ok s' \<and> partitioned (free_blocks s') (insert (p', k') A) \<and> (p', k') \<notin> A \<and>
     (k' < 4 \<longrightarrow> (buddy p' k', k') \<notin> free_blocks s')"
proof (induction "4 - k" arbitrary: s p k)
  case 0
  then have "\<not> k < 4" by simp
  then have "coalesce s (page_addr (pool_base s) p) k = (s, page_addr (pool_base s) p, k)"
    by (subst coalesce.simps) simp
  then show ?case using 0 \<open>\<not> k < 4\<close> by blast
next
  case (Suc n)
  have k: "k < 4" "k < 5" using Suc.hyps(2) by simp_all
  have "block_ok (p, k)" using partitioned_block_ok [OF Suc.prems(3)] by blast
  then have p: "p < 16" "2 ^ k dvd p" by (auto simp: block_ok_def)
  have b: "buddy p k < 16" by (rule buddy_less [OF p(1) k(1) p(2)])
  note x = page_addr_xor [OF p(1) k(1) p(2), of "pool_base s"]
  show ?case
  proof (cases "(buddy p k, k) \<in> free_blocks s")
    case False
    then have "coalesce s (page_addr (pool_base s) p) k = (s, page_addr (pool_base s) p, k)"
      using k by (subst coalesce.simps) (simp add: Let_def x remove_block [OF Suc.prems(2) k(2) b])
    then show ?thesis using False Suc.prems by blast
  next
    case True
    let ?s1 = "set_list k (remove1 (page_addr (pool_base s) (buddy p k)) (free_lists s ! k)) s" and ?q = "min p (buddy p k)"
    have r: "lists_ok ?s1" "free_blocks ?s1 = free_blocks s - {(buddy p k, k)}" "pool_base ?s1 = pool_base s"
      using removed_block [OF Suc.prems(2) k(2) b] by auto
    note m = part_merge [OF Suc.prems(3,4) k(1) True]
    have lt: "page_addr (pool_base s) (buddy p k) < page_addr (pool_base s) p \<longleftrightarrow> buddy p k < p"
      using unat_page_addr [OF Suc.prems(1)] p(1) b by (simp add: word_less_nat_alt)
    have "coalesce s (page_addr (pool_base s) p) k = coalesce ?s1 (page_addr (pool_base ?s1) ?q) (Suc k)"
      using k True
      by (subst coalesce.simps) (auto simp: Let_def x remove_block [OF Suc.prems(2) k(2) b] lt min_def)
    then show ?thesis
      using Suc.hyps(1) [of "Suc k" ?s1 ?q] Suc.hyps(2) Suc.prems(1) r m by simp
  qed
qed

lemma free_success:
  assumes inv: "buddy_inv s A" and b: "(p, k) \<in> A"
  defines "s' \<equiv> mm_buddy_free_pages s (page_addr (pool_base s) p) k"
  shows "buddy_inv s' (A - {(p, k)}) \<and> pool_base s' = pool_base s"
proof -
  have l: "lists_ok s" "pool_ok s" and part: "partitioned (free_blocks s) A" using inv by (auto simp: buddy_inv_def)
  have A: "insert (p, k) (A - {(p, k)}) = A" using b by blast
  have ok: "p < 16" "k \<le> 4" using partitioned_block_ok [OF part, of "(p, k)"] b by (auto simp: block_ok_def)
  from coalesce_partitioned [OF l(2,1), of p k "A - {(p, k)}"] part A obtain s1 p1 k1 where
    c: "coalesce s (page_addr (pool_base s) p) k = (s1, page_addr (pool_base s) p1, k1)" "pool_base s1 = pool_base s"
      "lists_ok s1" "partitioned (free_blocks s1) (insert (p1, k1) (A - {(p, k)}))" "(p1, k1) \<notin> A - {(p, k)}"
      "k1 < 4 \<longrightarrow> (buddy p1 k1, k1) \<notin> free_blocks s1" by (metis insertCI Diff_iff)
  have s': "s' = free_list_push s1 k1 (page_addr (pool_base s1) p1)"
    using ok page_addr_nonnull [OF l(2) ok(1)] c(1,2) by (simp add: s'_def mm_buddy_free_pages_def)
  have ok1: "p1 < 16" "k1 < 5" using partitioned_block_ok [OF c(4)] by (force simp: block_ok_def)+
  have "(p1, k1) \<notin> free_blocks s1" using c(4) unfolding partitioned_def by blast
  from push_block [OF c(3) ok1(2,1) this] s' have
    "lists_ok s'" "free_blocks s' = insert (p1, k1) (free_blocks s1)" "pool_base s' = pool_base s" using c(2) by auto
  moreover have "partitioned (insert (p1, k1) (free_blocks s1)) (A - {(p, k)})"
    by (rule part_give [OF c(4,5)]) (use c(6) in blast)
  ultimately show ?thesis using l(2) by (simp add: buddy_inv_def pool_ok_def)
qed

section \<open>Reachable pools\<close>

lemma pages_top: "pages (0, 4) = {..<16}"
  by auto

lemma part_top: "partitioned {(0, 4)} {}"
  by (auto simp: partitioned_def tiling_def block_ok_def)

lemma pages_in_pool: "block_ok (p, k) \<Longrightarrow> pages (p, k) \<subseteq> {..<16}"
proof -
  assume ok: "block_ok (p, k)"
  have "p \<in> pages (p, k) \<inter> pages (0, 4)" using ok by (simp add: block_ok_def)
  then show ?thesis using pages_nested [of k 4 p 0] ok unfolding pages_top by (auto simp: block_ok_def)
qed

declare pages.simps [simp del]

text \<open>
  The pools clients reach, with the set of blocks they hold: a client frees only a block it holds, with the
  order it was allocated with, which is what the interface requires.
\<close>

inductive buddy_reach :: "mm_buddy_state \<Rightarrow> block set \<Rightarrow> bool" where
  init: "mm_buddy_init pool s0 = (s, NX_OK) \<Longrightarrow> unat pool + 65536 \<le> 2 ^ 64 \<Longrightarrow> buddy_reach s {}"
| alloc: "buddy_reach s A \<Longrightarrow> mm_buddy_alloc_pages s order = (s', page_addr (pool_base s) p) \<Longrightarrow> p < 16 \<Longrightarrow>
    buddy_reach s' (insert (p, order) A)"
| alloc_fail: "buddy_reach s A \<Longrightarrow> mm_buddy_alloc_pages s order = (s', NULL) \<Longrightarrow> buddy_reach s' A"
| free: "buddy_reach s A \<Longrightarrow> (p, k) \<in> A \<Longrightarrow>
    buddy_reach (mm_buddy_free_pages s (page_addr (pool_base s) p) k) (A - {(p, k)})"
| free_null: "buddy_reach s A \<Longrightarrow> buddy_reach (mm_buddy_free_pages s NULL k) A"

lemma order_cases: "k < 5 \<Longrightarrow> k = 0 \<or> k = 1 \<or> k = 2 \<or> k = 3 \<or> k = (4 :: nat)"
  by linarith

lemma init_inv: "mm_buddy_init pool s0 = (s, NX_OK) \<Longrightarrow> unat pool + 65536 \<le> 2 ^ 64 \<Longrightarrow> buddy_inv s {}"
proof -
  assume i: "mm_buddy_init pool s0 = (s, NX_OK)" and b: "unat pool + 65536 \<le> 2 ^ 64"
  have s: "pool_base s = pool" "free_lists s = [[], [], [], [], [pool]]" "pool \<noteq> NULL"
    using i by (auto simp: mm_buddy_init_def Let_def free_list_push_def eval_nat_numeral split: if_splits)
  have p0: "page_addr pool 0 = pool" by (simp add: page_addr_def)
  have eq: "page_addr pool p = pool \<longleftrightarrow> p = 0" if "p < 16" for p
    using page_addr_inj [OF that, of 0 pool] p0 by simp
  have "free_blocks s = {(0, 4)}"
    using eq by (auto simp: free_blocks_def s dest: order_cases)
  moreover note part_top
  moreover have "lists_ok s"
    using p0 by (auto simp: lists_ok_def s dest!: order_cases intro!: image_eqI [of _ _ 0])
  ultimately show ?thesis using b s by (simp add: buddy_inv_def pool_ok_def)
qed

lemma reach_inv: "buddy_reach s A \<Longrightarrow> buddy_inv s A"
proof (induction rule: buddy_reach.induct)
  case (init pool s0 s)
  then show ?case by (rule init_inv)
next
  case (alloc s A order s' p)
  have ok: "pool_ok s" using alloc.IH by (simp add: buddy_inv_def)
  obtain q where q: "page_addr (pool_base s) p = page_addr (pool_base s) q" "buddy_inv s' (insert (q, order) A)"
    using alloc_success [OF alloc.IH, of order] page_addr_nonnull [OF ok alloc.hyps(3)] alloc.hyps(2) by auto
  have "q < 16" using q(2) partitioned_block_ok [of _ _ "(q, order)"] unfolding buddy_inv_def by (fastforce simp: block_ok_def)
  then have "q = p" using q(1) page_addr_inj [OF alloc.hyps(3)] by blast
  then show ?case using q(2) by simp
next
  case (alloc_fail s A order s')
  then show ?case using alloc_failure [OF alloc_fail.IH, of order] by simp
next
  case (free s A p k)
  then show ?case using free_success by blast
next
  case (free_null s A k)
  then show ?case by (simp add: mm_buddy_free_pages_def)
qed

section \<open>Properties\<close>

text \<open>
  C30. Allocated blocks are aligned and disjoint: whatever the history of allocations and releases, a block that
  \<^verbatim>\<open>mm_buddy_alloc_pages\<close> returns lies in the pool, starts at a page that is a multiple of its size, and
  shares no page with any block that a client holds.\<close>

theorem buddy_alloc_disjoint:
  assumes "buddy_reach s A" "snd (mm_buddy_alloc_pages s order) \<noteq> NULL"
  shows "\<exists>p. snd (mm_buddy_alloc_pages s order) = page_addr (pool_base s) p \<and> order \<le> 4 \<and> 2 ^ order dvd p \<and>
     pages (p, order) \<subseteq> {..<16} \<and> (\<forall>b \<in> A. pages b \<inter> pages (p, order) = {})"
proof -
  from alloc_success [OF reach_inv [OF assms(1)] assms(2)] obtain p where
    p: "snd (mm_buddy_alloc_pages s order) = page_addr (pool_base s) p" "(p, order) \<notin> A"
      "buddy_inv (fst (mm_buddy_alloc_pages s order)) (insert (p, order) A)" by blast
  let ?F = "free_blocks (fst (mm_buddy_alloc_pages s order))"
  have t: "tiling (?F \<union> insert (p, order) A)" using p(3) by (simp add: buddy_inv_def partitioned_def)
  have ok: "block_ok (p, order)" using t unfolding tiling_def by blast
  have "pages b \<inter> pages (p, order) = {}" if "b \<in> A" for b using t p(2) that unfolding tiling_def by blast
  then show ?thesis using p(1) ok pages_in_pool [OF ok] by (intro exI [of _ p] conjI ballI) (auto simp: block_ok_def)
qed

definition demo_pool :: mm_buddy_state where
  "demo_pool = fst (mm_buddy_init 1074790400 \<lparr>pool_base = 0, free_lists = [], mb_init_called = 0,
     mb_enable_called = 0, mb_disable_called = 0, mb_destroy_called = 0\<rparr>)"

definition demo_pool_alloc :: mm_buddy_state where
  "demo_pool_alloc = fst (mm_buddy_alloc_pages demo_pool 1)"

lemma demo_pool_reach: "buddy_reach demo_pool {}"
proof (rule buddy_reach.init)
  let ?s0 = "\<lparr>pool_base = 0, free_lists = [], mb_init_called = 0, mb_enable_called = 0, mb_disable_called = 0,
    mb_destroy_called = 0\<rparr>"
  have "snd (mm_buddy_init 1074790400 ?s0) = NX_OK" by code_simp
  then show "mm_buddy_init 1074790400 ?s0 = (demo_pool, NX_OK)" unfolding demo_pool_def by (metis prod.collapse)
qed simp

lemma demo_pool_alloc_reach: "buddy_reach demo_pool_alloc {(0, 1)}"
proof -
  have "snd (mm_buddy_alloc_pages demo_pool 1) = page_addr (pool_base demo_pool) 0" by code_simp
  then have "mm_buddy_alloc_pages demo_pool 1 = (demo_pool_alloc, page_addr (pool_base demo_pool) 0)"
    unfolding demo_pool_alloc_def by (metis prod.collapse)
  from buddy_reach.alloc [OF demo_pool_reach this] show ?thesis by simp
qed

theorem buddy_alloc_disjoint_witness:
  "\<exists>p. snd (mm_buddy_alloc_pages demo_pool_alloc 0) = page_addr (pool_base demo_pool_alloc) p \<and>
     pages (0, 1) \<inter> pages (p, 0) = {}"
proof -
  have "snd (mm_buddy_alloc_pages demo_pool_alloc 0) \<noteq> 0" by code_simp
  from buddy_alloc_disjoint [OF demo_pool_alloc_reach this] show ?thesis by blast
qed

text \<open>
  C31. The allocator fails only when it must: in every reachable pool \<^verbatim>\<open>mm_buddy_alloc_pages\<close> of an order
  up to four returns NULL exactly when each aligned run of that many pages has a page some client holds, and
  then it changes nothing.\<close>

theorem buddy_alloc_complete:
  assumes "buddy_reach s A" "order \<le> 4"
  shows "snd (mm_buddy_alloc_pages s order) = NULL \<longleftrightarrow>
     (\<forall>p < 16. 2 ^ order dvd p \<longrightarrow> (\<exists>b \<in> A. pages b \<inter> pages (p, order) \<noteq> {}))"
    (is "?null \<longleftrightarrow> ?full")
proof
  assume ?null
  have inv: "buddy_inv s A" by (rule reach_inv [OF assms(1)])
  then have part: "partitioned (free_blocks s) A" by (simp add: buddy_inv_def)
  have small: "k < order" if "(p, k) \<in> free_blocks s" for p k using alloc_failure [OF inv \<open>?null\<close>] that by blast
  show ?full
  proof (intro allI impI, rule ccontr)
    fix p assume p: "p < 16" "2 ^ order dvd p" and none: "\<not> (\<exists>b \<in> A. pages b \<inter> pages (p, order) \<noteq> {})"
    have ok: "block_ok (p, order)" using p assms(2) by (simp add: block_ok_def)
    have "\<exists>b \<in> free_blocks s. x \<in> pages b" if "x \<in> pages (p, order)" for x
    proof -
      have "x < 16" using that pages_in_pool [OF ok] by blast
      then obtain b where "b \<in> free_blocks s \<union> A" "x \<in> pages b" using part unfolding partitioned_def tiling_def by blast
      then show ?thesis using none that by blast
    qed
    from free_region_one_block [OF part ok this] small show False by fastforce
  qed
next
  assume full: ?full
  show ?null
  proof (rule ccontr)
    assume "snd (mm_buddy_alloc_pages s order) \<noteq> NULL"
    from alloc_success [OF reach_inv [OF assms(1)] this] obtain p where
      p: "(p, order) \<notin> A" "buddy_inv (fst (mm_buddy_alloc_pages s order)) (insert (p, order) A)" by blast
    then have t: "tiling (free_blocks (fst (mm_buddy_alloc_pages s order)) \<union> insert (p, order) A)"
      by (simp add: buddy_inv_def partitioned_def)
    then have ok: "block_ok (p, order)" unfolding tiling_def by blast
    have "\<forall>b \<in> A. pages b \<inter> pages (p, order) = {}" using t p(1) unfolding tiling_def by blast
    moreover have "p < 16" "2 ^ order dvd p" using ok by (simp_all add: block_ok_def)
    ultimately show False using full by blast
  qed
qed

theorem buddy_alloc_complete_witness:
  "snd (mm_buddy_alloc_pages demo_pool_alloc 4) = NULL \<and> (\<exists>b \<in> {(0, 1)}. pages b \<inter> pages (0, 4) \<noteq> {})"
proof -
  have "snd (mm_buddy_alloc_pages demo_pool_alloc 4) = NULL" by code_simp
  then show ?thesis using buddy_alloc_complete [OF demo_pool_alloc_reach, of 4] by auto
qed

text \<open>
  C21. Release is the inverse of allocation: once clients have freed every block they were given, in any order
  and after any history, coalescing has restored the free lists to the state \<^verbatim>\<open>mm_buddy_init\<close> left them in,
  the whole pool as one block of order four.\<close>

theorem buddy_free_all_restores:
  assumes "buddy_reach s {}"
  shows "free_lists s = [[], [], [], [], [pool_base s]]"
proof -
  have inv: "buddy_inv s {}" by (rule reach_inv [OF assms])
  then have l: "lists_ok s" and part: "partitioned (free_blocks s) {}" by (auto simp: buddy_inv_def)
  have "\<exists>b \<in> free_blocks s. x \<in> pages b" if "x \<in> pages (0, 4)" for x
    using that part unfolding partitioned_def tiling_def pages_top by simp
  then obtain p k where b: "(p, k) \<in> free_blocks s" "4 \<le> k"
    using free_region_one_block [OF part, of 0 4] by (auto simp: block_ok_def)
  have "block_ok (p, k)" using partitioned_block_ok [OF part] b(1) by blast
  then have pk: "p = 0" "k = 4" using b(2) by (auto simp: block_ok_def elim!: dvdE)
  have only: "c = (0, 4)" if "c \<in> free_blocks s" for c
  proof -
    have "block_ok c" using partitioned_block_ok [OF part] that by blast
    then have "fst c \<in> pages c \<inter> pages (0, 4)" unfolding pages_top by (cases c) (auto simp: block_ok_def)
    then show ?thesis using part b(1) that unfolding pk partitioned_def tiling_def by blast
  qed
  have sets: "set (free_lists s ! j) = page_addr (pool_base s) ` {p. p < 16 \<and> (p, j) \<in> free_blocks s}" if "j < 5" for j
    using l that unfolding lists_ok_def by (auto simp: free_blocks_def)
  have empty: "free_lists s ! j = []" if "j < 4" for j
  proof -
    have "set (free_lists s ! j) = {}" using sets [of j] only that by auto
    then show ?thesis by simp
  qed
  have "{p. p < 16 \<and> (p, 4) \<in> free_blocks s} = {0}" using only b(1) unfolding pk by auto
  then have "set (free_lists s ! 4) = {pool_base s}" using sets [of 4] by (simp add: page_addr_def)
  moreover have d: "distinct (free_lists s ! 4)" using l by (simp add: lists_ok_def)
  ultimately have "length (free_lists s ! 4) = 1" using distinct_card [OF d] by simp
  then obtain a where "free_lists s ! 4 = [a]" by (auto simp: length_Suc_conv)
  then have last: "free_lists s ! 4 = [pool_base s]" using \<open>set (free_lists s ! 4) = {pool_base s}\<close> by simp
  have "length (free_lists s) = 5" using l by (simp add: lists_ok_def)
  then show ?thesis using empty last by (intro nth_equalityI) (auto dest!: order_cases)
qed

theorem buddy_free_all_restores_witness:
  "free_lists (mm_buddy_free_pages demo_pool_alloc (page_addr (pool_base demo_pool_alloc) 0) 1)
     = [[], [], [], [], [1074790400]] \<and> free_lists demo_pool_alloc \<noteq> [[], [], [], [], [1074790400]]"
proof -
  let ?s = "mm_buddy_free_pages demo_pool_alloc (page_addr (pool_base demo_pool_alloc) 0) 1"
  have "buddy_reach ?s ({(0, 1)} - {(0, 1)})" by (rule buddy_reach.free [OF demo_pool_alloc_reach]) simp
  moreover have "pool_base ?s = 1074790400" "free_lists demo_pool_alloc \<noteq> [[], [], [], [], [1074790400]]" by code_simp+
  ultimately show ?thesis using buddy_free_all_restores [of ?s] by simp
qed

end
