(* ===== verification/Nx_Pmm.thy ===== *)
theory Nx_Pmm
  imports Nx_Prelude "HOL-Library.Multiset"
begin

text \<open>
  The physical page allocator (\<^verbatim>\<open>core/pmm/pmm.c\<close>): a bitmap with one bit per page, kept in the first pages of
  the region it manages, a search hint and a free count. The bitmap is its list of bytes and every access goes
  through the code's byte index and mask; addresses are 64-bit words. Page indices and counts are
  natural numbers: a region of \<open>2 ^ 64\<close> bytes has at most \<open>2 ^ 52\<close> pages, so the code's \<^verbatim>\<open>size_t\<close> arithmetic on
  them does not wrap. The atomic operations are single steps.
\<close>

section \<open>State and bit operations\<close>

record pmm_state =
  g_base :: u64
  g_bitmap :: "u8 list"
  g_total :: nat
  g_reserved :: nat
  g_hint :: nat
  g_free :: nat

definition bit_byte :: "nat \<Rightarrow> nat" where
  "bit_byte index = index div 8"

definition bit_mask :: "nat \<Rightarrow> u8" where
  "bit_mask index = push_bit (index mod 8) 1"

definition bit_test :: "pmm_state \<Rightarrow> nat \<Rightarrow> bool" where
  "bit_test s index \<longleftrightarrow> g_bitmap s ! bit_byte index AND bit_mask index \<noteq> 0"

definition try_claim :: "pmm_state \<Rightarrow> nat \<Rightarrow> pmm_state \<times> bool" where
  "try_claim s index =
     (let mask = bit_mask index; old = g_bitmap s ! bit_byte index
      in (s\<lparr>g_bitmap := (g_bitmap s)[bit_byte index := old OR mask]\<rparr>, old AND mask = 0))"

definition release :: "pmm_state \<Rightarrow> nat \<Rightarrow> pmm_state" where
  "release s index =
     s\<lparr>g_bitmap := (g_bitmap s)[bit_byte index := g_bitmap s ! bit_byte index AND NOT (bit_mask index)]\<rparr>"

definition pmm_page_addr :: "pmm_state \<Rightarrow> nat \<Rightarrow> u64" where
  "pmm_page_addr s index = g_base s + of_nat index * PMM_PAGE_SIZE"

definition index_of :: "pmm_state \<Rightarrow> u64 \<Rightarrow> nat" where
  "index_of s page = unat (drop_bit 12 (page - g_base s))"

section \<open>Operations\<close>

definition set_bits :: "nat list \<Rightarrow> u8 list \<Rightarrow> u8 list" where
  "set_bits is bs = fold (\<lambda>i bs. bs[bit_byte i := bs ! bit_byte i OR bit_mask i]) is bs"

definition pmm_init :: "u64 \<Rightarrow> u64 \<Rightarrow> pmm_state" where
  "pmm_init base sz =
     (let aligned = (base + PMM_PAGE_SIZE - 1) AND NOT (PMM_PAGE_SIZE - 1);
          adjust = aligned - base;
          size1 = (if sz < adjust then 0 else sz - adjust);
          size2 = size1 AND NOT (PMM_PAGE_SIZE - 1);
          total = unat (size2 div PMM_PAGE_SIZE);
          bitmap_bytes = (total + 7) div 8;
          bitmap_pages = (bitmap_bytes + 4095) div 4096
      in \<lparr>g_base = aligned, g_bitmap = set_bits [0..<bitmap_pages] (replicate bitmap_bytes 0), g_total = total,
          g_reserved = bitmap_pages, g_hint = bitmap_pages, g_free = total - bitmap_pages\<rparr>)"

text \<open>The scan of \<^verbatim>\<open>pmm_alloc_page\<close>, from step \<open>step\<close> on.\<close>

function alloc_scan :: "pmm_state \<Rightarrow> nat \<Rightarrow> nat \<Rightarrow> pmm_state \<times> u64" where
  "alloc_scan s start step =
     (if step < g_total s then
        let i = (if start + step \<ge> g_total s then start + step - g_total s else start + step) in
        if i < g_reserved s then alloc_scan s start (step + 1)
        else if \<not> bit_test s i \<and> snd (try_claim s i)
        then let s1 = fst (try_claim s i)
             in (s1\<lparr>g_hint := i + 1, g_free := g_free s1 - 1\<rparr>, pmm_page_addr s1 i)
        else alloc_scan s start (step + 1)
      else (s, NULL))"
  by auto
termination by (relation "measure (\<lambda>(s, start, step). g_total s - step)") auto

definition pmm_alloc_page :: "pmm_state \<Rightarrow> pmm_state \<times> u64" where
  "pmm_alloc_page s =
     (let start = (if g_hint s \<ge> g_total s then g_reserved s else g_hint s) in alloc_scan s start 0)"

text \<open>The length of the apparently free run at \<open>i\<close>, at most \<open>cnt\<close>.\<close>

function run_length :: "pmm_state \<Rightarrow> nat \<Rightarrow> nat \<Rightarrow> nat \<Rightarrow> nat" where
  "run_length s i cnt run =
     (if run < cnt \<and> \<not> bit_test s (i + run) then run_length s i cnt (run + 1) else run)"
  by auto
termination by (relation "measure (\<lambda>(s, i, cnt, run). cnt - run)") auto

text \<open>The claim loop, with the number of pages claimed when it ends.\<close>

function claim_run :: "pmm_state \<Rightarrow> nat \<Rightarrow> nat \<Rightarrow> nat \<Rightarrow> pmm_state \<times> nat" where
  "claim_run s i cnt claimed =
     (if claimed < cnt then
        case try_claim s (i + claimed) of (s1, ok) \<Rightarrow>
          if \<not> ok then (s1, claimed) else claim_run s1 i cnt (claimed + 1)
      else (s, claimed))"
  by auto
termination by (relation "measure (\<lambda>(s, i, cnt, claimed). cnt - claimed)") auto

definition release_run :: "pmm_state \<Rightarrow> nat \<Rightarrow> nat \<Rightarrow> pmm_state" where
  "release_run s i n = fold (\<lambda>j s. release s (i + j)) [0..<n] s"

declare alloc_scan.simps [simp del] run_length.simps [simp del] claim_run.simps [simp del]

lemma try_claim_fields [simp]:
  "g_base (fst (try_claim s i)) = g_base s" "g_total (fst (try_claim s i)) = g_total s"
  "g_reserved (fst (try_claim s i)) = g_reserved s" "g_hint (fst (try_claim s i)) = g_hint s"
  "g_free (fst (try_claim s i)) = g_free s" "length (g_bitmap (fst (try_claim s i))) = length (g_bitmap s)"
  by (simp_all add: try_claim_def Let_def)

lemma release_fields [simp]:
  "g_base (release s i) = g_base s" "g_total (release s i) = g_total s" "g_reserved (release s i) = g_reserved s"
  "g_hint (release s i) = g_hint s" "g_free (release s i) = g_free s"
  "length (g_bitmap (release s i)) = length (g_bitmap s)"
  by (simp_all add: release_def)

lemma release_run_Suc: "release_run s i (Suc n) = release (release_run s i n) (i + n)"
  by (simp add: release_run_def)

lemma release_run_0 [simp]: "release_run s i 0 = s"
  by (simp add: release_run_def)

lemma release_run_fields [simp]:
  "g_base (release_run s i n) = g_base s" "g_total (release_run s i n) = g_total s"
  "g_reserved (release_run s i n) = g_reserved s" "g_hint (release_run s i n) = g_hint s"
  "g_free (release_run s i n) = g_free s" "length (g_bitmap (release_run s i n)) = length (g_bitmap s)"
  by (induction n) (simp_all add: release_run_Suc)

lemma claim_run_fields:
  "claim_run s i cnt n = (s', m) \<Longrightarrow> g_base s' = g_base s \<and> g_total s' = g_total s \<and> g_reserved s' = g_reserved s \<and>
     g_hint s' = g_hint s \<and> g_free s' = g_free s \<and> length (g_bitmap s') = length (g_bitmap s)"
proof (induction s i cnt n rule: claim_run.induct)
  case (1 s i cnt n)
  obtain s1 ok where tc: "try_claim s (i + n) = (s1, ok)" by (cases "try_claim s (i + n)")
  note fields = try_claim_fields [of s "i + n", unfolded tc fst_conv]
  show ?case
  proof (cases "n < cnt \<and> ok")
    case True
    then have "claim_run s1 i cnt (n + 1) = (s', m)"
      using 1(2) by (subst (asm) claim_run.simps) (simp add: tc)
    then show ?thesis using 1(1) [OF _ tc [symmetric]] True fields by simp
  next
    case False
    then show ?thesis using 1(2) fields
      by (subst (asm) claim_run.simps) (auto simp: tc split: if_splits)
  qed
qed

function alloc_runs :: "pmm_state \<Rightarrow> nat \<Rightarrow> nat \<Rightarrow> pmm_state \<times> u64" where
  "alloc_runs s cnt i =
     (if i + cnt \<le> g_total s then
        let run = run_length s i cnt 0 in
        if run < cnt then alloc_runs s cnt (i + run + 1)
        else case claim_run s i cnt 0 of (s1, claimed) \<Rightarrow>
          if claimed = cnt
          then (s1\<lparr>g_hint := i + cnt, g_free := g_free s1 - cnt\<rparr>, pmm_page_addr s1 i)
          else alloc_runs (release_run s1 i claimed) cnt (i + claimed + 1)
      else (s, NULL))"
  by auto
termination
proof (relation "measure (\<lambda>(s, cnt, i). Suc (g_total s) - i)", goal_cases)
  case (3 s cnt i run x claimed)
  then show ?case using claim_run_fields [OF 3(4) [symmetric]] by auto
qed auto

declare alloc_runs.simps [simp del]

definition pmm_alloc_pages :: "pmm_state \<Rightarrow> nat \<Rightarrow> pmm_state \<times> u64" where
  "pmm_alloc_pages s cnt =
     (if cnt = 0 then (s, NULL)
      else if cnt = 1 then pmm_alloc_page s
      else if cnt > g_total s - g_reserved s then (s, NULL)
      else alloc_runs s cnt (g_reserved s))"

definition pmm_free_pages :: "pmm_state \<Rightarrow> u64 \<Rightarrow> nat \<Rightarrow> pmm_state" where
  "pmm_free_pages s page cnt =
     (let idx = index_of s page; s1 = release_run s idx cnt
      in s1\<lparr>g_free := g_free s1 + cnt, g_hint := idx\<rparr>)"

definition pmm_free_page :: "pmm_state \<Rightarrow> u64 \<Rightarrow> pmm_state" where
  "pmm_free_page s page = pmm_free_pages s page 1"

definition pmm_free_count :: "pmm_state \<Rightarrow> nat" where
  "pmm_free_count s = g_free s"

definition pmm_total_count :: "pmm_state \<Rightarrow> nat" where
  "pmm_total_count s = g_total s - g_reserved s"

text \<open>The body of the loop of \<^verbatim>\<open>pmm_reserve_range\<close>.\<close>

definition reserve_one :: "nat \<Rightarrow> pmm_state \<Rightarrow> pmm_state" where
  "reserve_one i s = (case try_claim s i of (s1, ok) \<Rightarrow> if ok then s1\<lparr>g_free := g_free s1 - 1\<rparr> else s1)"

definition pmm_reserve_range :: "pmm_state \<Rightarrow> u64 \<Rightarrow> u64 \<Rightarrow> pmm_state" where
  "pmm_reserve_range s pa bytes =
     (let start = pa AND NOT (PMM_PAGE_SIZE - 1);
          stop = (pa + bytes + PMM_PAGE_SIZE - 1) AND NOT (PMM_PAGE_SIZE - 1);
          limit = g_base s + of_nat (g_total s) * PMM_PAGE_SIZE
      in if stop \<le> start then s
         else
           let start1 = (if start < g_base s then g_base s else start) in
           if start1 \<ge> limit then s
           else
             let stop1 = (if stop > limit then limit else stop);
                 i_start = unat (drop_bit 12 (start1 - g_base s));
                 i_end = unat (drop_bit 12 (stop1 - g_base s))
             in fold reserve_one [i_start..<i_end] s)"

section \<open>The bitmap as a set of pages\<close>

lemma bit_test_iff: "bit_test s i \<longleftrightarrow> bit (g_bitmap s ! (i div 8)) (i mod 8)"
  by (simp add: bit_test_def bit_mask_def bit_byte_def push_bit_of_1 and_exp_eq_0_iff_not_bit)

lemma same_byte: "i div 8 = j div 8 \<Longrightarrow> i mod 8 = j mod 8 \<longleftrightarrow> i = (j :: nat)"
  by (metis mult_div_mod_eq)

lemma try_claim_iff: "snd (try_claim s i) \<longleftrightarrow> \<not> bit_test s i"
  by (simp add: try_claim_def Let_def bit_test_def)

lemma bit_test_try_claim:
  assumes "i div 8 < length (g_bitmap s)"
  shows "bit_test (fst (try_claim s i)) j \<longleftrightarrow> j = i \<or> bit_test s j"
proof (cases "i div 8 = j div 8")
  case True
  with assms same_byte [OF True] show ?thesis
    by (auto simp: bit_test_iff try_claim_def Let_def bit_byte_def bit_mask_def bit_simps)
next
  case False
  then show ?thesis by (auto simp: bit_test_iff try_claim_def Let_def bit_byte_def)
qed

lemma bit_test_release:
  assumes "i div 8 < length (g_bitmap s)"
  shows "bit_test (release s i) j \<longleftrightarrow> j \<noteq> i \<and> bit_test s j"
proof (cases "i div 8 = j div 8")
  case True
  with assms same_byte [OF True] show ?thesis
    by (auto simp: bit_test_iff release_def bit_byte_def bit_mask_def bit_simps)
next
  case False
  then show ?thesis by (auto simp: bit_test_iff release_def bit_byte_def)
qed

lemma bit_test_release_run:
  "i + n \<le> 8 * length (g_bitmap s) \<Longrightarrow> bit_test (release_run s i n) j \<longleftrightarrow> bit_test s j \<and> j \<notin> {i..<i + n}"
proof (induction n)
  case 0
  then show ?case by simp
next
  case (Suc n)
  then have "(i + n) div 8 < length (g_bitmap s)" by simp
  with Suc show ?case by (auto simp: release_run_Suc bit_test_release)
qed

lemma claim_run_clear:
  "n \<le> cnt \<Longrightarrow> i + cnt \<le> 8 * length (g_bitmap s) \<Longrightarrow> (\<forall>k \<in> {i + n..<i + cnt}. \<not> bit_test s k) \<Longrightarrow>
     \<exists>s'. claim_run s i cnt n = (s', cnt) \<and> (\<forall>j. bit_test s' j \<longleftrightarrow> bit_test s j \<or> j \<in> {i + n..<i + cnt})"
proof (induction s i cnt n rule: claim_run.induct)
  case (1 s i cnt n)
  show ?case
  proof (cases "n < cnt")
    case True
    obtain s1 ok where tc: "try_claim s (i + n) = (s1, ok)" by (cases "try_claim s (i + n)")
    have ok: ok using 1(4) True tc try_claim_iff [of s "i + n"] by simp
    have "(i + n) div 8 < length (g_bitmap s)" using 1(3) True by linarith
    then have bits: "bit_test s1 j \<longleftrightarrow> j = i + n \<or> bit_test s j" for j
      using bit_test_try_claim [of "i + n" s j] tc by simp
    have len: "length (g_bitmap s1) = length (g_bitmap s)" using try_claim_fields(6) [of s "i + n"] tc by simp
    have "\<exists>s'. claim_run s1 i cnt (n + 1) = (s', cnt) \<and>
        (\<forall>j. bit_test s' j \<longleftrightarrow> bit_test s1 j \<or> j \<in> {i + (n + 1)..<i + cnt})"
      by (rule 1(1) [OF True tc [symmetric]]) (use ok 1(3,4) True in \<open>simp_all add: len bits\<close>)
    then obtain s' where s': "claim_run s1 i cnt (n + 1) = (s', cnt)"
      and b': "\<And>j. bit_test s' j \<longleftrightarrow> bit_test s1 j \<or> j \<in> {i + (n + 1)..<i + cnt}" by blast
    have "claim_run s i cnt n = (s', cnt)" using True tc ok s' by (subst claim_run.simps) simp
    moreover have "bit_test s' j \<longleftrightarrow> bit_test s j \<or> j \<in> {i + n..<i + cnt}" for j
      using True unfolding b' bits by auto
    ultimately show ?thesis by blast
  next
    case False
    then show ?thesis using 1(2) by (subst claim_run.simps) auto
  qed
qed

lemma run_length_clear:
  "run \<le> cnt \<Longrightarrow> (\<forall>k < run. \<not> bit_test s (i + k)) \<Longrightarrow>
     run_length s i cnt run \<le> cnt \<and> (\<forall>k < run_length s i cnt run. \<not> bit_test s (i + k)) \<and>
     (run_length s i cnt run < cnt \<longrightarrow> bit_test s (i + run_length s i cnt run))"
proof (induction s i cnt run rule: run_length.induct)
  case (1 s i cnt run)
  show ?case
  proof (cases "run < cnt \<and> \<not> bit_test s (i + run)")
    case True
    then have step: "run_length s i cnt run = run_length s i cnt (run + 1)" by (subst run_length.simps) simp
    have "\<forall>k < run + 1. \<not> bit_test s (i + k)" using 1(3) True by (simp add: less_Suc_eq)
    then show ?thesis unfolding step using 1(1) [OF True] True by simp
  next
    case False
    then have "run_length s i cnt run = run" by (subst run_length.simps) auto
    then show ?thesis using 1(2,3) False by auto
  qed
qed

section \<open>Invariant\<close>

definition free_set :: "pmm_state \<Rightarrow> nat set" where
  "free_set s = {i. g_reserved s \<le> i \<and> i < g_total s \<and> \<not> bit_test s i}"

text \<open>
  The bitmap has a bit for every page, its own pages are taken, the count is the number of clear bits and the
  region does not wrap around the address space.
\<close>

definition pmm_inv :: "pmm_state \<Rightarrow> bool" where
  "pmm_inv s \<longleftrightarrow> length (g_bitmap s) = (g_total s + 7) div 8 \<and> g_reserved s \<le> g_total s \<and>
     (0 < g_total s \<longrightarrow> 0 < g_reserved s) \<and> (\<forall>i < g_reserved s. bit_test s i) \<and>
     g_free s = card (free_set s) \<and> 4096 dvd unat (g_base s) \<and> unat (g_base s) + g_total s * 4096 \<le> 2 ^ 64"

definition free_run :: "pmm_state \<Rightarrow> nat \<Rightarrow> nat \<Rightarrow> bool" where
  "free_run s i n \<longleftrightarrow> {i..<i + n} \<subseteq> free_set s"

lemma finite_free_set [simp]: "finite (free_set s)"
  by (rule finite_subset [of _ "{..<g_total s}"]) (auto simp: free_set_def)

lemma pmm_inv_bound: "pmm_inv s \<Longrightarrow> i \<le> g_total s \<Longrightarrow> i \<le> 8 * length (g_bitmap s)"
  by (simp add: pmm_inv_def)

lemma pmm_inv_total: "pmm_inv s \<Longrightarrow> g_total s \<le> 2 ^ 52"
  by (simp add: pmm_inv_def)

lemma unat_pmm_page_addr:
  assumes "pmm_inv s" "i < g_total s"
  shows "unat (pmm_page_addr s i) = unat (g_base s) + i * 4096"
proof -
  have lt: "unat (g_base s) + i * 4096 < 2 ^ 64" using assms by (simp add: pmm_inv_def)
  have m: "of_nat i * PMM_PAGE_SIZE = of_nat (i * 4096)" by simp
  have "unat (of_nat (i * 4096) :: u64) = i * 4096" using lt by (intro unat_of_nat_u64) simp
  then show ?thesis unfolding pmm_page_addr_def m using lt by (subst unat_add_lem [THEN iffD1]) auto
qed

lemma index_of_page_addr:
  assumes "pmm_inv s" "i < g_total s"
  shows "index_of s (pmm_page_addr s i) = i"
proof -
  have "unat (of_nat (i * 4096) :: u64) = i * 4096"
    using assms by (intro unat_of_nat_u64) (simp add: pmm_inv_def)
  moreover have "pmm_page_addr s i - g_base s = of_nat (i * 4096)" by (simp add: pmm_page_addr_def)
  ultimately show ?thesis by (simp add: index_of_def drop_bit_eq_div unat_div)
qed

lemma page_addr_not_NULL:
  assumes "pmm_inv s" "i < g_total s" "g_reserved s \<le> i"
  shows "pmm_page_addr s i \<noteq> NULL"
proof -
  have "0 < i" using assms by (auto simp: pmm_inv_def)
  then have "unat (pmm_page_addr s i) \<noteq> 0" using unat_pmm_page_addr [OF assms(1,2)] by simp
  then show ?thesis by auto
qed

section \<open>Allocation takes a free run\<close>

definition took :: "pmm_state \<Rightarrow> pmm_state \<Rightarrow> nat \<Rightarrow> nat \<Rightarrow> bool" where
  "took s s' i n \<longleftrightarrow> g_base s' = g_base s \<and> g_total s' = g_total s \<and> g_reserved s' = g_reserved s \<and>
     length (g_bitmap s') = length (g_bitmap s) \<and> (\<forall>j. bit_test s' j \<longleftrightarrow> bit_test s j \<or> j \<in> {i..<i + n}) \<and>
     g_free s' = g_free s - n"

lemma bit_test_free_hint [simp]: "bit_test (s\<lparr>g_hint := h, g_free := f\<rparr>) j = bit_test s j"
  by (simp add: bit_test_def)

lemma took_free_set: "took s s' i n \<Longrightarrow> free_set s' = free_set s - {i..<i + n}"
  unfolding took_def free_set_def by (rule set_eqI) auto

lemma took_inv:
  assumes "pmm_inv s" "free_run s i n" "took s s' i n"
  shows "pmm_inv s'"
proof -
  have "card (free_set s') = card (free_set s) - n"
    using assms(2) unfolding took_free_set [OF assms(3)] free_run_def by (simp add: card_Diff_subset)
  then show ?thesis using assms(1,3) by (auto simp: pmm_inv_def took_def)
qed

lemma free_run_bounds:
  "free_run s i n \<Longrightarrow> 0 < n \<Longrightarrow> g_reserved s \<le> i \<and> i + n \<le> g_total s \<and> (\<forall>k \<in> {i..<i + n}. \<not> bit_test s k)"
proof -
  assume f: "free_run s i n" and n: "0 < n"
  then have "i \<in> free_set s" "i + n - 1 \<in> free_set s" by (auto simp: free_run_def)
  then show ?thesis using f n by (auto simp: free_run_def free_set_def)
qed

lemma free_runI:
  "g_reserved s \<le> i \<Longrightarrow> i + n \<le> g_total s \<Longrightarrow> (\<forall>k \<in> {i..<i + n}. \<not> bit_test s k) \<Longrightarrow> free_run s i n"
  by (auto simp: free_run_def free_set_def)

lemma claim_one_took:
  assumes "pmm_inv s" "i \<in> free_set s" "s1 = fst (try_claim s i)"
  shows "took s (s1\<lparr>g_hint := h, g_free := g_free s1 - 1\<rparr>) i 1"
proof -
  have "Suc i \<le> 8 * length (g_bitmap s)" using assms(2) by (intro pmm_inv_bound [OF assms(1)]) (simp add: free_set_def)
  then have "i div 8 < length (g_bitmap s)" by linarith
  then have "bit_test s1 j \<longleftrightarrow> j = i \<or> bit_test s j" for j unfolding assms(3) by (rule bit_test_try_claim)
  then show ?thesis using assms(3) by (auto simp: took_def)
qed

lemma claim_run_took:
  assumes "pmm_inv s" "free_run s i n" "0 < n"
  obtains s1 where "claim_run s i n 0 = (s1, n)" "took s (s1\<lparr>g_hint := h, g_free := g_free s1 - n\<rparr>) i n"
    "g_base s1 = g_base s"
proof -
  note b = free_run_bounds [OF assms(2,3)]
  have "i + n \<le> 8 * length (g_bitmap s)" using pmm_inv_bound [OF assms(1)] b by simp
  then have "\<exists>s'. claim_run s i n 0 = (s', n) \<and> (\<forall>j. bit_test s' j \<longleftrightarrow> bit_test s j \<or> j \<in> {i + 0..<i + n})"
    using b by (intro claim_run_clear) simp_all
  then obtain s1 where c: "claim_run s i n 0 = (s1, n)"
    and bits: "\<And>j. bit_test s1 j \<longleftrightarrow> bit_test s j \<or> j \<in> {i + 0..<i + n}" by blast
  show thesis
    by (rule that [OF c]) (use claim_run_fields [OF c] bits in \<open>auto simp: took_def\<close>)
qed

text \<open>The page that the scan looks at in one step.\<close>

definition scan_index :: "pmm_state \<Rightarrow> nat \<Rightarrow> nat \<Rightarrow> nat" where
  "scan_index s start step = (if start + step \<ge> g_total s then start + step - g_total s else start + step)"

lemma scan_covers:
  assumes "start \<le> g_total s" "j < g_total s"
  shows "\<exists>k < g_total s. scan_index s start k = j"
proof (cases "start \<le> j")
  case True
  then show ?thesis using assms by (intro exI [of _ "j - start"]) (simp add: scan_index_def)
next
  case False
  then show ?thesis using assms by (intro exI [of _ "j + g_total s - start"]) (simp add: scan_index_def)
qed

lemma alloc_scan_spec:
  assumes "pmm_inv s" "start \<le> g_total s"
  shows "(\<exists>i \<in> free_set s. took s (fst (alloc_scan s start step)) i 1 \<and> snd (alloc_scan s start step) = pmm_page_addr s i) \<or>
    (\<forall>k. step \<le> k \<and> k < g_total s \<longrightarrow> scan_index s start k \<notin> free_set s) \<and> alloc_scan s start step = (s, NULL)"
  using assms
proof (induction s start step rule: alloc_scan.induct)
  case (1 s start step)
  let ?i = "scan_index s start step"
  note unf = alloc_scan.simps [of s start step, folded scan_index_def, unfolded Let_def]
  consider (stop) "\<not> step < g_total s" | (hit) "step < g_total s" "?i \<in> free_set s"
    | (miss) "step < g_total s" "?i \<notin> free_set s" by blast
  then show ?case
  proof cases
    case stop
    then have "alloc_scan s start step = (s, NULL)" unfolding unf by simp
    then show ?thesis using stop by auto
  next
    case hit
    then have "\<not> ?i < g_reserved s" "\<not> bit_test s ?i" by (auto simp: free_set_def)
    then have "alloc_scan s start step = ((fst (try_claim s ?i))\<lparr>g_hint := ?i + 1, g_free := g_free (fst (try_claim s ?i)) - 1\<rparr>,
        pmm_page_addr s ?i)" unfolding unf using hit try_claim_iff [of s ?i] by (simp add: pmm_page_addr_def)
    then show ?thesis using claim_one_took [OF 1(3) hit(2) refl] hit(2) by auto
  next
    case miss
    have "?i < g_total s" using miss(1) 1(4) by (auto simp: scan_index_def)
    then have bad: "?i < g_reserved s \<or> bit_test s ?i" using miss by (auto simp: free_set_def)
    have rec: "alloc_scan s start step = alloc_scan s start (step + 1)"
      unfolding unf using miss bad by auto
    have ih: "(\<exists>i \<in> free_set s. took s (fst (alloc_scan s start (step + 1))) i 1 \<and>
          snd (alloc_scan s start (step + 1)) = pmm_page_addr s i) \<or>
        (\<forall>k. step + 1 \<le> k \<and> k < g_total s \<longrightarrow> scan_index s start k \<notin> free_set s) \<and>
          alloc_scan s start (step + 1) = (s, NULL)"
    proof (cases "?i < g_reserved s")
      case True
      then show ?thesis by (rule 1(1) [OF miss(1) refl _ 1(3,4), folded scan_index_def])
    next
      case False
      then have "\<not> (\<not> bit_test s ?i \<and> snd (try_claim s ?i))" using bad by simp
      then show ?thesis by (rule 1(2) [OF miss(1) refl _ _ 1(3,4), folded scan_index_def, OF False])
    qed
    have "scan_index s start k \<notin> free_set s"
      if "\<forall>k. step + 1 \<le> k \<and> k < g_total s \<longrightarrow> scan_index s start k \<notin> free_set s" "step \<le> k \<and> k < g_total s" for k
      using that miss(2) by (cases "k = step") auto
    then show ?thesis unfolding rec using ih by auto
  qed
qed

lemma pmm_alloc_page_spec:
  assumes inv: "pmm_inv s" and al: "pmm_alloc_page s = (s', a)"
  shows "if free_set s = {} then s' = s \<and> a = NULL
         else \<exists>i \<in> free_set s. took s s' i 1 \<and> a = pmm_page_addr s i"
proof -
  define start where "start = (if g_hint s \<ge> g_total s then g_reserved s else g_hint s)"
  have st: "start \<le> g_total s" using inv by (auto simp: start_def pmm_inv_def)
  have sc: "alloc_scan s start 0 = (s', a)" using al by (simp add: pmm_alloc_page_def start_def)
  have none: "free_set s = {}" if "\<forall>k. 0 \<le> k \<and> k < g_total s \<longrightarrow> scan_index s start k \<notin> free_set s"
    using that scan_covers [OF st] by (auto simp: free_set_def)
  from alloc_scan_spec [OF inv st, of 0] none show ?thesis unfolding sc by auto
qed

lemma alloc_runs_spec:
  assumes "pmm_inv s" "0 < n" "g_reserved s \<le> i"
  shows "(\<exists>p \<ge> i. free_run s p n \<and> (\<forall>q. i \<le> q \<and> q < p \<longrightarrow> \<not> free_run s q n) \<and> took s (fst (alloc_runs s n i)) p n \<and>
      snd (alloc_runs s n i) = pmm_page_addr s p) \<or>
    (\<forall>q \<ge> i. \<not> free_run s q n) \<and> alloc_runs s n i = (s, NULL)" (is "?P i")
  using assms(3)
proof (induction "Suc (g_total s) - i" arbitrary: i rule: less_induct)
  case less
  note unf = alloc_runs.simps [of s n i, unfolded Let_def]
  show ?case
  proof (cases "i + n \<le> g_total s")
    case False
    then have "\<not> free_run s q n" if "q \<ge> i" for q using free_run_bounds [of s q n] that assms(2) by auto
    then show ?thesis unfolding unf using False by auto
  next
    case fits: True
    let ?r = "run_length s i n 0"
    have r: "?r \<le> n" "\<And>k. k < ?r \<Longrightarrow> \<not> bit_test s (i + k)" "?r < n \<Longrightarrow> bit_test s (i + ?r)"
      using run_length_clear [of 0 n s i] by auto
    show ?thesis
    proof (cases "?r < n")
      case True
      have no: "\<not> free_run s q n" if "i \<le> q" "q < i + ?r + 1" for q
      proof
        assume "free_run s q n"
        from free_run_bounds [OF this assms(2)] have "\<forall>k \<in> {q..<q + n}. \<not> bit_test s k" by simp
        moreover have "i + ?r \<in> {q..<q + n}" using that True by simp
        ultimately show False using r(3) [OF True] by blast
      qed
      have rec: "alloc_runs s n i = alloc_runs s n (i + ?r + 1)" unfolding unf using fits True by simp
      have "?P (i + ?r + 1)" using less(2) fits True by (intro less(1)) simp_all
      then show ?thesis
      proof (elim disjE exE conjE)
        fix p assume p: "i + ?r + 1 \<le> p" "free_run s p n" "\<forall>q. i + ?r + 1 \<le> q \<and> q < p \<longrightarrow> \<not> free_run s q n"
          "took s (fst (alloc_runs s n (i + ?r + 1))) p n" "snd (alloc_runs s n (i + ?r + 1)) = pmm_page_addr s p"
        have "\<not> free_run s q n" if "i \<le> q \<and> q < p" for q
          using p(3) no [of q] that by (cases "q < i + ?r + 1") (auto simp: not_less)
        then show ?thesis unfolding rec using p by (intro disjI1 exI [of _ p]) auto
      next
        assume none: "\<forall>q \<ge> i + ?r + 1. \<not> free_run s q n" and "alloc_runs s n (i + ?r + 1) = (s, NULL)"
        moreover have "\<not> free_run s q n" if "i \<le> q" for q
          using none no [of q] that by (cases "q < i + ?r + 1") (auto simp: not_less)
        ultimately show ?thesis unfolding rec by auto
      qed
    next
      case False
      then have "?r = n" using r(1) by simp
      then have "\<forall>k \<in> {i..<i + n}. \<not> bit_test s k" using r(2) by (metis atLeastLessThan_iff le_iff_add nat_add_left_cancel_less)
      then have run: "free_run s i n" using less(2) fits by (intro free_runI)
      obtain s1 where "claim_run s i n 0 = (s1, n)" "took s (s1\<lparr>g_hint := i + n, g_free := g_free s1 - n\<rparr>) i n"
        "g_base s1 = g_base s" by (rule claim_run_took [OF assms(1) run assms(2)])
      then show ?thesis unfolding unf using fits False run by (intro disjI1 exI [of _ i]) (auto simp: pmm_page_addr_def)
    qed
  qed
qed

lemma pmm_alloc_pages_spec:
  assumes inv: "pmm_inv s" and al: "pmm_alloc_pages s n = (s', a)"
  shows "if 0 < n \<and> (\<exists>i. free_run s i n)
         then \<exists>i. free_run s i n \<and> (2 \<le> n \<longrightarrow> (\<forall>q < i. \<not> free_run s q n)) \<and> took s s' i n \<and> a = pmm_page_addr s i
         else s' = s \<and> a = NULL"
proof -
  consider "n = 0" | "n = 1" | "2 \<le> n" "n > g_total s - g_reserved s" | "2 \<le> n" "n \<le> g_total s - g_reserved s"
    by linarith
  then show ?thesis
  proof cases
    case 1
    then show ?thesis using al by (simp add: pmm_alloc_pages_def)
  next
    case 2
    then have "pmm_alloc_page s = (s', a)" using al by (simp add: pmm_alloc_pages_def)
    then show ?thesis using pmm_alloc_page_spec [OF inv] 2 by (auto simp: free_run_def split: if_splits)
  next
    case 3
    have "\<not> free_run s i n" for i using free_run_bounds [of s i n] 3 by auto
    then show ?thesis using al 3 by (simp add: pmm_alloc_pages_def)
  next
    case 4
    then have r: "alloc_runs s n (g_reserved s) = (s', a)" using al by (simp add: pmm_alloc_pages_def)
    have low: "g_reserved s \<le> q" if "free_run s q n" for q using free_run_bounds [OF that] 4 by simp
    have "0 < n" using 4 by simp
    from alloc_runs_spec [OF inv this order_refl] show ?thesis unfolding r fst_conv snd_conv prod.inject
    proof (elim disjE exE conjE)
      fix p assume p: "free_run s p n" "took s s' p n" "a = pmm_page_addr s p"
        "\<forall>q. g_reserved s \<le> q \<and> q < p \<longrightarrow> \<not> free_run s q n"
      have "\<not> free_run s q n" if "q < p" for q using p(4) low [of q] that by blast
      then show ?thesis using p \<open>0 < n\<close> by auto
    next
      assume "\<forall>q \<ge> g_reserved s. \<not> free_run s q n" "s' = s" "a = NULL"
      then show ?thesis using low by auto
    qed
  qed
qed

section \<open>Release and reservation\<close>

lemma pmm_free_pages_spec:
  assumes inv: "pmm_inv s" and i: "g_reserved s \<le> i" "i + n \<le> g_total s" "0 < n"
    and held: "{i..<i + n} \<inter> free_set s = {}"
  shows "free_set (pmm_free_pages s (pmm_page_addr s i) n) = free_set s \<union> {i..<i + n}"
    and "pmm_inv (pmm_free_pages s (pmm_page_addr s i) n)"
proof -
  let ?s = "pmm_free_pages s (pmm_page_addr s i) n"
  have idx: "index_of s (pmm_page_addr s i) = i" using i by (intro index_of_page_addr [OF inv]) simp
  have "i + n \<le> 8 * length (g_bitmap s)" using pmm_inv_bound [OF inv i(2)] .
  then have bits: "bit_test ?s j \<longleftrightarrow> bit_test s j \<and> j \<notin> {i..<i + n}" for j
    using bit_test_release_run [of i n s j] by (simp add: pmm_free_pages_def idx Let_def bit_test_def)
  have fields: "g_base ?s = g_base s" "g_total ?s = g_total s" "g_reserved ?s = g_reserved s"
      "length (g_bitmap ?s) = length (g_bitmap s)" "g_free ?s = g_free s + n"
    by (simp_all add: pmm_free_pages_def Let_def)
  show fs: "free_set ?s = free_set s \<union> {i..<i + n}"
    unfolding free_set_def fields bits using i by auto
  have "card (free_set ?s) = card (free_set s) + n"
    unfolding fs using held by (subst card_Un_disjoint) auto
  then show "pmm_inv ?s" using inv i unfolding pmm_inv_def fields bits by auto
qed

lemma reserve_one_spec:
  assumes "pmm_inv s" "i < g_total s"
  shows "pmm_inv (reserve_one i s) \<and> free_set (reserve_one i s) = free_set s - {i} \<and>
    g_base (reserve_one i s) = g_base s \<and> g_total (reserve_one i s) = g_total s \<and>
    g_reserved (reserve_one i s) = g_reserved s"
proof (cases "bit_test s i")
  case True
  have "i div 8 < length (g_bitmap s)" using pmm_inv_bound [OF assms(1), of "Suc i"] assms(2) by linarith
  then have "bit_test (fst (try_claim s i)) j \<longleftrightarrow> bit_test s j" for j
    using bit_test_try_claim [of i s j] True by auto
  moreover have "reserve_one i s = fst (try_claim s i)"
    using True try_claim_iff [of s i] by (auto simp: reserve_one_def split: prod.split)
  ultimately show ?thesis using assms(1) True by (auto simp: pmm_inv_def free_set_def)
next
  case False
  then have r: "reserve_one i s = (fst (try_claim s i))\<lparr>g_free := g_free s - 1\<rparr>"
    using try_claim_iff [of s i] by (simp add: reserve_one_def prod.case_eq_if)
  have free: "i \<in> free_set s" using False assms by (auto simp: pmm_inv_def free_set_def intro: leI)
  have "took s (reserve_one i s) i 1"
    using claim_one_took [OF assms(1) free refl, of "g_hint s"] unfolding r by (simp add: took_def bit_test_def)
  moreover from this free have "pmm_inv (reserve_one i s)"
    by (intro took_inv [OF assms(1)]) (simp_all add: free_run_def)
  ultimately show ?thesis using took_free_set [of s "reserve_one i s" i 1] by (simp add: took_def)
qed

lemma reserve_fold:
  "pmm_inv s \<Longrightarrow> \<forall>i \<in> set is. i < g_total s \<Longrightarrow>
     pmm_inv (fold reserve_one is s) \<and> free_set (fold reserve_one is s) = free_set s - set is \<and>
     g_base (fold reserve_one is s) = g_base s \<and> g_total (fold reserve_one is s) = g_total s \<and>
     g_reserved (fold reserve_one is s) = g_reserved s"
proof (induction "is" arbitrary: s)
  case Nil
  then show ?case by simp
next
  case (Cons i "is")
  then have "pmm_inv s" "i < g_total s" by simp_all
  note one = reserve_one_spec [OF this]
  then show ?case using Cons.IH [of "reserve_one i s"] Cons.prems by auto
qed

text \<open>The pages that a byte range touches.\<close>

definition pages_touched :: "pmm_state \<Rightarrow> nat \<Rightarrow> nat \<Rightarrow> nat set" where
  "pages_touched s pa bytes =
     {i. i < g_total s \<and> unat (g_base s) + i * 4096 < pa + bytes \<and> pa < unat (g_base s) + (i + 1) * 4096}"

lemma touched_arith:
  fixes B P N t i :: nat
  assumes "4096 dvd B" "0 < N" "i < t"
  defines "S \<equiv> P - P mod 4096" and "E \<equiv> (P + N + 4095) - (P + N + 4095) mod 4096"
  shows "B + i * 4096 < P + N \<and> P < B + (i + 1) * 4096 \<longleftrightarrow> S \<le> B + i * 4096 \<and> B + i * 4096 < E"
proof -
  obtain b where b: "B = 4096 * b" using assms(1) by (rule dvdE)
  define p e x where "p = P div 4096" and "e = (P + N + 4095) div 4096" and "x = b + i"
  have SE: "S = 4096 * p" "E = 4096 * e" unfolding S_def E_def p_def e_def by (simp_all add: minus_mod_eq_mult_div)
  have q: "4096 * p \<le> P" "P < 4096 * p + 4096" "4096 * e \<le> P + N + 4095" "P + N + 4095 < 4096 * e + 4096"
    unfolding p_def e_def by linarith+
  have "P < 4096 * x + 4096 \<longleftrightarrow> p \<le> x" using q(1,2) by linarith
  moreover have "4096 * x < P + N \<longleftrightarrow> x < e" using q(3,4) by linarith
  moreover have eqs: "B + i * 4096 = 4096 * x" "B + (i + 1) * 4096 = 4096 * x + 4096" unfolding b x_def by simp_all
  ultimately show ?thesis unfolding SE eqs by auto
qed

lemma page_index_le:
  fixes B S :: nat
  assumes "4096 dvd B" "4096 dvd S" "B \<le> S"
  shows "(S - B) div 4096 \<le> i \<longleftrightarrow> S \<le> B + i * 4096"
proof -
  obtain b c where "B = 4096 * b" "S = 4096 * c" using assms(1,2) by (auto elim!: dvdE)
  moreover from this have "S - B = 4096 * (c - b)" "b \<le> c" using assms(3) by (simp_all add: diff_mult_distrib2)
  ultimately show ?thesis by auto
qed

lemma pmm_limit:
  assumes inv: "pmm_inv s"
  shows "unat (g_base s + of_nat (g_total s) * PMM_PAGE_SIZE) = unat (g_base s) + g_total s * 4096 \<or>
    unat (g_base s) + g_total s * 4096 = 2 ^ 64 \<and> g_base s + of_nat (g_total s) * PMM_PAGE_SIZE = 0"
proof (cases "unat (g_base s) + g_total s * 4096 < 2 ^ 64")
  case True
  have m: "of_nat (g_total s) * PMM_PAGE_SIZE = of_nat (g_total s * 4096)" by simp
  have "unat (of_nat (g_total s * 4096) :: u64) = g_total s * 4096" using True by (intro unat_of_nat_u64) simp
  then show ?thesis unfolding m using True by (subst unat_add_lem [THEN iffD1]) auto
next
  case False
  then have e: "unat (g_base s) + g_total s * 4096 = 2 ^ 64" using inv by (simp add: pmm_inv_def)
  have "g_base s + of_nat (g_total s) * PMM_PAGE_SIZE = of_nat (unat (g_base s) + g_total s * 4096)" by simp
  then show ?thesis unfolding e by (simp add: word_of_nat_eq_0_iff)
qed

text \<open>The bounds of the reservation loop, as addresses.\<close>

definition reserve_start :: "pmm_state \<Rightarrow> u64 \<Rightarrow> u64" where
  "reserve_start s pa = (let start = pa AND NOT (PMM_PAGE_SIZE - 1) in if start < g_base s then g_base s else start)"

definition reserve_stop :: "pmm_state \<Rightarrow> u64 \<Rightarrow> u64 \<Rightarrow> u64" where
  "reserve_stop s pa bytes =
     (let stop = (pa + bytes + PMM_PAGE_SIZE - 1) AND NOT (PMM_PAGE_SIZE - 1);
          limit = g_base s + of_nat (g_total s) * PMM_PAGE_SIZE in if stop > limit then limit else stop)"

lemma pmm_reserve_range_eq:
  "pmm_reserve_range s pa bytes =
     (if (pa + bytes + PMM_PAGE_SIZE - 1) AND NOT (PMM_PAGE_SIZE - 1) \<le> pa AND NOT (PMM_PAGE_SIZE - 1) \<or>
         reserve_start s pa \<ge> g_base s + of_nat (g_total s) * PMM_PAGE_SIZE then s
      else fold reserve_one [unat (drop_bit 12 (reserve_start s pa - g_base s))..<
             unat (drop_bit 12 (reserve_stop s pa bytes - g_base s))] s)"
  by (simp add: pmm_reserve_range_def Let_def reserve_start_def reserve_stop_def)

lemma unat_range_end:
  "unat pa + unat bytes + 4095 < 2 ^ 64 \<Longrightarrow>
     unat ((pa + bytes + PMM_PAGE_SIZE - 1) AND NOT (PMM_PAGE_SIZE - 1)) =
     unat pa + unat bytes + 4095 - (unat pa + unat bytes + 4095) mod 4096"
proof -
  assume lt: "unat pa + unat bytes + 4095 < 2 ^ 64"
  have e: "pa + bytes + PMM_PAGE_SIZE - 1 = pa + bytes + 4095" by simp
  have "unat (pa + bytes) = unat pa + unat bytes" using lt by (subst unat_add_lem [THEN iffD1]) auto
  then have u: "unat (pa + bytes + 4095) = unat pa + unat bytes + 4095"
    using lt by (subst unat_add_lem [THEN iffD1]) auto
  show ?thesis unfolding unat_and_not_page e u ..
qed

lemma reserve_range_exact:
  assumes inv: "pmm_inv s" and n: "0 < unat bytes" and nw: "unat pa + unat bytes + 4095 < 2 ^ 64"
    and above: "unat (g_base s) \<le> unat pa + unat bytes"
    and room: "unat (g_base s) + g_total s * 4096 < 2 ^ 64"
  shows "pmm_inv (pmm_reserve_range s pa bytes)"
    and "free_set (pmm_reserve_range s pa bytes) = free_set s - pages_touched s (unat pa) (unat bytes)"
    and "g_base (pmm_reserve_range s pa bytes) = g_base s" and "g_total (pmm_reserve_range s pa bytes) = g_total s"
    and "g_reserved (pmm_reserve_range s pa bytes) = g_reserved s"
proof -
  let ?B = "unat (g_base s)" and ?t = "g_total s"
  define S where "S = unat pa - unat pa mod 4096"
  define E where "E = unat pa + unat bytes + 4095 - (unat pa + unat bytes + 4095) mod 4096"
  have dvd: "4096 dvd ?B" "4096 dvd S" "4096 dvd E" using inv by (simp_all add: pmm_inv_def S_def E_def)
  note S = unat_and_not_page [of pa, folded S_def] and E = unat_range_end [OF nw, folded E_def]
  have lim: "unat (g_base s + of_nat ?t * PMM_PAGE_SIZE) = ?B + ?t * 4096" using pmm_limit [OF inv] room by auto
  have SE: "S < E" "?B \<le> E"
    using n above mod_less_divisor [of 4096 "unat pa + unat bytes + 4095"] by (auto simp: S_def E_def)
  have st: "unat (reserve_start s pa) = max S ?B" "unat (reserve_stop s pa bytes) = min E (?B + ?t * 4096)"
    unfolding reserve_start_def reserve_stop_def Let_def word_less_nat_alt if_distrib [of unat] S E lim
    by (auto simp: max_def min_def)
  have touched: "i \<in> pages_touched s (unat pa) (unat bytes) \<longleftrightarrow> i < ?t \<and> S \<le> ?B + i * 4096 \<and> ?B + i * 4096 < E" for i
    using touched_arith [OF dvd(1) n, of i ?t "unat pa", folded S_def E_def] by (auto simp: pages_touched_def)
  let ?is = "if max S ?B \<ge> ?B + ?t * 4096 then []
    else [unat (drop_bit 12 (reserve_start s pa - g_base s))..<unat (drop_bit 12 (reserve_stop s pa bytes - g_base s))]"
  have r: "pmm_reserve_range s pa bytes = fold reserve_one ?is s"
    unfolding pmm_reserve_range_eq word_le_nat_alt S E st lim using SE by auto
  have "set ?is = pages_touched s (unat pa) (unat bytes)"
  proof (cases "max S ?B \<ge> ?B + ?t * 4096")
    case True
    then have "?t = 0 \<or> ?B + ?t * 4096 \<le> S" by auto
    then show ?thesis using True by (auto simp: touched)
  next
    case False
    have idx: "unat (drop_bit 12 (reserve_start s pa - g_base s)) = (max S ?B - ?B) div 4096"
      "unat (drop_bit 12 (reserve_stop s pa bytes - g_base s)) = (min E (?B + ?t * 4096) - ?B) div 4096"
      using st SE by (simp_all add: drop_bit_eq_div unat_div unat_sub word_le_nat_alt)
    have "(max S ?B - ?B) div 4096 \<le> i \<longleftrightarrow> max S ?B \<le> ?B + i * 4096" for i
      using dvd by (intro page_index_le) (auto simp: max_def)
    moreover have "(min E (?B + ?t * 4096) - ?B) div 4096 \<le> i \<longleftrightarrow> min E (?B + ?t * 4096) \<le> ?B + i * 4096" for i
      using dvd SE by (intro page_index_le) (auto simp: min_def)
    ultimately show ?thesis unfolding if_not_P [OF False] idx
      by (auto simp: touched not_le [symmetric] simp del: not_le)
  qed
  moreover from this have "\<forall>i \<in> set ?is. i < ?t" by (auto simp: pages_touched_def)
  ultimately show "pmm_inv (pmm_reserve_range s pa bytes)"
    "free_set (pmm_reserve_range s pa bytes) = free_set s - pages_touched s (unat pa) (unat bytes)"
    "g_base (pmm_reserve_range s pa bytes) = g_base s" "g_total (pmm_reserve_range s pa bytes) = g_total s"
    "g_reserved (pmm_reserve_range s pa bytes) = g_reserved s"
    unfolding r using reserve_fold [OF inv, of ?is] by auto
qed

lemma reserve_one_mono: "free_set (reserve_one i s) \<subseteq> free_set s"
proof -
  have f: "g_total (reserve_one i s) = g_total s" "g_reserved (reserve_one i s) = g_reserved s"
    by (simp_all add: reserve_one_def prod.case_eq_if)
  have b: "bit_test (reserve_one i s) j = bit_test (fst (try_claim s i)) j" for j
    by (simp add: reserve_one_def prod.case_eq_if bit_test_def)
  have "bit_test (fst (try_claim s i)) j" if "bit_test s j" for j
  proof (cases "i div 8 < length (g_bitmap s)")
    case True
    then show ?thesis using that bit_test_try_claim by simp
  next
    case False
    then have "g_bitmap (fst (try_claim s i)) = g_bitmap s" 
      by (simp add: try_claim_def Let_def bit_byte_def list_update_beyond)
    then show ?thesis using that by (simp add: bit_test_def)
  qed
  then show ?thesis unfolding free_set_def f b by auto
qed

lemma reserve_fold_mono: "free_set (fold reserve_one is s) \<subseteq> free_set s"
  by (induction "is" arbitrary: s) (use reserve_one_mono in fastforce)+

section \<open>Initialisation\<close>

lemma set_bits_claims: "set_bits is (g_bitmap s) = g_bitmap (fold (\<lambda>i s. fst (try_claim s i)) is s)"
proof (induction "is" arbitrary: s)
  case Nil
  then show ?case by (simp add: set_bits_def)
next
  case (Cons i "is")
  have "set_bits (i # is) (g_bitmap s) = set_bits is (g_bitmap (fst (try_claim s i)))"
    by (simp add: set_bits_def try_claim_def Let_def)
  then show ?case using Cons.IH by simp
qed

lemma bit_test_claims:
  "\<forall>i \<in> set is. i div 8 < length (g_bitmap s) \<Longrightarrow>
     bit_test (fold (\<lambda>i s. fst (try_claim s i)) is s) j \<longleftrightarrow> j \<in> set is \<or> bit_test s j"
  by (induction "is" arbitrary: s) (auto simp: bit_test_try_claim)

lemma length_set_bits [simp]: "length (set_bits is bs) = length bs"
  unfolding set_bits_def by (induction "is" arbitrary: bs) simp_all

lemma pmm_init_region:
  assumes "unat base + unat sz \<le> 2 ^ 64"
  shows "4096 dvd unat (g_base (pmm_init base sz)) \<and>
    unat (g_base (pmm_init base sz)) + g_total (pmm_init base sz) * 4096 \<le> 2 ^ 64"
proof -
  define A where "A = (base + PMM_PAGE_SIZE - 1) AND NOT (PMM_PAGE_SIZE - 1)"
  define size1 where "size1 = (if sz < A - base then 0 else sz - (A - base))"
  have A: "unat A = unat (base + 4095) - unat (base + 4095) mod 4096"
    unfolding A_def unat_and_not_page by (simp add: add.commute)
  have t: "g_total (pmm_init base sz) = unat ((size1 AND NOT (PMM_PAGE_SIZE - 1)) div PMM_PAGE_SIZE)"
    and b: "g_base (pmm_init base sz) = A"
    by (simp_all only: pmm_init_def Let_def A_def size1_def pmm_state.simps)
  have t2: "g_total (pmm_init base sz) = unat size1 div 4096"
    unfolding t unat_div unat_and_not_page by (simp add: minus_mod_eq_mult_div)
  have "unat A + unat size1 \<le> 2 ^ 64"
  proof (cases "unat base + 4095 < 2 ^ 64")
    case True
    then have u: "unat (base + 4095) = unat base + 4095" by (subst unat_add_lem [THEN iffD1]) auto
    have ge: "unat base \<le> unat A" unfolding A u using mod_less_divisor [of 4096 "unat base + 4095"] by simp
    then have d: "unat (A - base) = unat A - unat base" by (simp add: unat_sub word_le_nat_alt)
    have "unat A < 2 ^ 64" by (rule unat_u64_less)
    then show ?thesis using assms ge unfolding size1_def word_less_nat_alt d
      by (auto simp: d word_le_nat_alt not_less unat_sub)
  next
    case False
    have "unat base < 2 ^ 64" by (rule unat_u64_less)
    then have "(unat base + 4095) mod 2 ^ 64 = unat base + 4095 - 2 ^ 64"
      using False by (subst le_mod_geq) simp_all
    then have "unat (base + 4095) < 4096"
      using \<open>unat base < 2 ^ 64\<close> False by (simp add: unat_word_ariths(1))
    then have "A = 0" using A by (simp add: unat_eq_0)
    moreover have "unat (- base) = 2 ^ 64 - unat base"
    proof -
      have "(of_nat (2 ^ 64 - unat base) :: u64) = of_nat (2 ^ 64) - of_nat (unat base)"
        using \<open>unat base < 2 ^ 64\<close> by (intro of_nat_diff) simp
      also have "\<dots> = - base" by simp
      finally show ?thesis using unat_of_nat_u64 [of "2 ^ 64 - unat base"] False by simp
    qed
    then have "sz \<le> - base" using assms by (simp add: word_le_nat_alt)
    ultimately show ?thesis by (simp add: size1_def not_less)
  qed
  moreover have "g_total (pmm_init base sz) * 4096 \<le> unat size1" unfolding t2 by simp
  ultimately show ?thesis unfolding b by (simp add: A)
qed

lemma pmm_init_inv:
  assumes "unat base + unat sz \<le> 2 ^ 64"
  shows "pmm_inv (pmm_init base sz)"
    and "free_set (pmm_init base sz) = {g_reserved (pmm_init base sz)..<g_total (pmm_init base sz)}"
proof -
  define s where "s = pmm_init base sz"
  define s0 where "s0 = s\<lparr>g_bitmap := replicate ((g_total s + 7) div 8) 0\<rparr>"
  have fields: "g_reserved s = ((g_total s + 7) div 8 + 4095) div 4096" "g_free s = g_total s - g_reserved s"
    "g_bitmap s = set_bits [0..<g_reserved s] (g_bitmap s0)"
    by (simp_all only: s0_def s_def pmm_init_def Let_def pmm_state.simps)
  have r: "g_reserved s \<le> g_total s" "0 < g_total s \<longrightarrow> 0 < g_reserved s" unfolding fields(1) by linarith+
  have z: "\<not> bit_test s0 i" if "i < g_total s" for i
    using that by (simp add: bit_test_iff s0_def)
  have "bit_test s i \<longleftrightarrow> i < g_reserved s" if "i < g_total s" for i
  proof -
    have "\<forall>k \<in> set [0..<g_reserved s]. k div 8 < length (g_bitmap s0)" using r by (auto simp: s0_def)
    from bit_test_claims [OF this, of i] show ?thesis
      unfolding bit_test_def fields(3) set_bits_claims using z [OF that] by (simp add: bit_test_def)
  qed
  then have fs: "free_set s = {g_reserved s..<g_total s}" "\<forall>i < g_reserved s. bit_test s i"
    using r by (auto simp: free_set_def)
  then show "pmm_inv (pmm_init base sz)"
    "free_set (pmm_init base sz) = {g_reserved (pmm_init base sz)..<g_total (pmm_init base sz)}"
    using pmm_init_region [OF assms] r fields unfolding s_def [symmetric]
    by (simp_all add: pmm_inv_def) (simp add: s0_def)
qed

section \<open>Histories\<close>

text \<open>
  A run of the allocator: \<open>L\<close> are the blocks that clients hold, as address and page cnt, and \<open>R\<close> the pages that
  reservations took. A client frees only a block it holds.
\<close>

inductive pmm_reach :: "pmm_state \<Rightarrow> (u64 \<times> nat) list \<Rightarrow> nat set \<Rightarrow> bool" where
  init: "unat base + unat sz \<le> 2 ^ 64 \<Longrightarrow> pmm_reach (pmm_init base sz) [] {}"
| alloc: "pmm_reach s L R \<Longrightarrow> pmm_alloc_pages s n = (s', a) \<Longrightarrow> pmm_reach s' (if a = NULL then L else (a, n) # L) R"
| free: "pmm_reach s L R \<Longrightarrow> (a, n) \<in> set L \<Longrightarrow> pmm_reach (pmm_free_pages s a n) (remove1 (a, n) L) R"
| reserve: "pmm_reach s L R \<Longrightarrow> 0 < unat bytes \<Longrightarrow> unat pa + unat bytes + 4095 < 2 ^ 64 \<Longrightarrow>
    unat (g_base s) \<le> unat pa + unat bytes \<Longrightarrow> unat (g_base s) + g_total s * 4096 < 2 ^ 64 \<Longrightarrow>
    pmm_reach (pmm_reserve_range s pa bytes) L (R \<union> (pages_touched s (unat pa) (unat bytes) \<inter> free_set s))"

definition held_pages :: "pmm_state \<Rightarrow> (u64 \<times> nat) list \<Rightarrow> nat list" where
  "held_pages s L = concat (map (\<lambda>(a, n). [index_of s a..<index_of s a + n]) L)"

definition history_inv :: "pmm_state \<Rightarrow> (u64 \<times> nat) list \<Rightarrow> nat set \<Rightarrow> bool" where
  "history_inv s L R \<longleftrightarrow> pmm_inv s \<and> distinct (held_pages s L) \<and>
     free_set s \<inter> set (held_pages s L) = {} \<and> free_set s \<inter> R = {} \<and> R \<inter> set (held_pages s L) = {} \<and>
     free_set s \<union> set (held_pages s L) \<union> R = {g_reserved s..<g_total s} \<and>
     (\<forall>(a, n) \<in> set L. 0 < n \<and> (\<exists>i. a = pmm_page_addr s i \<and> g_reserved s \<le> i \<and> i + n \<le> g_total s))"

lemma held_pages_Cons: "held_pages s ((a, n) # L) = [index_of s a..<index_of s a + n] @ held_pages s L"
  by (simp add: held_pages_def)

lemma held_pages_cong: "g_base s' = g_base s \<Longrightarrow> held_pages s' L = held_pages s L"
  by (simp add: held_pages_def index_of_def)

lemma held_pages_remove1:
  "x \<in> set L \<Longrightarrow> mset (held_pages s L) = mset (held_pages s [x]) + mset (held_pages s (remove1 x L))"
  unfolding held_pages_def by (induction L) auto

lemma history_alloc:
  assumes h: "history_inv s L R" and al: "pmm_alloc_pages s n = (s', a)"
  shows "history_inv s' (if a = NULL then L else (a, n) # L) R"
proof (cases "0 < n \<and> (\<exists>i. free_run s i n)")
  case False
  have "pmm_inv s" using h by (simp add: history_inv_def)
  then show ?thesis using pmm_alloc_pages_spec [OF _ al] False h by simp
next
  case True
  have inv: "pmm_inv s" using h by (simp add: history_inv_def)
  obtain i where i: "free_run s i n" "took s s' i n" "a = pmm_page_addr s i"
    using pmm_alloc_pages_spec [OF inv al] True by auto
  note b = free_run_bounds [OF i(1)]
  have f: "g_base s' = g_base s" "g_total s' = g_total s" "g_reserved s' = g_reserved s" using i(2) by (simp_all add: took_def)
  have idx: "index_of s' a = i" unfolding i(3) using index_of_page_addr [OF inv] b True by (simp add: index_of_def f)
  have nz: "a \<noteq> NULL" unfolding i(3) using b True by (intro page_addr_not_NULL [OF inv]) auto
  have hp: "held_pages s' ((a, n) # L) = [i..<i + n] @ held_pages s L"
    by (simp add: held_pages_Cons idx held_pages_cong [OF f(1)])
  have sub: "{i..<i + n} \<subseteq> free_set s" using i(1) by (simp add: free_run_def)
  have addr: "pmm_page_addr s' = pmm_page_addr s" by (rule ext) (simp add: pmm_page_addr_def f)
  have "history_inv s' ((a, n) # L) R"
    unfolding history_inv_def hp took_free_set [OF i(2)] f addr
    using h sub took_inv [OF inv i(1,2)] True b i(3) unfolding history_inv_def by auto
  then show ?thesis using nz by simp
qed

lemma history_free:
  assumes h: "history_inv s L R" and mem: "(a, n) \<in> set L"
  shows "history_inv (pmm_free_pages s a n) (remove1 (a, n) L) R"
proof -
  let ?s = "pmm_free_pages s a n" and ?L = "remove1 (a, n) L"
  have inv: "pmm_inv s" using h by (simp add: history_inv_def)
  obtain i where i: "0 < n" "a = pmm_page_addr s i" "g_reserved s \<le> i" "i + n \<le> g_total s"
    using h mem unfolding history_inv_def by blast
  have idx: "index_of s a = i" unfolding i(2) using i by (intro index_of_page_addr [OF inv]) simp
  have ms: "mset (held_pages s L) = mset ([i..<i + n] @ held_pages s ?L)"
    using held_pages_remove1 [OF mem, of s] by (simp add: held_pages_def idx)
  have d: "distinct ([i..<i + n] @ held_pages s ?L)" "set (held_pages s L) = {i..<i + n} \<union> set (held_pages s ?L)"
    using h mset_eq_imp_distinct_iff [OF ms] mset_eq_setD [OF ms] by (auto simp: history_inv_def)
  have disj: "{i..<i + n} \<inter> free_set s = {}" using h d(2) by (auto simp: history_inv_def)
  note fr = pmm_free_pages_spec [OF inv i(3,4,1) disj, folded i(2)]
  have f: "g_base ?s = g_base s" "g_total ?s = g_total s" "g_reserved ?s = g_reserved s"
    by (simp_all add: pmm_free_pages_def Let_def)
  have addr: "pmm_page_addr ?s = pmm_page_addr s" by (rule ext) (simp add: pmm_page_addr_def f)
  show ?thesis
    unfolding history_inv_def fr(1) f addr held_pages_cong [OF f(1)]
    using h d fr(2) set_remove1_subset [of "(a, n)" L] unfolding history_inv_def d(2) by auto
qed

lemma pmm_reach_inv: "pmm_reach s L R \<Longrightarrow> history_inv s L R"
proof (induction rule: pmm_reach.induct)
  case (init base sz)
  then show ?case using pmm_init_inv [OF init] by (simp add: history_inv_def held_pages_def)
next
  case (alloc s L R n s' a)
  then show ?case by (blast intro: history_alloc)
next
  case (free s L R a n)
  then show ?case by (blast intro: history_free)
next
  case (reserve s L R bytes pa)
  then have inv: "pmm_inv s" by (simp add: history_inv_def)
  note r = reserve_range_exact [OF inv reserve.hyps(2-5)]
  have addr: "pmm_page_addr (pmm_reserve_range s pa bytes) = pmm_page_addr s" by (rule ext) (simp add: pmm_page_addr_def r)
  have "pages_touched s (unat pa) (unat bytes) \<inter> free_set s \<subseteq> free_set s" by blast
  then show ?case using reserve.IH r(1)
    unfolding history_inv_def r(2-5) addr held_pages_cong [OF r(3)] by auto
qed

section \<open>Properties\<close>



text \<open>
  C22. An allocation of \<open>n\<close> pages succeeds exactly when \<open>n\<close> is positive and \<open>n\<close> adjacent pages are free; it then
  returns the non-null address of such a run and takes exactly its pages, and for two or more pages the run is the
  lowest one. A failed allocation changes nothing.\<close>

theorem pmm_alloc_first_fit:
  assumes "pmm_reach s L R" and "pmm_alloc_pages s n = (s', a)"
  shows "if 0 < n \<and> (\<exists>i. free_run s i n)
         then a \<noteq> NULL \<and> (\<exists>i. free_run s i n \<and> (2 \<le> n \<longrightarrow> (\<forall>q < i. \<not> free_run s q n)) \<and>
           a = pmm_page_addr s i \<and> unat a = unat (g_base s) + i * 4096 \<and> free_set s' = free_set s - {i..<i + n})
         else s' = s \<and> a = NULL"
proof -
  have inv: "pmm_inv s" using pmm_reach_inv [OF assms(1)] by (simp add: history_inv_def)
  have addr: "pmm_page_addr s i \<noteq> NULL \<and> unat (pmm_page_addr s i) = unat (g_base s) + i * 4096" if "free_run s i n" "0 < n" for i
    using free_run_bounds [OF that] page_addr_not_NULL [OF inv, of i] unat_pmm_page_addr [OF inv, of i] that(2) by simp
  show ?thesis
  proof (cases "0 < n \<and> (\<exists>i. free_run s i n)")
    case True
    then obtain i where "free_run s i n" "2 \<le> n \<longrightarrow> (\<forall>q < i. \<not> free_run s q n)" "took s s' i n" "a = pmm_page_addr s i"
      using pmm_alloc_pages_spec [OF inv assms(2)] by auto
    then show ?thesis using True addr [of i] took_free_set [of s s' i n] by auto
  next
    case False
    show ?thesis using pmm_alloc_pages_spec [OF inv assms(2)] unfolding if_not_P [OF False] .
  qed
qed

theorem pmm_alloc_first_fit_witness:
  "let s0 = pmm_init 0x40000000 0x8000; (s1, a) = pmm_alloc_pages s0 8 in s1 = s0 \<and> a = NULL \<and>
     \<not> (\<exists>i. free_run s0 i 8)"
proof -
  let ?s0 = "pmm_init 0x40000000 0x8000"
  have "snd (pmm_alloc_pages ?s0 8) = NULL" by code_simp
  then have al: "pmm_alloc_pages ?s0 8 = (fst (pmm_alloc_pages ?s0 8), NULL)" by (metis prod.collapse)
  have "pmm_reach ?s0 [] {}" by (rule pmm_reach.init) simp
  note ff = pmm_alloc_first_fit [OF this al]
  have "fst (pmm_alloc_pages ?s0 8) = ?s0 \<and> \<not> (\<exists>i. free_run ?s0 i 8)"
  proof (cases "0 < (8 :: nat) \<and> (\<exists>i. free_run ?s0 i 8)")
    case True
    show ?thesis using ff unfolding if_P [OF True] by simp
  next
    case False
    show ?thesis using ff False unfolding if_not_P [OF False] by simp
  qed
  then show ?thesis unfolding Let_def by (subst al) simp
qed

text \<open>
  A reservation that ends below the pool is not the no-op that the header promises: the end of the range
  is not clipped to the base, the page count wraps around, and after the call no page is free.\<close>

theorem reserve_below_pool_exhausts:
  assumes "pmm_reach s L R" and "0 < unat bytes" and below: "unat pa + unat bytes + 4095 < unat (g_base s)"
    and room: "0 < g_total s" "unat (g_base s) + g_total s * 4096 < 2 ^ 64"
  shows "free_set (pmm_reserve_range s pa bytes) = {}"
proof -
  let ?B = "unat (g_base s)" and ?t = "g_total s"
  have inv: "pmm_inv s" using pmm_reach_inv [OF assms(1)] by (simp add: history_inv_def)
  have nw: "unat pa + unat bytes + 4095 < 2 ^ 64" using below unat_u64_less [of "g_base s"] by simp
  define E where "E = unat pa + unat bytes + 4095 - (unat pa + unat bytes + 4095) mod 4096"
  note E = unat_range_end [OF nw, folded E_def]
  have lim: "unat (g_base s + of_nat ?t * PMM_PAGE_SIZE) = ?B + ?t * 4096" using pmm_limit [OF inv] room by auto
  define r where "r = (unat pa + unat bytes + 4095) mod 4096"
  have "r < 4096" unfolding r_def by simp
  then have "unat pa < E" "E < ?B" unfolding E_def r_def [symmetric] using assms(2) below by linarith+
  then have b: "unat pa - unat pa mod 4096 < E" "E < ?B" "unat pa - unat pa mod 4096 < ?B"
    by (meson diff_le_self le_less_trans less_trans)+
  have st: "reserve_start s pa = g_base s" unfolding reserve_start_def Let_def word_less_nat_alt unat_and_not_page using b by simp
  have sp: "unat (reserve_stop s pa bytes) = E"
    unfolding reserve_stop_def Let_def word_less_nat_alt if_distrib [of unat] E lim using b by simp
  define m where "m = unat (drop_bit 12 (reserve_stop s pa bytes - g_base s))"
  have "pmm_reserve_range s pa bytes = fold reserve_one [0..<m] s"
    unfolding pmm_reserve_range_eq m_def word_le_nat_alt E lim st unat_and_not_page [of pa] using b room by simp
  moreover have "?t \<le> m"
  proof -
    have "unat (reserve_stop s pa bytes - g_base s) = 2 ^ 64 + E - ?B"
    proof -
      have "of_nat (2 ^ 64 + E - ?B) = (of_nat (2 ^ 64 + E) :: u64) - of_nat ?B"
        using unat_u64_less [of "g_base s"] by (intro of_nat_diff) simp
      also have "\<dots> = reserve_stop s pa bytes - g_base s" unfolding sp [symmetric] by simp
      finally show ?thesis using unat_of_nat_u64 [of "2 ^ 64 + E - ?B"] b by simp
    qed
    then show ?thesis using room unfolding m_def by (simp add: drop_bit_eq_div unat_div)
  qed
  then have "[0..<m] = [0..<?t] @ [?t..<m]" by (metis le_add_diff_inverse upt_add_eq_append zero_le)
  ultimately have "pmm_reserve_range s pa bytes = fold reserve_one [?t..<m] (fold reserve_one [0..<?t] s)" by simp
  moreover have "free_set (fold reserve_one [0..<?t] s) = {}"
  proof -
    have "free_set s \<subseteq> {0..<?t}" by (auto simp: free_set_def)
    moreover have "free_set (fold reserve_one [0..<?t] s) = free_set s - set [0..<?t]"
      using reserve_fold [OF inv, of "[0..<?t]"] by simp
    ultimately show ?thesis by auto
  qed
  ultimately show ?thesis using reserve_fold_mono [of "[?t..<m]" "fold reserve_one [0..<?t] s"] by simp
qed

theorem reserve_below_pool_exhausts_witness:
  "let s0 = pmm_init 0x40000000 0x8000
   in pmm_free_count s0 = 7 \<and> free_set (pmm_reserve_range s0 0x1000 0x1000) = {}"
proof -
  let ?s0 = "pmm_init 0x40000000 0x8000"
  have "pmm_reach ?s0 [] {}" by (rule pmm_reach.init) simp
  moreover have "g_base ?s0 = 0x40000000" "g_total ?s0 = 8" "pmm_free_count ?s0 = 7" by code_simp+
  ultimately show ?thesis using reserve_below_pool_exhausts [where s = ?s0 and pa = "0x1000" and bytes = "0x1000"] by simp
qed

end
