(* ===== verification/Nx_Kheap.thy ===== *)
theory Nx_Kheap
  imports Nx_Pmm
begin

text \<open>
  The kernel heap (\<^verbatim>\<open>core/lib/kheap.c\<close>) on top of the page allocator: requests of up to 256 bytes are carved out of
  the current slab page and never come back, larger ones take whole pages that a side list remembers for \<^verbatim>\<open>free\<close>.
  The side list is the list of its headers; a header's own storage is a slab allocation, made where the code makes
  it. Memory contents are not part of the state, so the clearing by \<^verbatim>\<open>calloc\<close> is left out.
\<close>

section \<open>State and operations\<close>

abbreviation (input) KHEAP_SLAB_MAX :: u64 where "KHEAP_SLAB_MAX \<equiv> 256"
abbreviation (input) SIZEOF_LARGE_HDR :: u64 where "SIZEOF_LARGE_HDR \<equiv> 24"

record large_hdr =
  lh_ptr :: ptr
  n_pages :: u64

record kheap_state =
  kh_pmm :: pmm_state
  g_slab_next :: u64
  g_slab_end :: u64
  g_bytes_allocated :: u64
  g_large_list :: "large_hdr list"

definition align_up :: "u64 \<Rightarrow> u64 \<Rightarrow> u64" where
  "align_up n a = (n + a - 1) AND NOT (a - 1)"

definition slab_alloc :: "kheap_state \<Rightarrow> u64 \<Rightarrow> kheap_state \<times> ptr" where
  "slab_alloc k need =
     (if g_slab_next k + need > g_slab_end k then
        case pmm_alloc_page (kh_pmm k) of (s, p) \<Rightarrow>
          if p = NULL then (k\<lparr>kh_pmm := s\<rparr>, NULL)
          else (k\<lparr>kh_pmm := s, g_slab_next := p + need, g_slab_end := p + PMM_PAGE_SIZE,
                  g_bytes_allocated := g_bytes_allocated k + need\<rparr>, p)
      else (k\<lparr>g_slab_next := g_slab_next k + need, g_bytes_allocated := g_bytes_allocated k + need\<rparr>, g_slab_next k))"

primrec large_find_and_unlink :: "large_hdr list \<Rightarrow> ptr \<Rightarrow> large_hdr list \<times> large_hdr option" where
  "large_find_and_unlink [] p = ([], None)"
| "large_find_and_unlink (h # hs) p =
     (if lh_ptr h = p then (hs, Some h)
      else case large_find_and_unlink hs p of (hs', hit) \<Rightarrow> (h # hs', hit))"

definition malloc :: "kheap_state \<Rightarrow> u64 \<Rightarrow> kheap_state \<times> ptr" where
  "malloc k n =
     (if n = 0 then (k, NULL)
      else let need = align_up n 16 in
        if need \<le> KHEAP_SLAB_MAX then slab_alloc k need
        else let pages = (need + PMM_PAGE_SIZE - 1) div PMM_PAGE_SIZE in
          case pmm_alloc_pages (kh_pmm k) (unat pages) of (s, region) \<Rightarrow>
            if region = NULL then (k\<lparr>kh_pmm := s\<rparr>, NULL)
            else case slab_alloc (k\<lparr>kh_pmm := s\<rparr>) (align_up SIZEOF_LARGE_HDR 16) of (k1, hdr) \<Rightarrow>
              if hdr = NULL
              then (k1\<lparr>kh_pmm := pmm_free_pages (kh_pmm k1) region (unat pages)\<rparr>, NULL)
              else (k1\<lparr>g_large_list := \<lparr>lh_ptr = region, n_pages = pages\<rparr> # g_large_list k1,
                       g_bytes_allocated := g_bytes_allocated k1 + pages * PMM_PAGE_SIZE\<rparr>, region))"

definition calloc :: "kheap_state \<Rightarrow> u64 \<Rightarrow> u64 \<Rightarrow> kheap_state \<times> ptr" where
  "calloc k cnt sz = (if cnt \<noteq> 0 \<and> sz > (- 1) div cnt then (k, NULL) else malloc k (cnt * sz))"

definition free :: "kheap_state \<Rightarrow> ptr \<Rightarrow> kheap_state" where
  "free k p =
     (if p = NULL then k
      else case large_find_and_unlink (g_large_list k) p of
        (hs, Some hit) \<Rightarrow>
          k\<lparr>g_large_list := hs, g_bytes_allocated := g_bytes_allocated k - n_pages hit * PMM_PAGE_SIZE,
            kh_pmm := pmm_free_pages (kh_pmm k) (lh_ptr hit) (unat (n_pages hit))\<rparr>
      | (hs, None) \<Rightarrow> k)"

definition kheap_bytes_allocated :: "kheap_state \<Rightarrow> u64" where
  "kheap_bytes_allocated k = g_bytes_allocated k"

text \<open>The zero-initialised heap over a page allocator.\<close>

definition kheap_boot :: "pmm_state \<Rightarrow> kheap_state" where
  "kheap_boot s = \<lparr>kh_pmm = s, g_slab_next = NULL, g_slab_end = NULL, g_bytes_allocated = 0, g_large_list = []\<rparr>"

section \<open>Blocks as byte ranges\<close>

definition rng :: "u64 \<times> nat \<Rightarrow> nat set" where
  "rng b = {unat (fst b)..<unat (fst b) + snd b}"

definition page_rng :: "u64 \<times> nat \<Rightarrow> nat set" where
  "page_rng b = {unat (fst b)..<unat (fst b) + snd b * 4096}"

definition disjoint_blocks :: "(u64 \<times> nat) list \<Rightarrow> bool" where
  "disjoint_blocks = sorted_wrt (\<lambda>x y. rng x \<inter> rng y = {})"

definition hdr_block :: "large_hdr \<Rightarrow> u64 \<times> nat" where
  "hdr_block h = (lh_ptr h, unat (n_pages h))"

lemma history_perm: "mset L = mset L' \<Longrightarrow> history_inv s L R \<Longrightarrow> history_inv s L' R"
proof -
  assume m: "mset L = mset L'" and h: "history_inv s L R"
  have "mset (held_pages s L) = sum_mset (image_mset (\<lambda>(a, n). mset [index_of s a..<index_of s a + n]) (mset L))" for L
    unfolding held_pages_def by (induction L) auto
  then have e: "mset (held_pages s L) = mset (held_pages s L')" using m by simp
  show ?thesis using h mset_eq_imp_distinct_iff [OF e] mset_eq_setD [OF e] mset_eq_setD [OF m]
    unfolding history_inv_def by simp
qed

lemma page_block:
  assumes "history_inv s L R" "(a, n) \<in> set L"
  shows "0 < n" "4096 dvd unat a" "a \<noteq> NULL" "unat a + n * 4096 \<le> unat (g_base s) + g_total s * 4096"
    and "unat a = unat (g_base s) + index_of s a * 4096"
proof -
  have inv: "pmm_inv s" using assms(1) by (simp add: history_inv_def)
  obtain i where i: "0 < n" "a = pmm_page_addr s i" "g_reserved s \<le> i" "i + n \<le> g_total s"
    using assms unfolding history_inv_def by blast
  have u: "unat a = unat (g_base s) + i * 4096" unfolding i(2) using i by (intro unat_pmm_page_addr [OF inv]) simp
  have "index_of s a = i" unfolding i(2) using i by (intro index_of_page_addr [OF inv]) simp
  then show "unat a = unat (g_base s) + index_of s a * 4096" using u by simp
  have "(i + n) * 4096 \<le> g_total s * 4096" using i(4) by (rule mult_le_mono1)
  then show "unat a + n * 4096 \<le> unat (g_base s) + g_total s * 4096" using u by (simp add: add_mult_distrib)
  have "4096 dvd unat (g_base s)" using inv by (simp add: pmm_inv_def)
  then show "4096 dvd unat a" unfolding u by simp
  show "0 < n" by (rule i(1))
  show "a \<noteq> NULL" unfolding i(2) using i by (intro page_addr_not_NULL [OF inv]) auto
qed

lemma page_blocks_disjoint:
  assumes h: "history_inv s (x # L) R" and y: "y \<in> set L"
  shows "page_rng x \<inter> page_rng y = {}"
proof -
  obtain a n b m where xy: "x = (a, n)" "y = (b, m)" by (cases x; cases y)
  note px = page_block [OF h, of a n] and py = page_block [OF h, of b m]
  have "distinct (held_pages s (x # L))" using h by (simp add: history_inv_def)
  then have "{index_of s a..<index_of s a + n} \<inter> set (held_pages s L) = {}" unfolding xy held_pages_Cons by auto
  moreover have "{index_of s b..<index_of s b + m} \<subseteq> set (held_pages s L)" using y xy by (force simp: held_pages_def)
  ultimately have d: "{index_of s a..<index_of s a + n} \<inter> {index_of s b..<index_of s b + m} = {}" by blast
  have "0 < n" "0 < m" using px py xy y by auto
  then have "index_of s a + n \<le> index_of s b \<or> index_of s b + m \<le> index_of s a"
    using d by (auto simp: disjoint_iff)
  then have "unat a + n * 4096 \<le> unat b \<or> unat b + m * 4096 \<le> unat a"
    using px(5) py(5) xy y by auto
  then show ?thesis unfolding xy page_rng_def by auto
qed

section \<open>Invariant\<close>

text \<open>
  \<open>SP\<close> are the slab pages, the current one first. A live block is in a slab page, below the carving point if that is
  the current page, or at the start of a region of the side list.
\<close>

definition slab_ok :: "kheap_state \<Rightarrow> u64 list \<Rightarrow> bool" where
  "slab_ok k SP \<longleftrightarrow> (if SP = [] then g_slab_next k = 0 \<and> g_slab_end k = 0
     else unat (g_slab_end k) = unat (hd SP) + 4096 \<and> unat (hd SP) \<le> unat (g_slab_next k) \<and>
       unat (g_slab_next k) \<le> unat (g_slab_end k) \<and> 16 dvd unat (g_slab_next k))"

definition small_block :: "kheap_state \<Rightarrow> u64 list \<Rightarrow> u64 \<times> nat \<Rightarrow> bool" where
  "small_block k SP b \<longleftrightarrow> (\<exists>q \<in> set SP. rng b \<subseteq> page_rng (q, 1) \<and>
     (q = hd SP \<longrightarrow> unat (fst b) + snd b \<le> unat (g_slab_next k)))"

definition large_block :: "kheap_state \<Rightarrow> u64 \<times> nat \<Rightarrow> bool" where
  "large_block k b \<longleftrightarrow> (\<exists>h \<in> set (g_large_list k). lh_ptr h = fst b \<and> snd b \<le> unat (n_pages h) * 4096)"

definition page_blocks :: "kheap_state \<Rightarrow> u64 list \<Rightarrow> (u64 \<times> nat) list \<Rightarrow> (u64 \<times> nat) list" where
  "page_blocks k SP X = map (\<lambda>q. (q, 1)) SP @ map hdr_block (g_large_list k) @ X"

definition kinv :: "kheap_state \<Rightarrow> (u64 \<times> nat) list \<Rightarrow> (u64 \<times> nat) list \<Rightarrow> u64 list \<Rightarrow> nat set \<Rightarrow> bool" where
  "kinv k B X SP R \<longleftrightarrow> history_inv (kh_pmm k) (page_blocks k SP X) R \<and>
     unat (g_base (kh_pmm k)) + g_total (kh_pmm k) * 4096 < 2 ^ 64 \<and> slab_ok k SP \<and> disjoint_blocks B \<and>
     (\<forall>b \<in> set B. 0 < snd b \<and> 16 dvd unat (fst b) \<and> (small_block k SP b \<or> large_block k b))"

lemma rng_page: "n \<le> m * 4096 \<Longrightarrow> rng (a, n) \<subseteq> page_rng (a, m)"
  by (auto simp: rng_def page_rng_def)

text \<open>Every live block lies in one of the heap's page blocks.\<close>

lemma block_in_pages:
  assumes "small_block k SP b \<or> large_block k b"
  shows "\<exists>x \<in> set (page_blocks k SP X). rng b \<subseteq> page_rng x"
  using assms
proof
  assume "small_block k SP b"
  then show ?thesis by (auto simp: small_block_def page_blocks_def)
next
  assume "large_block k b"
  then obtain h where h: "h \<in> set (g_large_list k)" "lh_ptr h = fst b" "snd b \<le> unat (n_pages h) * 4096"
    by (auto simp: large_block_def)
  then have "rng b \<subseteq> page_rng (hdr_block h)" using rng_page [of "snd b" "unat (n_pages h)" "fst b"] by (simp add: hdr_block_def)
  then show ?thesis using h(1) by (auto simp: page_blocks_def)
qed

lemma fresh_pages_disjoint:
  assumes "history_inv s (x # page_blocks k SP X) R" "small_block k SP b \<or> large_block k b" "rng c \<subseteq> page_rng x"
  shows "rng c \<inter> rng b = {}"
  using block_in_pages [OF assms(2), of X] page_blocks_disjoint [OF assms(1)] assms(3) by blast

lemma kinv_drop: "kinv k (b # B) X SP R \<Longrightarrow> kinv k B X SP R"
  by (simp add: kinv_def disjoint_blocks_def)

lemma kinv_fields: "kinv (k\<lparr>g_bytes_allocated := v\<rparr>) B X SP R \<longleftrightarrow> kinv k B X SP R"
  by (simp add: kinv_def page_blocks_def slab_ok_def small_block_def large_block_def)

lemma alloc_frame:
  assumes "history_inv s L R" "pmm_alloc_pages s n = (s', a)"
  shows "g_base s' = g_base s \<and> g_total s' = g_total s"
proof -
  have "pmm_inv s" using assms(1) by (simp add: history_inv_def)
  from pmm_alloc_pages_spec [OF this assms(2)] show ?thesis by (auto simp: took_def split: if_splits)
qed

lemma pmm_alloc_page_as_pages: "pmm_alloc_page s = pmm_alloc_pages s 1"
  by (simp add: pmm_alloc_pages_def)

section \<open>Operations keep the invariant\<close>

lemma block_cases:
  assumes "small_block k SP b \<or> large_block k b" "SP = q # SP'"
  shows "unat (fst b) + snd b \<le> unat (g_slab_next k) \<or> (\<exists>x \<in> set (page_blocks k SP' X). rng b \<subseteq> page_rng x)"
proof (cases "small_block k SP b")
  case True
  then show ?thesis using assms(2) by (auto simp: small_block_def page_blocks_def)
next
  case False
  then show ?thesis using assms(1) block_in_pages [of k SP' b X] by auto
qed

lemma slab_bump:
  assumes inv: "kinv k B X SP R" and SP: "SP \<noteq> []" and need: "16 dvd unat need" "unat need < 4096"
    and fit: "\<not> g_slab_next k + need > g_slab_end k" and m: "0 < m" "m \<le> unat need"
  shows "kinv (k\<lparr>g_slab_next := g_slab_next k + need\<rparr>) ((g_slab_next k, m) # B) X SP R \<and> g_slab_next k \<noteq> NULL"
proof -
  let ?k = "k\<lparr>g_slab_next := g_slab_next k + need\<rparr>"
  have sl: "unat (g_slab_end k) = unat (hd SP) + 4096" "unat (hd SP) \<le> unat (g_slab_next k)"
    "unat (g_slab_next k) \<le> unat (g_slab_end k)" "16 dvd unat (g_slab_next k)"
    using inv SP by (auto simp: kinv_def slab_ok_def)
  have h: "history_inv (kh_pmm k) (page_blocks k SP X) R" using inv by (simp add: kinv_def)
  have mem: "(hd SP, 1) \<in> set (page_blocks k SP X)" using SP by (auto simp: page_blocks_def)
  note pb = page_block [OF h mem]
  have "unat (hd SP) + 4096 < 2 ^ 64" using pb(4) inv by (simp add: kinv_def)
  moreover have "4096 dvd unat (hd SP) + 4096" using pb(2) by simp
  ultimately have "unat (hd SP) + 8192 \<le> 2 ^ 64" by (auto elim!: dvdE)
  then have "unat (g_slab_next k) + unat need < 2 ^ 64" using sl need by linarith
  then have nx: "unat (g_slab_next k + need) = unat (g_slab_next k) + unat need"
    by (subst unat_add_lem [THEN iffD1]) auto
  then have ft: "unat (g_slab_next k) + unat need \<le> unat (hd SP) + 4096"
    using fit sl(1) by (simp add: word_less_nat_alt)
  have mine: "rng (g_slab_next k, m) \<subseteq> page_rng (hd SP, 1)" using ft sl m by (auto simp: rng_def page_rng_def)
  have small: "small_block ?k SP (g_slab_next k, m)"
    unfolding small_block_def using SP m nx mine by (intro bexI [of _ "hd SP"]) simp_all
  have old: "small_block ?k SP b \<or> large_block ?k b" if "b \<in> set B" for b
    using inv that unfolding kinv_def small_block_def large_block_def by (fastforce simp: nx)
  have disj: "rng (g_slab_next k, m) \<inter> rng b = {}" if b: "b \<in> set B" for b
  proof -
    obtain q SP' where SP': "SP = q # SP'" using SP by (cases SP) simp_all
    have h': "history_inv (kh_pmm k) ((q, 1) # page_blocks k SP' X) R" using h by (simp add: SP' page_blocks_def)
    have "small_block k SP b \<or> large_block k b" using inv b by (simp add: kinv_def)
    from block_cases [OF this SP'] show ?thesis
    proof
      assume "unat (fst b) + snd b \<le> unat (g_slab_next k)"
      then show ?thesis by (auto simp: rng_def)
    next
      assume "\<exists>x \<in> set (page_blocks k SP' X). rng b \<subseteq> page_rng x"
      then show ?thesis using page_blocks_disjoint [OF h'] mine SP' by fastforce
    qed
  qed
  have "slab_ok ?k SP" using SP sl ft nx need by (simp add: slab_ok_def)
  moreover have "page_blocks ?k SP X = page_blocks k SP X" by (simp add: page_blocks_def)
  ultimately have "kinv ?k ((g_slab_next k, m) # B) X SP R"
    using inv small old disj sl m unfolding kinv_def disjoint_blocks_def by simp
  moreover have "unat (hd SP) \<noteq> 0" using pb(3) by (simp add: unat_eq_0)
  ultimately show ?thesis using sl(2) by auto
qed

lemma slab_refill:
  assumes inv: "kinv k B X SP R" and al: "pmm_alloc_page (kh_pmm k) = (s, p)" "p \<noteq> NULL"
  shows "kinv (k\<lparr>kh_pmm := s, g_slab_next := p, g_slab_end := p + PMM_PAGE_SIZE\<rparr>) B X (p # SP) R"
proof -
  let ?k = "k\<lparr>kh_pmm := s, g_slab_next := p, g_slab_end := p + PMM_PAGE_SIZE\<rparr>"
  have h: "history_inv (kh_pmm k) (page_blocks k SP X) R" using inv by (simp add: kinv_def)
  have al': "pmm_alloc_pages (kh_pmm k) 1 = (s, p)" using al(1) by (simp only: pmm_alloc_page_as_pages)
  have h': "history_inv s ((p, 1) # page_blocks k SP X) R" using history_alloc [OF h al'] al(2) by simp
  note fr = alloc_frame [OF h al'] and pb = page_block [OF h', of p 1, simplified]
  have "unat p + 4096 < 2 ^ 64" using pb(4) fr inv by (simp add: kinv_def)
  then have e: "unat (p + PMM_PAGE_SIZE) = unat p + 4096" by (subst unat_add_lem [THEN iffD1]) auto
  have "small_block ?k (p # SP) b \<or> large_block ?k b" if "b \<in> set B" for b
  proof -
    have ok: "small_block k SP b \<or> large_block k b" and pos: "0 < snd b" using inv that by (simp_all add: kinv_def)
    have "rng b \<noteq> {}" using pos by (simp add: rng_def)
    moreover have "page_rng (p, 1) \<inter> page_rng (q, 1) = {}" if "q \<in> set SP" for q
      using that by (intro page_blocks_disjoint [OF h']) (auto simp: page_blocks_def)
    ultimately show ?thesis using ok unfolding small_block_def large_block_def by fastforce
  qed
  moreover have "page_blocks ?k (p # SP) X = (p, 1) # page_blocks k SP X" by (simp add: page_blocks_def)
  moreover have "slab_ok ?k (p # SP)" using e pb(2) by (auto simp: slab_ok_def elim: dvd_trans [rotated])
  ultimately show ?thesis using inv h' fr unfolding kinv_def by simp
qed

lemma failed_alloc_same:
  assumes "history_inv s L R" "pmm_alloc_pages s n = (s', NULL)"
  shows "s' = s"
proof -
  have inv: "pmm_inv s" using assms(1) by (simp add: history_inv_def)
  have "pmm_page_addr s i \<noteq> NULL" if "free_run s i n" "0 < n" for i
    using free_run_bounds [OF that] that(2) by (intro page_addr_not_NULL [OF inv]) auto
  then show ?thesis using pmm_alloc_pages_spec [OF inv assms(2)] by (metis (no_types, lifting))
qed

lemma slab_alloc_keeps:
  assumes inv: "kinv k B X SP R" and al: "slab_alloc k need = (k', p)"
    and need: "16 dvd unat need" "0 < unat need" "unat need < 4096" and m: "0 < m" "m \<le> unat need"
  shows "if p = NULL then k' = k else (\<exists>SP'. kinv k' ((p, m) # B) X SP' R) \<and> g_large_list k' = g_large_list k"
proof (cases "g_slab_next k + need > g_slab_end k")
  case True
  obtain s q where pa: "pmm_alloc_page (kh_pmm k) = (s, q)" by (cases "pmm_alloc_page (kh_pmm k)")
  show ?thesis
  proof (cases "q = NULL")
    case q: True
    have "history_inv (kh_pmm k) (page_blocks k SP X) R" using inv by (simp add: kinv_def)
    then have "s = kh_pmm k" using pa q by (intro failed_alloc_same) (simp_all only: pmm_alloc_page_as_pages)
    then show ?thesis using al True pa q by (auto simp: slab_alloc_def)
  next
    case False
    let ?k = "k\<lparr>kh_pmm := s, g_slab_next := q, g_slab_end := q + PMM_PAGE_SIZE\<rparr>"
    have inv': "kinv ?k B X (q # SP) R" by (rule slab_refill [OF inv pa False])
    then have e: "unat (q + PMM_PAGE_SIZE) = unat q + 4096" by (simp add: kinv_def slab_ok_def)
    then have "unat q + 4096 < 2 ^ 64" using unat_u64_less [of "q + PMM_PAGE_SIZE"] by simp
    then have "unat (q + need) = unat q + unat need" using need by (subst unat_add_lem [THEN iffD1]) auto
    then have "\<not> g_slab_next ?k + need > g_slab_end ?k" using e need by (simp add: word_less_nat_alt)
    from slab_bump [OF inv' _ need(1,3) this m]
    have "kinv (?k\<lparr>g_slab_next := q + need, g_bytes_allocated := g_bytes_allocated k + need\<rparr>) ((q, m) # B) X (q # SP) R"
      using kinv_fields by simp
    moreover have "k' = ?k\<lparr>g_slab_next := q + need, g_bytes_allocated := g_bytes_allocated k + need\<rparr>" "p = q"
      using al True pa False by (auto simp: slab_alloc_def)
    ultimately show ?thesis using False by auto
  qed
next
  case False
  have "SP \<noteq> []" using inv False need by (auto simp: kinv_def slab_ok_def word_less_nat_alt)
  from slab_bump [OF inv this need(1,3) False m] show ?thesis
    using al False kinv_fields [where k = "k\<lparr>g_slab_next := g_slab_next k + need\<rparr>"] by (auto simp: slab_alloc_def)
qed

lemma kinv_pmm:
  assumes "kinv k B X SP R" "history_inv s (page_blocks k SP Y) R" "g_base s = g_base (kh_pmm k)" "g_total s = g_total (kh_pmm k)"
  shows "kinv (k\<lparr>kh_pmm := s\<rparr>) B Y SP R"
proof -
  have "slab_ok (k\<lparr>kh_pmm := s\<rparr>) SP = slab_ok k SP" "small_block (k\<lparr>kh_pmm := s\<rparr>) SP b = small_block k SP b"
    "large_block (k\<lparr>kh_pmm := s\<rparr>) b = large_block k b" "page_blocks (k\<lparr>kh_pmm := s\<rparr>) SP Y = page_blocks k SP Y" for b
    by (simp_all add: slab_ok_def small_block_def large_block_def page_blocks_def)
  then show ?thesis using assms unfolding kinv_def by simp
qed

lemma kinv_other_alloc:
  assumes inv: "kinv k B X SP R" and al: "pmm_alloc_pages (kh_pmm k) n = (s, a)"
  shows "kinv (k\<lparr>kh_pmm := s\<rparr>) B (if a = NULL then X else (a, n) # X) SP R"
proof -
  let ?X = "if a = NULL then X else (a, n) # X"
  have h: "history_inv (kh_pmm k) (page_blocks k SP X) R" using inv by (simp add: kinv_def)
  have "history_inv s (page_blocks k SP ?X) R"
    by (rule history_perm [OF _ history_alloc [OF h al]]) (simp add: page_blocks_def)
  then show ?thesis using alloc_frame [OF h al] by (intro kinv_pmm [OF inv]) simp_all
qed

lemma kinv_other_free:
  assumes inv: "kinv k B X SP R" and mem: "(a, n) \<in> set X"
  shows "kinv (k\<lparr>kh_pmm := pmm_free_pages (kh_pmm k) a n\<rparr>) B (remove1 (a, n) X) SP R"
proof -
  let ?s = "pmm_free_pages (kh_pmm k) a n"
  have h: "history_inv (kh_pmm k) (page_blocks k SP X) R" using inv by (simp add: kinv_def)
  have mem': "(a, n) \<in> set (page_blocks k SP X)" using mem by (simp add: page_blocks_def)
  have "history_inv ?s (page_blocks k SP (remove1 (a, n) X)) R"
    by (rule history_perm [OF _ history_free [OF h mem']]) (use mem in \<open>simp add: page_blocks_def\<close>)
  then show ?thesis by (intro kinv_pmm [OF inv]) (simp_all add: pmm_free_pages_def Let_def)
qed

text \<open>A page block of another client becomes a region of the side list.\<close>

lemma kinv_adopt:
  assumes inv: "kinv k B ((a, unat pg) # X) SP R" and n: "0 < n" "n \<le> unat pg * 4096"
  shows "kinv (k\<lparr>g_large_list := \<lparr>lh_ptr = a, n_pages = pg\<rparr> # g_large_list k\<rparr>) ((a, n) # B) X SP R"
proof -
  let ?k = "k\<lparr>g_large_list := \<lparr>lh_ptr = a, n_pages = pg\<rparr> # g_large_list k\<rparr>"
  have h: "history_inv (kh_pmm k) (page_blocks k SP ((a, unat pg) # X)) R" using inv by (simp add: kinv_def)
  have h1: "history_inv (kh_pmm k) ((a, unat pg) # page_blocks k SP X) R"
    by (rule history_perm [OF _ h]) (simp add: page_blocks_def)
  have h2: "history_inv (kh_pmm k) (page_blocks ?k SP X) R"
    by (rule history_perm [OF _ h]) (simp add: page_blocks_def hdr_block_def)
  have "rng (a, n) \<inter> rng b = {}" if "b \<in> set B" for b
    using inv that n by (intro fresh_pages_disjoint [OF h1]) (simp_all add: kinv_def rng_page)
  moreover have "16 dvd unat a" using page_block(2) [OF h1, of a "unat pg"] by (auto elim: dvd_trans [rotated])
  moreover have "small_block ?k SP b \<or> large_block ?k b" if "b \<in> set B" for b
    using inv that by (auto simp: kinv_def small_block_def large_block_def)
  ultimately show ?thesis using inv h2 n
    by (auto simp: kinv_def disjoint_blocks_def slab_ok_def large_block_def)
qed

lemma unat_align_up:
  assumes "unat n + 15 < 2 ^ 64"
  shows "unat (align_up n 16) = unat n + 15 - (unat n + 15) mod 16"
proof -
  have "align_up n 16 = (n + 15) AND NOT (mask 4)" by (simp add: align_up_def mask_eq_exp_minus_1 add.commute)
  moreover have "unat (n + 15) = unat n + 15" using assms by (subst unat_add_lem [THEN iffD1]) auto
  ultimately show ?thesis using unat_and_not_mask [of "n + 15" 4] by simp
qed

lemma align_up_bounds:
  assumes "unat n + 15 < 2 ^ 64"
  shows "16 dvd unat (align_up n 16)" "unat n \<le> unat (align_up n 16)"
  unfolding unat_align_up [OF assms] by (simp, use mod_less_divisor [of 16 "unat n + 15"] in simp)

text \<open>The page count covers the request, or wraps to zero.\<close>

lemma page_count:
  fixes need :: u64
  defines "pages \<equiv> (need + PMM_PAGE_SIZE - 1) div PMM_PAGE_SIZE"
  shows "pages = 0 \<or> unat need \<le> unat pages * 4096"
proof -
  have "pages = (need + 4095) div 4096" by (simp add: pages_def add.commute)
  then have p: "unat pages = unat (need + 4095) div 4096" by (simp only: unat_div) simp
  show ?thesis
  proof (cases "unat need + 4095 < 2 ^ 64")
    case True
    then have "unat (need + 4095) = unat need + 4095" by (subst unat_add_lem [THEN iffD1]) auto
    then show ?thesis unfolding p
      using div_mult_mod_eq [of "unat need + 4095" 4096] mod_less_divisor [of 4096 "unat need + 4095"] by linarith
  next
    case False
    then have "(unat need + 4095) mod 2 ^ 64 = unat need + 4095 - 2 ^ 64"
      using unat_u64_less [of need] by (subst le_mod_geq) simp_all
    then have "unat (need + 4095) < 4096"
      using unat_u64_less [of need] False by (simp add: unat_word_ariths(1))
    then have "unat pages = 0" unfolding p by simp
    then show ?thesis by (simp add: unat_eq_0)
  qed
qed

lemma malloc_keeps:
  assumes inv: "kinv k B X SP R" and n: "unat n + 15 < 2 ^ 64" and ml: "malloc k n = (k', p)"
  shows "\<exists>SP'. kinv k' (if p = NULL then B else (p, unat n) # B) X SP' R"
proof -
  define need where "need = align_up n 16"
  note nb = align_up_bounds [OF n, folded need_def]
  consider (zero) "n = 0" | (small) "n \<noteq> 0" "need \<le> 256" | (large) "n \<noteq> 0" "\<not> need \<le> 256" by blast
  then show ?thesis
  proof cases
    case zero
    then show ?thesis using ml inv by (auto simp: malloc_def)
  next
    case small
    have "slab_alloc k need = (k', p)" using ml small by (simp add: malloc_def need_def Let_def)
    moreover have "0 < unat n" using small(1) by (simp add: unat_gt_0)
    moreover have "unat need < 4096" using small(2) by (simp add: word_le_nat_alt)
    ultimately show ?thesis using slab_alloc_keeps [OF inv, of need k' p "unat n"] nb inv by (auto split: if_splits)
  next
    case large
    define pages where "pages = (need + PMM_PAGE_SIZE - 1) div PMM_PAGE_SIZE"
    obtain s a where al: "pmm_alloc_pages (kh_pmm k) (unat pages) = (s, a)" by (cases "pmm_alloc_pages (kh_pmm k) (unat pages)")
    note inv1 = kinv_other_alloc [OF inv al]
    have ml': "malloc k n = (if a = NULL then (k\<lparr>kh_pmm := s\<rparr>, NULL)
        else case slab_alloc (k\<lparr>kh_pmm := s\<rparr>) (align_up SIZEOF_LARGE_HDR 16) of (k1, hdr) \<Rightarrow>
          if hdr = NULL then (k1\<lparr>kh_pmm := pmm_free_pages (kh_pmm k1) a (unat pages)\<rparr>, NULL)
          else (k1\<lparr>g_large_list := \<lparr>lh_ptr = a, n_pages = pages\<rparr> # g_large_list k1,
                   g_bytes_allocated := g_bytes_allocated k1 + pages * PMM_PAGE_SIZE\<rparr>, a))"
      unfolding malloc_def Let_def need_def [symmetric] pages_def [symmetric] using large al by simp
    show ?thesis
    proof (cases "a = NULL")
      case True
      then show ?thesis using ml ml' inv1 by auto
    next
      case False
      then have inv1: "kinv (k\<lparr>kh_pmm := s\<rparr>) B ((a, unat pages) # X) SP R" using inv1 by simp
      have "pages \<noteq> 0" using al False by (auto simp: pmm_alloc_pages_def)
      then have sz: "unat n \<le> unat pages * 4096" using page_count [of need] nb(2) by (auto simp: pages_def)
      obtain k1 hdr where sa: "slab_alloc (k\<lparr>kh_pmm := s\<rparr>) (align_up SIZEOF_LARGE_HDR 16) = (k1, hdr)"
        by (cases "slab_alloc (k\<lparr>kh_pmm := s\<rparr>) (align_up SIZEOF_LARGE_HDR 16)")
      have "unat (align_up SIZEOF_LARGE_HDR 16) = 32" by (subst unat_align_up) simp_all
      then have st: "if hdr = NULL then k1 = k\<lparr>kh_pmm := s\<rparr>
          else (\<exists>SP'. kinv k1 ((hdr, 1) # B) ((a, unat pages) # X) SP' R) \<and> g_large_list k1 = g_large_list (k\<lparr>kh_pmm := s\<rparr>)"
        by (intro slab_alloc_keeps [OF inv1 sa]) simp_all
      show ?thesis
      proof (cases "hdr = NULL")
        case True
        then have "kinv (k1\<lparr>kh_pmm := pmm_free_pages (kh_pmm k1) a (unat pages)\<rparr>) B X SP R"
          using st kinv_other_free [OF inv1, of a "unat pages"] by simp
        then show ?thesis using ml ml' False sa True by auto
      next
        case hdr: False
        obtain SP' where "kinv k1 ((hdr, 1) # B) ((a, unat pages) # X) SP' R" using st hdr by auto
        from kinv_adopt [OF kinv_drop [OF this] _ sz]
        have "kinv (k1\<lparr>g_large_list := \<lparr>lh_ptr = a, n_pages = pages\<rparr> # g_large_list k1\<rparr>) ((a, unat n) # B) X SP' R"
          using large(1) by (simp add: unat_gt_0)
        then have "kinv (k1\<lparr>g_large_list := \<lparr>lh_ptr = a, n_pages = pages\<rparr> # g_large_list k1,
            g_bytes_allocated := g_bytes_allocated k1 + pages * PMM_PAGE_SIZE\<rparr>) ((a, unat n) # B) X SP' R"
          by (simp only: kinv_fields)
        then show ?thesis using ml ml' False sa hdr by auto
      qed
    qed
  qed
qed

lemma calloc_product:
  fixes cnt sz :: u64
  assumes "\<not> (cnt \<noteq> 0 \<and> sz > (- 1) div cnt)"
  shows "unat (cnt * sz) = unat cnt * unat sz"
proof (cases "cnt = 0")
  case False
  then have "unat sz \<le> unat (- 1 :: u64) div unat cnt"
    using assms by (simp add: word_less_nat_alt not_less unat_div)
  then have "unat sz * unat cnt \<le> unat (- 1 :: u64)"
    using False by (metis div_le_mono2 le_trans less_eq_div_iff_mult_less_eq unat_gt_0)
  then have "unat cnt * unat sz < 2 ^ 64" using unat_u64_less [of "- 1"] by (simp add: mult.commute)
  then show ?thesis by (simp add: unat_word_ariths(2))
qed simp

lemma large_find_and_unlink_spec:
  "large_find_and_unlink hs p = (hs', hit) \<Longrightarrow>
     (case hit of None \<Rightarrow> hs' = hs \<and> (\<forall>h \<in> set hs. lh_ptr h \<noteq> p) | Some h \<Rightarrow> lh_ptr h = p \<and> mset hs = add_mset h (mset hs'))"
  by (induction hs arbitrary: hs' hit) (auto split: if_splits prod.splits option.splits)

lemma disjoint_blocks_remove1:
  "disjoint_blocks B \<Longrightarrow> disjoint_blocks (remove1 x B) \<and> (x \<in> set B \<longrightarrow> (\<forall>y \<in> set (remove1 x B). rng x \<inter> rng y = {}))"
  unfolding disjoint_blocks_def by (induction B) (auto dest: notin_set_remove1 set_remove1_subset [THEN subsetD])

lemma free_keeps:
  assumes inv: "kinv k B X SP R" and mem: "(p, n) \<in> set B"
  shows "kinv (free k p) (remove1 (p, n) B) X SP R"
proof -
  let ?B = "remove1 (p, n) B"
  have dB: "disjoint_blocks ?B" "\<And>y. y \<in> set ?B \<Longrightarrow> rng (p, n) \<inter> rng y = {}"
    using disjoint_blocks_remove1 [of B "(p, n)"] inv mem by (auto simp: kinv_def)
  have sub: "set ?B \<subseteq> set B" by (rule set_remove1_subset)
  have n: "0 < n" using inv mem by (auto simp: kinv_def)
  obtain hs' hit where fu: "large_find_and_unlink (g_large_list k) p = (hs', hit)"
    by (cases "large_find_and_unlink (g_large_list k) p")
  show ?thesis
  proof (cases "p = NULL \<or> hit = None")
    case True
    then have "free k p = k" using fu by (auto simp: free_def)
    then show ?thesis using inv dB(1) sub unfolding kinv_def by auto
  next
    case False
    then obtain h where h: "hit = Some h" "lh_ptr h = p" "mset (g_large_list k) = add_mset h (mset hs')"
      using large_find_and_unlink_spec [OF fu] by auto
    let ?s = "pmm_free_pages (kh_pmm k) p (unat (n_pages h))" and ?k = "k\<lparr>g_large_list := hs'\<rparr>"
    have fr: "free k p = ?k\<lparr>kh_pmm := ?s, g_bytes_allocated := g_bytes_allocated k - n_pages h * PMM_PAGE_SIZE\<rparr>"
      using False fu h by (simp add: free_def)
    have hist: "history_inv (kh_pmm k) (page_blocks k SP X) R" using inv by (simp add: kinv_def)
    have "mset (page_blocks k SP X) = add_mset (hdr_block h) (mset (page_blocks ?k SP X))"
      using h(3) by (simp add: page_blocks_def)
    moreover from this have pm: "(p, unat (n_pages h)) \<in> set (page_blocks k SP X)"
      using h(2) by (metis hdr_block_def set_mset_mset union_single_eq_member)
    ultimately have "mset (remove1 (p, unat (n_pages h)) (page_blocks k SP X)) = mset (page_blocks ?k SP X)"
      using h(2) by (simp add: hdr_block_def)
    from history_perm [OF this history_free [OF hist pm]]
    have "history_inv ?s (page_blocks ?k SP X) R" .
    moreover have "g_base ?s = g_base (kh_pmm k)" "g_total ?s = g_total (kh_pmm k)"
      by (simp_all add: pmm_free_pages_def Let_def)
    moreover have "small_block (free k p) SP b \<or> large_block (free k p) b" if b: "b \<in> set ?B" for b
    proof -
      have "0 < snd b" "small_block k SP b \<or> large_block k b" using inv b sub by (auto simp: kinv_def)
      moreover have "fst b \<noteq> p" using dB(2) [OF b] n \<open>0 < snd b\<close> by (auto simp: rng_def disjoint_iff)
      moreover have "set (g_large_list k) = insert h (set hs')" using mset_eq_setD h(3) by (metis set_mset_add_mset_insert set_mset_mset)
      ultimately show ?thesis using h(2) by (auto simp: fr small_block_def large_block_def)
    qed
    moreover have "page_blocks (free k p) SP X = page_blocks ?k SP X" "slab_ok (free k p) SP = slab_ok k SP"
      by (simp_all add: fr page_blocks_def slab_ok_def)
    moreover have "kh_pmm (free k p) = ?s" by (simp add: fr)
    ultimately show ?thesis using inv dB(1) sub unfolding kinv_def by auto
  qed
qed

section \<open>Histories\<close>

text \<open>
  A run of the heap over a page allocator that other clients use too: \<open>B\<close> are the live heap blocks with the requested
  sizes, \<open>X\<close> the page blocks of the other clients. Requests within 15 bytes of the top of \<^verbatim>\<open>size_t\<close> are excluded.
\<close>

inductive kheap_reach :: "kheap_state \<Rightarrow> (u64 \<times> nat) list \<Rightarrow> (u64 \<times> nat) list \<Rightarrow> bool" where
  boot: "pmm_reach s X R \<Longrightarrow> unat (g_base s) + g_total s * 4096 < 2 ^ 64 \<Longrightarrow> kheap_reach (kheap_boot s) [] X"
| malloc: "kheap_reach k B X \<Longrightarrow> unat n + 15 < 2 ^ 64 \<Longrightarrow> malloc k n = (k', p) \<Longrightarrow>
    kheap_reach k' (if p = NULL then B else (p, unat n) # B) X"
| calloc: "kheap_reach k B X \<Longrightarrow> unat cnt * unat sz + 15 < 2 ^ 64 \<Longrightarrow> calloc k cnt sz = (k', p) \<Longrightarrow>
    kheap_reach k' (if p = NULL then B else (p, unat cnt * unat sz) # B) X"
| free: "kheap_reach k B X \<Longrightarrow> (p, n) \<in> set B \<Longrightarrow> kheap_reach (free k p) (remove1 (p, n) B) X"
| other_alloc: "kheap_reach k B X \<Longrightarrow> pmm_alloc_pages (kh_pmm k) n = (s, a) \<Longrightarrow>
    kheap_reach (k\<lparr>kh_pmm := s\<rparr>) B (if a = NULL then X else (a, n) # X)"
| other_free: "kheap_reach k B X \<Longrightarrow> (a, n) \<in> set X \<Longrightarrow>
    kheap_reach (k\<lparr>kh_pmm := pmm_free_pages (kh_pmm k) a n\<rparr>) B (remove1 (a, n) X)"

lemma kheap_reach_inv: "kheap_reach k B X \<Longrightarrow> \<exists>SP R. kinv k B X SP R"
proof (induction rule: kheap_reach.induct)
  case (boot s X R)
  then have "kinv (kheap_boot s) [] X [] R"
    using pmm_reach_inv by (simp add: kinv_def kheap_boot_def page_blocks_def slab_ok_def disjoint_blocks_def)
  then show ?case by blast
next
  case (malloc k B X n k' p)
  then show ?case using malloc_keeps by blast
next
  case (calloc k B X cnt sz k' p)
  obtain SP R where inv: "kinv k B X SP R" using calloc.IH by blast
  show ?case
  proof (cases "cnt \<noteq> 0 \<and> sz > (- 1) div cnt")
    case True
    then show ?thesis using calloc.hyps(3) inv by (auto simp: calloc_def)
  next
    case False
    have "malloc k (cnt * sz) = (k', p)" using calloc.hyps(3) unfolding calloc_def if_not_P [OF False] .
    from malloc_keeps [OF inv _ this] show ?thesis
      using calloc.hyps(2) unfolding calloc_product [OF False] by blast
  qed
next
  case (free k B X p n)
  then show ?case using free_keeps by blast
next
  case (other_alloc k B X n s a)
  then show ?case using kinv_other_alloc by blast
next
  case (other_free k B X a n)
  then show ?case using kinv_other_free by blast
qed

lemma heap_apart_from_others:
  assumes inv: "kinv k B X SP R" and b: "b \<in> set B" and x: "x \<in> set X"
  shows "rng b \<inter> page_rng x = {}"
proof -
  have "mset (page_blocks k SP X) = mset (x # page_blocks k SP (remove1 x X))"
    using x by (simp add: page_blocks_def)
  moreover have "history_inv (kh_pmm k) (page_blocks k SP X) R" using inv by (simp add: kinv_def)
  ultimately have h: "history_inv (kh_pmm k) (x # page_blocks k SP (remove1 x X)) R" by (rule history_perm)
  have "small_block k SP b \<or> large_block k b" using inv b by (simp add: kinv_def)
  from fresh_pages_disjoint [OF h this, of "(fst x, snd x * 4096)"] show ?thesis
    by (simp add: rng_def page_rng_def Int_commute)
qed

section \<open>Properties\<close>



text \<open>
  A request within 15 bytes of the top of \<^verbatim>\<open>size_t\<close> does not fail: the rounding wraps to zero, the heap does not
  change, and the caller gets the address that the next small request gets.\<close>

theorem malloc_wraps_to_zero:
  assumes "unat n + 15 \<ge> 2 ^ 64" and "kheap_reach k B X"
  shows "malloc k n = (k, g_slab_next k)"
proof -
  have "(unat n + 15) mod 2 ^ 64 = unat n + 15 - 2 ^ 64"
    using assms(1) unat_u64_less [of n] by (subst le_mod_geq) simp_all
  then have lt: "unat (n + 15) < 16" using unat_u64_less [of n] assms(1) by (simp add: unat_word_ariths(1))
  have "align_up n 16 = (n + 15) AND NOT (mask 4)" by (simp add: align_up_def mask_eq_exp_minus_1 add.commute)
  then have "unat (align_up n 16) = 0" using unat_and_not_mask [of "n + 15" 4] lt by simp
  then have "align_up n 16 = 0" by (simp add: unat_eq_0)
  moreover have "n \<noteq> 0" using assms(1) by auto
  moreover have "\<not> g_slab_end k < g_slab_next k"
    using kheap_reach_inv [OF assms(2)] by (auto simp: kinv_def slab_ok_def word_less_nat_alt split: if_splits)
  ultimately show ?thesis by (simp add: malloc_def Let_def slab_alloc_def)
qed

theorem malloc_wraps_to_zero_witness:
  "let k = fst (malloc (kheap_boot (pmm_init 0x40000000 0x8000)) 8)
   in malloc k 0xFFFFFFFFFFFFFFFF = (k, 0x40001010) \<and> snd (malloc k 16) = 0x40001010"
proof -
  let ?boot = "kheap_boot (pmm_init 0x40000000 0x8000)"
  let ?k = "fst (malloc ?boot 8)"
  have "g_base (pmm_init 0x40000000 0x8000) = 0x40000000" "g_total (pmm_init 0x40000000 0x8000) = 8" by code_simp+
  then have r0: "kheap_reach ?boot [] []" by (intro kheap_reach.boot [OF pmm_reach.init]) simp_all
  have "snd (malloc ?boot 8) = 0x40001000" by code_simp
  then have m: "malloc ?boot 8 = (?k, 0x40001000)" by (metis prod.collapse)
  have r: "kheap_reach ?k [(0x40001000, 8)] []" using kheap_reach.malloc [OF r0 _ m] by simp
  have "g_slab_next ?k = 0x40001010" "snd (malloc ?k 16) = 0x40001010" by code_simp+
  then show ?thesis using malloc_wraps_to_zero [OF _ r, of "0xFFFFFFFFFFFFFFFF"] by (simp add: Let_def)
qed

end
