(* ===== verification/Nx_Ramfs.thy ===== *)
theory Nx_Ramfs
  imports Nx_Prelude "HOL-Library.Code_Target_Nat"
begin

text \<open>
  The in-memory file system (\<^verbatim>\<open>components/ramfs/ramfs.c\<close>) with its initramfs loader, and the archive packer that
  produces what the loader reads (\<^verbatim>\<open>tools/pack-initramfs.py\<close>). Bytes are \<open>char\<close>; a C string is the list of its
  characters without the terminating zero. The file and open tables are lists of fixed length, a pointer into one
  is an index, and a file's data array is a function from offsets. Sizes and offsets are natural numbers: all of them
  stay below the 4 MiB capacity of a file or the length of the archive.
\<close>

section \<open>State\<close>

abbreviation (input) RAMFS_MAX_FILES :: nat where "RAMFS_MAX_FILES \<equiv> 32"
abbreviation (input) RAMFS_NAME_MAX :: nat where "RAMFS_NAME_MAX \<equiv> 32"
abbreviation (input) RAMFS_FILE_CAP :: nat where "RAMFS_FILE_CAP \<equiv> 4194304"
abbreviation (input) RAMFS_MAX_OPEN :: nat where "RAMFS_MAX_OPEN \<equiv> 128"
abbreviation (input) NX_FS_DIRENT_NAME_MAX :: nat where "NX_FS_DIRENT_NAME_MAX \<equiv> 64"

abbreviation (input) NX_FS_OPEN_READ :: u32 where "NX_FS_OPEN_READ \<equiv> 1"
abbreviation (input) NX_FS_OPEN_WRITE :: u32 where "NX_FS_OPEN_WRITE \<equiv> 2"
abbreviation (input) NX_FS_OPEN_CREATE :: u32 where "NX_FS_OPEN_CREATE \<equiv> 4"
abbreviation (input) NX_FS_OPEN_APPEND :: u32 where "NX_FS_OPEN_APPEND \<equiv> 8"

text \<open>The kinds of the driver and of the interface have the same numbers and share a type.\<close>

datatype fs_kind = KIND_FILE | KIND_DIR

record ramfs_file =
  rf_in_use :: bool
  rf_kind :: fs_kind
  rf_name :: string
  rf_data :: "nat \<Rightarrow> char"
  rf_size :: nat

record ramfs_open =
  ro_in_use :: bool
  ro_refs :: int
  ro_file :: "nat option"
  ro_flags :: u32
  ro_cursor :: nat

record ramfs_state =
  rs_files :: "ramfs_file list"
  rs_opens :: "ramfs_open list"
  rs_init_called :: u32
  rs_enable_called :: u32
  rs_disable_called :: u32
  rs_destroy_called :: u32

text \<open>\<^verbatim>\<open>strncmp(a, b, n) == 0\<close> on zero-terminated strings.\<close>

definition strn_eq :: "string \<Rightarrow> string \<Rightarrow> nat \<Rightarrow> bool" where
  "strn_eq a b n \<longleftrightarrow> take n a = take n b"

section \<open>File-table helpers\<close>

definition ramfs_find :: "ramfs_state \<Rightarrow> string \<Rightarrow> nat option" where
  "ramfs_find s path = find_idx (\<lambda>f. rf_in_use f \<and> strn_eq (rf_name f) path (RAMFS_NAME_MAX - 1)) (rs_files s)"

definition ramfs_create_entry :: "ramfs_state \<Rightarrow> string \<Rightarrow> fs_kind \<Rightarrow> ramfs_state \<times> nat option" where
  "ramfs_create_entry s path kind =
     (let plen = length path in
      if plen = 0 \<or> plen \<ge> RAMFS_NAME_MAX then (s, None)
      else case find_idx (\<lambda>f. \<not> rf_in_use f) (rs_files s) of
        None \<Rightarrow> (s, None)
      | Some i \<Rightarrow>
          (s\<lparr>rs_files := (rs_files s)[i := (rs_files s ! i)\<lparr>rf_in_use := True, rf_kind := kind, rf_name := path, rf_size := 0\<rparr>]\<rparr>,
           Some i))"

definition ramfs_create_file :: "ramfs_state \<Rightarrow> string \<Rightarrow> ramfs_state \<times> nat option" where
  "ramfs_create_file s path = ramfs_create_entry s path KIND_FILE"

definition ramfs_alloc_open :: "ramfs_state \<Rightarrow> ramfs_state \<times> nat option" where
  "ramfs_alloc_open s =
     (case find_idx (\<lambda>op. \<not> ro_in_use op) (rs_opens s) of
        None \<Rightarrow> (s, None)
      | Some i \<Rightarrow> (s\<lparr>rs_opens := (rs_opens s)[i := (rs_opens s ! i)\<lparr>ro_in_use := True\<rparr>]\<rparr>, Some i))"

text \<open>The loop of \<^verbatim>\<open>ramfs_classify\<close> over the remaining files; \<open>None\<close> is the result 0 (missing).\<close>

primrec classify_scan :: "ramfs_file list \<Rightarrow> string \<Rightarrow> bool \<Rightarrow> fs_kind option" where
  "classify_scan [] path has_child = (if has_child then Some KIND_DIR else None)"
| "classify_scan (f # fs) path has_child =
     (let plen = length path; name = rf_name f in
      if \<not> rf_in_use f \<or> \<not> strn_eq name path plen then classify_scan fs path has_child
      else if length name = plen then Some (if rf_kind f = KIND_DIR then KIND_DIR else KIND_FILE)
      else classify_scan fs path (has_child \<or> name ! plen = CHR ''/''))"

definition ramfs_classify :: "ramfs_state \<Rightarrow> string \<Rightarrow> fs_kind option" where
  "ramfs_classify s path = (if path = ''/'' then Some KIND_DIR else classify_scan (rs_files s) path False)"

section \<open>File operations\<close>

definition id_to_open :: "ramfs_state \<Rightarrow> nat \<Rightarrow> nat option" where
  "id_to_open s i =
     (if i = 0 \<or> i > RAMFS_MAX_OPEN then None else if ro_in_use (rs_opens s ! (i - 1)) then Some (i - 1) else None)"

definition open_to_id :: "nat \<Rightarrow> nat" where
  "open_to_id i = i + 1"

text \<open>A missing path pointer is \<open>None\<close>.\<close>

definition ramfs_op_open :: "ramfs_state \<Rightarrow> string option \<Rightarrow> u32 \<Rightarrow> ramfs_state \<times> nat" where
  "ramfs_op_open s path flags =
     (let known = NX_FS_OPEN_READ OR NX_FS_OPEN_WRITE OR NX_FS_OPEN_CREATE OR NX_FS_OPEN_APPEND in
      case path of None \<Rightarrow> (s, 0) | Some path \<Rightarrow>
        if path = [] then (s, 0)
        else if flags AND NOT known \<noteq> 0 then (s, 0)
        else
          let finish = (\<lambda>s file. case ramfs_alloc_open s of
                (s1, None) \<Rightarrow> (s1, 0)
              | (s1, Some i) \<Rightarrow>
                  (s1\<lparr>rs_opens := (rs_opens s1)[i := (rs_opens s1 ! i)\<lparr>ro_refs := 1, ro_file := Some file, ro_flags := flags,
                        ro_cursor := 0\<rparr>]\<rparr>, open_to_id i))
          in case ramfs_find s path of
               Some file \<Rightarrow> if rf_kind (rs_files s ! file) = KIND_DIR then (s, 0) else finish s file
             | None \<Rightarrow>
                 if flags AND NX_FS_OPEN_CREATE = 0 then (s, 0)
                 else case ramfs_create_file s path of (s1, None) \<Rightarrow> (s1, 0) | (s1, Some file) \<Rightarrow> finish s1 file)"

definition ramfs_op_close :: "ramfs_state \<Rightarrow> nat \<Rightarrow> ramfs_state" where
  "ramfs_op_close s i =
     (if i = 0 then s
      else case id_to_open s i of None \<Rightarrow> s
        | Some k \<Rightarrow>
            let op = rs_opens s ! k; op1 = (if ro_refs op > 0 then op\<lparr>ro_refs := ro_refs op - 1\<rparr> else op) in
            if ro_refs op > 0 \<and> ro_refs op1 > 0 then s\<lparr>rs_opens := (rs_opens s)[k := op1]\<rparr>
            else s\<lparr>rs_opens := (rs_opens s)[k := op1\<lparr>ro_in_use := False, ro_file := None, ro_flags := 0, ro_cursor := 0\<rparr>]\<rparr>)"

definition ramfs_op_retain :: "ramfs_state \<Rightarrow> nat \<Rightarrow> ramfs_state" where
  "ramfs_op_retain s i =
     (if i = 0 then s
      else case id_to_open s i of None \<Rightarrow> s
        | Some k \<Rightarrow> s\<lparr>rs_opens := (rs_opens s)[k := (rs_opens s ! k)\<lparr>ro_refs := ro_refs (rs_opens s ! k) + 1\<rparr>]\<rparr>)"

text \<open>The result is the bytes copied to the buffer.\<close>

definition ramfs_op_read :: "ramfs_state \<Rightarrow> nat \<Rightarrow> ptr \<Rightarrow> nat \<Rightarrow> ramfs_state \<times> (nx_status + string)" where
  "ramfs_op_read s i buf cap =
     (if cap = 0 then (s, Inr [])
      else if buf = NULL then (s, Inl NX_EINVAL)
      else case id_to_open s i of None \<Rightarrow> (s, Inl NX_EINVAL)
        | Some k \<Rightarrow>
            let op = rs_opens s ! k in
            if ro_flags op AND NX_FS_OPEN_READ = 0 then (s, Inl NX_EPERM)
            else
              let file = rs_files s ! the (ro_file op);
                  remain = (if ro_cursor op < rf_size file then rf_size file - ro_cursor op else 0);
                  n = (if remain < cap then remain else cap)
              in (s\<lparr>rs_opens := (rs_opens s)[k := op\<lparr>ro_cursor := ro_cursor op + n\<rparr>]\<rparr>,
                  Inr (map (rf_data file) [ro_cursor op..<ro_cursor op + n])))"

text \<open>\<^verbatim>\<open>memcpy\<close> of \<open>bytes\<close> to offset \<open>off\<close> of a data array.\<close>

definition data_copy :: "(nat \<Rightarrow> char) \<Rightarrow> nat \<Rightarrow> string \<Rightarrow> nat \<Rightarrow> char" where
  "data_copy d off bytes = (\<lambda>i. if off \<le> i \<and> i < off + length bytes then bytes ! (i - off) else d i)"

text \<open>\<open>bytes\<close> is the caller's buffer of \<^verbatim>\<open>len\<close> bytes; the result is the number of bytes written.\<close>

definition ramfs_op_write :: "ramfs_state \<Rightarrow> nat \<Rightarrow> ptr \<Rightarrow> string \<Rightarrow> ramfs_state \<times> (nx_status + nat)" where
  "ramfs_op_write s i buf bytes =
     (let len = length bytes in
      if len = 0 then (s, Inr 0)
      else if buf = NULL then (s, Inl NX_EINVAL)
      else case id_to_open s i of None \<Rightarrow> (s, Inl NX_EINVAL)
        | Some k \<Rightarrow>
            let op = rs_opens s ! k in
            if ro_flags op AND NX_FS_OPEN_WRITE = 0 then (s, Inl NX_EPERM)
            else
              let fi = the (ro_file op); file = rs_files s ! fi;
                  op1 = (if ro_flags op AND NX_FS_OPEN_APPEND \<noteq> 0 then op\<lparr>ro_cursor := rf_size file\<rparr> else op);
                  room = (if ro_cursor op1 < RAMFS_FILE_CAP then RAMFS_FILE_CAP - ro_cursor op1 else 0)
              in if room = 0 then (s\<lparr>rs_opens := (rs_opens s)[k := op1]\<rparr>, Inl NX_ENOMEM)
                 else
                   let n = (if len < room then len else room);
                       op2 = op1\<lparr>ro_cursor := ro_cursor op1 + n\<rparr>;
                       file1 = file\<lparr>rf_data := data_copy (rf_data file) (ro_cursor op1) (take n bytes),
                                    rf_size := (if ro_cursor op2 > rf_size file then ro_cursor op2 else rf_size file)\<rparr>
                   in (s\<lparr>rs_opens := (rs_opens s)[k := op2], rs_files := (rs_files s)[fi := file1]\<rparr>, Inr n))"

definition ramfs_op_seek :: "ramfs_state \<Rightarrow> nat \<Rightarrow> int \<Rightarrow> int \<Rightarrow> ramfs_state \<times> (nx_status + nat)" where
  "ramfs_op_seek s i offset whence =
     (case id_to_open s i of None \<Rightarrow> (s, Inl NX_EINVAL)
      | Some k \<Rightarrow>
          let op = rs_opens s ! k; file = rs_files s ! the (ro_file op);
              base = (if whence = 0 then Some 0 else if whence = 1 then Some (int (ro_cursor op))
                      else if whence = 2 then Some (int (rf_size file)) else None)
          in case base of None \<Rightarrow> (s, Inl NX_EINVAL)
             | Some b \<Rightarrow>
                 let new_pos = b + offset in
                 if new_pos < 0 \<or> new_pos > int (rf_size file) then (s, Inl NX_EINVAL)
                 else (s\<lparr>rs_opens := (rs_opens s)[k := op\<lparr>ro_cursor := nat new_pos\<rparr>]\<rparr>, Inr (nat new_pos)))"

section \<open>Directories\<close>

text \<open>The segment of \<open>name\<close> directly below the directory, if there is one.\<close>

definition ramfs_match_child :: "string \<Rightarrow> string \<Rightarrow> bool \<Rightarrow> nat \<Rightarrow> string option" where
  "ramfs_match_child name dir_path dir_is_root dir_len =
     (let suffix =
            (if dir_is_root
             then if name = [] \<or> hd name \<noteq> CHR ''/'' \<or> length name = 1 then None else Some (drop 1 name)
             else if \<not> strn_eq name dir_path dir_len then None
             else if \<not> dir_len < length name \<or> name ! dir_len \<noteq> CHR ''/'' then None
             else Some (drop (dir_len + 1) name))
      in case suffix of None \<Rightarrow> None
         | Some suffix \<Rightarrow> let seg = takeWhile (\<lambda>c. c \<noteq> CHR ''/'') suffix in if seg = [] then None else Some seg)"

definition dir_child :: "ramfs_state \<Rightarrow> string \<Rightarrow> nat \<Rightarrow> string option" where
  "dir_child s dir_path i =
     (if rf_in_use (rs_files s ! i)
      then ramfs_match_child (rf_name (rs_files s ! i)) dir_path (length dir_path = 1) (length dir_path) else None)"

text \<open>The scan of \<^verbatim>\<open>ramfs_op_readdir\<close> from table index \<open>i\<close>: the entry found and the index behind it.\<close>

function readdir_scan :: "ramfs_state \<Rightarrow> string \<Rightarrow> nat \<Rightarrow> (string \<times> nat) option" where
  "readdir_scan s dir_path i =
     (if i < RAMFS_MAX_FILES then
        case dir_child s dir_path i of None \<Rightarrow> readdir_scan s dir_path (i + 1)
        | Some seg \<Rightarrow>
            if list_ex (\<lambda>j. dir_child s dir_path j = Some seg) [0..<i] then readdir_scan s dir_path (i + 1)
            else Some (take (NX_FS_DIRENT_NAME_MAX - 1) seg, i + 1)
      else None)"
  by auto
termination by (relation "measure (\<lambda>(s, d, i). 32 - i)") auto

declare readdir_scan.simps [simp del]

text \<open>The result is the new cookie, and the entry's name or the error.\<close>

definition ramfs_op_readdir :: "ramfs_state \<Rightarrow> string option \<Rightarrow> nat \<Rightarrow> nat \<times> (nx_status + string)" where
  "ramfs_op_readdir s dir_path cookie =
     (case dir_path of None \<Rightarrow> (cookie, Inl NX_EINVAL)
      | Some dir_path \<Rightarrow>
          if dir_path = [] \<or> hd dir_path \<noteq> CHR ''/'' then (cookie, Inl NX_EINVAL)
          else if cookie = 0 then (1, Inr ''.'')
          else if cookie = 1 then (2, Inr ''..'')
          else case readdir_scan s dir_path (cookie - 2) of
            Some (name, i) \<Rightarrow> (i + 2, Inr name)
          | None \<Rightarrow> (RAMFS_MAX_FILES + 2, Inl NX_ENOENT))"

definition ramfs_op_mkdir :: "ramfs_state \<Rightarrow> string option \<Rightarrow> ramfs_state \<times> nx_status" where
  "ramfs_op_mkdir s path =
     (case path of None \<Rightarrow> (s, NX_EINVAL)
      | Some path \<Rightarrow>
          if path = [] \<or> hd path \<noteq> CHR ''/'' \<or> length path = 1 then (s, NX_EINVAL)
          else if ramfs_find s path \<noteq> None then (s, NX_EEXIST)
          else if ramfs_classify s path = Some KIND_DIR then (s, NX_EEXIST)
          else case ramfs_create_entry s path KIND_DIR of (s1, None) \<Rightarrow> (s1, NX_ENOMEM) | (s1, Some _) \<Rightarrow> (s1, NX_OK))"

text \<open>The result is the kind and size.\<close>

definition ramfs_op_stat :: "ramfs_state \<Rightarrow> string option \<Rightarrow> nx_status + fs_kind \<times> nat" where
  "ramfs_op_stat s path =
     (case path of None \<Rightarrow> Inl NX_EINVAL
      | Some path \<Rightarrow>
          if path = [] \<or> hd path \<noteq> CHR ''/'' then Inl NX_EINVAL
          else if length path = 1 then Inr (KIND_DIR, 0)
          else case ramfs_find s path of
            Some i \<Rightarrow>
              let f = rs_files s ! i; kind = (if rf_kind f = KIND_DIR then KIND_DIR else KIND_FILE)
              in Inr (kind, if kind = KIND_DIR then 0 else rf_size f)
          | None \<Rightarrow>
              let plen = length path in
              if list_ex (\<lambda>f. rf_in_use f \<and> strn_eq (rf_name f) path plen \<and> plen < length (rf_name f) \<and>
                     rf_name f ! plen = CHR ''/'') (rs_files s)
              then Inr (KIND_DIR, 0) else Inl NX_ENOENT)"

section \<open>Initramfs loader\<close>

abbreviation (input) CPIO_NEWC_HEADER_SIZE :: nat where "CPIO_NEWC_HEADER_SIZE \<equiv> 110"
abbreviation (input) CPIO_BAD :: u32 where "CPIO_BAD \<equiv> 0xFFFFFFFF"

definition hex_digit :: "char \<Rightarrow> u32 option" where
  "hex_digit c =
     (let v = (of_char c :: nat) in
      if 48 \<le> v \<and> v \<le> 57 then Some (of_nat (v - 48))
      else if 65 \<le> v \<and> v \<le> 70 then Some (of_nat (v - 65 + 10))
      else if 97 \<le> v \<and> v \<le> 102 then Some (of_nat (v - 97 + 10)) else None)"

text \<open>The loop of \<^verbatim>\<open>cpio_hex8\<close> over the remaining characters.\<close>

primrec hex_scan :: "string \<Rightarrow> u32 \<Rightarrow> u32" where
  "hex_scan [] v = v"
| "hex_scan (c # cs) v = (case hex_digit c of None \<Rightarrow> CPIO_BAD | Some d \<Rightarrow> hex_scan cs (push_bit 4 v OR d))"

definition cpio_hex8 :: "string \<Rightarrow> u32" where
  "cpio_hex8 p = hex_scan (take 8 p) 0"

definition cpio_align4 :: "nat \<Rightarrow> nat" where
  "cpio_align4 v = (v + 3) div 4 * 4"

definition entry_path :: "string \<Rightarrow> nat \<Rightarrow> string" where
  "entry_path name namesize =
     (let copy = (if namesize \<noteq> 0 then namesize - 1 else 0);
          copy1 = (if copy \<ge> RAMFS_NAME_MAX - 1 then RAMFS_NAME_MAX - 2 else copy)
      in CHR ''/'' # takeWhile (\<lambda>c. c \<noteq> CHR 0x00) (take copy1 name))"

text \<open>Storing one regular file of the archive.\<close>

definition seed_file :: "ramfs_state \<Rightarrow> string \<Rightarrow> string \<Rightarrow> ramfs_state \<times> nat" where
  "seed_file s path bytes =
     (case ramfs_create_file s path of
        (s1, None) \<Rightarrow> (s1, 0)
      | (s1, Some i) \<Rightarrow>
          let f = rs_files s1 ! i
          in (s1\<lparr>rs_files := (rs_files s1)[i := f\<lparr>rf_data := data_copy (rf_data f) 0 bytes, rf_size := length bytes\<rparr>]\<rparr>, 1))"

text \<open>
  The checks on the entry at \<open>off\<close>: its mode, name size, data offset and file size, or \<open>None\<close> where the walk stops.
\<close>

definition cpio_entry :: "string \<Rightarrow> nat \<Rightarrow> (u32 \<times> nat \<times> nat \<times> nat) option" where
  "cpio_entry blob off =
     (let hdr = drop off blob;
          mode = cpio_hex8 (drop (6 + 1 * 8) hdr);
          filesize = cpio_hex8 (drop (6 + 6 * 8) hdr);
          namesize = cpio_hex8 (drop (6 + 11 * 8) hdr);
          name_off = off + CPIO_NEWC_HEADER_SIZE;
          name = drop name_off blob;
          data_off = cpio_align4 (name_off + unat namesize)
      in if take 6 hdr \<noteq> ''070701'' then None
         else if mode = CPIO_BAD \<or> filesize = CPIO_BAD \<or> namesize = CPIO_BAD then None
         else if name_off + unat namesize > length blob then None
         else if namesize \<ge> 11 \<and> take 11 name = ''TRAILER!!!'' @ [CHR 0x00] then None
         else if data_off + unat filesize > length blob then None
         else Some (mode, unat namesize, data_off, unat filesize))"

lemma cpio_entry_offset: "cpio_entry blob off = Some (mode, namesize, data_off, filesize) \<Longrightarrow> off < data_off"
  by (auto simp: cpio_entry_def Let_def cpio_align4_def split: if_splits)

lemma cpio_align4_ge: "v \<le> cpio_align4 v"
  unfolding cpio_align4_def by linarith

function slurp_from :: "string \<Rightarrow> nat \<Rightarrow> nat \<Rightarrow> ramfs_state \<Rightarrow> ramfs_state \<times> nat" where
  "slurp_from blob off cnt s =
     (if off + CPIO_NEWC_HEADER_SIZE \<le> length blob then
        case cpio_entry blob off of None \<Rightarrow> (s, cnt)
        | Some (mode, namesize, data_off, filesize) \<Rightarrow>
            let sk = (if mode AND 0xF000 = 0x8000 \<and> filesize \<le> RAMFS_FILE_CAP
                      then seed_file s (entry_path (drop (off + CPIO_NEWC_HEADER_SIZE) blob) namesize)
                             (take filesize (drop data_off blob))
                      else (s, 0))
            in slurp_from blob (cpio_align4 (data_off + filesize)) (cnt + snd sk) (fst sk)
      else (s, cnt))"
  by auto
termination
proof (relation "measure (\<lambda>(blob, off, cnt, s). length blob - off)", goal_cases)
  case (2 blob off cnt s x2 mode p namesize q data_off filesize sk)
  then have "off < data_off" using cpio_entry_offset by auto
  then show ?case using 2 cpio_align4_ge [of "data_off + filesize"] by auto
qed simp

declare slurp_from.simps [simp del]

definition ramfs_slurp_initramfs :: "ramfs_state \<Rightarrow> string \<Rightarrow> ramfs_state \<times> nat" where
  "ramfs_slurp_initramfs s blob = slurp_from blob 0 0 s"

section \<open>Lifecycle\<close>

text \<open>The argument \<open>blob\<close> is the archive linked into the kernel, empty if there is none.\<close>

definition ramfs_init :: "string \<Rightarrow> ramfs_state \<Rightarrow> ramfs_state \<times> nx_status" where
  "ramfs_init blob s =
     (let s1 = s\<lparr>rs_files := map (\<lambda>f. f\<lparr>rf_in_use := False\<rparr>) (rs_files s),
                  rs_opens := map (\<lambda>op. op\<lparr>ro_in_use := False\<rparr>) (rs_opens s)\<rparr>;
          s2 = (if blob \<noteq> [] then fst (ramfs_slurp_initramfs s1 blob) else s1)
      in (s2\<lparr>rs_init_called := rs_init_called s2 + 1\<rparr>, NX_OK))"

definition ramfs_enable :: "ramfs_state \<Rightarrow> ramfs_state \<times> nx_status" where
  "ramfs_enable s = (s\<lparr>rs_enable_called := rs_enable_called s + 1\<rparr>, NX_OK)"

definition ramfs_disable :: "ramfs_state \<Rightarrow> ramfs_state \<times> nx_status" where
  "ramfs_disable s = (s\<lparr>rs_disable_called := rs_disable_called s + 1\<rparr>, NX_OK)"

definition ramfs_destroy :: "ramfs_state \<Rightarrow> ramfs_state" where
  "ramfs_destroy s = s\<lparr>rs_destroy_called := rs_destroy_called s + 1\<rparr>"

section \<open>Archive packer\<close>

text \<open>\<^verbatim>\<open>tools/pack-initramfs.py\<close>, with names as their UTF-8 bytes; \<open>None\<close> is the \<^verbatim>\<open>ValueError\<close> or the error exit.\<close>

definition hex_char :: "nat \<Rightarrow> char" where
  "hex_char d = ''0123456789ABCDEF'' ! d"

definition hex8 :: "nat \<Rightarrow> string option" where
  "hex8 n = (if n > 0xFFFFFFFF then None else Some (map (\<lambda>k. hex_char (n div 16 ^ k mod 16)) [7, 6, 5, 4, 3, 2, 1, 0]))"

definition pad4 :: "string \<Rightarrow> string" where
  "pad4 buf = buf @ replicate (cpio_align4 (length buf) - length buf) (CHR 0x00)"

definition append_entry :: "string \<Rightarrow> string \<Rightarrow> string \<Rightarrow> nat \<Rightarrow> nat \<Rightarrow> string option" where
  "append_entry buf name data mode ino =
     (let name_bytes = name @ [CHR 0x00]; namesize = length name_bytes; filesize = length data
      in case those (map hex8 [ino, mode, 0, 0, 1, 0, filesize, 0, 0, 0, 0, namesize, 0]) of
           None \<Rightarrow> None
         | Some hs \<Rightarrow> Some (pad4 (pad4 (buf @ ''070701'' @ concat hs @ name_bytes) @ data)))"

definition lstrip_slash :: "string \<Rightarrow> string" where
  "lstrip_slash name = dropWhile (\<lambda>c. c = CHR ''/'') name"

text \<open>The entry loop of \<^verbatim>\<open>main\<close> over archive names and file contents, and the trailer.\<close>

primrec pack_entries :: "(string \<times> string) list \<Rightarrow> nat \<Rightarrow> string \<Rightarrow> string option" where
  "pack_entries [] ino blob = append_entry blob ''TRAILER!!!'' [] 0 0"
| "pack_entries (e # es) ino blob =
     (if fst e = [] \<or> hd (fst e) \<noteq> CHR ''/'' then None
      else case append_entry blob (lstrip_slash (fst e)) (snd e) 33188 ino of
        None \<Rightarrow> None | Some blob1 \<Rightarrow> pack_entries es (ino + 1) blob1)"

definition pack_initramfs :: "(string \<times> string) list \<Rightarrow> string option" where
  "pack_initramfs es = pack_entries es 1 []"

section \<open>Type invariant\<close>

definition file_ok :: "ramfs_file \<Rightarrow> bool" where
  "file_ok f \<longleftrightarrow> (rf_in_use f \<longrightarrow> 0 < length (rf_name f) \<and> length (rf_name f) < RAMFS_NAME_MAX \<and> rf_size f \<le> RAMFS_FILE_CAP)"

definition open_ok :: "ramfs_file list \<Rightarrow> ramfs_open \<Rightarrow> bool" where
  "open_ok fs op \<longleftrightarrow> (ro_in_use op \<longrightarrow> 0 < ro_refs op \<and> ro_flags op AND NOT 15 = 0 \<and>
     (\<exists>i < length fs. ro_file op = Some i \<and> rf_in_use (fs ! i) \<and> rf_kind (fs ! i) = KIND_FILE \<and>
        ro_cursor op \<le> rf_size (fs ! i)))"

definition ramfs_inv :: "ramfs_state \<Rightarrow> bool" where
  "ramfs_inv s \<longleftrightarrow> length (rs_files s) = RAMFS_MAX_FILES \<and> length (rs_opens s) = RAMFS_MAX_OPEN \<and>
     (\<forall>f \<in> set (rs_files s). file_ok f) \<and> (\<forall>op \<in> set (rs_opens s). open_ok (rs_files s) op)"

lemma ramfs_inv_file: "ramfs_inv s \<Longrightarrow> i < RAMFS_MAX_FILES \<Longrightarrow> file_ok (rs_files s ! i)"
  by (simp add: ramfs_inv_def)

lemma ramfs_inv_open: "ramfs_inv s \<Longrightarrow> k < RAMFS_MAX_OPEN \<Longrightarrow> open_ok (rs_files s) (rs_opens s ! k)"
  by (simp add: ramfs_inv_def)

lemma ramfs_inv_set_open:
  assumes "ramfs_inv s" "open_ok (rs_files s) op"
  shows "ramfs_inv (s\<lparr>rs_opens := (rs_opens s)[k := op]\<rparr>)"
  using assms set_update_subset_insert [of "rs_opens s" k op] by (auto simp: ramfs_inv_def)

text \<open>An open that was good stays good when its file is replaced by one of the same kind that is no shorter.\<close>

lemma open_ok_update:
  assumes "open_ok fs op" "i < length fs" "rf_in_use (fs ! i) \<Longrightarrow> rf_in_use f \<and> rf_kind f = rf_kind (fs ! i) \<and> rf_size (fs ! i) \<le> rf_size f"
  shows "open_ok (fs[i := f]) op"
  using assms unfolding open_ok_def by (fastforce simp: nth_list_update)

lemma ramfs_inv_set_file:
  assumes inv: "ramfs_inv s" and i: "i < RAMFS_MAX_FILES" and f: "file_ok f"
    and same: "rf_in_use (rs_files s ! i) \<Longrightarrow> rf_in_use f \<and> rf_kind f = rf_kind (rs_files s ! i) \<and> rf_size (rs_files s ! i) \<le> rf_size f"
  shows "ramfs_inv (s\<lparr>rs_files := (rs_files s)[i := f]\<rparr>)"
proof -
  have "open_ok ((rs_files s)[i := f]) op" if "op \<in> set (rs_opens s)" for op
    using inv that i same by (intro open_ok_update) (auto simp: ramfs_inv_def)
  then show ?thesis using inv f set_update_subset_insert [of "rs_files s" i f] by (auto simp: ramfs_inv_def)
qed

lemma id_to_open_files [simp]: "id_to_open (s\<lparr>rs_files := fs\<rparr>) i = id_to_open s i"
  by (simp add: id_to_open_def)

lemma id_to_open_Some: "id_to_open s i = Some k \<Longrightarrow> i = k + 1 \<and> k < RAMFS_MAX_OPEN \<and> ro_in_use (rs_opens s ! k)"
  by (auto simp: id_to_open_def split: if_splits)

lemma open_file:
  assumes "ramfs_inv s" "id_to_open s i = Some k"
  obtains fi where "ro_file (rs_opens s ! k) = Some fi" "fi < RAMFS_MAX_FILES" "rf_in_use (rs_files s ! fi)"
    "rf_kind (rs_files s ! fi) = KIND_FILE" "ro_cursor (rs_opens s ! k) \<le> rf_size (rs_files s ! fi)"
    "0 < ro_refs (rs_opens s ! k)" "ro_flags (rs_opens s ! k) AND NOT 15 = 0"
    "rf_size (rs_files s ! fi) \<le> RAMFS_FILE_CAP"
proof -
  note k = id_to_open_Some [OF assms(2)]
  have "open_ok (rs_files s) (rs_opens s ! k)" using assms(1) k by (intro ramfs_inv_open) simp_all
  then obtain fi where "fi < length (rs_files s)" "ro_file (rs_opens s ! k) = Some fi" "rf_in_use (rs_files s ! fi)"
    "rf_kind (rs_files s ! fi) = KIND_FILE" "ro_cursor (rs_opens s ! k) \<le> rf_size (rs_files s ! fi)"
    "0 < ro_refs (rs_opens s ! k)" "ro_flags (rs_opens s ! k) AND NOT 15 = 0" using k by (auto simp: open_ok_def)
  moreover from this have "rf_size (rs_files s ! fi) \<le> RAMFS_FILE_CAP"
    using assms(1) ramfs_inv_file [OF assms(1), of fi] by (simp add: file_ok_def ramfs_inv_def)
  ultimately show thesis using that assms(1) by (simp add: ramfs_inv_def)
qed

lemma create_entry_keeps:
  assumes inv: "ramfs_inv s" and c: "ramfs_create_entry s path kind = (s1, r)"
  shows "ramfs_inv s1 \<and> (case r of None \<Rightarrow> s1 = s
    | Some i \<Rightarrow> i < RAMFS_MAX_FILES \<and> \<not> rf_in_use (rs_files s ! i) \<and> rf_in_use (rs_files s1 ! i) \<and>
        rf_kind (rs_files s1 ! i) = kind \<and> rf_name (rs_files s1 ! i) = path \<and> rf_size (rs_files s1 ! i) = 0 \<and>
        (\<forall>j. j \<noteq> i \<longrightarrow> rs_files s1 ! j = rs_files s ! j) \<and> rs_opens s1 = rs_opens s)"
proof (cases "length path = 0 \<or> length path \<ge> 32 \<or> find_idx (\<lambda>f. \<not> rf_in_use f) (rs_files s) = None")
  case True
  then show ?thesis using c inv by (auto simp: ramfs_create_entry_def Let_def split: if_splits)
next
  case False
  then obtain i where i: "find_idx (\<lambda>f. \<not> rf_in_use f) (rs_files s) = Some i" by auto
  note d = find_idx_SomeD [OF i]
  let ?f = "(rs_files s ! i)\<lparr>rf_in_use := True, rf_kind := kind, rf_name := path, rf_size := 0\<rparr>"
  have len: "i < 32" using d(1) inv by (simp add: ramfs_inv_def)
  have e: "s1 = s\<lparr>rs_files := (rs_files s)[i := ?f]\<rparr>" "r = Some i"
    using c False i by (auto simp: ramfs_create_entry_def Let_def not_le split: if_splits)
  have "ramfs_inv s1" unfolding e using d False by (intro ramfs_inv_set_file [OF inv len]) (auto simp: file_ok_def)
  then show ?thesis using d len unfolding e by auto
qed

lemma create_entry_None:
  assumes "ramfs_create_entry s path kind = (s1, r)" "path \<noteq> []" "length path < RAMFS_NAME_MAX" "\<exists>f \<in> set (rs_files s). \<not> rf_in_use f"
  shows "r \<noteq> None"
proof -
  obtain i where "find_idx (\<lambda>f. \<not> rf_in_use f) (rs_files s) = Some i"
    using assms(4) by (metis (no_types, lifting) find_idx_None_iff not_Some_eq)
  then have "snd (ramfs_create_entry s path kind) = Some i" using assms(2,3) by (simp add: ramfs_create_entry_def Let_def)
  then show ?thesis using assms(1) by simp
qed

text \<open>The last part of \<^verbatim>\<open>ramfs_op_open\<close>, shared by its two paths.\<close>

lemma alloc_open_keeps:
  assumes inv: "ramfs_inv s" and a: "ramfs_alloc_open s = (s1, r)" and fl: "flags AND NOT 15 = 0"
    and f: "fi < RAMFS_MAX_FILES" "rf_in_use (rs_files s ! fi)" "rf_kind (rs_files s ! fi) = KIND_FILE"
  shows "case r of None \<Rightarrow> s1 = s
    | Some i \<Rightarrow> i < RAMFS_MAX_OPEN \<and> \<not> ro_in_use (rs_opens s ! i) \<and>
        ramfs_inv (s1\<lparr>rs_opens := (rs_opens s1)[i := (rs_opens s1 ! i)\<lparr>ro_refs := 1, ro_file := Some fi, ro_flags := flags, ro_cursor := 0\<rparr>]\<rparr>)"
proof (cases "find_idx (\<lambda>op. \<not> ro_in_use op) (rs_opens s)")
  case None
  then show ?thesis using a by (auto simp: ramfs_alloc_open_def)
next
  case (Some i)
  note d = find_idx_SomeD [OF Some]
  have len: "i < 128" using d(1) inv by (simp add: ramfs_inv_def)
  let ?op = "(rs_opens s ! i)\<lparr>ro_in_use := True, ro_refs := 1, ro_file := Some fi, ro_flags := flags, ro_cursor := 0\<rparr>"
  have e: "s1 = s\<lparr>rs_opens := (rs_opens s)[i := (rs_opens s ! i)\<lparr>ro_in_use := True\<rparr>]\<rparr>" "r = Some i"
    using a Some by (auto simp: ramfs_alloc_open_def)
  have "open_ok (rs_files s) ?op" using f fl inv by (simp add: open_ok_def ramfs_inv_def)
  from ramfs_inv_set_open [OF inv this, of i] show ?thesis unfolding e using d len by simp
qed

lemma open_keeps [nx_inv]: "ramfs_inv s \<Longrightarrow> ramfs_inv (fst (ramfs_op_open s path flags))"
proof -
  assume inv: "ramfs_inv s"
  have known: "(1 :: u32) OR 2 OR 4 OR 8 = 15" by simp
  define finish where "finish = (\<lambda>s fi. case ramfs_alloc_open s of
      (s1, None) \<Rightarrow> (s1, 0 :: nat)
    | (s1, Some i) \<Rightarrow> (s1\<lparr>rs_opens := (rs_opens s1)[i := (rs_opens s1 ! i)\<lparr>ro_refs := 1, ro_file := Some fi, ro_flags := flags,
          ro_cursor := 0\<rparr>]\<rparr>, open_to_id i))"
  have fin: "ramfs_inv (fst (finish t fi))"
    if "ramfs_inv t" "fi < 32" "rf_in_use (rs_files t ! fi)" "rf_kind (rs_files t ! fi) = KIND_FILE" "flags AND NOT 15 = 0" for t fi
    using that alloc_open_keeps [OF that(1) _ that(5,2,3,4)] unfolding finish_def
    by (auto split: prod.split option.split)
  show ?thesis
  proof (cases "path = None \<or> path = Some [] \<or> flags AND NOT 15 \<noteq> 0")
    case True
    then show ?thesis using inv by (auto simp: ramfs_op_open_def known split: option.split)
  next
    case False
    then obtain p where p: "path = Some p" "p \<noteq> []" "flags AND NOT 15 = 0" by auto
    have o: "ramfs_op_open s path flags = (case ramfs_find s p of
          Some fi \<Rightarrow> if rf_kind (rs_files s ! fi) = KIND_DIR then (s, 0) else finish s fi
        | None \<Rightarrow> if flags AND 4 = 0 then (s, 0)
            else case ramfs_create_file s p of (s1, None) \<Rightarrow> (s1, 0) | (s1, Some fi) \<Rightarrow> finish s1 fi)"
      using p unfolding ramfs_op_open_def finish_def by (simp add: known Let_def)
    show ?thesis
    proof (cases "ramfs_find s p")
      case (Some fi)
      then have "fi < 32" "rf_in_use (rs_files s ! fi)"
        using find_idx_SomeD [OF Some [unfolded ramfs_find_def]] inv by (simp_all add: ramfs_inv_def)
      then show ?thesis unfolding o Some using fin [OF inv] p(3) inv by (cases "rf_kind (rs_files s ! fi)") auto
    next
      case None
      obtain s1 r where c: "ramfs_create_entry s p KIND_FILE = (s1, r)" by (cases "ramfs_create_entry s p KIND_FILE")
      note k = create_entry_keeps [OF inv c]
      show ?thesis unfolding o None ramfs_create_file_def c
        using k fin [of s1] p(3) inv by (auto split: option.split)
    qed
  qed
qed

lemma close_keeps [nx_inv]: "ramfs_inv s \<Longrightarrow> ramfs_inv (ramfs_op_close s i)"
proof -
  assume inv: "ramfs_inv s"
  show ?thesis
  proof (cases "id_to_open s i")
    case None
    then show ?thesis using inv by (simp add: ramfs_op_close_def)
  next
    case (Some k)
    have "open_ok (rs_files s) (rs_opens s ! k)" using id_to_open_Some [OF Some] by (intro ramfs_inv_open [OF inv]) simp
    then show ?thesis using inv Some
      by (auto simp: ramfs_op_close_def Let_def open_ok_def intro!: ramfs_inv_set_open)
  qed
qed

lemma retain_keeps [nx_inv]: "ramfs_inv s \<Longrightarrow> ramfs_inv (ramfs_op_retain s i)"
proof -
  assume inv: "ramfs_inv s"
  show ?thesis
  proof (cases "id_to_open s i")
    case None
    then show ?thesis using inv by (simp add: ramfs_op_retain_def)
  next
    case (Some k)
    have "open_ok (rs_files s) (rs_opens s ! k)" using id_to_open_Some [OF Some] by (intro ramfs_inv_open [OF inv]) simp
    then show ?thesis using inv Some
      by (auto simp: ramfs_op_retain_def open_ok_def intro!: ramfs_inv_set_open)
  qed
qed

lemma set_cursor_keeps:
  assumes "ramfs_inv s" "id_to_open s i = Some k" "ro_file (rs_opens s ! k) = Some fi" "c \<le> rf_size (rs_files s ! fi)"
  shows "ramfs_inv (s\<lparr>rs_opens := (rs_opens s)[k := (rs_opens s ! k)\<lparr>ro_cursor := c\<rparr>]\<rparr>)"
proof -
  have "open_ok (rs_files s) (rs_opens s ! k)"
    using id_to_open_Some [OF assms(2)] by (intro ramfs_inv_open [OF assms(1)]) simp
  then show ?thesis using assms by (intro ramfs_inv_set_open) (auto simp: open_ok_def)
qed

lemma read_keeps [nx_inv]: "ramfs_inv s \<Longrightarrow> ramfs_inv (fst (ramfs_op_read s i buf cap))"
proof -
  assume inv: "ramfs_inv s"
  show ?thesis
  proof (cases "id_to_open s i")
    case None
    then show ?thesis using inv by (simp add: ramfs_op_read_def)
  next
    case (Some k)
    obtain fi where fi: "ro_file (rs_opens s ! k) = Some fi" "ro_cursor (rs_opens s ! k) \<le> rf_size (rs_files s ! fi)"
      by (rule open_file [OF inv Some])
    show ?thesis unfolding ramfs_op_read_def Some Let_def option.case fi(1) option.sel
      using inv fi(2) by (auto intro!: set_cursor_keeps [OF inv Some fi(1)])
  qed
qed

lemma seek_keeps [nx_inv]: "ramfs_inv s \<Longrightarrow> ramfs_inv (fst (ramfs_op_seek s i offset whence))"
proof -
  assume inv: "ramfs_inv s"
  show ?thesis
  proof (cases "id_to_open s i")
    case None
    then show ?thesis using inv by (simp add: ramfs_op_seek_def)
  next
    case (Some k)
    obtain fi where fi: "ro_file (rs_opens s ! k) = Some fi" by (rule open_file [OF inv Some])
    have "ramfs_inv (s\<lparr>rs_opens := (rs_opens s)[k := (rs_opens s ! k)\<lparr>ro_cursor := nat p\<rparr>]\<rparr>)"
      if "\<not> (p < 0 \<or> int (rf_size (rs_files s ! fi)) < p)" for p
      using that by (intro set_cursor_keeps [OF inv Some fi]) auto
    moreover define base where "base = (if whence = 0 then Some 0 else if whence = 1 then Some (int (ro_cursor (rs_opens s ! k)))
      else if whence = 2 then Some (int (rf_size (rs_files s ! fi))) else None)"
    ultimately show ?thesis unfolding ramfs_op_seek_def Some Let_def option.case fi option.sel base_def [symmetric]
      using inv by (cases base) simp_all
  qed
qed

definition content :: "ramfs_file \<Rightarrow> string" where
  "content f = map (rf_data f) [0..<rf_size f]"

text \<open>A write that reaches the copy, in closed form.\<close>

lemma write_eq:
  assumes "id_to_open s i = Some k" "ro_file (rs_opens s ! k) = Some fi" "bytes \<noteq> []" "buf \<noteq> NULL"
    and "ro_flags (rs_opens s ! k) AND NX_FS_OPEN_WRITE \<noteq> 0"
    and c: "c = (if ro_flags (rs_opens s ! k) AND NX_FS_OPEN_APPEND \<noteq> 0 then rf_size (rs_files s ! fi) else ro_cursor (rs_opens s ! k))"
    and room: "c < RAMFS_FILE_CAP" and n: "n = min (length bytes) (RAMFS_FILE_CAP - c)"
  shows "ramfs_op_write s i buf bytes =
    (s\<lparr>rs_files := (rs_files s)[fi := (rs_files s ! fi)\<lparr>rf_data := data_copy (rf_data (rs_files s ! fi)) c (take n bytes),
         rf_size := max (rf_size (rs_files s ! fi)) (c + n)\<rparr>],
       rs_opens := (rs_opens s)[k := (rs_opens s ! k)\<lparr>ro_cursor := c + n\<rparr>]\<rparr>, Inr n)"
proof -
  define op1 where "op1 = (if ro_flags (rs_opens s ! k) AND NX_FS_OPEN_APPEND \<noteq> 0
    then (rs_opens s ! k)\<lparr>ro_cursor := rf_size (rs_files s ! fi)\<rparr> else rs_opens s ! k)"
  have o: "ro_cursor op1 = c" "op1\<lparr>ro_cursor := x\<rparr> = (rs_opens s ! k)\<lparr>ro_cursor := x\<rparr>" for x
    by (simp_all add: op1_def c)
  have nn: "(if length bytes < 4194304 - c then length bytes else 4194304 - c) = n" using n by (simp add: min_def)
  have rr: "(if c < 4194304 then 4194304 - c else 0) = 4194304 - c" using room by simp
  have mm: "(if a < b then b else a) = max a b" for a b :: nat by simp
  show ?thesis using assms(3-5) room
    unfolding ramfs_op_write_def Let_def assms(1) option.case assms(2) option.sel op1_def [symmetric] o rr nn
    by (simp add: mm o)
qed

lemma write_keeps [nx_inv]: "ramfs_inv s \<Longrightarrow> ramfs_inv (fst (ramfs_op_write s i buf bytes))"
proof -
  assume inv: "ramfs_inv s"
  show ?thesis
  proof (cases "id_to_open s i")
    case None
    then show ?thesis using inv by (simp add: ramfs_op_write_def Let_def)
  next
    case (Some k)
    obtain fi where fi: "ro_file (rs_opens s ! k) = Some fi" "fi < 32" "rf_in_use (rs_files s ! fi)"
      "ro_cursor (rs_opens s ! k) \<le> rf_size (rs_files s ! fi)" "rf_size (rs_files s ! fi) \<le> 4194304"
      by (rule open_file [OF inv Some])
    define c where "c = (if ro_flags (rs_opens s ! k) AND NX_FS_OPEN_APPEND \<noteq> 0 then rf_size (rs_files s ! fi) else ro_cursor (rs_opens s ! k))"
    define n where "n = min (length bytes) (4194304 - c)"
    have le: "c \<le> rf_size (rs_files s ! fi)" using fi by (simp add: c_def)
    show ?thesis
    proof (cases "bytes = [] \<or> buf = NULL \<or> ro_flags (rs_opens s ! k) AND 2 = 0 \<or> \<not> c < 4194304")
      case True
      have "ramfs_inv (s\<lparr>rs_opens := (rs_opens s)[k := (rs_opens s ! k)\<lparr>ro_cursor := rf_size (rs_files s ! fi)\<rparr>]\<rparr>)"
        by (rule set_cursor_keeps [OF inv Some fi(1)]) simp
      then show ?thesis using True inv fi le Some by (auto simp: ramfs_op_write_def Let_def c_def list_update_id)
    next
      case False
      let ?f = "(rs_files s ! fi)\<lparr>rf_data := data_copy (rf_data (rs_files s ! fi)) c (take n bytes), rf_size := max (rf_size (rs_files s ! fi)) (c + n)\<rparr>"
      have "file_ok (rs_files s ! fi)" using fi by (intro ramfs_inv_file [OF inv])
      moreover have "c + n \<le> 4194304" using le fi(5) by (simp add: n_def)
      ultimately have "file_ok ?f" using fi by (simp add: file_ok_def)
      then have inv1: "ramfs_inv (s\<lparr>rs_files := (rs_files s)[fi := ?f]\<rparr>)"
        by (intro ramfs_inv_set_file [OF inv fi(2)]) simp_all
      have len: "length (rs_files s) = 32" using inv by (simp add: ramfs_inv_def)
      have "ramfs_inv (s\<lparr>rs_files := (rs_files s)[fi := ?f], rs_opens := (rs_opens s)[k := (rs_opens s ! k)\<lparr>ro_cursor := c + n\<rparr>]\<rparr>)"
        using set_cursor_keeps [OF inv1, of i k fi "c + n"] Some fi len by simp
      then show ?thesis using write_eq [OF Some fi(1) _ _ _ c_def _ n_def] False by simp
    qed
  qed
qed

lemma mkdir_keeps [nx_inv]: "ramfs_inv s \<Longrightarrow> ramfs_inv (fst (ramfs_op_mkdir s path))"
  using create_entry_keeps [of s] unfolding ramfs_op_mkdir_def by (auto split: option.split prod.split)

lemma seed_keeps: "ramfs_inv s \<Longrightarrow> length bytes \<le> RAMFS_FILE_CAP \<Longrightarrow> ramfs_inv (fst (seed_file s path bytes))"
proof -
  assume inv: "ramfs_inv s" and len: "length bytes \<le> RAMFS_FILE_CAP"
  obtain s1 r where c: "ramfs_create_entry s path KIND_FILE = (s1, r)" by (cases "ramfs_create_entry s path KIND_FILE")
  note k = create_entry_keeps [OF inv c]
  show ?thesis
  proof (cases r)
    case None
    then show ?thesis using k by (auto simp: seed_file_def ramfs_create_file_def c)
  next
    case (Some j)
    then have j: "ramfs_inv s1" "j < 32" "rf_size (rs_files s1 ! j) = 0" using k by simp_all
    have "file_ok (rs_files s1 ! j)" using j by (intro ramfs_inv_file) simp_all
    then show ?thesis using j len
      by (auto simp: seed_file_def ramfs_create_file_def c Some Let_def file_ok_def intro!: ramfs_inv_set_file)
  qed
qed

lemma slurp_keeps: "ramfs_inv s \<Longrightarrow> ramfs_inv (fst (slurp_from blob off cnt s))"
proof (induction blob off cnt s rule: slurp_from.induct)
  case (1 blob off cnt s)
  show ?case
  proof (cases "off + 110 \<le> length blob \<and> cpio_entry blob off \<noteq> None")
    case False
    then show ?thesis using 1(2) by (subst slurp_from.simps) (auto split: option.split)
  next
    case True
    then obtain mode namesize data_off filesize where e: "cpio_entry blob off = Some (mode, namesize, data_off, filesize)" by auto
    define sk where "sk = (if mode AND 0xF000 = 0x8000 \<and> filesize \<le> 4194304
      then seed_file s (entry_path (drop (off + 110) blob) namesize) (take filesize (drop data_off blob)) else (s, 0))"
    have "ramfs_inv (fst sk)" using 1(2) by (auto simp: sk_def intro!: seed_keeps)
    then show ?thesis using 1(1) [OF conjunct1 [OF True] e refl refl refl sk_def] True
      by (subst slurp_from.simps) (simp add: e sk_def [symmetric] Let_def)
  qed
qed

lemma init_keeps:
  assumes "length (rs_files s) = RAMFS_MAX_FILES" "length (rs_opens s) = RAMFS_MAX_OPEN"
  shows "ramfs_inv (fst (ramfs_init blob s))"
proof -
  let ?s = "s\<lparr>rs_files := map (\<lambda>f. f\<lparr>rf_in_use := False\<rparr>) (rs_files s), rs_opens := map (\<lambda>op. op\<lparr>ro_in_use := False\<rparr>) (rs_opens s)\<rparr>"
  have "ramfs_inv ?s" using assms by (auto simp: ramfs_inv_def file_ok_def open_ok_def)
  then have "ramfs_inv (if blob \<noteq> [] then fst (ramfs_slurp_initramfs ?s blob) else ?s)"
    using slurp_keeps by (simp add: ramfs_slurp_initramfs_def)
  then show ?thesis by (simp add: ramfs_init_def Let_def ramfs_inv_def)
qed

text \<open>Every sequence of calls after initialisation.\<close>

inductive ramfs_reach :: "ramfs_state \<Rightarrow> bool" where
  init: "length (rs_files s) = RAMFS_MAX_FILES \<Longrightarrow> length (rs_opens s) = RAMFS_MAX_OPEN \<Longrightarrow> ramfs_reach (fst (ramfs_init blob s))"
| open_step: "ramfs_reach s \<Longrightarrow> ramfs_reach (fst (ramfs_op_open s path flags))"
| close_step: "ramfs_reach s \<Longrightarrow> ramfs_reach (ramfs_op_close s i)"
| retain_step: "ramfs_reach s \<Longrightarrow> ramfs_reach (ramfs_op_retain s i)"
| read_step: "ramfs_reach s \<Longrightarrow> ramfs_reach (fst (ramfs_op_read s i buf cap))"
| write_step: "ramfs_reach s \<Longrightarrow> ramfs_reach (fst (ramfs_op_write s i buf bytes))"
| seek_step: "ramfs_reach s \<Longrightarrow> ramfs_reach (fst (ramfs_op_seek s i offset whence))"
| mkdir_step: "ramfs_reach s \<Longrightarrow> ramfs_reach (fst (ramfs_op_mkdir s path))"
| enable_step: "ramfs_reach s \<Longrightarrow> ramfs_reach (fst (ramfs_enable s))"
| disable_step: "ramfs_reach s \<Longrightarrow> ramfs_reach (fst (ramfs_disable s))"

lemma ramfs_reach_inv: "ramfs_reach s \<Longrightarrow> ramfs_inv s"
proof (induction rule: ramfs_reach.induct)
  case (init s blob)
  then show ?case by (rule init_keeps)
next
  case (enable_step s)
  then show ?case by (simp add: ramfs_enable_def ramfs_inv_def)
next
  case (disable_step s)
  then show ?case by (simp add: ramfs_disable_def ramfs_inv_def)
qed (auto intro: nx_inv)

section \<open>Reading back what was written\<close>

lemma content_copy:
  assumes "c \<le> rf_size f"
  shows "content (f\<lparr>rf_data := data_copy (rf_data f) c xs, rf_size := max (rf_size f) (c + length xs)\<rparr>) =
    take c (content f) @ xs @ drop (c + length xs) (content f)"
  using assms by (intro nth_equalityI) (auto simp: content_def data_copy_def nth_append)

lemma write_Inr:
  assumes "ramfs_op_write s i buf bytes = (s1, Inr n)" "bytes \<noteq> []"
  obtains k where "id_to_open s i = Some k" "buf \<noteq> NULL" "ro_flags (rs_opens s ! k) AND NX_FS_OPEN_WRITE \<noteq> 0"
    "(if ro_flags (rs_opens s ! k) AND NX_FS_OPEN_APPEND \<noteq> 0 then rf_size (rs_files s ! the (ro_file (rs_opens s ! k)))
      else ro_cursor (rs_opens s ! k)) < RAMFS_FILE_CAP"
proof (cases "id_to_open s i")
  case None
  then show ?thesis using assms by (simp add: ramfs_op_write_def Let_def split: if_splits)
next
  case (Some k)
  show ?thesis
    using assms Some by (intro that [of k]) (auto simp: ramfs_op_write_def Let_def split: if_splits)
qed

lemma read_eq:
  assumes "id_to_open s i = Some k" "ro_flags (rs_opens s ! k) AND NX_FS_OPEN_READ \<noteq> 0" "buf \<noteq> NULL"
    "ro_file (rs_opens s ! k) = Some fi" "ro_cursor (rs_opens s ! k) \<le> rf_size (rs_files s ! fi)"
  shows "snd (ramfs_op_read s i buf cap) = Inr (take cap (drop (ro_cursor (rs_opens s ! k)) (content (rs_files s ! fi))))"
proof -
  let ?c = "ro_cursor (rs_opens s ! k)" and ?f = "rs_files s ! fi"
  define n where "n = (if (if ?c < rf_size ?f then rf_size ?f - ?c else 0) < cap
    then (if ?c < rf_size ?f then rf_size ?f - ?c else 0) else cap)"
  have "n = min cap (rf_size ?f - ?c)" using assms(5) by (auto simp: n_def)
  then have "map (rf_data ?f) [?c..<?c + n] = take cap (drop ?c (content ?f))"
    using assms(5) by (intro nth_equalityI) (auto simp: content_def)
  then show ?thesis using assms unfolding ramfs_op_read_def Let_def by (auto simp: n_def content_def)
qed

text \<open>
  C38. A successful write puts exactly a prefix of the buffer at the write position (the end of the file for an
  append, the cursor otherwise), limited only by the capacity; every other file is untouched; and seeking
  back and reading the same number of bytes returns what was written.\<close>

theorem ramfs_write_read_back:
  fixes s :: ramfs_state
  assumes "ramfs_reach s" and w: "ramfs_op_write s i buf bytes = (s1, Inr n)" and ne: "bytes \<noteq> []"
    and k: "id_to_open s i = Some k" and rd: "ro_flags (rs_opens s ! k) AND NX_FS_OPEN_READ \<noteq> 0"
  defines "fi \<equiv> the (ro_file (rs_opens s ! k))"
  defines "p \<equiv> (if ro_flags (rs_opens s ! k) AND NX_FS_OPEN_APPEND \<noteq> 0 then rf_size (rs_files s ! fi) else ro_cursor (rs_opens s ! k))"
  shows "n = min (length bytes) (RAMFS_FILE_CAP - p) \<and>
    content (rs_files s1 ! fi) = take p (content (rs_files s ! fi)) @ take n bytes @ drop (p + n) (content (rs_files s ! fi)) \<and>
    (\<forall>j. j \<noteq> fi \<longrightarrow> rs_files s1 ! j = rs_files s ! j) \<and>
    (\<exists>s2. ramfs_op_seek s1 i (int p) 0 = (s2, Inr p) \<and> snd (ramfs_op_read s2 i buf n) = Inr (take n bytes))"
proof -
  have inv: "ramfs_inv s" by (rule ramfs_reach_inv [OF assms(1)])
  obtain g where g: "ro_file (rs_opens s ! k) = Some g" "g < 32" "ro_cursor (rs_opens s ! k) \<le> rf_size (rs_files s ! g)"
    by (rule open_file [OF inv k])
  have fi: "fi = g" by (simp add: fi_def g)
  obtain k' where "id_to_open s i = Some k'" "buf \<noteq> NULL" "ro_flags (rs_opens s ! k') AND NX_FS_OPEN_WRITE \<noteq> 0"
    "(if ro_flags (rs_opens s ! k') AND NX_FS_OPEN_APPEND \<noteq> 0 then rf_size (rs_files s ! the (ro_file (rs_opens s ! k')))
      else ro_cursor (rs_opens s ! k')) < 4194304" by (rule write_Inr [OF w ne])
  then have wr: "buf \<noteq> NULL" "ro_flags (rs_opens s ! k) AND NX_FS_OPEN_WRITE \<noteq> 0" "p < 4194304"
    using k by (auto simp: p_def fi_def split: if_splits)
  let ?f = "(rs_files s ! fi)\<lparr>rf_data := data_copy (rf_data (rs_files s ! fi)) p (take n bytes), rf_size := max (rf_size (rs_files s ! fi)) (p + n)\<rparr>"
  have le: "p \<le> rf_size (rs_files s ! fi)" using g by (simp add: p_def fi)
  have e: "n = min (length bytes) (4194304 - p)"
    "s1 = s\<lparr>rs_files := (rs_files s)[fi := ?f], rs_opens := (rs_opens s)[k := (rs_opens s ! k)\<lparr>ro_cursor := p + n\<rparr>]\<rparr>"
    using w write_eq [OF k g(1) ne wr(1,2) p_def [unfolded fi, THEN meta_eq_to_obj_eq] wr(3) refl] by (auto simp: fi)
  have tl: "length (take n bytes) = n" using e(1) by simp
  have len: "length (rs_files s) = 32" "k < length (rs_opens s)" using inv id_to_open_Some [OF k] by (auto simp: ramfs_inv_def)
  have c1: "content (rs_files s1 ! fi) = take p (content (rs_files s ! fi)) @ take n bytes @ drop (p + n) (content (rs_files s ! fi))"
    using content_copy [OF le, of "take n bytes", unfolded tl] g(2) len unfolding e(2) by (simp add: fi)
  let ?op = "(rs_opens s ! k)\<lparr>ro_cursor := p\<rparr>"
  have id1: "id_to_open s1 i = Some k" using k len by (auto simp: e(2) id_to_open_def nth_list_update split: if_splits)
  have sz: "rf_size (rs_files s1 ! fi) = max (rf_size (rs_files s ! fi)) (p + n)" using g(2) len by (simp add: e(2) fi)
  let ?s2 = "s1\<lparr>rs_opens := (rs_opens s1)[k := ?op]\<rparr>"
  have seek: "ramfs_op_seek s1 i (int p) 0 = (?s2, Inr p)"
    using sz len g(1) le by (simp add: ramfs_op_seek_def id1 Let_def) (simp add: e(2) fi)
  have id2: "id_to_open ?s2 i = Some k" using k len by (auto simp: e(2) id_to_open_def nth_list_update split: if_splits)
  have "snd (ramfs_op_read ?s2 i buf n) = Inr (take n (drop p (content (rs_files s1 ! fi))))"
    using read_eq [OF id2, of buf fi n] rd wr(1) g(1) len le sz by (simp add: e(2) fi)
  also have "take n (drop p (content (rs_files s1 ! fi))) = take n bytes"
    unfolding c1 using le tl by (simp add: content_def)
  finally show ?thesis using e c1 seek by auto
qed

text \<open>The zeroed instance that the framework hands to \<^verbatim>\<open>ramfs_init\<close>.\<close>

definition ramfs_blank :: ramfs_state where
  "ramfs_blank = \<lparr>
     rs_files = replicate RAMFS_MAX_FILES
       \<lparr>rf_in_use = False, rf_kind = KIND_FILE, rf_name = [], rf_data = (\<lambda>_. CHR 0x00), rf_size = 0\<rparr>,
     rs_opens = replicate RAMFS_MAX_OPEN \<lparr>ro_in_use = False, ro_refs = 0, ro_file = None, ro_flags = 0, ro_cursor = 0\<rparr>,
     rs_init_called = 0, rs_enable_called = 0, rs_disable_called = 0, rs_destroy_called = 0\<rparr>"

lemma blank_reach: "ramfs_reach (fst (ramfs_init blob ramfs_blank))"
  by (rule ramfs_reach.init) (simp_all add: ramfs_blank_def)

theorem ramfs_write_read_back_witness:
  "let s0 = fst (ramfs_init [] ramfs_blank); s = fst (ramfs_op_open s0 (Some ''/a'') 7);
       s1 = fst (ramfs_op_write s 1 0x1000 ''hi'')
   in content (rs_files s1 ! 0) = ''hi'' \<and>
      (\<exists>s2. ramfs_op_seek s1 1 0 0 = (s2, Inr 0) \<and> snd (ramfs_op_read s2 1 0x1000 2) = Inr ''hi'')"
proof -
  let ?s = "fst (ramfs_op_open (fst (ramfs_init [] ramfs_blank)) (Some ''/a'') 7)"
  let ?w = "ramfs_op_write ?s 1 0x1000 ''hi''"
  have r: "ramfs_reach ?s" by (rule ramfs_reach.open_step [OF blank_reach])
  have "snd ?w = Inr 2" by code_simp
  then have w: "?w = (fst ?w, Inr 2)" by (metis prod.collapse)
  have o: "id_to_open ?s 1 = Some 0" "ro_flags (rs_opens ?s ! 0) = 7" "ro_file (rs_opens ?s ! 0) = Some 0"
    "ro_cursor (rs_opens ?s ! 0) = 0" "rf_size (rs_files ?s ! 0) = 0" by code_simp+
  from ramfs_write_read_back [OF r w _ o(1)] show ?thesis
    unfolding Let_def using o by (simp add: content_def)
qed

text \<open>
  C39. In every reachable state each open that is in use has a positive reference count and only known flags, and its
  file is an existing regular file with the cursor inside it; names and sizes of existing files keep their bounds.\<close>

theorem ramfs_well_typed:
  assumes "ramfs_reach s"
  shows "length (rs_files s) = RAMFS_MAX_FILES \<and> length (rs_opens s) = RAMFS_MAX_OPEN \<and>
    (\<forall>f \<in> set (rs_files s). rf_in_use f \<longrightarrow> rf_name f \<noteq> [] \<and> length (rf_name f) < RAMFS_NAME_MAX \<and> rf_size f \<le> RAMFS_FILE_CAP) \<and>
    (\<forall>op \<in> set (rs_opens s). ro_in_use op \<longrightarrow> 0 < ro_refs op \<and> ro_flags op AND NOT 15 = 0 \<and>
       (\<exists>i < RAMFS_MAX_FILES. ro_file op = Some i \<and> rf_in_use (rs_files s ! i) \<and> rf_kind (rs_files s ! i) = KIND_FILE \<and>
          ro_cursor op \<le> rf_size (rs_files s ! i)))"
  using ramfs_reach_inv [OF assms] by (auto simp: ramfs_inv_def file_ok_def open_ok_def)

theorem ramfs_well_typed_witness:
  "let s = fst (ramfs_op_open (fst (ramfs_init [] ramfs_blank)) (Some ''/a'') 7)
   in ro_in_use (rs_opens s ! 0) \<and> 0 < ro_refs (rs_opens s ! 0)"
proof -
  let ?s = "fst (ramfs_op_open (fst (ramfs_init [] ramfs_blank)) (Some ''/a'') 7)"
  have r: "ramfs_reach ?s" by (rule ramfs_reach.open_step [OF blank_reach])
  have u: "ro_in_use (rs_opens ?s ! 0)" by code_simp
  from ramfs_well_typed [OF r] u show ?thesis by (auto simp: Let_def)
qed

section \<open>Directory listing\<close>

text \<open>The loop of a caller that lists a directory, for at most \<open>fuel\<close> calls.\<close>

fun list_dir :: "nat \<Rightarrow> ramfs_state \<Rightarrow> string \<Rightarrow> nat \<Rightarrow> string list option" where
  "list_dir 0 s d cookie = None"
| "list_dir (Suc fuel) s d cookie =
     (case ramfs_op_readdir s (Some d) cookie of
        (cookie', Inr name) \<Rightarrow> map_option (\<lambda>ns. name # ns) (list_dir fuel s d cookie')
      | (cookie', Inl e) \<Rightarrow> if e = NX_ENOENT then Some [] else None)"

definition first_at :: "ramfs_state \<Rightarrow> string \<Rightarrow> nat \<Rightarrow> bool" where
  "first_at s d i \<longleftrightarrow> dir_child s d i \<noteq> None \<and> (\<forall>j < i. dir_child s d j \<noteq> dir_child s d i)"

definition children_from :: "ramfs_state \<Rightarrow> string \<Rightarrow> nat \<Rightarrow> string list" where
  "children_from s d i = map (\<lambda>j. the (dir_child s d j)) (filter (first_at s d) [i..<RAMFS_MAX_FILES])"

lemma dir_child_short: "ramfs_inv s \<Longrightarrow> i < RAMFS_MAX_FILES \<Longrightarrow> dir_child s d i = Some seg \<Longrightarrow> length seg < 32"
proof -
  assume inv: "ramfs_inv s" and i: "i < RAMFS_MAX_FILES" and c: "dir_child s d i = Some seg"
  have "length (rf_name (rs_files s ! i)) < 32"
    using ramfs_inv_file [OF inv i] c by (auto simp: file_ok_def dir_child_def split: if_splits)
  moreover have "length seg \<le> length (rf_name (rs_files s ! i))"
    using c by (auto simp: dir_child_def ramfs_match_child_def Let_def split: if_splits option.splits
      intro: order_trans [OF length_takeWhile_le])
  ultimately show ?thesis by simp
qed

lemma readdir_scan_spec:
  "readdir_scan s d i = (case filter (first_at s d) [i..<RAMFS_MAX_FILES] of [] \<Rightarrow> None
     | j # _ \<Rightarrow> Some (take 63 (the (dir_child s d j)), j + 1))"
proof (induction s d i rule: readdir_scan.induct)
  case (1 s d i)
  show ?case
  proof (cases "i < 32")
    case False
    then show ?thesis by (subst readdir_scan.simps) simp
  next
    case i: True
    then have u: "[i..<32] = i # [i + 1..<32]" by (simp add: upt_conv_Cons)
    show ?thesis
    proof (cases "first_at s d i")
      case True
      then obtain seg where seg: "dir_child s d i = Some seg" by (auto simp: first_at_def)
      have "\<not> list_ex (\<lambda>j. dir_child s d j = Some seg) [0..<i]" using True seg by (auto simp: first_at_def list_ex_iff)
      then show ?thesis using i True seg u by (subst readdir_scan.simps) simp
    next
      case False
      have "readdir_scan s d i = readdir_scan s d (i + 1)"
        using i False by (subst readdir_scan.simps) (auto simp: first_at_def list_ex_iff split: option.split)
      moreover have "readdir_scan s d (i + 1) = (case filter (first_at s d) [i + 1..<32] of [] \<Rightarrow> None
          | j # _ \<Rightarrow> Some (take 63 (the (dir_child s d j)), j + 1))"
      proof (cases "dir_child s d i")
        case None
        then show ?thesis using 1(1) [OF i] by simp
      next
        case (Some seg)
        then have "list_ex (\<lambda>j. dir_child s d j = Some seg) [0..<i]" using False by (auto simp: first_at_def list_ex_iff)
        then show ?thesis using 1(2) [OF i Some] by simp
      qed
      ultimately show ?thesis using False u by simp
    qed
  qed
qed

lemma upt_decomp:
  assumes "[i..<n] = us @ j # vs"
  shows "i \<le> j" "j < n" "vs = [j + 1..<n]"
proof -
  have len: "length us < n - i" using arg_cong [OF assms, of length] by simp
  have "j = [i..<n] ! length us" unfolding assms by (simp add: nth_append)
  then have j: "j = i + length us" using len by simp
  have "vs = drop (length us + 1) [i..<n]" unfolding assms by simp
  then show "vs = [j + 1..<n]" "i \<le> j" "j < n" using j len by (simp_all add: drop_upt)
qed

lemma list_dir_children:
  assumes inv: "ramfs_inv s" and d: "d \<noteq> []" "hd d = CHR ''/''"
  shows "32 - i < fuel \<Longrightarrow> list_dir fuel s d (i + 2) = Some (children_from s d i)"
proof (induction fuel arbitrary: i)
  case 0
  then show ?case by simp
next
  case (Suc fuel)
  have r: "ramfs_op_readdir s (Some d) (i + 2) = (case readdir_scan s d i of Some (name, k) \<Rightarrow> (k + 2, Inr name)
      | None \<Rightarrow> (32 + 2, Inl NX_ENOENT))" using d by (simp add: ramfs_op_readdir_def)
  show ?case
  proof (cases "filter (first_at s d) [i..<32]")
    case Nil
    then show ?thesis using r by (simp add: readdir_scan_spec children_from_def)
  next
    case (Cons j js)
    then obtain us vs where uv: "[i..<32] = us @ j # vs" "first_at s d j" "js = filter (first_at s d) vs"
      using Cons_eq_filterD [OF Cons [symmetric]] by auto
    note j = upt_decomp [OF uv(1)]
    obtain seg where seg: "dir_child s d j = Some seg" using uv(2) by (auto simp: first_at_def)
    have "take 63 seg = seg" using dir_child_short [OF inv j(2) seg] by simp
    then have step: "ramfs_op_readdir s (Some d) (i + 2) = (j + 1 + 2, Inr seg)"
      unfolding r readdir_scan_spec Cons using seg by simp
    have "32 - (j + 1) < fuel" using Suc.prems j by simp
    then have "list_dir fuel s d (j + 1 + 2) = Some (children_from s d (j + 1))" by (rule Suc.IH)
    then show ?thesis using step Cons seg uv(3) j(3) by (simp add: children_from_def)
  qed
qed

lemma children_distinct: "distinct (children_from s d i)"
proof -
  have "inj_on (\<lambda>j. the (dir_child s d j)) (set (filter (first_at s d) [i..<32]))"
  proof (rule linorder_inj_onI')
    fix a b assume "a \<in> set (filter (first_at s d) [i..<32])" "b \<in> set (filter (first_at s d) [i..<32])" "a < b"
    then show "the (dir_child s d a) \<noteq> the (dir_child s d b)" by (auto simp: first_at_def)
  qed
  then show ?thesis by (simp add: children_from_def distinct_map)
qed

lemma children_complete: "set (children_from s d 0) = {seg. \<exists>i < RAMFS_MAX_FILES. dir_child s d i = Some seg}"
proof (intro set_eqI iffI)
  fix seg assume "seg \<in> set (children_from s d 0)"
  then show "seg \<in> {seg. \<exists>i < RAMFS_MAX_FILES. dir_child s d i = Some seg}"
    by (auto simp: children_from_def first_at_def)
next
  fix seg assume "seg \<in> {seg. \<exists>i < RAMFS_MAX_FILES. dir_child s d i = Some seg}"
  then obtain i where i: "i < 32" "dir_child s d i = Some seg" by blast
  define m where "m = (LEAST i. dir_child s d i = Some seg)"
  have m: "dir_child s d m = Some seg" "m \<le> i" unfolding m_def using i by (auto intro: LeastI Least_le)
  moreover have "dir_child s d j \<noteq> Some seg" if "j < m" for j using not_less_Least that unfolding m_def by blast
  ultimately have "first_at s d m" by (simp add: first_at_def)
  then have "m \<in> set (filter (first_at s d) [0..<32])" using m(2) i(1) by simp
  then have "the (dir_child s d m) \<in> set (children_from s d 0)" unfolding children_from_def set_map by (rule imageI)
  then show "seg \<in> set (children_from s d 0)" using m(1) by simp
qed

text \<open>
  Listing a directory by repeated calls ends after at most 35 of them, whatever the table holds, and yields the
  two dot entries and then each immediate child exactly once.\<close>

theorem ramfs_listing_complete:
  assumes "ramfs_reach s" and "d \<noteq> []" and "hd d = CHR ''/''"
  shows "\<exists>names. list_dir 35 s d 0 = Some (''.'' # ''..'' # names) \<and> distinct names \<and>
    set names = {seg. \<exists>i < RAMFS_MAX_FILES. rf_in_use (rs_files s ! i) \<and>
      ramfs_match_child (rf_name (rs_files s ! i)) d (length d = 1) (length d) = Some seg}"
proof -
  have inv: "ramfs_inv s" by (rule ramfs_reach_inv [OF assms(1)])
  have l2: "list_dir 33 s d 2 = Some (children_from s d 0)"
    using list_dir_children [OF inv assms(2,3), of 0 33] by (simp add: numeral_2_eq_2)
  have rd: "ramfs_op_readdir s (Some d) 0 = (1, Inr ''.'')" "ramfs_op_readdir s (Some d) 1 = (2, Inr ''..'')"
    using assms(2,3) by (simp_all add: ramfs_op_readdir_def)
  have n: "(35 :: nat) = Suc (Suc 33)" by simp
  have "list_dir 35 s d 0 = Some (''.'' # ''..'' # children_from s d 0)"
    unfolding n list_dir.simps(2) rd prod.case sum.case l2 by simp
  moreover have "set (children_from s d 0) = {seg. \<exists>i < 32. rf_in_use (rs_files s ! i) \<and>
      ramfs_match_child (rf_name (rs_files s ! i)) d (length d = 1) (length d) = Some seg}"
    unfolding children_complete dir_child_def by (auto split: if_splits)
  ultimately show ?thesis using children_distinct by blast
qed

theorem ramfs_listing_complete_witness:
  "let s = fst (ramfs_op_mkdir (fst (ramfs_op_open (fst (ramfs_init [] ramfs_blank)) (Some ''/bin/sh'') 7)) (Some ''/bin/x''))
   in list_dir 35 s ''/bin'' 0 = Some [''.'', ''..'', ''sh'', ''x''] \<and> list_dir 35 s ''/'' 0 = Some [''.'', ''..'', ''bin''] \<and>
      (\<exists>names. list_dir 35 s ''/'' 0 = Some (''.'' # ''..'' # names) \<and> distinct names)"
proof -
  let ?s = "fst (ramfs_op_mkdir (fst (ramfs_op_open (fst (ramfs_init [] ramfs_blank)) (Some ''/bin/sh'') 7)) (Some ''/bin/x''))"
  have r: "ramfs_reach ?s" by (intro ramfs_reach.mkdir_step ramfs_reach.open_step blank_reach)
  have "list_dir 35 ?s ''/bin'' 0 = Some [''.'', ''..'', ''sh'', ''x'']" by code_simp
  moreover have "list_dir 35 ?s ''/'' 0 = Some [''.'', ''..'', ''bin'']" by code_simp
  moreover have "\<exists>names. list_dir 35 ?s ''/'' 0 = Some (''.'' # ''..'' # names) \<and> distinct names"
    using ramfs_listing_complete [OF r, of "''/''"] by auto
  ultimately show ?thesis unfolding Let_def by blast
qed

section \<open>Long paths\<close>

text \<open>
  Only the first 31 characters of a path are compared: when a file with a 31-character name exists, opening any
  longer path that starts with that name, with or without the create flag, opens the existing file.\<close>

theorem ramfs_long_path_opens_wrong_file:
  assumes "ramfs_reach s" and "find_idx (\<lambda>f. rf_in_use f \<and> rf_name f = name) (rs_files s) = Some i"
    and "length name = 31" and "rf_kind (rs_files s ! i) = KIND_FILE" and "flags AND NOT 15 = 0"
    and room: "\<exists>op \<in> set (rs_opens s). \<not> ro_in_use op"
  shows "\<exists>s1 k. ramfs_op_open s (Some (name @ extra)) flags = (s1, k + 1) \<and> ro_file (rs_opens s1 ! k) = Some i \<and>
    rs_files s1 = rs_files s"
proof -
  have inv: "ramfs_inv s" by (rule ramfs_reach_inv [OF assms(1)])
  have short: "strn_eq (rf_name f) (name @ extra) 31 \<longleftrightarrow> rf_name f = name" if "f \<in> set (rs_files s)" "rf_in_use f" for f
  proof -
    have "length (rf_name f) < 32" using inv that by (auto simp: ramfs_inv_def file_ok_def)
    then show ?thesis using assms(3) by (simp add: strn_eq_def)
  qed
  have "ramfs_find s (name @ extra) = find_idx (\<lambda>f. rf_in_use f \<and> rf_name f = name) (rs_files s)"
    unfolding ramfs_find_def using short by (intro find_idx_cong) auto
  then have f: "ramfs_find s (name @ extra) = Some i" using assms(2) by simp
  obtain k where k: "find_idx (\<lambda>op. \<not> ro_in_use op) (rs_opens s) = Some k"
    using room by (metis (no_types, lifting) find_idx_None_iff not_Some_eq)
  have len: "k < length (rs_opens s)" by (rule find_idx_SomeD [OF k])
  have known: "(1 :: u32) OR 2 OR 4 OR 8 = 15" by simp
  have "name \<noteq> []" using assms(3) by auto
  then show ?thesis using f k len assms(4,5)
    unfolding ramfs_op_open_def known by (simp add: Let_def ramfs_alloc_open_def open_to_id_def)
qed

theorem ramfs_long_path_opens_wrong_file_witness:
  "let s = fst (ramfs_op_open (fst (ramfs_init [] ramfs_blank)) (Some (''/'' @ replicate 30 (CHR ''a''))) 7);
       (s1, i) = ramfs_op_open s (Some (''/'' @ replicate 30 (CHR ''a'') @ ''b'')) 5
   in i = 2 \<and> ro_file (rs_opens s1 ! 1) = Some 0"
proof -
  let ?n = "''/'' @ replicate 30 (CHR ''a'')"
  let ?s = "fst (ramfs_op_open (fst (ramfs_init [] ramfs_blank)) (Some ?n) 7)"
  have r: "ramfs_reach ?s" by (rule ramfs_reach.open_step [OF blank_reach])
  have f: "find_idx (\<lambda>f. rf_in_use f \<and> rf_name f = ?n) (rs_files ?s) = Some 0" by code_simp
  have "rf_kind (rs_files ?s ! 0) = KIND_FILE" by code_simp
  moreover have "list_ex (\<lambda>op. \<not> ro_in_use op) (rs_opens ?s)" by code_simp
  ultimately obtain s1 k where o: "ramfs_op_open ?s (Some (?n @ ''b'')) 5 = (s1, k + 1)" "ro_file (rs_opens s1 ! k) = Some 0"
    using ramfs_long_path_opens_wrong_file [OF r f, of 5 "''b''"] by (auto simp: list_ex_iff)
  have "snd (ramfs_op_open ?s (Some (?n @ ''b'')) 5) = 2" by code_simp
  then have "k = 1" using o(1) by simp
  then show ?thesis using o by (simp add: Let_def)
qed

section \<open>Packing and loading an archive\<close>

lemma hex_digit_char: "d < 16 \<Longrightarrow> hex_digit (hex_char d) = Some (of_nat d)"
proof -
  assume "d < 16"
  then have "d \<in> set [0..<16]" by simp
  moreover have "list_all (\<lambda>d. hex_digit (hex_char d) = Some (of_nat d)) [0..<16]" by code_simp
  ultimately show ?thesis by (auto simp: list_all_iff)
qed

lemma push_digit: "d < 16 \<Longrightarrow> push_bit 4 v OR of_nat d = (16 * v + of_nat d :: u32)"
proof -
  assume d: "d < 16"
  have "\<not> bit (push_bit 4 v) n \<or> \<not> bit (of_nat d :: u32) n" for n
  proof (cases "n < 4")
    case False
    have "d = take_bit 4 d" using d by (simp add: take_bit_nat_eq_self)
    then have "\<not> bit d n" using False by (metis bit_take_bit_iff)
    then show ?thesis by (simp add: bit_of_nat_iff)
  qed (simp add: bit_simps)
  then show ?thesis by (simp add: disjunctive_add [symmetric] push_bit_eq_mult mult.commute)
qed

lemma hex_scan_digits:
  "\<forall>d \<in> set ds. d < 16 \<Longrightarrow> hex_scan (map hex_char ds) (of_nat v) = of_nat (foldl (\<lambda>v d. 16 * v + d) v ds)"
proof (induction ds arbitrary: v)
  case (Cons d ds)
  have "push_bit 4 (of_nat v) OR of_nat d = (of_nat (16 * v + d) :: u32)" using Cons.prems by (simp add: push_digit)
  then show ?case using Cons.IH [of "16 * v + d"] Cons.prems by (simp add: hex_digit_char)
qed simp

lemma digits_fold: "foldl (\<lambda>v d. 16 * v + d) (n div 16 ^ k) (map (\<lambda>i. n div 16 ^ i mod 16) (rev [0..<k])) = (n :: nat)"
proof (induction k)
  case (Suc k)
  have "n div 16 ^ Suc k = n div 16 ^ k div 16" by (simp only: power_Suc2 div_mult2_eq)
  then have "16 * (n div 16 ^ Suc k) + n div 16 ^ k mod 16 = n div 16 ^ k" by simp
  then show ?case using Suc by simp
qed simp

lemma hex8_Some:
  assumes "hex8 n = Some cs"
  shows "length cs = 8" "cpio_hex8 (cs @ rest) = of_nat n" "n \<le> 0xFFFFFFFF"
proof -
  have l: "[7, 6, 5, 4, 3, 2, 1, 0 :: nat] = rev [0..<8]" by (simp add: upt_rec)
  have n: "n \<le> 0xFFFFFFFF" and cs: "cs = map hex_char (map (\<lambda>k. n div 16 ^ k mod 16) (rev [0..<8]))"
    using assms unfolding hex8_def l by (auto split: if_splits)
  show "length cs = 8" "n \<le> 0xFFFFFFFF" using n by (simp_all add: cs)
  then have "cpio_hex8 (cs @ rest) = hex_scan cs (of_nat 0)" by (simp add: cpio_hex8_def)
  also have "\<dots> = of_nat (foldl (\<lambda>v d. 16 * v + d) (n div 16 ^ 8) (map (\<lambda>i. n div 16 ^ i mod 16) (rev [0..<8])))"
    unfolding cs using n by (subst hex_scan_digits) auto
  finally show "cpio_hex8 (cs @ rest) = of_nat n" by (simp only: digits_fold)
qed

lemma align4_pad: "length (pad4 b) = cpio_align4 (length b)"
  using cpio_align4_ge [of "length b"] by (simp add: pad4_def)

text \<open>The bytes that one entry adds to the archive.\<close>

lemma append_entry_shape:
  assumes "append_entry buf name data mode ino = Some b"
  obtains hs where "b = pad4 (pad4 (buf @ ''070701'' @ concat hs @ name @ [CHR 0x00]) @ data)"
    "length (concat hs) = 104"
    "\<forall>rest. cpio_hex8 (drop 8 (concat hs @ rest)) = of_nat mode"
    "\<forall>rest. cpio_hex8 (drop 48 (concat hs @ rest)) = of_nat (length data)"
    "\<forall>rest. cpio_hex8 (drop 88 (concat hs @ rest)) = of_nat (length name + 1)"
    "length data \<le> 0xFFFFFFFF" "length name + 1 \<le> 0xFFFFFFFF"
proof -
  obtain hs where hs: "those (map hex8 [ino, mode, 0, 0, 1, 0, length data, 0, 0, 0, 0, length name + 1, 0]) = Some hs"
    and b: "b = pad4 (pad4 (buf @ ''070701'' @ concat hs @ name @ [CHR 0x00]) @ data)"
    using assms unfolding append_entry_def Let_def by (auto split: option.splits)
  obtain h0 h1 h2 h3 h4 h5 h6 h7 h8 h9 h10 h11 h12 where h: "hs = [h0, h1, h2, h3, h4, h5, h6, h7, h8, h9, h10, h11, h12]"
    and e: "hex8 ino = Some h0" "hex8 mode = Some h1" "hex8 0 = Some h2" "hex8 0 = Some h3" "hex8 1 = Some h4" "hex8 0 = Some h5"
      "hex8 (length data) = Some h6" "hex8 0 = Some h7" "hex8 0 = Some h8" "hex8 0 = Some h9" "hex8 0 = Some h10"
      "hex8 (length name + 1) = Some h11" "hex8 0 = Some h12"
    using hs by (auto split: option.splits)
  note l = e [THEN hex8_Some(1)]
  show thesis
  proof (rule that [OF b])
    show "length (concat hs) = 104" by (simp add: h l)
    show "\<forall>rest. cpio_hex8 (drop 8 (concat hs @ rest)) = of_nat mode" by (simp add: h l hex8_Some(2) [OF e(2)])
    show "\<forall>rest. cpio_hex8 (drop 48 (concat hs @ rest)) = of_nat (length data)" by (simp add: h l hex8_Some(2) [OF e(7)])
    show "\<forall>rest. cpio_hex8 (drop 88 (concat hs @ rest)) = of_nat (length name + 1)"
      using hex8_Some(2) [OF e(12)] by (simp add: h l)
    show "length data \<le> 0xFFFFFFFF" "length name + 1 \<le> 0xFFFFFFFF"
      using hex8_Some(3) [OF e(7)] hex8_Some(3) [OF e(12)] by simp_all
  qed
qed

lemma unat_of_nat_field: "n \<le> 0xFFFFFFFF \<Longrightarrow> unat (of_nat n :: u32) = n"
  by (rule unat_of_nat_u32) simp

lemma trailer_iff:
  assumes "CHR 0x00 \<notin> set name"
  shows "length name \<ge> 10 \<and> take 11 (name @ [CHR 0x00] @ rest) = ''TRAILER!!!'' @ [CHR 0x00] \<longleftrightarrow> name = ''TRAILER!!!''"
proof
  assume l: "length name \<ge> 10 \<and> take 11 (name @ [CHR 0x00] @ rest) = ''TRAILER!!!'' @ [CHR 0x00]"
  show "name = ''TRAILER!!!''"
  proof (cases "length name = 10")
    case True
    then show ?thesis using l by simp
  next
    case False
    then have "11 \<le> length name" using l by linarith
    then have "take 11 name = ''TRAILER!!!'' @ [CHR 0x00]" using l by simp
    then have "CHR 0x00 \<in> set (take 11 name)" by simp
    then show ?thesis using assms by (meson in_set_takeD)
  qed
qed simp

text \<open>The loader's checks at the offset of a packed entry.\<close>

lemma cpio_entry_packed:
  assumes a: "append_entry buf name data mode ino = Some b" and blob: "blob = b @ post"
    and md: "mode < 0xFFFFFFFF" and ln: "length name + 1 < 0xFFFFFFFF" "length data < 0xFFFFFFFF"
    and nul: "CHR 0x00 \<notin> set name"
  defines "data_off \<equiv> cpio_align4 (length buf + 110 + (length name + 1))"
  shows "length buf + 110 \<le> length blob"
    and "cpio_entry blob (length buf) = (if name = ''TRAILER!!!'' then None
      else Some (of_nat mode, length name + 1, data_off, length data))"
    and "take (length data) (drop data_off blob) = data"
    and "drop (length buf + 110) blob = name @ [CHR 0x00] @ drop (length buf + 110 + (length name + 1)) blob"
    and "cpio_align4 (data_off + length data) = length b"
proof -
  obtain hs where b: "b = pad4 (pad4 (buf @ ''070701'' @ concat hs @ name @ [CHR 0x00]) @ data)"
    and l: "length (concat hs) = 104"
    and m: "\<forall>rest. cpio_hex8 (drop 8 (concat hs @ rest)) = of_nat mode"
    and f: "\<forall>rest. cpio_hex8 (drop 48 (concat hs @ rest)) = of_nat (length data)"
    and n: "\<forall>rest. cpio_hex8 (drop 88 (concat hs @ rest)) = of_nat (length name + 1)"
    and "length data \<le> 0xFFFFFFFF" "length name + 1 \<le> 0xFFFFFFFF"
    by (rule append_entry_shape [OF a])
  let ?x = "buf @ ''070701'' @ concat hs @ name @ [CHR 0x00]"
  have lx: "length (pad4 ?x) = data_off" using l by (simp add: align4_pad data_off_def ac_simps)
  define z where "z = replicate (cpio_align4 (length ?x) - length ?x) (CHR 0x00)"
  define y where "y = replicate (cpio_align4 (length (pad4 ?x @ data)) - length (pad4 ?x @ data)) (CHR 0x00)"
  have px: "pad4 ?x = ?x @ z" by (simp add: pad4_def z_def)
  have bl: "blob = pad4 ?x @ data @ y @ post" unfolding blob b by (simp add: pad4_def y_def)
  have bl2: "blob = buf @ ''070701'' @ concat hs @ name @ [CHR 0x00] @ z @ data @ y @ post" unfolding bl px by simp
  show "take (length data) (drop data_off blob) = data" unfolding bl lx [symmetric] by simp
  show al: "cpio_align4 (data_off + length data) = length b" unfolding b by (simp only: align4_pad [of "pad4 ?x @ data"] length_append lx)
  have dh: "drop (length buf) blob = ''070701'' @ concat hs @ name @ [CHR 0x00] @ z @ data @ y @ post" unfolding bl2 by simp
  have dn: "drop (length buf + 110) blob = name @ [CHR 0x00] @ z @ data @ y @ post"
    unfolding add.commute [of "length buf"] drop_drop [of 110 "length buf", symmetric] dh by (simp add: l)
  show "drop (length buf + 110) blob = name @ [CHR 0x00] @ drop (length buf + 110 + (length name + 1)) blob"
    unfolding add.commute [of "length buf + 110"] drop_drop [of "length name + 1" "length buf + 110", symmetric] dn by simp
  show "length buf + 110 \<le> length blob" unfolding bl2 using l by simp
  have fit: "length buf + 110 + (length name + 1) \<le> length blob" unfolding bl2 using l by simp
  have fit2: "data_off + length data \<le> length blob" unfolding bl using lx by simp
  have hdr: "take 6 (drop (length buf) blob) = ''070701''"
    "cpio_hex8 (drop (6 + 1 * 8) (drop (length buf) blob)) = of_nat mode"
    "cpio_hex8 (drop (6 + 6 * 8) (drop (length buf) blob)) = of_nat (length data)"
    "cpio_hex8 (drop (6 + 11 * 8) (drop (length buf) blob)) = of_nat (length name + 1)"
  proof -
    have d6: "drop (6 + k * 8) (''070701'' @ xs) = drop (k * 8) xs" for k and xs :: string
      unfolding drop_append by simp
    show "take 6 (drop (length buf) blob) = ''070701''" unfolding dh by simp
    show "cpio_hex8 (drop (6 + 1 * 8) (drop (length buf) blob)) = of_nat mode"
      unfolding dh d6 using m by (simp del: drop_append)
    show "cpio_hex8 (drop (6 + 6 * 8) (drop (length buf) blob)) = of_nat (length data)"
      unfolding dh d6 using f by (simp del: drop_append)
    show "cpio_hex8 (drop (6 + 11 * 8) (drop (length buf) blob)) = of_nat (length name + 1)"
      unfolding dh d6 using n by (simp del: drop_append)
  qed
  have ne: "(of_nat k :: u32) \<noteq> 0xFFFFFFFF" if "k < 0xFFFFFFFF" for k
    using that unat_of_nat_field [of k] by auto
  have un: "unat (of_nat (length name + 1) :: u32) = length name + 1" "unat (of_nat (length data) :: u32) = length data"
    using ln by (auto intro!: unat_of_nat_field simp del: of_nat_Suc of_nat_add)
  have big: "(of_nat (length name + 1) :: u32) \<ge> 11 \<longleftrightarrow> length name \<ge> 10"
    unfolding word_le_nat_alt un by simp
  have tr: "length name \<ge> 10 \<and> take 11 (drop (length buf + 110) blob) = ''TRAILER!!!'' @ [CHR 0x00] \<longleftrightarrow> name = ''TRAILER!!!''"
    unfolding dn by (rule trailer_iff [OF nul])
  show "cpio_entry blob (length buf) = (if name = ''TRAILER!!!'' then None
      else Some (of_nat mode, length name + 1, data_off, length data))"
  proof (cases "name = ''TRAILER!!!''")
    case True
    have "(11 :: u32) \<le> of_nat (length name + 1)" using big True by simp
    moreover have "take 11 (drop (length buf + 110) blob) = ''TRAILER!!!'' @ [CHR 0x00]" using tr True by blast
    ultimately show ?thesis unfolding cpio_entry_def Let_def hdr using True by simp
  next
    case False
    then have "\<not> ((11 :: u32) \<le> of_nat (length name + 1) \<and> take 11 (drop (length buf + 110) blob) = ''TRAILER!!!'' @ [CHR 0x00])"
      using big tr by blast
    then show ?thesis
      unfolding cpio_entry_def Let_def hdr un data_off_def [symmetric]
      using False ne [OF md] ne [OF ln(1)] ne [OF ln(2)] fit fit2 by (simp del: of_nat_Suc of_nat_add)
  qed
qed

lemma append_entry_prefix: "append_entry buf name data mode ino = Some b \<Longrightarrow> \<exists>e. b = buf @ e"
  by (auto simp: append_entry_def pad4_def Let_def split: option.splits)

lemma pack_entries_prefix: "pack_entries es ino buf = Some blob \<Longrightarrow> \<exists>e. blob = buf @ e"
proof (induction es arbitrary: ino buf)
  case Nil
  then show ?case using append_entry_prefix by simp
next
  case (Cons e es)
  then obtain b where "append_entry buf (lstrip_slash (fst e)) (snd e) 33188 ino = Some b" "pack_entries es (ino + 1) b = Some blob"
    by (auto split: if_splits option.splits)
  then show ?case using append_entry_prefix Cons.IH by fastforce
qed

lemma entry_path_packed:
  assumes "CHR 0x00 \<notin> set name" "length name < 31"
  shows "entry_path (name @ [CHR 0x00] @ rest) (length name + 1) = CHR ''/'' # name"
proof -
  have "takeWhile (\<lambda>c. c \<noteq> CHR 0x00) name = name" using assms(1) by (auto simp: takeWhile_eq_all_conv)
  then show ?thesis using assms(2) by (simp add: entry_path_def Let_def)
qed

text \<open>The files in use, as pairs of name and content.\<close>

definition stored :: "ramfs_state \<Rightarrow> (string \<times> string) list" where
  "stored s = map (\<lambda>f. (rf_name f, content f)) (filter rf_in_use (rs_files s))"

text \<open>The used entries of the table come first, and \<open>n\<close> free ones follow.\<close>

definition packed_table :: "ramfs_state \<Rightarrow> nat \<Rightarrow> bool" where
  "packed_table s n \<longleftrightarrow> (\<exists>us vs. rs_files s = us @ vs \<and> length vs = n \<and> (\<forall>f \<in> set us. rf_in_use f) \<and> (\<forall>f \<in> set vs. \<not> rf_in_use f))"

lemma find_idx_append:
  "\<forall>x \<in> set xs. \<not> P x \<Longrightarrow> find_idx P (xs @ ys) = map_option (\<lambda>i. length xs + i) (find_idx P ys)"
proof (induction xs)
  case Nil
  then show ?case by (cases "find_idx P ys") simp_all
next
  case (Cons x xs)
  then show ?case by (cases "find_idx P ys") simp_all
qed

lemma seed_packed:
  assumes "packed_table s (Suc n)" "path \<noteq> []" "length path < RAMFS_NAME_MAX"
  shows "snd (seed_file s path bytes) = 1" "packed_table (fst (seed_file s path bytes)) n"
    "stored (fst (seed_file s path bytes)) = stored s @ [(path, bytes)]"
proof -
  obtain us ws where w: "rs_files s = us @ ws" "length ws = Suc n" "\<forall>f \<in> set us. rf_in_use f" "\<forall>f \<in> set ws. \<not> rf_in_use f"
    using assms(1) unfolding packed_table_def by blast
  then obtain v vs where "ws = v # vs" by (cases ws) simp_all
  with w have t: "rs_files s = us @ v # vs" "length vs = n" "\<forall>f \<in> set us. rf_in_use f" "\<forall>f \<in> set (v # vs). \<not> rf_in_use f"
    by simp_all
  let ?f = "v\<lparr>rf_in_use := True, rf_kind := KIND_FILE, rf_name := path, rf_size := 0\<rparr>"
  let ?g = "?f\<lparr>rf_data := data_copy (rf_data ?f) 0 bytes, rf_size := length bytes\<rparr>"
  have "find_idx (\<lambda>f. \<not> rf_in_use f) (rs_files s) = Some (length us)"
    using t by (simp add: find_idx_append)
  then have "ramfs_create_entry s path KIND_FILE = (s\<lparr>rs_files := us @ ?f # vs\<rparr>, Some (length us))"
    using assms(2,3) t(1) by (simp add: ramfs_create_entry_def Let_def)
  then have sd: "seed_file s path bytes = (s\<lparr>rs_files := us @ ?g # vs\<rparr>, 1)"
    by (simp add: seed_file_def ramfs_create_file_def Let_def)
  show "snd (seed_file s path bytes) = 1" by (simp add: sd)
  have "rs_files (fst (seed_file s path bytes)) = (us @ [?g]) @ vs" by (simp add: sd)
  moreover have "\<forall>f \<in> set (us @ [?g]). rf_in_use f" using t(3) by simp
  ultimately show "packed_table (fst (seed_file s path bytes)) n"
    unfolding packed_table_def using t(2,4) by (intro exI [of _ "us @ [?g]"] exI [of _ vs]) simp
  have "content ?g = bytes" by (rule nth_equalityI) (simp_all add: content_def data_copy_def)
  then show "stored (fst (seed_file s path bytes)) = stored s @ [(path, bytes)]"
    using t by (simp add: stored_def sd filter_empty_conv [THEN iffD2])
qed

text \<open>What the packer accepts and the table can hold.\<close>

definition entry_fits :: "string \<times> string \<Rightarrow> bool" where
  "entry_fits e \<longleftrightarrow> CHR 0x00 \<notin> set (fst e) \<and> length (lstrip_slash (fst e)) < 31 \<and> lstrip_slash (fst e) \<noteq> ''TRAILER!!!'' \<and>
     length (snd e) \<le> RAMFS_FILE_CAP"

lemma slurp_packed:
  "pack_entries es ino buf = Some blob \<Longrightarrow> packed_table s (length es + m) \<Longrightarrow> \<forall>e \<in> set es. entry_fits e \<Longrightarrow>
     snd (slurp_from blob (length buf) cnt s) = cnt + length es \<and>
     stored (fst (slurp_from blob (length buf) cnt s)) = stored s @ map (\<lambda>e. (CHR ''/'' # lstrip_slash (fst e), snd e)) es"
proof (induction es arbitrary: ino buf s cnt)
  case Nil
  then have a: "append_entry buf ''TRAILER!!!'' [] 0 0 = Some blob" by simp
  have "cpio_entry blob (length buf) = None" by (subst cpio_entry_packed(2) [OF a, of blob "[]"]) simp_all
  then show ?case by (subst (1 2) slurp_from.simps) simp
next
  case (Cons e es)
  let ?n = "lstrip_slash (fst e)" and ?d = "snd e"
  obtain b where a: "append_entry buf ?n ?d 33188 ino = Some b" and p: "pack_entries es (ino + 1) b = Some blob"
    using Cons.prems(1) by (auto split: if_splits option.splits)
  obtain post where blob: "blob = b @ post" using pack_entries_prefix [OF p] by blast
  have fit: "CHR 0x00 \<notin> set ?n" "length ?n < 31" "?n \<noteq> ''TRAILER!!!''" "length ?d \<le> 4194304"
    using Cons.prems(3) set_dropWhileD [of "CHR 0x00" _ "fst e"] by (auto simp: entry_fits_def lstrip_slash_def)
  have num: "(33188 :: nat) < 0xFFFFFFFF" "length ?n + 1 < 0xFFFFFFFF" "length ?d < 0xFFFFFFFF" using fit by simp_all
  define off where "off = cpio_align4 (length buf + 110 + (length ?n + 1))"
  note c = cpio_entry_packed [OF a blob num fit(1), folded off_def]
  have ce: "cpio_entry blob (length buf) = Some (of_nat 33188, length ?n + 1, off, length ?d)" unfolding c(2) using fit(3) by simp
  have path: "entry_path (drop (length buf + 110) blob) (length ?n + 1) = CHR ''/'' # ?n"
    unfolding c(4) by (rule entry_path_packed [OF fit(1,2)])
  have md: "(33188 :: u32) AND 0xF000 = 0x8000" by simp
  let ?sk = "seed_file s (CHR ''/'' # ?n) ?d"
  have rec: "slurp_from blob (length buf) cnt s = slurp_from blob (length b) (cnt + snd ?sk) (fst ?sk)"
    unfolding slurp_from.simps [of blob "length buf" cnt s] ce option.case prod.case Let_def path c(3) c(5)
    using c(1) fit(4) md by simp
  have pt: "packed_table s (Suc (length es + m))" using Cons.prems(2) by simp
  note sd = seed_packed [OF pt, of "CHR ''/'' # ?n" ?d]
  have "length (CHR ''/'' # ?n) < 32" using fit(2) by simp
  then show ?case
    unfolding rec using Cons.IH [OF p sd(2)] Cons.prems(3) sd(1,3) by simp
qed

text \<open>
  C2. Loading what the packer wrote gives back the packed files: for any list of entries that fit the table, the
  initialised file system holds exactly these files in this order, under their names with one leading slash and
  with their contents.\<close>

theorem initramfs_roundtrip:
  assumes "pack_initramfs es = Some blob" and "length es \<le> RAMFS_MAX_FILES" and "\<forall>e \<in> set es. entry_fits e"
    and "length (rs_files s) = RAMFS_MAX_FILES"
  shows "stored (fst (ramfs_init blob s)) = map (\<lambda>(name, bytes). (''/'' @ lstrip_slash name, bytes)) es"
proof -
  let ?s = "s\<lparr>rs_files := map (\<lambda>f. f\<lparr>rf_in_use := False\<rparr>) (rs_files s), rs_opens := map (\<lambda>op. op\<lparr>ro_in_use := False\<rparr>) (rs_opens s)\<rparr>"
  have p: "pack_entries es 1 [] = Some blob" using assms(1) by (simp add: pack_initramfs_def)
  have none: "rs_files ?s = [] @ rs_files ?s" "\<forall>f \<in> set (rs_files ?s). \<not> rf_in_use f" by auto
  have "packed_table ?s (length es + (32 - length es))"
    unfolding packed_table_def using assms(2,4) none by (intro exI [of _ "[]"] exI [of _ "rs_files ?s"]) simp
  from slurp_packed [OF p this assms(3), of 0]
  have "stored (fst (ramfs_slurp_initramfs ?s blob)) = stored ?s @ map (\<lambda>e. (CHR ''/'' # lstrip_slash (fst e), snd e)) es"
    by (simp add: ramfs_slurp_initramfs_def)
  moreover have "stored ?s = []" by (simp add: stored_def filter_empty_conv)
  moreover have "blob \<noteq> []"
  proof
    assume "blob = []"
    then have "slurp_from blob 0 0 ?s = (?s, 0)" by (subst slurp_from.simps) simp
    then have "es = []" using slurp_packed [OF p \<open>packed_table ?s _\<close> assms(3), of 0] by simp
    then show False using p \<open>blob = []\<close> append_entry_shape [of "[]" "''TRAILER!!!''" "[]" 0 0 "[]"] by (auto simp: pad4_def)
  qed
  ultimately show ?thesis by (simp add: ramfs_init_def Let_def stored_def case_prod_unfold)
qed

theorem initramfs_roundtrip_witness:
  "case pack_initramfs [(''/init'', ''AB''), (''/bin/sh'', ''xyz'')] of None \<Rightarrow> False
   | Some blob \<Rightarrow> stored (fst (ramfs_init blob ramfs_blank)) = [(''/init'', ''AB''), (''/bin/sh'', ''xyz'')]"
proof -
  let ?es = "[(''/init'', ''AB''), (''/bin/sh'', ''xyz'')]"
  have "pack_initramfs ?es \<noteq> None" by code_simp
  then obtain blob where b: "pack_initramfs ?es = Some blob" by blast
  have "\<forall>e \<in> set ?es. entry_fits e" by (simp add: entry_fits_def lstrip_slash_def)
  from initramfs_roundtrip [OF b _ this, of ramfs_blank] show ?thesis
    unfolding b by (simp add: ramfs_blank_def lstrip_slash_def)
qed

end
