(* ===== verification/Nx_Vfs.thy ===== *)
theory Nx_Vfs
  imports Nx_Ramfs
begin

text \<open>
  The VFS layer (\<^verbatim>\<open>components/vfs_simple/vfs_simple.c\<close>) and the calls it makes to file-system drivers
  (\<^verbatim>\<open>framework/fs_call.c\<close>, \<^verbatim>\<open>framework/fs_dispatch.h\<close>, the kernel build's message path). A request or reply structure
  with its operation number is a constructor of a datatype; the buffers that a request points to are part of it. A
  slot is the state of the driver that is active in it, if any. The locale of this theory is the contract
  that the VFS relies on: what a driver's open, close and retain do to its reference counts. It is interpreted
  on the ramfs operations.
\<close>

section \<open>Driver interface and messages\<close>

record 'd nx_fs_ops =
  fop_open :: "'d \<Rightarrow> string option \<Rightarrow> u32 \<Rightarrow> 'd \<times> nat"
  fop_close :: "'d \<Rightarrow> nat \<Rightarrow> 'd"
  fop_retain :: "'d \<Rightarrow> nat \<Rightarrow> 'd"
  fop_read :: "'d \<Rightarrow> nat \<Rightarrow> ptr \<Rightarrow> nat \<Rightarrow> 'd \<times> (nx_status + string)"
  fop_write :: "'d \<Rightarrow> nat \<Rightarrow> ptr \<Rightarrow> string \<Rightarrow> 'd \<times> (nx_status + nat)"
  fop_seek :: "'d \<Rightarrow> nat \<Rightarrow> int \<Rightarrow> int \<Rightarrow> 'd \<times> (nx_status + nat)"
  fop_readdir :: "'d \<Rightarrow> string option \<Rightarrow> nat \<Rightarrow> nat \<times> (nx_status + string)"
  fop_mkdir :: "'d \<Rightarrow> string option \<Rightarrow> 'd \<times> nx_status"
  fop_stat :: "'d \<Rightarrow> string option \<Rightarrow> nx_status + fs_kind \<times> nat"

definition ramfs_fs_ops :: "ramfs_state nx_fs_ops" where
  "ramfs_fs_ops = \<lparr>fop_open = ramfs_op_open, fop_close = ramfs_op_close, fop_retain = ramfs_op_retain,
     fop_read = ramfs_op_read, fop_write = ramfs_op_write, fop_seek = ramfs_op_seek, fop_readdir = ramfs_op_readdir,
     fop_mkdir = ramfs_op_mkdir, fop_stat = ramfs_op_stat\<rparr>"

datatype nx_fs_msg =
    Msg_open string u32
  | Msg_close nat
  | Msg_retain nat
  | Msg_read nat ptr nat
  | Msg_write nat ptr string
  | Msg_seek nat int int
  | Msg_readdir string nat
  | Msg_mkdir string
  | Msg_stat string
  | Msg_unknown

datatype nx_fs_reply =
    Reply_open nat
  | Reply_close
  | Reply_retain
  | Reply_read "nx_status + string"
  | Reply_write "nx_status + nat"
  | Reply_seek "nx_status + nat"
  | Reply_readdir nat "nx_status + string"
  | Reply_mkdir nx_status
  | Reply_stat "nx_status + fs_kind \<times> nat"

text \<open>The reply that is written over the request; an unknown operation writes none.\<close>

fun nx_fs_dispatch :: "'d nx_fs_ops \<Rightarrow> 'd \<Rightarrow> nx_fs_msg \<Rightarrow> 'd \<times> nx_fs_reply option" where
  "nx_fs_dispatch ops d (Msg_open path flags) = (case fop_open ops d (Some path) flags of (d1, rc) \<Rightarrow> (d1, Some (Reply_open rc)))"
| "nx_fs_dispatch ops d (Msg_close i) = (fop_close ops d i, Some Reply_close)"
| "nx_fs_dispatch ops d (Msg_retain i) = (fop_retain ops d i, Some Reply_retain)"
| "nx_fs_dispatch ops d (Msg_read i buf cap) = (case fop_read ops d i buf cap of (d1, rc) \<Rightarrow> (d1, Some (Reply_read rc)))"
| "nx_fs_dispatch ops d (Msg_write i buf bytes) = (case fop_write ops d i buf bytes of (d1, rc) \<Rightarrow> (d1, Some (Reply_write rc)))"
| "nx_fs_dispatch ops d (Msg_seek i offset whence) = (case fop_seek ops d i offset whence of (d1, rc) \<Rightarrow> (d1, Some (Reply_seek rc)))"
| "nx_fs_dispatch ops d (Msg_readdir path cookie) =
     (case fop_readdir ops d (Some path) cookie of (c, rc) \<Rightarrow> (d, Some (Reply_readdir c rc)))"
| "nx_fs_dispatch ops d (Msg_mkdir path) = (case fop_mkdir ops d (Some path) of (d1, rc) \<Rightarrow> (d1, Some (Reply_mkdir rc)))"
| "nx_fs_dispatch ops d (Msg_stat path) = (d, Some (Reply_stat (fop_stat ops d (Some path))))"
| "nx_fs_dispatch ops d Msg_unknown = (d, None)"

section \<open>Caller-side wrappers\<close>

abbreviation (input) FS_PATH_CAP :: nat where "FS_PATH_CAP \<equiv> 128"

definition copy_path :: "nat \<Rightarrow> string option \<Rightarrow> string" where
  "copy_path cap src = (case src of None \<Rightarrow> [] | Some p \<Rightarrow> take (cap - 1) p)"

text \<open>The test of \<^verbatim>\<open>disp_resolve\<close> is the match on the slot.\<close>

definition nx_fs_open :: "'d nx_fs_ops \<Rightarrow> 'd option \<Rightarrow> string option \<Rightarrow> u32 \<Rightarrow> 'd option \<times> nat" where
  "nx_fs_open ops slot path flags =
     (case slot of None \<Rightarrow> (None, 0)
      | Some d \<Rightarrow>
          (case nx_fs_dispatch ops d (Msg_open (copy_path FS_PATH_CAP path) flags) of
             (d1, rep) \<Rightarrow> (Some d1, case rep of Some (Reply_open rc) \<Rightarrow> rc | _ \<Rightarrow> 0)))"

definition nx_fs_close :: "'d nx_fs_ops \<Rightarrow> 'd option \<Rightarrow> nat \<Rightarrow> 'd option" where
  "nx_fs_close ops slot i = (case slot of None \<Rightarrow> None | Some d \<Rightarrow> Some (fst (nx_fs_dispatch ops d (Msg_close i))))"

definition nx_fs_retain :: "'d nx_fs_ops \<Rightarrow> 'd option \<Rightarrow> nat \<Rightarrow> 'd option" where
  "nx_fs_retain ops slot i = (case slot of None \<Rightarrow> None | Some d \<Rightarrow> Some (fst (nx_fs_dispatch ops d (Msg_retain i))))"

definition nx_fs_read :: "'d nx_fs_ops \<Rightarrow> 'd option \<Rightarrow> nat \<Rightarrow> ptr \<Rightarrow> nat \<Rightarrow> 'd option \<times> (nx_status + string)" where
  "nx_fs_read ops slot i buf cap =
     (case slot of None \<Rightarrow> (None, Inl NX_EINVAL)
      | Some d \<Rightarrow>
          (case nx_fs_dispatch ops d (Msg_read i buf cap) of
             (d1, rep) \<Rightarrow> (Some d1, case rep of Some (Reply_read rc) \<Rightarrow> rc | _ \<Rightarrow> Inl NX_EINVAL)))"

definition nx_fs_write :: "'d nx_fs_ops \<Rightarrow> 'd option \<Rightarrow> nat \<Rightarrow> ptr \<Rightarrow> string \<Rightarrow> 'd option \<times> (nx_status + nat)" where
  "nx_fs_write ops slot i buf bytes =
     (case slot of None \<Rightarrow> (None, Inl NX_EINVAL)
      | Some d \<Rightarrow>
          (case nx_fs_dispatch ops d (Msg_write i buf bytes) of
             (d1, rep) \<Rightarrow> (Some d1, case rep of Some (Reply_write rc) \<Rightarrow> rc | _ \<Rightarrow> Inl NX_EINVAL)))"

definition nx_fs_seek :: "'d nx_fs_ops \<Rightarrow> 'd option \<Rightarrow> nat \<Rightarrow> int \<Rightarrow> int \<Rightarrow> 'd option \<times> (nx_status + nat)" where
  "nx_fs_seek ops slot i offset whence =
     (case slot of None \<Rightarrow> (None, Inl NX_EINVAL)
      | Some d \<Rightarrow>
          (case nx_fs_dispatch ops d (Msg_seek i offset whence) of
             (d1, rep) \<Rightarrow> (Some d1, case rep of Some (Reply_seek rc) \<Rightarrow> rc | _ \<Rightarrow> Inl NX_EINVAL)))"

definition nx_fs_readdir :: "'d nx_fs_ops \<Rightarrow> 'd option \<Rightarrow> string option \<Rightarrow> nat \<Rightarrow> nat \<times> (nx_status + string)" where
  "nx_fs_readdir ops slot dir_path cookie =
     (case slot of None \<Rightarrow> (cookie, Inl NX_EINVAL)
      | Some d \<Rightarrow>
          (case snd (nx_fs_dispatch ops d (Msg_readdir (copy_path FS_PATH_CAP dir_path) cookie)) of
             Some (Reply_readdir c rc) \<Rightarrow> (c, rc) | _ \<Rightarrow> (cookie, Inl NX_EINVAL)))"

definition nx_fs_mkdir :: "'d nx_fs_ops \<Rightarrow> 'd option \<Rightarrow> string option \<Rightarrow> 'd option \<times> nx_status" where
  "nx_fs_mkdir ops slot path =
     (case slot of None \<Rightarrow> (None, NX_EINVAL)
      | Some d \<Rightarrow>
          (case nx_fs_dispatch ops d (Msg_mkdir (copy_path FS_PATH_CAP path)) of
             (d1, rep) \<Rightarrow> (Some d1, case rep of Some (Reply_mkdir rc) \<Rightarrow> rc | _ \<Rightarrow> NX_EINVAL)))"

definition nx_fs_stat :: "'d nx_fs_ops \<Rightarrow> 'd option \<Rightarrow> string option \<Rightarrow> nx_status + fs_kind \<times> nat" where
  "nx_fs_stat ops slot path =
     (case slot of None \<Rightarrow> Inl NX_EINVAL
      | Some d \<Rightarrow>
          (case snd (nx_fs_dispatch ops d (Msg_stat (copy_path FS_PATH_CAP path))) of
             Some (Reply_stat r) \<Rightarrow> r | _ \<Rightarrow> Inl NX_EINVAL))"

section \<open>The VFS component\<close>

abbreviation (input) VFS_SIMPLE_MAX_OPEN :: nat where "VFS_SIMPLE_MAX_OPEN \<equiv> 108"

record vfs_simple_open =
  vo_in_use :: bool
  vo_refs :: int
  vo_mount :: string
  vo_driver_id :: nat

text \<open>The open table, and the slots by name with the driver that is active in each.\<close>

record 'd vfs_world =
  vw_opens :: "vfs_simple_open list"
  vw_slots :: "string \<Rightarrow> 'd option"
  vw_init_called :: u32
  vw_enable_called :: u32
  vw_disable_called :: u32
  vw_destroy_called :: u32

definition vfs_simple_alloc_wrapper :: "'d vfs_world \<Rightarrow> 'd vfs_world \<times> nat option" where
  "vfs_simple_alloc_wrapper v =
     (case find_idx (\<lambda>w. \<not> vo_in_use w) (vw_opens v) of
        None \<Rightarrow> (v, None)
      | Some i \<Rightarrow> (v\<lparr>vw_opens := (vw_opens v)[i := (vw_opens v ! i)\<lparr>vo_in_use := True\<rparr>]\<rparr>, Some i))"

definition vfs_simple_free_wrapper :: "'d vfs_world \<Rightarrow> nat \<Rightarrow> 'd vfs_world" where
  "vfs_simple_free_wrapper v i =
     v\<lparr>vw_opens := (vw_opens v)[i := \<lparr>vo_in_use = False, vo_refs = 0, vo_mount = [], vo_driver_id = 0\<rparr>]\<rparr>"

definition vfs_simple_wrap_to_id :: "nat \<Rightarrow> nat" where
  "vfs_simple_wrap_to_id i = i + 1"

definition vfs_simple_id_to_wrap :: "'d vfs_world \<Rightarrow> nat \<Rightarrow> nat option" where
  "vfs_simple_id_to_wrap v i =
     (if i = 0 \<or> i > VFS_SIMPLE_MAX_OPEN then None
      else if vo_in_use (vw_opens v ! (i - 1)) then Some (i - 1) else None)"

definition mount_for_path :: "string \<Rightarrow> string" where
  "mount_for_path path =
     (if take 5 path = ''/proc'' \<and> (length path = 5 \<or> path ! 5 = CHR ''/'') then ''filesystem.proc''
      else ''filesystem.root'')"

type_synonym 'd mount_ops = "string \<Rightarrow> 'd nx_fs_ops"

definition vfs_simple_open_op :: "'d mount_ops \<Rightarrow> 'd vfs_world \<Rightarrow> string option \<Rightarrow> u32 \<Rightarrow> 'd vfs_world \<times> nat" where
  "vfs_simple_open_op ops v path flags =
     (case path of None \<Rightarrow> (v, 0)
      | Some p \<Rightarrow>
          if p = [] \<or> hd p \<noteq> CHR ''/'' then (v, 0)
          else
            let mount = mount_for_path p in
            case vfs_simple_alloc_wrapper v of
              (v1, None) \<Rightarrow> (v1, 0)
            | (v1, Some i) \<Rightarrow>
                (case nx_fs_open (ops mount) (vw_slots v1 mount) (Some p) flags of
                   (d, driver_id) \<Rightarrow>
                     let v2 = v1\<lparr>vw_slots := (vw_slots v1)(mount := d)\<rparr> in
                     if driver_id = 0 then (vfs_simple_free_wrapper v2 i, 0)
                     else (v2\<lparr>vw_opens := (vw_opens v2)[i := (vw_opens v2 ! i)\<lparr>vo_refs := 1, vo_mount := mount,
                             vo_driver_id := driver_id\<rparr>]\<rparr>, vfs_simple_wrap_to_id i)))"

definition vfs_simple_close :: "'d mount_ops \<Rightarrow> 'd vfs_world \<Rightarrow> nat \<Rightarrow> 'd vfs_world" where
  "vfs_simple_close ops v i =
     (if i = 0 then v
      else case vfs_simple_id_to_wrap v i of None \<Rightarrow> v
        | Some k \<Rightarrow>
            let w = vw_opens v ! k; m = vo_mount w;
                v1 = v\<lparr>vw_slots := (vw_slots v)(m := nx_fs_close (ops m) (vw_slots v m) (vo_driver_id w))\<rparr>;
                w1 = (if vo_refs w > 0 then w\<lparr>vo_refs := vo_refs w - 1\<rparr> else w)
            in if vo_refs w > 0 \<and> vo_refs w1 > 0 then v1\<lparr>vw_opens := (vw_opens v1)[k := w1]\<rparr>
               else vfs_simple_free_wrapper v1 k)"

definition vfs_simple_retain :: "'d mount_ops \<Rightarrow> 'd vfs_world \<Rightarrow> nat \<Rightarrow> 'd vfs_world" where
  "vfs_simple_retain ops v i =
     (if i = 0 then v
      else case vfs_simple_id_to_wrap v i of None \<Rightarrow> v
        | Some k \<Rightarrow>
            let w = vw_opens v ! k; m = vo_mount w in
            if vw_slots v m = None then v
            else v\<lparr>vw_slots := (vw_slots v)(m := nx_fs_retain (ops m) (vw_slots v m) (vo_driver_id w)),
                   vw_opens := (vw_opens v)[k := w\<lparr>vo_refs := vo_refs w + 1\<rparr>]\<rparr>)"

definition vfs_simple_read :: "'d mount_ops \<Rightarrow> 'd vfs_world \<Rightarrow> nat \<Rightarrow> ptr \<Rightarrow> nat \<Rightarrow> 'd vfs_world \<times> (nx_status + string)" where
  "vfs_simple_read ops v i buf cap =
     (case vfs_simple_id_to_wrap v i of None \<Rightarrow> (v, Inl NX_EINVAL)
      | Some k \<Rightarrow>
          let w = vw_opens v ! k; m = vo_mount w in
          case nx_fs_read (ops m) (vw_slots v m) (vo_driver_id w) buf cap of
            (d, rc) \<Rightarrow> (v\<lparr>vw_slots := (vw_slots v)(m := d)\<rparr>, rc))"

definition vfs_simple_write :: "'d mount_ops \<Rightarrow> 'd vfs_world \<Rightarrow> nat \<Rightarrow> ptr \<Rightarrow> string \<Rightarrow> 'd vfs_world \<times> (nx_status + nat)" where
  "vfs_simple_write ops v i buf bytes =
     (case vfs_simple_id_to_wrap v i of None \<Rightarrow> (v, Inl NX_EINVAL)
      | Some k \<Rightarrow>
          let w = vw_opens v ! k; m = vo_mount w in
          case nx_fs_write (ops m) (vw_slots v m) (vo_driver_id w) buf bytes of
            (d, rc) \<Rightarrow> (v\<lparr>vw_slots := (vw_slots v)(m := d)\<rparr>, rc))"

definition vfs_simple_seek :: "'d mount_ops \<Rightarrow> 'd vfs_world \<Rightarrow> nat \<Rightarrow> int \<Rightarrow> int \<Rightarrow> 'd vfs_world \<times> (nx_status + nat)" where
  "vfs_simple_seek ops v i offset whence =
     (case vfs_simple_id_to_wrap v i of None \<Rightarrow> (v, Inl NX_EINVAL)
      | Some k \<Rightarrow>
          let w = vw_opens v ! k; m = vo_mount w in
          case nx_fs_seek (ops m) (vw_slots v m) (vo_driver_id w) offset whence of
            (d, rc) \<Rightarrow> (v\<lparr>vw_slots := (vw_slots v)(m := d)\<rparr>, rc))"

definition absolute :: "string option \<Rightarrow> bool" where
  "absolute path \<longleftrightarrow> (case path of None \<Rightarrow> False | Some p \<Rightarrow> p \<noteq> [] \<and> hd p = CHR ''/'')"

definition vfs_simple_readdir :: "'d mount_ops \<Rightarrow> 'd vfs_world \<Rightarrow> string option \<Rightarrow> nat \<Rightarrow> nat \<times> (nx_status + string)" where
  "vfs_simple_readdir ops v dir_path cookie =
     (if \<not> absolute dir_path then (cookie, Inl NX_EINVAL)
      else let m = mount_for_path (the dir_path) in nx_fs_readdir (ops m) (vw_slots v m) dir_path cookie)"

definition vfs_simple_mkdir :: "'d mount_ops \<Rightarrow> 'd vfs_world \<Rightarrow> string option \<Rightarrow> 'd vfs_world \<times> nx_status" where
  "vfs_simple_mkdir ops v path =
     (if \<not> absolute path then (v, NX_EINVAL)
      else let m = mount_for_path (the path) in
        case nx_fs_mkdir (ops m) (vw_slots v m) path of (d, rc) \<Rightarrow> (v\<lparr>vw_slots := (vw_slots v)(m := d)\<rparr>, rc))"

definition vfs_simple_stat :: "'d mount_ops \<Rightarrow> 'd vfs_world \<Rightarrow> string option \<Rightarrow> nx_status + fs_kind \<times> nat" where
  "vfs_simple_stat ops v path =
     (if \<not> absolute path then Inl NX_EINVAL
      else let m = mount_for_path (the path) in nx_fs_stat (ops m) (vw_slots v m) path)"

definition vfs_simple_init :: "'d vfs_world \<Rightarrow> 'd vfs_world \<times> nx_status" where
  "vfs_simple_init v = (v\<lparr>vw_init_called := vw_init_called v + 1\<rparr>, NX_OK)"

definition vfs_simple_enable :: "'d vfs_world \<Rightarrow> 'd vfs_world \<times> nx_status" where
  "vfs_simple_enable v = (v\<lparr>vw_enable_called := vw_enable_called v + 1\<rparr>, NX_OK)"

definition vfs_simple_disable :: "'d vfs_world \<Rightarrow> 'd vfs_world \<times> nx_status" where
  "vfs_simple_disable v = (v\<lparr>vw_disable_called := vw_disable_called v + 1\<rparr>, NX_OK)"

definition vfs_simple_destroy :: "'d vfs_world \<Rightarrow> 'd vfs_world" where
  "vfs_simple_destroy v = v\<lparr>vw_destroy_called := vw_destroy_called v + 1\<rparr>"

section \<open>Message passing is a direct call\<close>

lemmas fs_call_defs [nx_defs] = nx_fs_open_def nx_fs_close_def nx_fs_retain_def nx_fs_read_def nx_fs_write_def
  nx_fs_seek_def nx_fs_readdir_def nx_fs_mkdir_def nx_fs_stat_def copy_path_def


section \<open>The driver contract\<close>

text \<open>
  \<open>refs m d i\<close> is the number of references to open \<open>i\<close> of the driver at mount \<open>m\<close> in state \<open>d\<close>; \<open>ok m\<close> is that driver's invariant.
\<close>

locale fs_drivers =
  fixes ops :: "'d mount_ops" and refs :: "string \<Rightarrow> 'd \<Rightarrow> nat \<Rightarrow> int" and ok :: "string \<Rightarrow> 'd \<Rightarrow> bool"
  assumes refs_nonneg: "ok m d \<Longrightarrow> 0 \<le> refs m d i"
    and open_fail: "ok m d \<Longrightarrow> fop_open (ops m) d path flags = (d1, 0) \<Longrightarrow> ok m d1 \<and> refs m d1 = refs m d"
    and open_new: "ok m d \<Longrightarrow> fop_open (ops m) d path flags = (d1, i) \<Longrightarrow> i \<noteq> 0 \<Longrightarrow>
      ok m d1 \<and> refs m d i = 0 \<and> refs m d1 = (refs m d)(i := 1)"
    and close_drops: "ok m d \<Longrightarrow> 0 < refs m d i \<Longrightarrow>
      ok m (fop_close (ops m) d i) \<and> refs m (fop_close (ops m) d i) = (refs m d)(i := refs m d i - 1)"
    and retain_adds: "ok m d \<Longrightarrow> 0 < refs m d i \<Longrightarrow>
      ok m (fop_retain (ops m) d i) \<and> refs m (fop_retain (ops m) d i) = (refs m d)(i := refs m d i + 1)"
    and read_keeps: "ok m d \<Longrightarrow> ok m (fst (fop_read (ops m) d i buf cap)) \<and> refs m (fst (fop_read (ops m) d i buf cap)) = refs m d"
    and write_keeps: "ok m d \<Longrightarrow> ok m (fst (fop_write (ops m) d i buf bytes)) \<and> refs m (fst (fop_write (ops m) d i buf bytes)) = refs m d"
    and seek_keeps: "ok m d \<Longrightarrow> ok m (fst (fop_seek (ops m) d i off wh)) \<and> refs m (fst (fop_seek (ops m) d i off wh)) = refs m d"
    and mkdir_keeps: "ok m d \<Longrightarrow> ok m (fst (fop_mkdir (ops m) d path)) \<and> refs m (fst (fop_mkdir (ops m) d path)) = refs m d"

text \<open>Every sequence of VFS calls from a state where no open exists in the VFS or in a driver.\<close>

inductive vfs_reach :: "'d mount_ops \<Rightarrow> (string \<Rightarrow> 'd \<Rightarrow> bool) \<Rightarrow> 'd vfs_world \<Rightarrow> bool" for ops start where
  init: "length (vw_opens v) = VFS_SIMPLE_MAX_OPEN \<Longrightarrow> \<forall>w \<in> set (vw_opens v). \<not> vo_in_use w \<Longrightarrow>
    \<forall>m d. vw_slots v m = Some d \<longrightarrow> start m d \<Longrightarrow> vfs_reach ops start v"
| open_step: "vfs_reach ops start v \<Longrightarrow> vfs_reach ops start (fst (vfs_simple_open_op ops v path flags))"
| close_step: "vfs_reach ops start v \<Longrightarrow> vfs_reach ops start (vfs_simple_close ops v i)"
| retain_step: "vfs_reach ops start v \<Longrightarrow> vfs_reach ops start (vfs_simple_retain ops v i)"
| read_step: "vfs_reach ops start v \<Longrightarrow> vfs_reach ops start (fst (vfs_simple_read ops v i buf cap))"
| write_step: "vfs_reach ops start v \<Longrightarrow> vfs_reach ops start (fst (vfs_simple_write ops v i buf bytes))"
| seek_step: "vfs_reach ops start v \<Longrightarrow> vfs_reach ops start (fst (vfs_simple_seek ops v i off wh))"
| mkdir_step: "vfs_reach ops start v \<Longrightarrow> vfs_reach ops start (fst (vfs_simple_mkdir ops v path))"

text \<open>
  The VFS's table mirrors the drivers' reference counts: \<open>R m i\<close> are the references that the driver at \<open>m\<close> counts for
  \<open>i\<close>, 0 if there is no driver.
\<close>

definition mirrored :: "vfs_simple_open list \<Rightarrow> (string \<Rightarrow> nat \<Rightarrow> int) \<Rightarrow> bool" where
  "mirrored ws R \<longleftrightarrow>
     (\<forall>k < length ws. vo_in_use (ws ! k) \<longrightarrow> 0 < vo_refs (ws ! k) \<and> vo_refs (ws ! k) = R (vo_mount (ws ! k)) (vo_driver_id (ws ! k))) \<and>
     (\<forall>j < length ws. \<forall>k < length ws. vo_in_use (ws ! j) \<longrightarrow> vo_in_use (ws ! k) \<longrightarrow>
        vo_mount (ws ! j) = vo_mount (ws ! k) \<longrightarrow> vo_driver_id (ws ! j) = vo_driver_id (ws ! k) \<longrightarrow> j = k) \<and>
     (\<forall>m i. R m i \<noteq> 0 \<longrightarrow> (\<exists>k < length ws. vo_in_use (ws ! k) \<and> vo_mount (ws ! k) = m \<and> vo_driver_id (ws ! k) = i))"

lemma mirroredI:
  assumes "\<And>k. k < length ws \<Longrightarrow> vo_in_use (ws ! k) \<Longrightarrow> 0 < vo_refs (ws ! k) \<and> vo_refs (ws ! k) = R (vo_mount (ws ! k)) (vo_driver_id (ws ! k))"
    and "\<And>j k. j < length ws \<Longrightarrow> k < length ws \<Longrightarrow> vo_in_use (ws ! j) \<Longrightarrow> vo_in_use (ws ! k) \<Longrightarrow>
      vo_mount (ws ! j) = vo_mount (ws ! k) \<Longrightarrow> vo_driver_id (ws ! j) = vo_driver_id (ws ! k) \<Longrightarrow> j = k"
    and "\<And>m i. R m i \<noteq> 0 \<Longrightarrow> \<exists>k < length ws. vo_in_use (ws ! k) \<and> vo_mount (ws ! k) = m \<and> vo_driver_id (ws ! k) = i"
  shows "mirrored ws R"
  using assms unfolding mirrored_def by blast

lemma mirroredD:
  assumes "mirrored ws R"
  shows "k < length ws \<Longrightarrow> vo_in_use (ws ! k) \<Longrightarrow> 0 < vo_refs (ws ! k) \<and> vo_refs (ws ! k) = R (vo_mount (ws ! k)) (vo_driver_id (ws ! k))"
    and "j < length ws \<Longrightarrow> k < length ws \<Longrightarrow> vo_in_use (ws ! j) \<Longrightarrow> vo_in_use (ws ! k) \<Longrightarrow>
      vo_mount (ws ! j) = vo_mount (ws ! k) \<Longrightarrow> vo_driver_id (ws ! j) = vo_driver_id (ws ! k) \<Longrightarrow> j = k"
    and "R m i \<noteq> 0 \<Longrightarrow> \<exists>k < length ws. vo_in_use (ws ! k) \<and> vo_mount (ws ! k) = m \<and> vo_driver_id (ws ! k) = i"
  using assms unfolding mirrored_def by blast+

lemma mirrored_add:
  assumes mi: "mirrored ws R" and k: "k < length ws" "\<not> vo_in_use (ws ! k)" and new: "R m i = 0"
    and w: "vo_in_use w" "vo_refs w = 1" "vo_mount w = m" "vo_driver_id w = i"
  shows "mirrored (ws[k := w]) (R(m := (R m)(i := 1)))"
proof (rule mirroredI)
  have old: "vo_mount (ws ! j) \<noteq> m \<or> vo_driver_id (ws ! j) \<noteq> i" if "j < length ws" "vo_in_use (ws ! j)" for j
    using mirroredD(1) [OF mi that] new by auto
  fix j assume "j < length (ws[k := w])" "vo_in_use (ws[k := w] ! j)"
  then show "0 < vo_refs (ws[k := w] ! j) \<and>
      vo_refs (ws[k := w] ! j) = (R(m := (R m)(i := 1))) (vo_mount (ws[k := w] ! j)) (vo_driver_id (ws[k := w] ! j))"
    using w mirroredD(1) [OF mi, of j] old [of j] by (cases "j = k") auto
next
  have old: "vo_mount (ws ! j) \<noteq> m \<or> vo_driver_id (ws ! j) \<noteq> i" if "j < length ws" "vo_in_use (ws ! j)" for j
    using mirroredD(1) [OF mi that] new by auto
  fix a b
  assume "a < length (ws[k := w])" "b < length (ws[k := w])" "vo_in_use (ws[k := w] ! a)" "vo_in_use (ws[k := w] ! b)"
    "vo_mount (ws[k := w] ! a) = vo_mount (ws[k := w] ! b)" "vo_driver_id (ws[k := w] ! a) = vo_driver_id (ws[k := w] ! b)"
  then show "a = b"
    using w old [of a] old [of b] mirroredD(2) [OF mi, of a b] by (cases "a = k"; cases "b = k") auto
next
  fix m' i' assume r: "(R(m := (R m)(i := 1))) m' i' \<noteq> 0"
  show "\<exists>j < length (ws[k := w]). vo_in_use (ws[k := w] ! j) \<and> vo_mount (ws[k := w] ! j) = m' \<and> vo_driver_id (ws[k := w] ! j) = i'"
  proof (cases "m' = m \<and> i' = i")
    case True
    then show ?thesis using k w by (intro exI [of _ k]) simp
  next
    case False
    then have "R m' i' \<noteq> 0" using r by (auto split: if_splits)
    from mirroredD(3) [OF mi this] obtain j where j: "j < length ws" "vo_in_use (ws ! j)" "vo_mount (ws ! j) = m'" "vo_driver_id (ws ! j) = i'"
      by blast
    then have "j \<noteq> k" using k(2) by auto
    then show ?thesis using j by (intro exI [of _ j]) simp
  qed
qed

lemma mirrored_set:
  assumes mi: "mirrored ws R" and k: "k < length ws" "vo_in_use (ws ! k)" and n: "0 < n"
  shows "mirrored (ws[k := (ws ! k)\<lparr>vo_refs := n\<rparr>])
    (R(vo_mount (ws ! k) := (R (vo_mount (ws ! k)))(vo_driver_id (ws ! k) := n)))" (is "mirrored ?ws ?R")
proof (rule mirroredI)
  fix j assume "j < length ?ws" "vo_in_use (?ws ! j)"
  then show "0 < vo_refs (?ws ! j) \<and> vo_refs (?ws ! j) = ?R (vo_mount (?ws ! j)) (vo_driver_id (?ws ! j))"
    using n mirroredD(1) [OF mi, of j] mirroredD(2) [OF mi _ _ _ k(2), of j] k by (cases "j = k") auto
next
  fix a b
  assume "a < length ?ws" "b < length ?ws" "vo_in_use (?ws ! a)" "vo_in_use (?ws ! b)"
    "vo_mount (?ws ! a) = vo_mount (?ws ! b)" "vo_driver_id (?ws ! a) = vo_driver_id (?ws ! b)"
  then show "a = b" using mirroredD(2) [OF mi, of a b] k by (cases "a = k"; cases "b = k") auto
next
  fix m i assume "?R m i \<noteq> 0"
  then have "R m i \<noteq> 0" using mirroredD(1) [OF mi k] by (auto split: if_splits)
  from mirroredD(3) [OF mi this] obtain j where "j < length ws" "vo_in_use (ws ! j)" "vo_mount (ws ! j) = m" "vo_driver_id (ws ! j) = i"
    by blast
  then show "\<exists>j < length ?ws. vo_in_use (?ws ! j) \<and> vo_mount (?ws ! j) = m \<and> vo_driver_id (?ws ! j) = i"
    by (intro exI [of _ j]) (cases "j = k"; simp)
qed

lemma mirrored_del:
  assumes mi: "mirrored ws R" and k: "k < length ws" "vo_in_use (ws ! k)" and w: "\<not> vo_in_use w"
  shows "mirrored (ws[k := w]) (R(vo_mount (ws ! k) := (R (vo_mount (ws ! k)))(vo_driver_id (ws ! k) := 0)))" (is "mirrored ?ws ?R")
proof (rule mirroredI)
  fix j assume "j < length ?ws" "vo_in_use (?ws ! j)"
  then show "0 < vo_refs (?ws ! j) \<and> vo_refs (?ws ! j) = ?R (vo_mount (?ws ! j)) (vo_driver_id (?ws ! j))"
    using w mirroredD(1) [OF mi, of j] mirroredD(2) [OF mi _ _ _ k(2), of j] k by (cases "j = k") auto
next
  fix a b
  assume "a < length ?ws" "b < length ?ws" "vo_in_use (?ws ! a)" "vo_in_use (?ws ! b)"
    "vo_mount (?ws ! a) = vo_mount (?ws ! b)" "vo_driver_id (?ws ! a) = vo_driver_id (?ws ! b)"
  then show "a = b" using mirroredD(2) [OF mi, of a b] w k by (cases "a = k"; cases "b = k") auto
next
  fix m i assume r: "?R m i \<noteq> 0"
  then have ne: "\<not> (m = vo_mount (ws ! k) \<and> i = vo_driver_id (ws ! k))" and "R m i \<noteq> 0" by (auto split: if_splits)
  from mirroredD(3) [OF mi this(2)] obtain j where j: "j < length ws" "vo_in_use (ws ! j)" "vo_mount (ws ! j) = m" "vo_driver_id (ws ! j) = i"
    by blast
  then have "j \<noteq> k" using ne by auto
  then show "\<exists>j < length ?ws. vo_in_use (?ws ! j) \<and> vo_mount (?ws ! j) = m \<and> vo_driver_id (?ws ! j) = i"
    using j by (intro exI [of _ j]) simp
qed

lemma mirrored_unused:
  assumes mi: "mirrored ws R" and k: "\<not> vo_in_use (ws ! k)" and w: "\<not> vo_in_use w"
  shows "mirrored (ws[k := w]) R"
proof (cases "k < length ws")
  case True
  have same: "vo_in_use (ws[k := w] ! j) \<Longrightarrow> ws[k := w] ! j = ws ! j \<and> j \<noteq> k" for j using True w by (cases "j = k") auto
  show ?thesis
  proof (rule mirroredI)
    fix j assume "j < length (ws[k := w])" "vo_in_use (ws[k := w] ! j)"
    then show "0 < vo_refs (ws[k := w] ! j) \<and> vo_refs (ws[k := w] ! j) = R (vo_mount (ws[k := w] ! j)) (vo_driver_id (ws[k := w] ! j))"
      using same [of j] mirroredD(1) [OF mi, of j] by simp
  next
    fix a b
    assume "a < length (ws[k := w])" "b < length (ws[k := w])" "vo_in_use (ws[k := w] ! a)" "vo_in_use (ws[k := w] ! b)"
      "vo_mount (ws[k := w] ! a) = vo_mount (ws[k := w] ! b)" "vo_driver_id (ws[k := w] ! a) = vo_driver_id (ws[k := w] ! b)"
    then show "a = b" using same [of a] same [of b] mirroredD(2) [OF mi, of a b] by simp
  next
    fix m i assume "R m i \<noteq> 0"
    from mirroredD(3) [OF mi this] obtain j where j: "j < length ws" "vo_in_use (ws ! j)" "vo_mount (ws ! j) = m" "vo_driver_id (ws ! j) = i"
      by blast
    then have "j \<noteq> k" using k by auto
    then show "\<exists>j < length (ws[k := w]). vo_in_use (ws[k := w] ! j) \<and> vo_mount (ws[k := w] ! j) = m \<and> vo_driver_id (ws[k := w] ! j) = i"
      using j by (intro exI [of _ j]) simp
  qed
qed (use mi in \<open>simp add: list_update_beyond\<close>)

definition driver_refs :: "(string \<Rightarrow> 'd \<Rightarrow> nat \<Rightarrow> int) \<Rightarrow> 'd vfs_world \<Rightarrow> string \<Rightarrow> nat \<Rightarrow> int" where
  "driver_refs refs v m i = (case vw_slots v m of None \<Rightarrow> 0 | Some d \<Rightarrow> refs m d i)"

definition vfs_inv :: "(string \<Rightarrow> 'd \<Rightarrow> nat \<Rightarrow> int) \<Rightarrow> (string \<Rightarrow> 'd \<Rightarrow> bool) \<Rightarrow> 'd vfs_world \<Rightarrow> bool" where
  "vfs_inv refs ok v \<longleftrightarrow> length (vw_opens v) = VFS_SIMPLE_MAX_OPEN \<and> (\<forall>m d. vw_slots v m = Some d \<longrightarrow> ok m d) \<and>
     mirrored (vw_opens v) (driver_refs refs v)"

lemma vfs_inv_slot:
  assumes "vfs_inv refs ok v" "ok m d1" "mirrored ws ((driver_refs refs v)(m := refs m d1))" "length ws = VFS_SIMPLE_MAX_OPEN"
  shows "vfs_inv refs ok (v\<lparr>vw_slots := (vw_slots v)(m \<mapsto> d1), vw_opens := ws\<rparr>)"
proof -
  have "driver_refs refs (v\<lparr>vw_slots := (vw_slots v)(m \<mapsto> d1), vw_opens := ws\<rparr>) = (driver_refs refs v)(m := refs m d1)"
    by (intro ext) (simp add: driver_refs_def)
  then show ?thesis using assms by (auto simp: vfs_inv_def)
qed

lemma vfs_inv_same_refs:
  assumes "vfs_inv refs ok v" "vw_slots v m = Some d" "ok m d1" "refs m d1 = refs m d"
  shows "vfs_inv refs ok (v\<lparr>vw_slots := (vw_slots v)(m \<mapsto> d1)\<rparr>)"
proof -
  have "(driver_refs refs v)(m := refs m d1) = driver_refs refs v"
    using assms(2,4) by (intro ext) (simp add: driver_refs_def)
  then show ?thesis using vfs_inv_slot [OF assms(1,3), of "vw_opens v"] assms(1) by (simp add: vfs_inv_def)
qed

lemma wrap_Some: "vfs_simple_id_to_wrap v i = Some k \<Longrightarrow> i = k + 1 \<and> k < VFS_SIMPLE_MAX_OPEN \<and> vo_in_use (vw_opens v ! k)"
  by (auto simp: vfs_simple_id_to_wrap_def split: if_splits)

lemma wrap_driver:
  assumes "vfs_inv refs ok v" "vfs_simple_id_to_wrap v i = Some k"
  obtains d where "vw_slots v (vo_mount (vw_opens v ! k)) = Some d" "ok (vo_mount (vw_opens v ! k)) d"
    "0 < vo_refs (vw_opens v ! k)" "refs (vo_mount (vw_opens v ! k)) d (vo_driver_id (vw_opens v ! k)) = vo_refs (vw_opens v ! k)"
    "k < length (vw_opens v)" "vo_in_use (vw_opens v ! k)"
proof -
  note k = wrap_Some [OF assms(2)]
  have len: "k < length (vw_opens v)" using k assms(1) by (simp add: vfs_inv_def)
  have m: "0 < vo_refs (vw_opens v ! k)"
    "vo_refs (vw_opens v ! k) = driver_refs refs v (vo_mount (vw_opens v ! k)) (vo_driver_id (vw_opens v ! k))"
    using mirroredD(1) [of "vw_opens v" "driver_refs refs v" k] assms(1) k len by (auto simp: vfs_inv_def)
  then obtain d where d: "vw_slots v (vo_mount (vw_opens v ! k)) = Some d" by (auto simp: driver_refs_def split: option.splits)
  show thesis
  proof (rule that [OF d])
    show "ok (vo_mount (vw_opens v ! k)) d" using d assms(1) by (simp add: vfs_inv_def)
    show "refs (vo_mount (vw_opens v ! k)) d (vo_driver_id (vw_opens v ! k)) = vo_refs (vw_opens v ! k)"
      using m(2) d by (simp add: driver_refs_def)
  qed (use m k len in simp_all)
qed

context fs_drivers
begin

lemma open_keeps_mirror:
  assumes inv: "vfs_inv refs ok v"
  shows "vfs_inv refs ok (fst (vfs_simple_open_op ops v path flags))"
proof (cases "absolute path \<and> find_idx (\<lambda>w. \<not> vo_in_use w) (vw_opens v) \<noteq> None")
  case False
  then show ?thesis using inv
    by (auto simp: vfs_simple_open_op_def absolute_def vfs_simple_alloc_wrapper_def Let_def split: option.split)
next
  case True
  then obtain p k where p: "path = Some p" "p \<noteq> []" "hd p = CHR ''/''" and k: "find_idx (\<lambda>w. \<not> vo_in_use w) (vw_opens v) = Some k"
    by (auto simp: absolute_def split: option.splits)
  note kd = find_idx_SomeD [OF k]
  let ?m = "mount_for_path p"
  let ?ws = "(vw_opens v)[k := (vw_opens v ! k)\<lparr>vo_in_use := True\<rparr>]"
  obtain d1 i where o: "nx_fs_open (ops ?m) (vw_slots v ?m) path flags = (d1, i)" by (cases "nx_fs_open (ops ?m) (vw_slots v ?m) path flags")
  have mi: "mirrored (vw_opens v) (driver_refs refs v)" and len: "length (vw_opens v) = 108" using inv by (simp_all add: vfs_inv_def)
  let ?blank = "\<lparr>vo_in_use = False, vo_refs = 0, vo_mount = [], vo_driver_id = 0\<rparr>"
  let ?new = "(vw_opens v ! k)\<lparr>vo_in_use := True, vo_refs := 1, vo_mount := ?m, vo_driver_id := i\<rparr>"
  have r: "fst (vfs_simple_open_op ops v path flags) =
      v\<lparr>vw_slots := (vw_slots v)(?m := d1), vw_opens := (vw_opens v)[k := if i = 0 then ?blank else ?new]\<rparr>"
    using p k o kd(1) by (simp add: vfs_simple_open_op_def Let_def vfs_simple_alloc_wrapper_def vfs_simple_free_wrapper_def)
  show ?thesis
  proof (cases "vw_slots v ?m")
    case None
    then have e: "d1 = None" "i = 0" using o by (simp_all add: nx_fs_open_def)
    have "driver_refs refs (v\<lparr>vw_slots := (vw_slots v)(?m := None), vw_opens := ws\<rparr>) = driver_refs refs v" for ws
      using None by (intro ext) (simp add: driver_refs_def)
    then show ?thesis unfolding r e using inv mirrored_unused [OF mi kd(2), of ?blank] None by (auto simp: vfs_inv_def)
  next
    case (Some d)
    then have okd: "ok ?m d" using inv by (simp add: vfs_inv_def)
    obtain d2 where f: "fop_open (ops ?m) d (Some (take 127 p)) flags = (d2, i)" "d1 = Some d2"
      using o Some p(1) by (auto simp: nx_defs split: prod.splits)
    show ?thesis
    proof (cases "i = 0")
      case True
      then have k2: "ok ?m d2" "refs ?m d2 = refs ?m d" using open_fail [OF okd] f by auto
      have "(driver_refs refs v)(?m := refs ?m d2) = driver_refs refs v" using Some k2 by (intro ext) (simp add: driver_refs_def)
      then show ?thesis unfolding r f(2) using True mirrored_unused [OF mi kd(2), of ?blank] len
        by (intro vfs_inv_slot [OF inv k2(1)]) simp_all
    next
      case False
      then have k2: "ok ?m d2" "refs ?m d i = 0" "refs ?m d2 = (refs ?m d)(i := 1)" using open_new [OF okd f(1)] by auto
      have "driver_refs refs v ?m = refs ?m d" using Some by (intro ext) (simp add: driver_refs_def)
      then have "mirrored ((vw_opens v)[k := ?new]) ((driver_refs refs v)(?m := refs ?m d2))"
        using mirrored_add [OF mi kd(1,2), of ?m i ?new] k2 by simp
      then show ?thesis unfolding r f(2) using False len by (intro vfs_inv_slot [OF inv k2(1)]) simp_all
    qed
  qed
qed

lemma close_keeps_mirror:
  assumes inv: "vfs_inv refs ok v"
  shows "vfs_inv refs ok (vfs_simple_close ops v i)"
proof (cases "vfs_simple_id_to_wrap v i")
  case None
  then show ?thesis using inv by (simp add: vfs_simple_close_def)
next
  case (Some k)
  let ?w = "vw_opens v ! k"
  let ?m = "vo_mount ?w" and ?i = "vo_driver_id ?w"
  obtain d where d: "vw_slots v ?m = Some d" "ok ?m d" "0 < vo_refs ?w" "refs ?m d ?i = vo_refs ?w" "k < length (vw_opens v)" "vo_in_use ?w"
    by (rule wrap_driver [OF inv Some])
  let ?d = "fop_close (ops ?m) d ?i"
  have c: "ok ?m ?d" "refs ?m ?d = (refs ?m d)(?i := vo_refs ?w - 1)" using close_drops [OF d(2), of ?i] d(3,4) by auto
  have mi: "mirrored (vw_opens v) (driver_refs refs v)" and len: "length (vw_opens v) = 108" using inv by (simp_all add: vfs_inv_def)
  have dr: "driver_refs refs v ?m = refs ?m d" using d(1) by (intro ext) (simp add: driver_refs_def)
  have ne: "i \<noteq> 0" using wrap_Some [OF Some] by simp
  have cl: "nx_fs_close (ops ?m) (Some d) ?i = Some ?d" by (simp add: nx_fs_close_def)
  show ?thesis
  proof (cases "vo_refs ?w = 1")
    case True
    let ?blank = "\<lparr>vo_in_use = False, vo_refs = 0, vo_mount = [], vo_driver_id = 0\<rparr>"
    have "vfs_simple_close ops v i = v\<lparr>vw_slots := (vw_slots v)(?m \<mapsto> ?d), vw_opens := (vw_opens v)[k := ?blank]\<rparr>"
      using Some ne True d(1) cl by (simp add: vfs_simple_close_def Let_def vfs_simple_free_wrapper_def)
    moreover have "mirrored ((vw_opens v)[k := ?blank]) ((driver_refs refs v)(?m := refs ?m ?d))"
      using mirrored_del [OF mi d(5,6), of ?blank] c(2) dr True by simp
    ultimately show ?thesis using len by (simp only:) (rule vfs_inv_slot [OF inv c(1)], simp_all)
  next
    case False
    have "vfs_simple_close ops v i =
        v\<lparr>vw_slots := (vw_slots v)(?m \<mapsto> ?d), vw_opens := (vw_opens v)[k := ?w\<lparr>vo_refs := vo_refs ?w - 1\<rparr>]\<rparr>"
      using Some ne False d(1,3) cl by (simp add: vfs_simple_close_def Let_def)
    moreover have "mirrored ((vw_opens v)[k := ?w\<lparr>vo_refs := vo_refs ?w - 1\<rparr>]) ((driver_refs refs v)(?m := refs ?m ?d))"
      using mirrored_set [OF mi d(5,6), of "vo_refs ?w - 1"] c(2) dr d(3) False by simp
    ultimately show ?thesis using len by (simp only:) (rule vfs_inv_slot [OF inv c(1)], simp_all)
  qed
qed

lemma retain_keeps_mirror:
  assumes inv: "vfs_inv refs ok v"
  shows "vfs_inv refs ok (vfs_simple_retain ops v i)"
proof (cases "vfs_simple_id_to_wrap v i")
  case None
  then show ?thesis using inv by (simp add: vfs_simple_retain_def)
next
  case (Some k)
  let ?w = "vw_opens v ! k"
  let ?m = "vo_mount ?w" and ?i = "vo_driver_id ?w"
  obtain d where d: "vw_slots v ?m = Some d" "ok ?m d" "0 < vo_refs ?w" "refs ?m d ?i = vo_refs ?w" "k < length (vw_opens v)" "vo_in_use ?w"
    by (rule wrap_driver [OF inv Some])
  let ?d = "fop_retain (ops ?m) d ?i"
  have c: "ok ?m ?d" "refs ?m ?d = (refs ?m d)(?i := vo_refs ?w + 1)" using retain_adds [OF d(2), of ?i] d(3,4) by auto
  have mi: "mirrored (vw_opens v) (driver_refs refs v)" and len: "length (vw_opens v) = 108" using inv by (simp_all add: vfs_inv_def)
  have dr: "driver_refs refs v ?m = refs ?m d" using d(1) by (intro ext) (simp add: driver_refs_def)
  have ne: "i \<noteq> 0" using wrap_Some [OF Some] by simp
  have "vfs_simple_retain ops v i =
      v\<lparr>vw_slots := (vw_slots v)(?m \<mapsto> ?d), vw_opens := (vw_opens v)[k := ?w\<lparr>vo_refs := vo_refs ?w + 1\<rparr>]\<rparr>"
    using Some ne d(1) by (simp add: vfs_simple_retain_def Let_def nx_fs_retain_def)
  moreover have "mirrored ((vw_opens v)[k := ?w\<lparr>vo_refs := vo_refs ?w + 1\<rparr>]) ((driver_refs refs v)(?m := refs ?m ?d))"
    using mirrored_set [OF mi d(5,6), of "vo_refs ?w + 1"] c(2) dr d(3) by simp
  ultimately show ?thesis using len by (simp only:) (rule vfs_inv_slot [OF inv c(1)], simp_all)
qed

lemma data_keeps_mirror:
  assumes inv: "vfs_inv refs ok v"
  shows "vfs_inv refs ok (fst (vfs_simple_read ops v i buf cap))" "vfs_inv refs ok (fst (vfs_simple_write ops v i buf bytes))"
    "vfs_inv refs ok (fst (vfs_simple_seek ops v i off wh))"
proof -
  have "vfs_inv refs ok (fst (vfs_simple_read ops v i buf cap)) \<and> vfs_inv refs ok (fst (vfs_simple_write ops v i buf bytes)) \<and>
    vfs_inv refs ok (fst (vfs_simple_seek ops v i off wh))"
  proof (cases "vfs_simple_id_to_wrap v i")
    case None
    then show ?thesis using inv by (simp add: vfs_simple_read_def vfs_simple_write_def vfs_simple_seek_def)
  next
    case (Some k)
    let ?w = "vw_opens v ! k"
    obtain d where d: "vw_slots v (vo_mount ?w) = Some d" "ok (vo_mount ?w) d"
      by (rule wrap_driver [OF inv Some])
    note same = vfs_inv_same_refs [OF inv d(1)]
    have "vfs_inv refs ok (fst (vfs_simple_read ops v i buf cap))"
      using same [OF read_keeps [OF d(2), THEN conjunct1] read_keeps [OF d(2), THEN conjunct2], of "vo_driver_id ?w" buf cap]
      by (simp add: vfs_simple_read_def Some Let_def d(1) nx_defs prod.case_eq_if)
    moreover have "vfs_inv refs ok (fst (vfs_simple_write ops v i buf bytes))"
      using same [OF write_keeps [OF d(2), THEN conjunct1] write_keeps [OF d(2), THEN conjunct2], of "vo_driver_id ?w" buf bytes]
      by (simp add: vfs_simple_write_def Some Let_def d(1) nx_defs prod.case_eq_if)
    moreover have "vfs_inv refs ok (fst (vfs_simple_seek ops v i off wh))"
      using same [OF seek_keeps [OF d(2), THEN conjunct1] seek_keeps [OF d(2), THEN conjunct2], of "vo_driver_id ?w" off wh]
      by (simp add: vfs_simple_seek_def Some Let_def d(1) nx_defs prod.case_eq_if)
    ultimately show ?thesis by blast
  qed
  then show "vfs_inv refs ok (fst (vfs_simple_read ops v i buf cap))" "vfs_inv refs ok (fst (vfs_simple_write ops v i buf bytes))"
    "vfs_inv refs ok (fst (vfs_simple_seek ops v i off wh))" by blast+
qed

lemma mkdir_keeps_mirror:
  assumes inv: "vfs_inv refs ok v"
  shows "vfs_inv refs ok (fst (vfs_simple_mkdir ops v path))"
proof (cases "absolute path")
  case False
  then show ?thesis using inv by (simp add: vfs_simple_mkdir_def)
next
  case True
  then obtain p where p: "path = Some p" by (auto simp: absolute_def split: option.splits)
  let ?m = "mount_for_path p"
  show ?thesis
  proof (cases "vw_slots v ?m")
    case None
    then have "fst (vfs_simple_mkdir ops v path) = v\<lparr>vw_slots := (vw_slots v)(?m := None)\<rparr>"
      using True p by (simp add: vfs_simple_mkdir_def Let_def nx_fs_mkdir_def)
    then show ?thesis using inv None by (simp add: fun_upd_idem)
  next
    case (Some d)
    then have okd: "ok ?m d" using inv by (simp add: vfs_inv_def)
    show ?thesis
      using vfs_inv_same_refs [OF inv Some mkdir_keeps [OF okd, THEN conjunct1] mkdir_keeps [OF okd, THEN conjunct2], of "Some (take 127 p)"] True p
      by (simp add: vfs_simple_mkdir_def Let_def Some nx_defs prod.case_eq_if)
  qed
qed

lemma reach_mirror:
  assumes start: "\<And>m d. start m d \<Longrightarrow> ok m d \<and> refs m d = (\<lambda>_. 0)" and r: "vfs_reach ops start v"
  shows "vfs_inv refs ok v"
  using r
proof (induction rule: vfs_reach.induct)
  case (init v)
  have "driver_refs refs v = (\<lambda>_ _. 0)" using init(3) start by (intro ext) (simp add: driver_refs_def split: option.split)
  then show ?case using init start by (auto simp: vfs_inv_def mirrored_def)
qed (simp_all add: open_keeps_mirror close_keeps_mirror retain_keeps_mirror data_keeps_mirror mkdir_keeps_mirror)

end

section \<open>Ramfs keeps the contract\<close>

definition ramfs_refs :: "ramfs_state \<Rightarrow> nat \<Rightarrow> int" where
  "ramfs_refs s i = (case id_to_open s i of None \<Rightarrow> 0 | Some k \<Rightarrow> ro_refs (rs_opens s ! k))"

lemma ramfs_refs_opens: "rs_opens s' = rs_opens s \<Longrightarrow> ramfs_refs s' = ramfs_refs s"
  by (intro ext) (simp add: ramfs_refs_def id_to_open_def)

lemma ramfs_refs_nonneg: "ramfs_inv s \<Longrightarrow> 0 \<le> ramfs_refs s i"
  using open_file [of s i] by (fastforce simp: ramfs_refs_def split: option.split)

lemma ramfs_refs_set:
  assumes "ramfs_inv s" "k < RAMFS_MAX_OPEN"
  shows "ramfs_refs (s\<lparr>rs_opens := (rs_opens s)[k := op]\<rparr>) = (ramfs_refs s)(k + 1 := if ro_in_use op then ro_refs op else 0)"
proof
  fix i
  have len: "length (rs_opens s) = 128" using assms(1) by (simp add: ramfs_inv_def)
  show "ramfs_refs (s\<lparr>rs_opens := (rs_opens s)[k := op]\<rparr>) i = ((ramfs_refs s)(k + 1 := if ro_in_use op then ro_refs op else 0)) i"
  proof (cases "i = k + 1")
    case True
    then show ?thesis using assms(2) len by (simp add: ramfs_refs_def id_to_open_def)
  next
    case False
    then have "i = 0 \<or> i - 1 \<noteq> k" by auto
    then show ?thesis using False by (auto simp: ramfs_refs_def id_to_open_def)
  qed
qed

lemma ramfs_refs_pos: "ramfs_inv s \<Longrightarrow> 0 < ramfs_refs s i \<Longrightarrow>
    \<exists>k. id_to_open s i = Some k \<and> i = k + 1 \<and> k < RAMFS_MAX_OPEN \<and> ro_in_use (rs_opens s ! k) \<and> ramfs_refs s i = ro_refs (rs_opens s ! k)"
  using id_to_open_Some [of s i] by (auto simp: ramfs_refs_def split: option.splits)

lemma alloc_open_refs:
  assumes inv: "ramfs_inv s" and k: "find_idx (\<lambda>op. \<not> ro_in_use op) (rs_opens s) = Some k"
  shows "ramfs_refs s (k + 1) = 0" "ramfs_alloc_open s = (s\<lparr>rs_opens := (rs_opens s)[k := (rs_opens s ! k)\<lparr>ro_in_use := True\<rparr>]\<rparr>, Some k)"
    "k < RAMFS_MAX_OPEN"
  using find_idx_SomeD [OF k] inv k by (auto simp: ramfs_refs_def id_to_open_def ramfs_inv_def ramfs_alloc_open_def)

lemma ramfs_open_refs:
  assumes inv: "ramfs_inv s" and o: "ramfs_op_open s path flags = (s1, i)"
  shows "if i = 0 then ramfs_refs s1 = ramfs_refs s else ramfs_refs s i = 0 \<and> ramfs_refs s1 = (ramfs_refs s)(i := 1)"
proof -
  define finish where "finish = (\<lambda>s fi. case ramfs_alloc_open s of
      (s1, None) \<Rightarrow> (s1, 0 :: nat)
    | (s1, Some i) \<Rightarrow> (s1\<lparr>rs_opens := (rs_opens s1)[i := (rs_opens s1 ! i)\<lparr>ro_refs := 1, ro_file := Some fi, ro_flags := flags,
          ro_cursor := 0\<rparr>]\<rparr>, open_to_id i))"
  have fin: "if j = 0 then ramfs_refs t1 = ramfs_refs t else ramfs_refs t j = 0 \<and> ramfs_refs t1 = (ramfs_refs t)(j := 1)"
    if t: "ramfs_inv t" and f: "finish t fi = (t1, j)" for t fi t1 j
  proof (cases "find_idx (\<lambda>op. \<not> ro_in_use op) (rs_opens t)")
    case None
    then show ?thesis using f by (auto simp: finish_def ramfs_alloc_open_def)
  next
    case (Some k)
    note a = alloc_open_refs [OF t Some]
    have "length (rs_opens t) = 128" using t by (simp add: ramfs_inv_def)
    then have "j = k + 1" "t1 = t\<lparr>rs_opens := (rs_opens t)[k := (rs_opens t ! k)\<lparr>ro_in_use := True, ro_refs := 1, ro_file := Some fi, ro_flags := flags, ro_cursor := 0\<rparr>]\<rparr>"
      using f a(2,3) by (auto simp: finish_def open_to_id_def)
    then show ?thesis using a(1,3) by (simp add: ramfs_refs_set [OF t])
  qed
  have known: "(1 :: u32) OR 2 OR 4 OR 8 = 15" by simp
  show ?thesis
  proof (cases "path = None \<or> path = Some [] \<or> flags AND NOT 15 \<noteq> 0")
    case True
    then have "ramfs_op_open s path flags = (s, 0)" by (auto simp: ramfs_op_open_def known split: option.split)
    then show ?thesis using o by simp
  next
    case False
    then obtain p where p: "path = Some p" "p \<noteq> []" "flags AND NOT 15 = 0" by auto
    have o': "(s1, i) = (case ramfs_find s p of
          Some fi \<Rightarrow> if rf_kind (rs_files s ! fi) = KIND_DIR then (s, 0) else finish s fi
        | None \<Rightarrow> if flags AND 4 = 0 then (s, 0)
            else case ramfs_create_file s p of (t, None) \<Rightarrow> (t, 0) | (t, Some fi) \<Rightarrow> finish t fi)"
      using p unfolding o [symmetric] ramfs_op_open_def finish_def by (simp add: known Let_def)
    obtain t r where c: "ramfs_create_file s p = (t, r)" by (cases "ramfs_create_file s p")
    have t: "ramfs_inv t" "ramfs_refs t = ramfs_refs s"
      using create_entry_keeps [OF inv c [unfolded ramfs_create_file_def]] by (auto split: option.splits intro: ramfs_refs_opens)
    show ?thesis
    proof (cases "ramfs_find s p")
      case None
      show ?thesis
      proof (cases "flags AND 4 = 0 \<or> r = None")
        case True
        then show ?thesis using o' None c t by (auto split: if_splits)
      next
        case False
        then obtain fi where "r = Some fi" by auto
        then have "finish t fi = (s1, i)" using o' None c False by simp
        from fin [OF t(1) this] show ?thesis by (simp only: t(2))
      qed
    next
      case (Some fi)
      show ?thesis
      proof (cases "rf_kind (rs_files s ! fi) = KIND_DIR")
        case True
        then show ?thesis using o' Some by simp
      next
        case False
        then have "finish s fi = (s1, i)" using o' Some by simp
        from fin [OF inv this] show ?thesis .
      qed
    qed
  qed
qed

lemma ramfs_close_refs:
  assumes inv: "ramfs_inv s" and pos: "0 < ramfs_refs s i"
  shows "ramfs_refs (ramfs_op_close s i) = (ramfs_refs s)(i := ramfs_refs s i - 1)"
proof -
  obtain k where k: "id_to_open s i = Some k" "i = k + 1" "k < 128" "ro_in_use (rs_opens s ! k)" "ramfs_refs s i = ro_refs (rs_opens s ! k)"
    using ramfs_refs_pos [OF inv pos] by blast
  show ?thesis
  proof (cases "ro_refs (rs_opens s ! k) = 1")
    case True
    then show ?thesis using k by (simp add: ramfs_op_close_def Let_def ramfs_refs_set [OF inv])
  next
    case False
    then have "1 < ro_refs (rs_opens s ! k)" using pos k(5) by simp
    then show ?thesis using k by (simp add: ramfs_op_close_def Let_def ramfs_refs_set [OF inv])
  qed
qed

lemma ramfs_retain_refs:
  assumes inv: "ramfs_inv s" and pos: "0 < ramfs_refs s i"
  shows "ramfs_refs (ramfs_op_retain s i) = (ramfs_refs s)(i := ramfs_refs s i + 1)"
proof -
  obtain k where k: "id_to_open s i = Some k" "i = k + 1" "k < 128" "ro_in_use (rs_opens s ! k)" "ramfs_refs s i = ro_refs (rs_opens s ! k)"
    using ramfs_refs_pos [OF inv pos] by blast
  then show ?thesis by (simp add: ramfs_op_retain_def ramfs_refs_set [OF inv])
qed

lemma ramfs_refs_cursor:
  assumes "ramfs_inv s" "id_to_open s i = Some k"
  shows "ramfs_refs (s\<lparr>rs_opens := (rs_opens s)[k := (rs_opens s ! k)\<lparr>ro_cursor := c\<rparr>]\<rparr>) = ramfs_refs s"
  using id_to_open_Some [OF assms(2)] assms
  by (subst ramfs_refs_set [OF assms(1)]) (auto simp: ramfs_refs_def fun_upd_idem)

lemma ramfs_data_refs:
  assumes inv: "ramfs_inv s"
  shows "ramfs_refs (fst (ramfs_op_read s i buf cap)) = ramfs_refs s" "ramfs_refs (fst (ramfs_op_write s i buf bytes)) = ramfs_refs s"
    "ramfs_refs (fst (ramfs_op_seek s i off wh)) = ramfs_refs s" "ramfs_refs (fst (ramfs_op_mkdir s path)) = ramfs_refs s"
proof -
  show "ramfs_refs (fst (ramfs_op_read s i buf cap)) = ramfs_refs s"
    unfolding ramfs_op_read_def Let_def by (auto simp: ramfs_refs_cursor [OF inv] split: option.split)
  show "ramfs_refs (fst (ramfs_op_seek s i off wh)) = ramfs_refs s"
    unfolding ramfs_op_seek_def Let_def by (auto simp: ramfs_refs_cursor [OF inv] split: option.split)
  have w: "ramfs_refs (s\<lparr>rs_opens := (rs_opens s)[k := (rs_opens s ! k)\<lparr>ro_cursor := c\<rparr>], rs_files := fs\<rparr>) = ramfs_refs s"
    if "id_to_open s i = Some k" for k c fs
  proof -
    have "ramfs_refs (s\<lparr>rs_opens := (rs_opens s)[k := (rs_opens s ! k)\<lparr>ro_cursor := c\<rparr>], rs_files := fs\<rparr>) =
        ramfs_refs (s\<lparr>rs_opens := (rs_opens s)[k := (rs_opens s ! k)\<lparr>ro_cursor := c\<rparr>]\<rparr>)" by (rule ramfs_refs_opens) simp
    then show ?thesis using ramfs_refs_cursor [OF inv that] by simp
  qed
  show "ramfs_refs (fst (ramfs_op_write s i buf bytes)) = ramfs_refs s"
    unfolding ramfs_op_write_def Let_def by (auto simp: ramfs_refs_cursor [OF inv] w split: option.split)
  have "ramfs_refs t = ramfs_refs s" if "ramfs_create_entry s p k = (t, r)" for p k t r
    using create_entry_keeps [OF inv that] by (auto split: option.splits intro: ramfs_refs_opens)
  then show "ramfs_refs (fst (ramfs_op_mkdir s path)) = ramfs_refs s"
    unfolding ramfs_op_mkdir_def by (auto split: option.split prod.split)
qed

interpretation ramfs: fs_drivers "\<lambda>_. ramfs_fs_ops" "\<lambda>_. ramfs_refs" "\<lambda>_. ramfs_inv"
proof
  fix d path flags d1 and i :: nat
  assume inv: "ramfs_inv d"
  note k = open_keeps [OF inv, of path flags]
  show "fop_open ramfs_fs_ops d path flags = (d1, 0) \<Longrightarrow> ramfs_inv d1 \<and> ramfs_refs d1 = ramfs_refs d"
    using ramfs_open_refs [OF inv, of path flags d1 0] k by (simp add: ramfs_fs_ops_def)
  show "fop_open ramfs_fs_ops d path flags = (d1, i) \<Longrightarrow> i \<noteq> 0 \<Longrightarrow>
      ramfs_inv d1 \<and> ramfs_refs d i = 0 \<and> ramfs_refs d1 = (ramfs_refs d)(i := 1)"
    using ramfs_open_refs [OF inv, of path flags d1 i] k by (simp add: ramfs_fs_ops_def)
qed (simp_all add: ramfs_fs_ops_def ramfs_refs_nonneg nx_inv ramfs_close_refs ramfs_retain_refs ramfs_data_refs)

section \<open>Properties\<close>

text \<open>
  C8. Whatever callers open, duplicate, close, read and write through the VFS over ramfs, each open of the VFS holds
  exactly as many references as the driver counts for it, no two of them share a driver open, and every
  open that the driver counts belongs to one: a close never releases somebody else's file, and the last close leaks none.\<close>

theorem vfs_refs_mirror_ramfs:
  assumes "vfs_reach (\<lambda>_. ramfs_fs_ops) (\<lambda>_ s. ramfs_inv s \<and> (\<forall>op \<in> set (rs_opens s). \<not> ro_in_use op)) v"
  shows "(\<forall>k < VFS_SIMPLE_MAX_OPEN. vo_in_use (vw_opens v ! k) \<longrightarrow>
      (\<exists>s. vw_slots v (vo_mount (vw_opens v ! k)) = Some s \<and> 0 < vo_refs (vw_opens v ! k) \<and>
        ramfs_refs s (vo_driver_id (vw_opens v ! k)) = vo_refs (vw_opens v ! k))) \<and>
    (\<forall>j < VFS_SIMPLE_MAX_OPEN. \<forall>k < VFS_SIMPLE_MAX_OPEN. vo_in_use (vw_opens v ! j) \<longrightarrow> vo_in_use (vw_opens v ! k) \<longrightarrow>
      vo_mount (vw_opens v ! j) = vo_mount (vw_opens v ! k) \<longrightarrow> vo_driver_id (vw_opens v ! j) = vo_driver_id (vw_opens v ! k) \<longrightarrow> j = k) \<and>
    (\<forall>m s i. vw_slots v m = Some s \<longrightarrow> ramfs_refs s i \<noteq> 0 \<longrightarrow>
      (\<exists>k < VFS_SIMPLE_MAX_OPEN. vo_in_use (vw_opens v ! k) \<and> vo_mount (vw_opens v ! k) = m \<and> vo_driver_id (vw_opens v ! k) = i))"
proof -
  have z: "ramfs_refs s = (\<lambda>_. 0)" if "ramfs_inv s" "\<forall>op \<in> set (rs_opens s). \<not> ro_in_use op" for s
    using that by (intro ext) (auto simp: ramfs_refs_def id_to_open_def ramfs_inv_def)
  have inv: "vfs_inv (\<lambda>_. ramfs_refs) (\<lambda>_. ramfs_inv) v"
    by (rule ramfs.reach_mirror [OF _ assms]) (use z in auto)
  then have len: "length (vw_opens v) = 108" and mi: "mirrored (vw_opens v) (driver_refs (\<lambda>_. ramfs_refs) v)"
    by (simp_all add: vfs_inv_def)
  have "\<exists>s. vw_slots v (vo_mount (vw_opens v ! k)) = Some s \<and> 0 < vo_refs (vw_opens v ! k) \<and>
      ramfs_refs s (vo_driver_id (vw_opens v ! k)) = vo_refs (vw_opens v ! k)" if "k < 108" "vo_in_use (vw_opens v ! k)" for k
    using mirroredD(1) [OF mi, of k] that len by (auto simp: driver_refs_def split: option.splits)
  moreover have "\<exists>k < 108. vo_in_use (vw_opens v ! k) \<and> vo_mount (vw_opens v ! k) = m \<and> vo_driver_id (vw_opens v ! k) = i"
    if "vw_slots v m = Some s" "ramfs_refs s i \<noteq> 0" for m s i
    using mirroredD(3) [OF mi, of m i] that len by (simp add: driver_refs_def)
  moreover have "j = k" if "j < 108" "k < 108" "vo_in_use (vw_opens v ! j)" "vo_in_use (vw_opens v ! k)"
      "vo_mount (vw_opens v ! j) = vo_mount (vw_opens v ! k)" "vo_driver_id (vw_opens v ! j) = vo_driver_id (vw_opens v ! k)" for j k
    using mirroredD(2) [OF mi, of j k] that len by simp
  ultimately show ?thesis by blast
qed

definition vfs_demo :: "ramfs_state vfs_world" where
  "vfs_demo = \<lparr>vw_opens = replicate VFS_SIMPLE_MAX_OPEN \<lparr>vo_in_use = False, vo_refs = 0, vo_mount = [], vo_driver_id = 0\<rparr>,
     vw_slots = (\<lambda>m. if m = ''filesystem.root'' then Some (fst (ramfs_init [] ramfs_blank)) else None),
     vw_init_called = 0, vw_enable_called = 0, vw_disable_called = 0, vw_destroy_called = 0\<rparr>"

theorem vfs_refs_mirror_ramfs_witness:
  "let v = vfs_simple_retain (\<lambda>_. ramfs_fs_ops) (fst (vfs_simple_open_op (\<lambda>_. ramfs_fs_ops) vfs_demo (Some ''/a'') 7)) 1
   in vo_in_use (vw_opens v ! 0) \<and> vo_refs (vw_opens v ! 0) = 2 \<and>
      (\<exists>s. vw_slots v (vo_mount (vw_opens v ! 0)) = Some s \<and> ramfs_refs s (vo_driver_id (vw_opens v ! 0)) = 2)"
proof -
  let ?ops = "\<lambda>_. ramfs_fs_ops"
  let ?v = "vfs_simple_retain ?ops (fst (vfs_simple_open_op ?ops vfs_demo (Some ''/a'') 7)) 1"
  have "ramfs_inv (fst (ramfs_init [] ramfs_blank))" by (rule ramfs_reach_inv [OF blank_reach])
  moreover have "\<forall>op \<in> set (rs_opens (fst (ramfs_init [] ramfs_blank))). \<not> ro_in_use op"
    by (simp add: ramfs_init_def ramfs_blank_def Let_def)
  ultimately have "vfs_reach ?ops (\<lambda>_ s. ramfs_inv s \<and> (\<forall>op \<in> set (rs_opens s). \<not> ro_in_use op)) vfs_demo"
    by (intro vfs_reach.init) (auto simp: vfs_demo_def split: if_splits)
  then have r: "vfs_reach ?ops (\<lambda>_ s. ramfs_inv s \<and> (\<forall>op \<in> set (rs_opens s). \<not> ro_in_use op)) ?v"
    by (intro vfs_reach.retain_step vfs_reach.open_step)
  have u: "vo_in_use (vw_opens ?v ! 0)" and n: "vo_refs (vw_opens ?v ! 0) = 2" by code_simp+
  have "(0 :: nat) < 108" by simp
  from vfs_refs_mirror_ramfs [OF r, THEN conjunct1, rule_format, OF this u] show ?thesis using u n by (auto simp: Let_def)
qed

end
