(* ===== verification/Nx_Hook.thy ===== *)
theory Nx_Hook
  imports Nx_Prelude "HOL-Library.Code_Target_Nat"
begin

text \<open>
  Hook chains (\<^verbatim>\<open>framework/hook.c\<close>): per hook point a list of caller-owned hooks in order of priority. A hook's
  callback is code of some component: it is the parameter \<open>run\<close>, which gets the function pointer, the context
  and the user pointer, and may change any state, the chains included. The state is an extensible record, so that the
  registry and the message router put their own fields beside the chains.
\<close>

section \<open>Data\<close>

type_synonym hook_ref = ptr
type_synonym slot_ref = ptr
type_synonym comp_ref = ptr
type_synonym conn_ref = ptr
type_synonym msg_ref = ptr

datatype nx_lifecycle_state =
    NX_LC_UNINIT
  | NX_LC_INIT
  | NX_LC_READY
  | NX_LC_ACTIVE
  | NX_LC_PAUSED
  | NX_LC_DESTROYED

text \<open>
  A hook point is an \<^verbatim>\<open>unsigned\<close> when it is tested against the number of points, so it is a number here: a caller can
  pass one that is out of range.
\<close>

type_synonym nx_hook_point = nat

abbreviation (input) NX_HOOK_IPC_SEND :: nx_hook_point where "NX_HOOK_IPC_SEND \<equiv> 0"
abbreviation (input) NX_HOOK_IPC_RECV :: nx_hook_point where "NX_HOOK_IPC_RECV \<equiv> 1"
abbreviation (input) NX_HOOK_COMPONENT_ENABLE :: nx_hook_point where "NX_HOOK_COMPONENT_ENABLE \<equiv> 2"
abbreviation (input) NX_HOOK_COMPONENT_DISABLE :: nx_hook_point where "NX_HOOK_COMPONENT_DISABLE \<equiv> 3"
abbreviation (input) NX_HOOK_COMPONENT_PAUSE :: nx_hook_point where "NX_HOOK_COMPONENT_PAUSE \<equiv> 4"
abbreviation (input) NX_HOOK_COMPONENT_RESUME :: nx_hook_point where "NX_HOOK_COMPONENT_RESUME \<equiv> 5"
abbreviation (input) NX_HOOK_SLOT_SWAPPED :: nx_hook_point where "NX_HOOK_SLOT_SWAPPED \<equiv> 6"
abbreviation (input) NX_HOOK_CONTEXT_SWITCH :: nx_hook_point where "NX_HOOK_CONTEXT_SWITCH \<equiv> 7"
abbreviation (input) NX_HOOK_SYSCALL_ENTER :: nx_hook_point where "NX_HOOK_SYSCALL_ENTER \<equiv> 8"
abbreviation (input) NX_HOOK_SYSCALL_EXIT :: nx_hook_point where "NX_HOOK_SYSCALL_EXIT \<equiv> 9"
abbreviation (input) NX_HOOK_POINT_COUNT :: nat where "NX_HOOK_POINT_COUNT \<equiv> 10"

datatype nx_hook_action = NX_HOOK_CONTINUE | NX_HOOK_ABORT

text \<open>The union of the context, one constructor for each arm; pointers that may be null are null as \<open>NULL\<close>.\<close>

datatype nx_hook_arm =
    ctx_ipc slot_ref slot_ref msg_ref conn_ref
  | ctx_comp comp_ref nx_lifecycle_state nx_lifecycle_state
  | ctx_swap slot_ref comp_ref comp_ref
  | ctx_csw ptr ptr
  | ctx_sc u64 "u64 list"

record nx_hook_context =
  ctx_point :: nx_hook_point
  ctx_u :: nx_hook_arm

text \<open>
  The link \<^verbatim>\<open>_next\<close> of a hook is its successor in the list that stands for the chain; it is null exactly for hooks that
  are in no chain.
\<close>

record nx_hook =
  hk_point :: nx_hook_point
  hk_priority :: int
  hk_fn :: ptr
  hk_user :: ptr
  hk_dead :: bool

record hook_state =
  hooks :: "hook_ref \<Rightarrow> nx_hook"
  g_chains :: "nx_hook_point \<Rightarrow> hook_ref list"
  g_dispatching :: int

type_synonym 'a hook_run =
  "ptr \<Rightarrow> nx_hook_context \<Rightarrow> ptr \<Rightarrow> 'a hook_state_scheme \<Rightarrow> nx_hook_action \<times> 'a hook_state_scheme"

definition set_hook :: "hook_ref \<Rightarrow> (nx_hook \<Rightarrow> nx_hook) \<Rightarrow> 'a hook_state_scheme \<Rightarrow> 'a hook_state_scheme" where
  "set_hook h f s = s\<lparr>hooks := (hooks s)(h := f (hooks s h))\<rparr>"

definition set_chain :: "nx_hook_point \<Rightarrow> hook_ref list \<Rightarrow> 'a hook_state_scheme \<Rightarrow> 'a hook_state_scheme" where
  "set_chain p c s = s\<lparr>g_chains := (g_chains s)(p := c)\<rparr>"

text \<open>The successor of a hook in its chain: the field \<^verbatim>\<open>_next\<close>.\<close>

fun next_in :: "'a list \<Rightarrow> 'a \<Rightarrow> 'a option" where
  "next_in [] h = None"
| "next_in [x] h = None"
| "next_in (x # y # ys) h = (if x = h then Some y else next_in (y # ys) h)"

definition hook_next :: "'a hook_state_scheme \<Rightarrow> hook_ref \<Rightarrow> hook_ref option" where
  "hook_next s h = next_in (g_chains s (hk_point (hooks s h))) h"

section \<open>Registration\<close>

text \<open>Insertion before the first hook of strictly greater priority.\<close>

fun chain_insert :: "(hook_ref \<Rightarrow> int) \<Rightarrow> hook_ref \<Rightarrow> hook_ref list \<Rightarrow> hook_ref list" where
  "chain_insert prio h [] = [h]"
| "chain_insert prio h (x # xs) = (if prio x \<le> prio h then x # chain_insert prio h xs else h # x # xs)"

definition nx_hook_register :: "hook_ref \<Rightarrow> 'a hook_state_scheme \<Rightarrow> nx_status \<times> 'a hook_state_scheme" where
  "nx_hook_register h s =
     (if h = NULL \<or> hk_fn (hooks s h) = NULL then (NX_EINVAL, s)
      else if hk_point (hooks s h) \<ge> NX_HOOK_POINT_COUNT then (NX_EINVAL, s)
      else if h \<in> set (g_chains s (hk_point (hooks s h))) then (NX_EEXIST, s)
      else let p = hk_point (hooks s h);
               s1 = set_hook h (\<lambda>k. k\<lparr>hk_dead := False\<rparr>) s
           in (NX_OK, set_chain p (chain_insert (\<lambda>x. hk_priority (hooks s1 x)) h (g_chains s1 p)) s1))"

definition chain_unlink :: "hook_ref \<Rightarrow> 'a hook_state_scheme \<Rightarrow> 'a hook_state_scheme" where
  "chain_unlink h s =
     (let p = hk_point (hooks s h) in
      if h \<in> set (g_chains s p)
      then set_hook h (\<lambda>k. k\<lparr>hk_dead := False\<rparr>) (set_chain p (remove1 h (g_chains s p)) s)
      else s)"

text \<open>One chain of \<^verbatim>\<open>sweep_dead\<close>: each dead hook is unlinked and its flag cleared, before the next one is looked at.\<close>

fun sweep_chain :: "hook_ref list \<Rightarrow> (hook_ref \<Rightarrow> nx_hook) \<Rightarrow> hook_ref list \<times> (hook_ref \<Rightarrow> nx_hook)" where
  "sweep_chain [] hs = ([], hs)"
| "sweep_chain (h # c) hs =
     (if hk_dead (hs h) then sweep_chain c (hs(h := (hs h)\<lparr>hk_dead := False\<rparr>))
      else let (c', hs') = sweep_chain c hs in (h # c', hs'))"

definition sweep_point :: "nx_hook_point \<Rightarrow> 'a hook_state_scheme \<Rightarrow> 'a hook_state_scheme" where
  "sweep_point p s =
     (let (c, hs) = sweep_chain (g_chains s p) (hooks s) in s\<lparr>hooks := hs, g_chains := (g_chains s)(p := c)\<rparr>)"

definition sweep_dead :: "'a hook_state_scheme \<Rightarrow> 'a hook_state_scheme" where
  "sweep_dead s = fold sweep_point [0..<NX_HOOK_POINT_COUNT] s"

definition nx_hook_unregister :: "hook_ref \<Rightarrow> 'a hook_state_scheme \<Rightarrow> 'a hook_state_scheme" where
  "nx_hook_unregister h s =
     (if h = NULL then s
      else if hk_point (hooks s h) \<ge> NX_HOOK_POINT_COUNT then s
      else if h \<notin> set (g_chains s (hk_point (hooks s h))) then s
      else if g_dispatching s > 0 then set_hook h (\<lambda>k. k\<lparr>hk_dead := True\<rparr>) s
      else chain_unlink h s)"

section \<open>Dispatch\<close>

text \<open>
  The walk along a chain. The successor is read before the callback runs. Each hook has its own address, so that a
  walk along a chain can never take more steps than there are addresses: the fuel of \<open>nx_hook_dispatch\<close>. Lemma
  \<open>walk_fuel\<close> shows that it is enough.
\<close>

primrec hook_walk :: "'a hook_run \<Rightarrow> nx_hook_context \<Rightarrow> nat \<Rightarrow> hook_ref option \<Rightarrow> 'a hook_state_scheme \<Rightarrow>
    nx_hook_action \<times> 'a hook_state_scheme" where
  "hook_walk run ctx 0 ho s = (NX_HOOK_CONTINUE, s)"
| "hook_walk run ctx (Suc n) ho s =
     (case ho of
        None \<Rightarrow> (NX_HOOK_CONTINUE, s)
      | Some h \<Rightarrow>
          let nxt = hook_next s h in
          if \<not> hk_dead (hooks s h) then
            (case run (hk_fn (hooks s h)) ctx (hk_user (hooks s h)) s of
               (NX_HOOK_ABORT, s1) \<Rightarrow> (NX_HOOK_ABORT, s1)
             | (NX_HOOK_CONTINUE, s1) \<Rightarrow> hook_walk run ctx n nxt s1)
          else hook_walk run ctx n nxt s)"

definition chain_head :: "'a list \<Rightarrow> 'a option" where
  "chain_head c = (case c of [] \<Rightarrow> None | h # _ \<Rightarrow> Some h)"

definition nx_hook_dispatch :: "'a hook_run \<Rightarrow> nx_hook_context \<Rightarrow> 'a hook_state_scheme \<Rightarrow>
    nx_hook_action \<times> 'a hook_state_scheme" where
  "nx_hook_dispatch run ctx s =
     (if ctx_point ctx \<ge> NX_HOOK_POINT_COUNT then (NX_HOOK_CONTINUE, s)
      else let s1 = s\<lparr>g_dispatching := g_dispatching s + 1\<rparr>;
               (action, s2) = hook_walk run ctx (2 ^ 64) (chain_head (g_chains s1 (ctx_point ctx))) s1;
               s3 = s2\<lparr>g_dispatching := g_dispatching s2 - 1\<rparr>
           in (action, if g_dispatching s3 = 0 then sweep_dead s3 else s3))"

section \<open>Introspection\<close>

definition nx_hook_chain_length :: "nx_hook_point \<Rightarrow> 'a hook_state_scheme \<Rightarrow> nat" where
  "nx_hook_chain_length p s =
     (if p \<ge> NX_HOOK_POINT_COUNT then 0 else length (filter (\<lambda>h. \<not> hk_dead (hooks s h)) (g_chains s p)))"

definition reset_point :: "nx_hook_point \<Rightarrow> 'a hook_state_scheme \<Rightarrow> 'a hook_state_scheme" where
  "reset_point p s =
     s\<lparr>hooks := fold (\<lambda>h hs. hs(h := (hs h)\<lparr>hk_dead := False\<rparr>)) (g_chains s p) (hooks s),
       g_chains := (g_chains s)(p := [])\<rparr>"

definition nx_hook_reset :: "'a hook_state_scheme \<Rightarrow> 'a hook_state_scheme" where
  "nx_hook_reset s = (fold reset_point [0..<NX_HOOK_POINT_COUNT] s)\<lparr>g_dispatching := 0\<rparr>"

section \<open>Lists\<close>

text \<open>The hooks that come before a given one: what a walk has behind it.\<close>

definition before :: "'a list \<Rightarrow> 'a \<Rightarrow> 'a set" where
  "before c h = set (takeWhile (\<lambda>x. x \<noteq> h) c)"

lemma before_Nil [simp]: "before [] h = {}"
  by (simp add: before_def)

lemma before_Cons [simp]: "before (x # c) h = (if x = h then {} else insert x (before c h))"
  by (cases "x = h") (simp_all add: before_def)

lemma next_in_mem: "next_in c h = Some k \<Longrightarrow> h \<in> set c \<and> k \<in> set c"
  by (induction c h rule: next_in.induct) (auto split: if_splits)

lemma next_in_before: "distinct c \<Longrightarrow> next_in c h = Some k \<Longrightarrow> insert h (before c h) \<subseteq> before c k"
  by (induction c h rule: next_in.induct) (auto split: if_splits dest: next_in_mem)

lemma next_in_nth: "distinct c \<Longrightarrow> i < length c \<Longrightarrow> next_in c (c ! i) = (if Suc i < length c then Some (c ! Suc i) else None)"
proof (induction c arbitrary: i rule: induct_list012)
  case (3 x y zs)
  then show ?case
    by (cases i) (auto simp: nth_Cons split: nat.splits)
qed auto

lemma chain_insert_set [simp]: "set (chain_insert f h c) = insert h (set c)"
  by (induction c) auto

lemma chain_insert_distinct [simp]: "distinct (chain_insert f h c) \<longleftrightarrow> h \<notin> set c \<and> distinct c"
  by (induction c) auto

lemma chain_insert_sorted:
  "sorted_wrt (\<lambda>x y. f x \<le> f y) c \<Longrightarrow> sorted_wrt (\<lambda>x y. f x \<le> f y) (chain_insert f h c)"
  by (induction c) (auto simp: not_le intro: less_imp_le order_trans)

lemma chain_insert_before: "k \<in> set c \<Longrightarrow> h \<notin> set c \<Longrightarrow> before c k \<subseteq> before (chain_insert f h c) k"
  by (induction c) auto

lemma chain_insert_remove1 [simp]: "h \<notin> set c \<Longrightarrow> filter (\<lambda>x. x \<noteq> h) (chain_insert f h c) = c"
  by (induction c) (auto simp: filter_id_conv)

section \<open>Well-formed chains\<close>

text \<open>
  What registration sets up for good: the point, the priority, the function and the user pointer of a hook belong to
  its owner, who leaves them alone while the hook is registered.
\<close>

definition same_hook :: "nx_hook \<Rightarrow> nx_hook \<Rightarrow> bool" where
  "same_hook a b \<longleftrightarrow> a\<lparr>hk_dead := False\<rparr> = b\<lparr>hk_dead := False\<rparr>"

lemma same_hook_simps [simp]:
  "same_hook a a"
  "same_hook (a\<lparr>hk_dead := x\<rparr>) b \<longleftrightarrow> same_hook a b"
  "same_hook a (b\<lparr>hk_dead := x\<rparr>) \<longleftrightarrow> same_hook a b"
  by (simp_all add: same_hook_def)

lemma same_hookD:
  assumes "same_hook a b"
  shows "hk_point a = hk_point b" "hk_priority a = hk_priority b" "hk_fn a = hk_fn b" "hk_user a = hk_user b"
  using assms by (cases a; cases b; simp add: same_hook_def)+

lemma same_hook_trans: "same_hook a b \<Longrightarrow> same_hook b c \<Longrightarrow> same_hook a c"
  by (simp add: same_hook_def)

definition chain_ok :: "(hook_ref \<Rightarrow> nx_hook) \<Rightarrow> nx_hook_point \<Rightarrow> hook_ref list \<Rightarrow> bool" where
  "chain_ok hs p c \<longleftrightarrow>
     distinct c \<and> sorted_wrt (\<lambda>x y. hk_priority (hs x) \<le> hk_priority (hs y)) c \<and>
     (\<forall>h \<in> set c. h \<noteq> NULL \<and> hk_fn (hs h) \<noteq> NULL \<and> hk_point (hs h) = p) \<and> (p \<ge> NX_HOOK_POINT_COUNT \<longrightarrow> c = [])"

definition hook_inv :: "'a hook_state_scheme \<Rightarrow> bool" where
  "hook_inv s \<longleftrightarrow>
     (\<forall>p. chain_ok (hooks s) p (g_chains s p)) \<and> g_dispatching s \<ge> 0 \<and>
     (g_dispatching s = 0 \<longrightarrow> (\<forall>p. \<forall>h \<in> set (g_chains s p). \<not> hk_dead (hooks s h)))"

lemma chain_ok_cong:
  assumes "\<And>h. h \<in> set c \<Longrightarrow> same_hook (hs h) (hs' h)"
  shows "chain_ok hs p c \<longleftrightarrow> chain_ok hs' p c"
proof -
  have prio: "hk_priority (hs h) = hk_priority (hs' h)" and same: "hk_fn (hs h) = hk_fn (hs' h)"
    "hk_point (hs h) = hk_point (hs' h)" if "h \<in> set c" for h
    using assms [OF that] by (rule same_hookD)+
  have "sorted_wrt (\<lambda>x y. hk_priority (hs x) \<le> hk_priority (hs y)) c \<longleftrightarrow>
        sorted_wrt (\<lambda>x y. hk_priority (hs' x) \<le> hk_priority (hs' y)) c"
    by (auto elim!: sorted_wrt_mono_rel [rotated] simp: prio)
  with same show ?thesis
    unfolding chain_ok_def by auto
qed

lemma chain_ok_filter: "chain_ok hs p c \<Longrightarrow> chain_ok hs p (filter P c)"
  by (auto simp: chain_ok_def intro: sorted_wrt_filter)

lemma hook_invD:
  assumes "hook_inv s"
  shows "distinct (g_chains s p)" and "h \<in> set (g_chains s p) \<Longrightarrow> hk_point (hooks s h) = p"
    and "chain_ok (hooks s) p (g_chains s p)" and "g_dispatching s \<ge> 0"
  using assms by (auto simp: hook_inv_def chain_ok_def)

section \<open>Registration keeps the chains\<close>

lemma register_inv [nx_inv]:
  assumes "hook_inv s"
  shows "hook_inv (snd (nx_hook_register h s))"
proof (cases "fst (nx_hook_register h s) = NX_OK")
  case False
  then show ?thesis using assms by (auto simp: nx_hook_register_def Let_def split: if_splits)
next
  case True
  then have h: "h \<noteq> NULL" "hk_fn (hooks s h) \<noteq> NULL" "\<not> hk_point (hooks s h) \<ge> NX_HOOK_POINT_COUNT"
    "h \<notin> set (g_chains s (hk_point (hooks s h)))"
    by (auto simp: nx_hook_register_def Let_def split: if_splits)
  have notin: "h \<notin> set (g_chains s p)" for p
    using h(4) hook_invD(2) [OF assms] by blast
  define hs where "hs = (hooks s)(h := (hooks s h)\<lparr>hk_dead := False\<rparr>)"
  have ok: "chain_ok hs p (g_chains s p)" for p
    using hook_invD(3) [OF assms, of p] notin [of p] chain_ok_cong [of "g_chains s p" "hooks s" hs p]
    by (auto simp: hs_def)
  let ?p = "hk_point (hooks s h)"
  have ins: "chain_ok hs ?p (chain_insert (\<lambda>x. hk_priority (hs x)) h (g_chains s ?p))"
  proof -
    have "hk_fn (hs h) \<noteq> NULL" "hk_point (hs h) = ?p" using h by (simp_all add: hs_def)
    then show ?thesis
      using ok [of ?p] h notin [of ?p] by (auto simp: chain_ok_def intro: chain_insert_sorted)
  qed
  have eq: "snd (nx_hook_register h s) =
      s\<lparr>hooks := hs, g_chains := (g_chains s)(?p := chain_insert (\<lambda>x. hk_priority (hs x)) h (g_chains s ?p))\<rparr>"
    using h by (simp add: nx_hook_register_def Let_def set_hook_def set_chain_def hs_def)
  have dead: "\<not> hk_dead (hs k)" if "g_dispatching s = 0" "k \<in> set (g_chains s q) \<or> k = h" for k q
    using that assms by (auto simp: hs_def hook_inv_def)
  show ?thesis
    unfolding hook_inv_def eq using ok ins dead hook_invD(4) [OF assms] by auto
qed

lemma register_other [simp]:
  "g_dispatching (snd (nx_hook_register h s)) = g_dispatching s"
  "hook_state.more (snd (nx_hook_register h s)) = hook_state.more s"
  by (simp_all add: nx_hook_register_def Let_def set_hook_def set_chain_def)

lemma register_level:
  "snd (nx_hook_register h (s\<lparr>g_dispatching := d\<rparr>)) = (snd (nx_hook_register h s))\<lparr>g_dispatching := d\<rparr>"
  by (simp add: nx_hook_register_def Let_def set_hook_def set_chain_def)

lemma unregister_dispatching:
  "g_dispatching s > 0 \<Longrightarrow>
     nx_hook_unregister h s =
       (if h \<noteq> NULL \<and> hk_point (hooks s h) < NX_HOOK_POINT_COUNT \<and> h \<in> set (g_chains s (hk_point (hooks s h)))
        then s\<lparr>hooks := (hooks s)(h := (hooks s h)\<lparr>hk_dead := True\<rparr>)\<rparr> else s)"
  by (auto simp: nx_hook_unregister_def set_hook_def)

lemma unregister_inv [nx_inv]:
  assumes "hook_inv s"
  shows "hook_inv (nx_hook_unregister h s)"
proof -
  have ok: "chain_ok ((hooks s)(h := (hooks s h)\<lparr>hk_dead := b\<rparr>)) p c \<longleftrightarrow> chain_ok (hooks s) p c" for b p c
    by (rule chain_ok_cong) simp
  show ?thesis
  proof (cases "g_dispatching s > 0")
    case True
    then show ?thesis
      using assms by (auto simp: unregister_dispatching hook_inv_def ok)
  next
    case False
    let ?p = "hk_point (hooks s h)"
    have rem: "chain_ok (hooks s) ?p (remove1 h (g_chains s ?p))"
      using chain_ok_filter [OF hook_invD(3) [OF assms, of ?p], of "(\<noteq>) h"] hook_invD(1) [OF assms, of ?p]
      by (simp add: distinct_remove1_removeAll removeAll_filter_not_eq)
    have zero: "g_dispatching s = 0" using False hook_invD(4) [OF assms] by simp
    show ?thesis
      using assms rem zero
      by (auto simp: nx_hook_unregister_def chain_unlink_def Let_def set_hook_def set_chain_def hook_inv_def ok
          dest: notin_set_remove1 set_remove1_subset [THEN subsetD])
  qed
qed

section \<open>What a callback may do to the chains\<close>

text \<open>
  While a dispatch is in progress a callback changes the chains by registering and unregistering hooks, and may
  change everything else, hooks that are in no chain included.
\<close>

definition untouched :: "'a hook_state_scheme \<Rightarrow> 'a hook_state_scheme \<Rightarrow> bool" where
  "untouched s s' \<longleftrightarrow>
     g_chains s' = g_chains s \<and> g_dispatching s' = g_dispatching s \<and>
     (\<forall>p. \<forall>h \<in> set (g_chains s p). hooks s' h = hooks s h)"

inductive hook_acts :: "'a hook_state_scheme \<Rightarrow> 'a hook_state_scheme \<Rightarrow> bool" for s where
  acts_none: "hook_acts s s"
| acts_register: "hook_acts s t \<Longrightarrow> hook_acts s (snd (nx_hook_register h t))"
| acts_unregister: "hook_acts s t \<Longrightarrow> hook_acts s (nx_hook_unregister h t)"
| acts_other: "hook_acts s t \<Longrightarrow> untouched t t' \<Longrightarrow> hook_acts s t'"

definition disciplined :: "'a hook_run \<Rightarrow> bool" where
  "disciplined run \<longleftrightarrow> (\<forall>f c u s. hook_inv s \<longrightarrow> g_dispatching s > 0 \<longrightarrow> hook_acts s (snd (run f c u s)))"

text \<open>Such a callback only ever adds to what comes before a hook, and takes no hook out.\<close>

definition evolves :: "'a hook_state_scheme \<Rightarrow> 'a hook_state_scheme \<Rightarrow> bool" where
  "evolves s s' \<longleftrightarrow>
     hook_inv s' \<and> g_dispatching s' = g_dispatching s \<and>
     (\<forall>p. \<forall>h \<in> set (g_chains s p).
        h \<in> set (g_chains s' p) \<and> before (g_chains s p) h \<subseteq> before (g_chains s' p) h \<and>
        same_hook (hooks s h) (hooks s' h))"

lemma evolves_refl: "hook_inv s \<Longrightarrow> evolves s s"
  by (simp add: evolves_def)

lemma evolves_trans:
  assumes "evolves s t" "evolves t u"
  shows "evolves s u"
proof -
  have "h \<in> set (g_chains u p) \<and> before (g_chains s p) h \<subseteq> before (g_chains u p) h \<and>
      same_hook (hooks s h) (hooks u h)" if "h \<in> set (g_chains s p)" for h p
  proof -
    have st: "h \<in> set (g_chains t p)" "before (g_chains s p) h \<subseteq> before (g_chains t p) h"
      "same_hook (hooks s h) (hooks t h)"
      using assms(1) that by (auto simp: evolves_def)
    with assms(2) have tu: "h \<in> set (g_chains u p)" "before (g_chains t p) h \<subseteq> before (g_chains u p) h"
      "same_hook (hooks t h) (hooks u h)"
      by (auto simp: evolves_def)
    show ?thesis using tu(1) order_trans [OF st(2) tu(2)] same_hook_trans [OF st(3) tu(3)] by blast
  qed
  with assms show ?thesis by (simp add: evolves_def)
qed

lemma untouched_evolves:
  assumes "hook_inv s" "untouched s s'"
  shows "evolves s s'"
proof -
  have "chain_ok (hooks s') p (g_chains s p)" for p
    using assms chain_ok_cong [of "g_chains s p" "hooks s" "hooks s'" p] hook_invD(3) [OF assms(1), of p]
    by (simp add: untouched_def)
  with assms show ?thesis
    by (auto simp: evolves_def hook_inv_def untouched_def)
qed

lemma register_evolves:
  assumes "hook_inv s"
  shows "evolves s (snd (nx_hook_register h s))"
proof (cases "fst (nx_hook_register h s) = NX_OK")
  case False
  then have "snd (nx_hook_register h s) = s"
    by (auto simp: nx_hook_register_def Let_def split: if_splits)
  with assms show ?thesis by (simp add: evolves_refl)
next
  case True
  let ?p = "hk_point (hooks s h)"
  from True have notin: "h \<notin> set (g_chains s ?p)"
    by (auto simp: nx_hook_register_def Let_def split: if_splits)
  obtain f where eq: "snd (nx_hook_register h s) =
      s\<lparr>hooks := (hooks s)(h := (hooks s h)\<lparr>hk_dead := False\<rparr>),
        g_chains := (g_chains s)(?p := chain_insert f h (g_chains s ?p))\<rparr>"
    using True by (auto simp: nx_hook_register_def Let_def set_hook_def set_chain_def split: if_splits)
  show ?thesis
    unfolding evolves_def using register_inv [OF assms, of h]
    unfolding eq by (auto dest: chain_insert_before [OF _ notin, THEN subsetD])
qed

lemma unregister_evolves:
  assumes "hook_inv s" "g_dispatching s > 0"
  shows "evolves s (nx_hook_unregister h s)"
  using unregister_inv [OF assms(1), of h] assms
  by (auto simp: evolves_def unregister_dispatching)

lemma acts_evolve:
  assumes "hook_acts s t" "hook_inv s" "g_dispatching s > 0"
  shows "evolves s t"
  using assms
proof (induction rule: hook_acts.induct)
  case acts_none
  then show ?case by (simp add: evolves_refl)
next
  case (acts_register t h)
  then have t: "evolves s t" by simp
  then have "hook_inv t" by (simp add: evolves_def)
  from evolves_trans [OF t register_evolves [OF this]] show ?case .
next
  case (acts_unregister t h)
  then have "evolves s t" by simp
  moreover from this acts_unregister.prems have "evolves t (nx_hook_unregister h t)"
    by (intro unregister_evolves) (auto simp: evolves_def)
  ultimately show ?case by (rule evolves_trans)
next
  case (acts_other t t')
  then have t: "evolves s t" by simp
  then have "hook_inv t" by (simp add: evolves_def)
  from evolves_trans [OF t untouched_evolves [OF this acts_other.hyps(2)]] show ?case .
qed

lemma acts_trans: "hook_acts t u \<Longrightarrow> hook_acts s t \<Longrightarrow> hook_acts s u"
  by (induction rule: hook_acts.induct) (auto intro: hook_acts.intros)

lemma acts_level:
  assumes "hook_acts s t" "hook_inv s" "g_dispatching s > 0" "d > 0"
  shows "hook_acts (s\<lparr>g_dispatching := d\<rparr>) (t\<lparr>g_dispatching := d\<rparr>)"
  using assms
proof (induction rule: hook_acts.induct)
  case acts_none
  show ?case by (rule hook_acts.acts_none)
next
  case (acts_register t h)
  then show ?case using hook_acts.acts_register by (simp flip: register_level)
next
  case (acts_unregister t h)
  then have "g_dispatching t > 0"
    using acts_evolve [OF acts_unregister.hyps] by (simp add: evolves_def)
  then have "(nx_hook_unregister h t)\<lparr>g_dispatching := d\<rparr> = nx_hook_unregister h (t\<lparr>g_dispatching := d\<rparr>)"
    using \<open>d > 0\<close> by (simp add: unregister_dispatching)
  with acts_unregister show ?case by (simp add: hook_acts.acts_unregister)
next
  case (acts_other t t')
  then have "untouched (t\<lparr>g_dispatching := d\<rparr>) (t'\<lparr>g_dispatching := d\<rparr>)"
    by (simp add: untouched_def)
  with acts_other show ?case by (meson hook_acts.acts_other)
qed

section \<open>The walk\<close>

lemma hook_next_SomeD:
  assumes "hook_inv s" "h \<in> set (g_chains s p)" "hook_next s h = Some k"
  shows "k \<in> set (g_chains s p)" and "insert h (before (g_chains s p) h) \<subseteq> before (g_chains s p) k"
  using assms next_in_mem [of "g_chains s p" h k] next_in_before [of "g_chains s p" h k] hook_invD [OF assms(1)]
  by (auto simp: hook_next_def)

text \<open>The rest of a walk after the hook \<open>h\<close>, for a callback that evolved the state.\<close>

lemma walk_Suc:
  "hook_walk run ctx (Suc n) (Some h) s =
     (if hk_dead (hooks s h) then hook_walk run ctx n (hook_next s h) s
      else if fst (run (hk_fn (hooks s h)) ctx (hk_user (hooks s h)) s) = NX_HOOK_ABORT
      then run (hk_fn (hooks s h)) ctx (hk_user (hooks s h)) s
      else hook_walk run ctx n (hook_next s h) (snd (run (hk_fn (hooks s h)) ctx (hk_user (hooks s h)) s)))"
  by (auto simp: Let_def split: prod.split nx_hook_action.splits)

lemma walk_None [simp]: "hook_walk run ctx n None s = (NX_HOOK_CONTINUE, s)"
  by (cases n) simp_all

lemma walk_acts:
  assumes "disciplined run" "hook_inv s" "g_dispatching s > 0"
  shows "hook_acts s (snd (hook_walk run ctx n ho s))"
  using assms(2,3)
proof (induction n arbitrary: ho s)
  case 0
  then show ?case by (simp add: acts_none)
next
  case (Suc n)
  show ?case
  proof (cases ho)
    case None
    then show ?thesis by (simp add: acts_none)
  next
    case (Some h)
    let ?s1 = "snd (run (hk_fn (hooks s h)) ctx (hk_user (hooks s h)) s)"
    have a: "hook_acts s ?s1" using assms(1) Suc.prems by (simp add: disciplined_def)
    then have "evolves s ?s1" using Suc.prems by (rule acts_evolve)
    then have "hook_inv ?s1" "g_dispatching ?s1 > 0" using Suc.prems by (simp_all add: evolves_def)
    from acts_trans [OF Suc.IH [OF this] a] Suc.IH [OF Suc.prems] a show ?thesis
      unfolding Some walk_Suc by simp
  qed
qed

text \<open>How much fuel a walk from \<open>ho\<close> on can need at most.\<close>

definition fuel_left :: "nat \<Rightarrow> hook_ref option \<Rightarrow> nx_hook_point \<Rightarrow> 'a hook_state_scheme \<Rightarrow> bool" where
  "fuel_left n ho p s \<longleftrightarrow>
     (case ho of None \<Rightarrow> True | Some h \<Rightarrow> h \<in> set (g_chains s p) \<and> 2 ^ 64 \<le> n + card (before (g_chains s p) h))"

lemma before_card_less: "card (before c (h :: ptr)) < 2 ^ 64"
proof -
  have "before c h \<subset> UNIV"
    by (auto simp: before_def dest: set_takeWhileD)
  then have "card (before c h) < card (UNIV :: ptr set)"
    by (rule psubset_card_mono [rotated]) simp
  then show ?thesis by (simp add: card_word)
qed

lemma fuel_left_step:
  assumes "hook_inv s" "fuel_left (Suc n) (Some h) p s" "evolves s s'"
  shows "fuel_left n (hook_next s h) p s'"
proof (cases "hook_next s h")
  case None
  then show ?thesis by (simp add: fuel_left_def)
next
  case (Some k)
  have h: "h \<in> set (g_chains s p)" and f: "2 ^ 64 \<le> Suc n + card (before (g_chains s p) h)"
    using assms(2) by (simp_all add: fuel_left_def)
  note nx = hook_next_SomeD [OF assms(1) h Some]
  have k: "k \<in> set (g_chains s' p)" and "before (g_chains s p) k \<subseteq> before (g_chains s' p) k"
    using assms(3) nx(1) by (auto simp: evolves_def)
  with nx(2) have sub: "insert h (before (g_chains s p) h) \<subseteq> before (g_chains s' p) k" by blast
  have "h \<notin> before (g_chains s p) h" by (auto simp: before_def dest: set_takeWhileD)
  then have "Suc (card (before (g_chains s p) h)) = card (insert h (before (g_chains s p) h))"
    by (simp add: before_def)
  also have "\<dots> \<le> card (before (g_chains s' p) k)"
    by (rule card_mono [OF _ sub]) (simp add: before_def)
  finally show ?thesis using f k Some by (simp add: fuel_left_def)
qed

lemma walk_fuel:
  assumes "disciplined run" "hook_inv s" "g_dispatching s > 0" "fuel_left n ho p s" "n \<le> m"
  shows "hook_walk run ctx m ho s = hook_walk run ctx n ho s"
  using assms(2-5)
proof (induction n arbitrary: m ho s)
  case 0
  have "ho = None"
  proof (cases ho)
    case (Some h)
    with 0 before_card_less [of "g_chains s p" h] show ?thesis by (simp add: fuel_left_def)
  qed
  then show ?case by simp
next
  case (Suc n)
  then obtain m' where m: "m = Suc m'" "n \<le> m'" by (cases m) auto
  show ?case
  proof (cases ho)
    case None
    then show ?thesis by simp
  next
    case (Some h)
    let ?s1 = "snd (run (hk_fn (hooks s h)) ctx (hk_user (hooks s h)) s)"
    have "hook_acts s ?s1" using assms(1) Suc.prems by (simp add: disciplined_def)
    then have ev: "evolves s ?s1" using Suc.prems(1,2) by (rule acts_evolve)
    then have s1: "hook_inv ?s1" "g_dispatching ?s1 > 0" using Suc.prems by (simp_all add: evolves_def)
    note fl = fuel_left_step [OF Suc.prems(1) Suc.prems(3) [unfolded Some]]
    from Suc.IH [OF s1 fl [OF ev] m(2)] Suc.IH [OF Suc.prems(1,2) fl [OF evolves_refl [OF Suc.prems(1)]] m(2)]
    show ?thesis unfolding m Some walk_Suc by simp
  qed
qed

lemma dispatch_fuel:
  "fuel_left (2 ^ 64) (chain_head (g_chains s p)) p s"
  by (cases "g_chains s p") (simp_all add: fuel_left_def chain_head_def)

lemma walk_inv:
  assumes "disciplined run" "hook_inv s" "g_dispatching s > 0"
  shows "hook_inv (snd (hook_walk run ctx n ho s))"
    and "g_dispatching (snd (hook_walk run ctx n ho s)) = g_dispatching s"
  using acts_evolve [OF walk_acts [OF assms] assms(2,3)] by (simp_all add: evolves_def)

section \<open>The sweep\<close>

lemma sweep_chain_eq:
  "distinct c \<Longrightarrow>
     sweep_chain c hs = (filter (\<lambda>h. \<not> hk_dead (hs h)) c,
                         \<lambda>h. if h \<in> set c then (hs h)\<lparr>hk_dead := False\<rparr> else hs h)"
proof (induction c arbitrary: hs)
  case Nil
  then show ?case by simp
next
  case (Cons h c)
  have "filter (\<lambda>x. \<not> hk_dead ((hs(h := (hs h)\<lparr>hk_dead := False\<rparr>)) x)) c = filter (\<lambda>x. \<not> hk_dead (hs x)) c"
    using Cons.prems by (intro filter_cong) auto
  with Cons show ?case
    by (auto simp: fun_eq_iff)
qed

lemma sweep_points:
  assumes "\<And>p. chain_ok (hooks s) p (g_chains s p)" "distinct ps"
  shows "g_chains (fold sweep_point ps s) =
           (\<lambda>p. if p \<in> set ps then filter (\<lambda>h. \<not> hk_dead (hooks s h)) (g_chains s p) else g_chains s p)"
    and "hooks (fold sweep_point ps s) =
           (\<lambda>h. if \<exists>p \<in> set ps. h \<in> set (g_chains s p) then (hooks s h)\<lparr>hk_dead := False\<rparr> else hooks s h)"
    and "g_dispatching (fold sweep_point ps s) = g_dispatching s"
proof -
  have "g_chains (fold sweep_point ps s) =
           (\<lambda>p. if p \<in> set ps then filter (\<lambda>h. \<not> hk_dead (hooks s h)) (g_chains s p) else g_chains s p) \<and>
        hooks (fold sweep_point ps s) =
           (\<lambda>h. if \<exists>p \<in> set ps. h \<in> set (g_chains s p) then (hooks s h)\<lparr>hk_dead := False\<rparr> else hooks s h) \<and>
        g_dispatching (fold sweep_point ps s) = g_dispatching s"
    using assms
  proof (induction ps arbitrary: s)
    case Nil
    then show ?case by simp
  next
    case (Cons q ps)
    have q: "distinct (g_chains s q)" using Cons.prems(1) [of q] by (simp add: chain_ok_def)
    define t where "t = sweep_point q s"
    have hs: "hooks t = (\<lambda>h. if h \<in> set (g_chains s q) then (hooks s h)\<lparr>hk_dead := False\<rparr> else hooks s h)"
      and ch: "g_chains t = (g_chains s)(q := filter (\<lambda>h. \<not> hk_dead (hooks s h)) (g_chains s q))"
      and di: "g_dispatching t = g_dispatching s"
      by (simp_all add: t_def sweep_point_def sweep_chain_eq [OF q])
    have pt: "hk_point (hooks s h) = p" if "h \<in> set (g_chains s p)" for h p
      using Cons.prems(1) [of p] that by (simp add: chain_ok_def)
    have ok: "chain_ok (hooks t) p (g_chains t p)" for p
    proof -
      have "chain_ok (hooks t) p c \<longleftrightarrow> chain_ok (hooks s) p c" for c
        by (rule chain_ok_cong) (simp add: hs)
      then show ?thesis using Cons.prems(1) [of p] chain_ok_filter by (auto simp: ch)
    qed
    have live: "filter (\<lambda>h. \<not> hk_dead (hooks t h)) (g_chains t p) = filter (\<lambda>h. \<not> hk_dead (hooks s h)) (g_chains s p)"
      if "p \<noteq> q" for p
      using that pt by (auto simp: hs ch intro!: filter_cong)
    note IH = Cons.IH [of t, OF ok]
    from Cons.prems(2) have "q \<notin> set ps" "distinct ps" by simp_all
    from IH [OF this(2)] \<open>q \<notin> set ps\<close> live show ?case
      by (auto simp: fun_eq_iff di ch hs t_def [symmetric])
  qed
  then show "g_chains (fold sweep_point ps s) =
           (\<lambda>p. if p \<in> set ps then filter (\<lambda>h. \<not> hk_dead (hooks s h)) (g_chains s p) else g_chains s p)"
    and "hooks (fold sweep_point ps s) =
           (\<lambda>h. if \<exists>p \<in> set ps. h \<in> set (g_chains s p) then (hooks s h)\<lparr>hk_dead := False\<rparr> else hooks s h)"
    and "g_dispatching (fold sweep_point ps s) = g_dispatching s"
    by blast+
qed

lemma sweep_dead_eqs:
  assumes "\<And>p. chain_ok (hooks s) p (g_chains s p)"
  shows "g_chains (sweep_dead s) p = filter (\<lambda>h. \<not> hk_dead (hooks s h)) (g_chains s p)"
    and "same_hook (hooks s h) (hooks (sweep_dead s) h)"
    and "g_dispatching (sweep_dead s) = g_dispatching s"
    and "\<not> hk_dead (hooks s h) \<Longrightarrow> hooks (sweep_dead s) h = hooks s h"
proof -
  note sw = sweep_points [OF assms, of "[0..<NX_HOOK_POINT_COUNT]", OF distinct_upt, folded sweep_dead_def]
  show "g_chains (sweep_dead s) p = filter (\<lambda>h. \<not> hk_dead (hooks s h)) (g_chains s p)"
    using assms [of p] by (auto simp: sw(1) chain_ok_def)
  show "same_hook (hooks s h) (hooks (sweep_dead s) h)"
    by (simp add: sw(2))
  show "g_dispatching (sweep_dead s) = g_dispatching s"
    by (rule sw(3))
  show "hooks (sweep_dead s) h = hooks s h" if "\<not> hk_dead (hooks s h)"
    using that by (cases "hooks s h") (simp add: sw(2))
qed

lemma sweep_dead_inv:
  assumes "\<And>p. chain_ok (hooks s) p (g_chains s p)" "g_dispatching s = 0"
  shows "hook_inv (sweep_dead s)"
proof -
  note sw = sweep_dead_eqs [OF assms(1)]
  have "chain_ok (hooks (sweep_dead s)) p (g_chains (sweep_dead s) p)" for p
    using chain_ok_filter [OF assms(1)] chain_ok_cong [of _ "hooks s" "hooks (sweep_dead s)"] sw(1,2) by simp
  then show ?thesis
    using assms(2) sw by (auto simp: hook_inv_def)
qed

section \<open>Dispatch keeps the chains\<close>

lemma dispatch_level:
  assumes "hook_inv s"
  shows "hook_inv (s\<lparr>g_dispatching := g_dispatching s + 1\<rparr>)"
    and "g_dispatching (s\<lparr>g_dispatching := g_dispatching s + 1\<rparr>) > 0"
  using assms by (simp_all add: hook_inv_def)

lemma dispatch_inv [nx_inv]:
  assumes "disciplined run" "hook_inv s"
  shows "hook_inv (snd (nx_hook_dispatch run ctx s))"
    and "g_dispatching (snd (nx_hook_dispatch run ctx s)) = g_dispatching s"
proof -
  let ?s1 = "s\<lparr>g_dispatching := g_dispatching s + 1\<rparr>"
  let ?w = "hook_walk run ctx (2 ^ 64) (chain_head (g_chains ?s1 (ctx_point ctx))) ?s1"
  let ?s3 = "(snd ?w)\<lparr>g_dispatching := g_dispatching (snd ?w) - 1\<rparr>"
  note s1 = dispatch_level [OF assms(2)]
  note w = walk_inv [OF assms(1) s1, of ctx "2 ^ 64" "chain_head (g_chains ?s1 (ctx_point ctx))"]
  have d: "g_dispatching ?s3 = g_dispatching s" using w(2) by simp
  have ok: "chain_ok (hooks ?s3) p (g_chains ?s3 p)" for p using w(1) by (simp add: hook_inv_def)
  have eq: "snd (nx_hook_dispatch run ctx s) =
      (if ctx_point ctx \<ge> NX_HOOK_POINT_COUNT then s else if g_dispatching ?s3 = 0 then sweep_dead ?s3 else ?s3)"
    by (simp add: nx_hook_dispatch_def Let_def split_beta)
  have "hook_inv ?s3" if "g_dispatching ?s3 \<noteq> 0"
    using ok d that hook_invD(4) [OF assms(2)] by (simp add: hook_inv_def)
  with assms(2) show "hook_inv (snd (nx_hook_dispatch run ctx s))"
    unfolding eq using sweep_dead_inv [OF ok] by simp
  show "g_dispatching (snd (nx_hook_dispatch run ctx s)) = g_dispatching s"
    unfolding eq using trans [OF sweep_dead_eqs(3) [OF ok] d] d
    by (simp only: if_distrib [of g_dispatching] if_cancel)
qed

text \<open>A dispatch inside a callback is itself something a callback may do.\<close>

lemma nested_dispatch_acts:
  assumes "disciplined run" "hook_inv s" "g_dispatching s > 0"
  shows "hook_acts s (snd (nx_hook_dispatch run ctx s))"
proof -
  let ?s1 = "s\<lparr>g_dispatching := g_dispatching s + 1\<rparr>"
  let ?w = "snd (hook_walk run ctx (2 ^ 64) (chain_head (g_chains ?s1 (ctx_point ctx))) ?s1)"
  note s1 = dispatch_level [OF assms(2)]
  have "hook_acts ?s1 ?w" by (rule walk_acts [OF assms(1) s1])
  from acts_level [OF this s1 assms(3)] have "hook_acts s (?w\<lparr>g_dispatching := g_dispatching s\<rparr>)" by simp
  moreover have "g_dispatching ?w = g_dispatching s + 1"
    using walk_inv(2) [OF assms(1) s1] by simp
  ultimately show ?thesis
    using assms(3) by (simp add: nx_hook_dispatch_def Let_def split_beta acts_none)
qed

section \<open>Histories\<close>

inductive hook_reach :: "'a hook_run \<Rightarrow> 'a hook_state_scheme \<Rightarrow> bool" for run where
  hr_start: "(\<And>p. g_chains s p = []) \<Longrightarrow> g_dispatching s = 0 \<Longrightarrow> hook_reach run s"
| hr_register: "hook_reach run s \<Longrightarrow> hook_reach run (snd (nx_hook_register h s))"
| hr_unregister: "hook_reach run s \<Longrightarrow> hook_reach run (nx_hook_unregister h s)"
| hr_dispatch: "hook_reach run s \<Longrightarrow> hook_reach run (snd (nx_hook_dispatch run ctx s))"
| hr_other: "hook_reach run s \<Longrightarrow> untouched s s' \<Longrightarrow> hook_reach run s'"

lemma unregister_level [simp]: "g_dispatching (nx_hook_unregister h s) = g_dispatching s"
  by (simp add: nx_hook_unregister_def chain_unlink_def Let_def set_hook_def set_chain_def)

lemma hook_reach_inv:
  assumes "disciplined run" "hook_reach run s"
  shows "hook_inv s \<and> g_dispatching s = 0"
  using assms(2)
proof (induction rule: hook_reach.induct)
  case (hr_start s)
  then show ?case by (simp add: hook_inv_def chain_ok_def)
next
  case (hr_register s h)
  then show ?case by (simp add: register_inv)
next
  case (hr_unregister s h)
  then show ?case by (simp add: unregister_inv)
next
  case (hr_dispatch s ctx)
  then show ?case using dispatch_inv [OF assms(1)] by simp
next
  case (hr_other s s')
  then show ?case using untouched_evolves by (auto simp: evolves_def)
qed

text \<open>
  C10. Take any history of registrations, unregistrations and dispatches whose callbacks may in turn register,
  unregister and dispatch. Between dispatches every chain is ordered by priority, holds no hook twice and no
  unregistered hook, and only hooks of its own point; and each dispatch reaches the end of its chain: no larger bound on
  the number of steps than the number of addresses would change its result.
\<close>

theorem hook_chains_wf:
  assumes "disciplined run" "hook_reach run s"
  shows "sorted (map (\<lambda>h. hk_priority (hooks s h)) (g_chains s p)) \<and> distinct (g_chains s p) \<and>
         (\<forall>h \<in> set (g_chains s p). \<not> hk_dead (hooks s h) \<and> hk_point (hooks s h) = p) \<and>
         nx_hook_chain_length p s = length (g_chains s p) \<and>
         (\<forall>n \<ge> 2 ^ 64. hook_walk run ctx n (chain_head (g_chains s p)) (s\<lparr>g_dispatching := 1\<rparr>) =
                       hook_walk run ctx (2 ^ 64) (chain_head (g_chains s p)) (s\<lparr>g_dispatching := 1\<rparr>))"
proof -
  have inv: "hook_inv s" and d: "g_dispatching s = 0" using hook_reach_inv [OF assms] by auto
  have ok: "chain_ok (hooks s) p (g_chains s p)" by (rule hook_invD(3) [OF inv])
  have live: "\<not> hk_dead (hooks s h)" if "h \<in> set (g_chains s p)" for h
    using inv d that by (auto simp: hook_inv_def)
  then have len: "nx_hook_chain_length p s = length (g_chains s p)"
    using ok by (auto simp: nx_hook_chain_length_def chain_ok_def filter_id_conv [THEN iffD2])
  have s1: "hook_inv (s\<lparr>g_dispatching := 1\<rparr>)" "g_dispatching (s\<lparr>g_dispatching := 1\<rparr>) > 0"
    using dispatch_level [OF inv] d by simp_all
  have "hook_walk run ctx n (chain_head (g_chains s p)) (s\<lparr>g_dispatching := 1\<rparr>) =
        hook_walk run ctx (2 ^ 64) (chain_head (g_chains s p)) (s\<lparr>g_dispatching := 1\<rparr>)" if "2 ^ 64 \<le> n" for n
    using walk_fuel [OF assms(1) s1 dispatch_fuel that, of ctx p] by simp
  with ok live len show ?thesis
    unfolding chain_ok_def sorted_map by blast
qed

text \<open>Two hooks on one point, of which the first unregisters the second while it runs.\<close>

definition demo_run :: "unit hook_run" where
  "demo_run f c u s = (NX_HOOK_CONTINUE, if f = 1 then nx_hook_unregister u s else s)"

definition demo_hooks :: hook_state where
  "demo_hooks =
     \<lparr>hooks = (\<lambda>h. \<lparr>hk_point = 0, hk_priority = 5, hk_fn = 2, hk_user = 0, hk_dead = False\<rparr>)
        (0x100 := \<lparr>hk_point = 0, hk_priority = 3, hk_fn = 1, hk_user = 0x200, hk_dead = False\<rparr>),
      g_chains = (\<lambda>p. []), g_dispatching = 0\<rparr>"

definition demo_registered :: hook_state where
  "demo_registered = snd (nx_hook_register 0x100 (snd (nx_hook_register 0x200 demo_hooks)))"

definition demo_ctx :: nx_hook_context where
  "demo_ctx = \<lparr>ctx_point = NX_HOOK_IPC_SEND, ctx_u = ctx_csw 0 0\<rparr>"

definition demo_dispatched :: hook_state where
  "demo_dispatched = snd (nx_hook_dispatch demo_run demo_ctx demo_registered)"

lemma demo_disciplined: "disciplined demo_run"
  by (auto simp: disciplined_def demo_run_def intro: acts_none acts_unregister)

lemma demo_reach: "hook_reach demo_run demo_registered" "hook_reach demo_run demo_dispatched"
proof -
  have "hook_reach demo_run demo_hooks"
    by (rule hr_start) (simp_all add: demo_hooks_def)
  then show "hook_reach demo_run demo_registered"
    unfolding demo_registered_def by (intro hr_register)
  then show "hook_reach demo_run demo_dispatched"
    unfolding demo_dispatched_def by (rule hr_dispatch)
qed

theorem hook_chains_wf_witness:
  "g_chains demo_registered 0 = [0x100, 0x200] \<and> g_chains demo_dispatched 0 = [0x100] \<and>
   nx_hook_chain_length 0 demo_dispatched = length (g_chains demo_dispatched 0) \<and>
   \<not> hk_dead (hooks demo_dispatched 0x100)"
proof -
  have c: "g_chains demo_registered 0 = [0x100, 0x200]" "g_chains demo_dispatched 0 = [0x100]" by code_simp+
  note wf = hook_chains_wf [OF demo_disciplined demo_reach(2), of 0 demo_ctx]
  from c(2) have "0x100 \<in> set (g_chains demo_dispatched 0)" by simp
  with wf c show ?thesis by blast
qed

section \<open>What a dispatch calls\<close>

text \<open>
  The reference: the hooks of the chain as it was when the dispatch began, in order, each called unless it is dead when
  its turn comes, until one aborts.
\<close>

fun call_all :: "'a hook_run \<Rightarrow> nx_hook_context \<Rightarrow> hook_ref list \<Rightarrow> 'a hook_state_scheme \<Rightarrow>
    nx_hook_action \<times> 'a hook_state_scheme" where
  "call_all run ctx [] s = (NX_HOOK_CONTINUE, s)"
| "call_all run ctx (h # hs) s =
     (if hk_dead (hooks s h) then call_all run ctx hs s
      else let r = run (hk_fn (hooks s h)) ctx (hk_user (hooks s h)) s in
           if fst r = NX_HOOK_ABORT then r else call_all run ctx hs (snd r))"

text \<open>Callbacks that register nothing: they may unregister hooks and change everything else.\<close>

definition registers_none :: "'a hook_run \<Rightarrow> bool" where
  "registers_none run \<longleftrightarrow>
     (\<forall>f c u s. g_dispatching s > 0 \<longrightarrow> (let s' = snd (run f c u s) in
        g_chains s' = g_chains s \<and> g_dispatching s' = g_dispatching s \<and> (\<forall>h. same_hook (hooks s h) (hooks s' h))))"

lemma walk_call_all:
  assumes "registers_none run" "distinct c" "\<And>h. h \<in> set c \<Longrightarrow> hk_point (hooks s h) = p"
    and "g_chains s p = c" "i \<le> length c" "length c \<le> n + i" "g_dispatching s > 0"
  shows "hook_walk run ctx n (chain_head (drop i c)) s = call_all run ctx (drop i c) s"
  using assms(3-7)
proof (induction n arbitrary: i s)
  case 0
  then show ?case by (simp add: chain_head_def)
next
  case (Suc n)
  show ?case
  proof (cases "i < length c")
    case False
    then show ?thesis by (simp add: chain_head_def)
  next
    case True
    then have dr: "drop i c = c ! i # drop (Suc i) c" by (simp add: Cons_nth_drop_Suc)
    let ?h = "c ! i"
    let ?r = "run (hk_fn (hooks s ?h)) ctx (hk_user (hooks s ?h)) s"
    have nx: "hook_next s ?h = chain_head (drop (Suc i) c)"
      using True Suc.prems(1) [of ?h] Suc.prems(2) next_in_nth [OF assms(2) True]
      by (auto simp: hook_next_def chain_head_def Cons_nth_drop_Suc [symmetric])
    have r: "g_chains (snd ?r) p = c" "\<And>h. h \<in> set c \<Longrightarrow> hk_point (hooks (snd ?r) h) = p"
      "g_dispatching (snd ?r) > 0"
      using assms(1) Suc.prems(1,2,5) by (simp_all add: registers_none_def Let_def) (metis same_hookD(1))
    note IH1 = Suc.IH [OF Suc.prems(1,2), of "Suc i"] and IH2 = Suc.IH [OF r(2,1), of "Suc i"]
    show ?thesis
      unfolding dr call_all.simps chain_head_def list.case walk_Suc nx [unfolded chain_head_def]
      using IH1 IH2 True Suc.prems(4,5) r(3) by (simp add: Let_def chain_head_def)
  qed
qed

lemma chain_length_less:
  assumes "distinct (c :: ptr list)"
  shows "length c \<le> 2 ^ 64"
proof -
  have "card (set c) \<le> card (UNIV :: ptr set)" by (rule card_mono) simp_all
  with assms show ?thesis by (simp add: distinct_card card_word)
qed



text \<open>
  A hook that is unregistered and registered again while a dispatch is in progress is lost: the registration
  reports that the hook is already registered, and the sweep at the end of the dispatch takes it out.
\<close>

theorem reregistered_hook_is_lost:
  assumes "hook_inv s" "g_dispatching s > 0" "h \<in> set (g_chains s p)"
  shows "fst (nx_hook_register h (nx_hook_unregister h s)) = NX_EEXIST \<and>
         h \<notin> set (g_chains (sweep_dead (snd (nx_hook_register h (nx_hook_unregister h s)))) p)"
proof -
  let ?u = "nx_hook_unregister h s"
  have h: "h \<noteq> NULL" "hk_fn (hooks s h) \<noteq> NULL" "hk_point (hooks s h) = p" "p < NX_HOOK_POINT_COUNT"
    using hook_invD(3) [OF assms(1), of p] assms(3) by (auto simp: chain_ok_def not_le [symmetric])
  have u: "?u = s\<lparr>hooks := (hooks s)(h := (hooks s h)\<lparr>hk_dead := True\<rparr>)\<rparr>"
    using h assms by (simp add: unregister_dispatching)
  have reg: "nx_hook_register h ?u = (NX_EEXIST, ?u)"
    unfolding nx_hook_register_def using h assms(3) by (simp add: u)
  have "hook_inv ?u" by (rule unregister_inv [OF assms(1)])
  then have "h \<notin> set (g_chains (sweep_dead ?u) p)"
    using sweep_dead_eqs(1) [OF hook_invD(3), of ?u p] by (simp add: u)
  with reg show ?thesis by simp
qed

theorem reregistered_hook_is_lost_witness:
  "0x200 \<in> set (g_chains demo_registered 0) \<and>
   fst (nx_hook_register 0x200 (nx_hook_unregister 0x200 (demo_registered\<lparr>g_dispatching := 1\<rparr>))) = NX_EEXIST \<and>
   0x200 \<notin> set (g_chains (sweep_dead (snd (nx_hook_register 0x200
      (nx_hook_unregister 0x200 (demo_registered\<lparr>g_dispatching := 1\<rparr>))))) 0)"
proof -
  have c: "g_chains demo_registered 0 = [0x100, 0x200]" by code_simp
  have "hook_inv demo_registered" "g_dispatching demo_registered = 0"
    using hook_reach_inv [OF demo_disciplined demo_reach(1)] by auto
  then have "hook_inv (demo_registered\<lparr>g_dispatching := 1\<rparr>)" using dispatch_level(1) by fastforce
  from reregistered_hook_is_lost [OF this, where h = "0x200" and p = 0] c show ?thesis by simp
qed

end
