(* ===== verification/Nx_Registry.thy ===== *)
theory Nx_Registry
  imports Nx_Hook
begin

text \<open>
  The component graph registry (\<^verbatim>\<open>framework/registry.c\<close>): slots, components and connections, the generation counter,
  subscribers and the change log. Slot, component and connection structures live in stores that map addresses to
  records, as callers own the first two and hold pointers to the third. The linked lists of registry nodes are lists
  with the newest node first; a connection node carries nothing but its connection, so the address of the connection
  stands for both. What the registry tells its subscribers is recorded in the field \<open>notified\<close>. Allocations that can
  fail are arguments.
\<close>

section \<open>Data\<close>

datatype nx_conn_mode = NX_CONN_ASYNC | NX_CONN_SYNC

datatype nx_pause_policy = NX_PAUSE_QUEUE | NX_PAUSE_REJECT | NX_PAUSE_REDIRECT

datatype nx_slot_mutability = NX_MUT_HOT | NX_MUT_WARM | NX_MUT_FROZEN

datatype nx_slot_concurrency = NX_CONC_SHARED | NX_CONC_SERIALIZED | NX_CONC_PER_CPU | NX_CONC_DEDICATED

datatype nx_slot_pause_state =
  NX_SLOT_PAUSE_NONE | NX_SLOT_PAUSE_CUTTING | NX_SLOT_PAUSE_DRAINING | NX_SLOT_PAUSE_DONE

text \<open>A C string that is compared and whose address is tested: the address and the characters.\<close>

type_synonym c_string = "ptr \<times> string"

record nx_slot =
  sl_name :: "c_string option"
  sl_iface :: "string option"
  sl_mutability :: nx_slot_mutability
  sl_concurrency :: nx_slot_concurrency
  sl_active :: comp_ref
  sl_fallback :: slot_ref
  sl_pause_state :: nx_slot_pause_state
  sl_resume_waitq :: "ptr list"
  sl_in_flight_calls :: u32

record nx_component =
  cm_manifest_id :: "string option"
  cm_instance_id :: "string option"
  cm_state :: nx_lifecycle_state
  cm_impl :: ptr
  cm_descriptor :: ptr

record nx_connection =
  cn_from_slot :: slot_ref
  cn_to_slot :: slot_ref
  cn_mode :: nx_conn_mode
  cn_stateful :: bool
  cn_policy :: nx_pause_policy
  cn_installed_gen :: u64

record slot_node =
  sn_slot :: slot_ref
  sn_incoming :: "conn_ref list"
  sn_outgoing :: "conn_ref list"
  sn_created_gen :: u64

record component_node =
  cmn_comp :: comp_ref
  cmn_created_gen :: u64

text \<open>The event structure: type tag and union arm as one datatype, and the two fields that every event has.\<close>

datatype nx_graph_event_arm =
    NX_EV_SLOT_CREATED "string option"
  | NX_EV_SLOT_DESTROYED "string option"
  | NX_EV_SLOT_SWAPPED "string option" "string option" "string option" "string option" "string option"
  | NX_EV_COMPONENT_REGISTERED "string option" "string option"
  | NX_EV_COMPONENT_UNREGISTERED "string option" "string option"
  | NX_EV_COMPONENT_STATE "string option" "string option" nx_lifecycle_state nx_lifecycle_state
  | NX_EV_CONNECTION_ADDED "string option" "string option" nx_conn_mode bool
  | NX_EV_CONNECTION_REMOVED "string option" "string option" nx_conn_mode bool
  | NX_EV_CONNECTION_RETUNED "string option" "string option" nx_conn_mode bool

record nx_graph_event =
  ev_arm :: nx_graph_event_arm
  ev_generation :: u64
  ev_timestamp_ns :: u64

record subscriber =
  sub_cb :: ptr
  sub_ctx :: ptr
  sub_in_use :: bool

abbreviation (input) NX_MAX_SUBSCRIBERS :: nat where "NX_MAX_SUBSCRIBERS \<equiv> 16"
abbreviation (input) NX_CHANGE_LOG_CAPACITY :: u64 where "NX_CHANGE_LOG_CAPACITY \<equiv> 256"

record graph = hook_state +
  slots :: "slot_ref \<Rightarrow> nx_slot"
  comps :: "comp_ref \<Rightarrow> nx_component"
  conns :: "conn_ref \<Rightarrow> nx_connection"
  g_slots :: "slot_node list"
  g_components :: "component_node list"
  g_connections :: "conn_ref list"
  g_slot_count :: nat
  g_component_count :: nat
  g_connection_count :: nat
  g_generation :: u64
  g_subscribers :: "subscriber list"
  g_log_ring :: "nx_graph_event list"
  g_log_total :: u64
  notified :: "(ptr \<times> ptr \<times> nx_graph_event) list"

type_synonym 'a graph_run =
  "ptr \<Rightarrow> nx_hook_context \<Rightarrow> ptr \<Rightarrow> 'a graph_scheme \<Rightarrow> nx_hook_action \<times> 'a graph_scheme"

definition set_slot :: "slot_ref \<Rightarrow> (nx_slot \<Rightarrow> nx_slot) \<Rightarrow> 'a graph_scheme \<Rightarrow> 'a graph_scheme" where
  "set_slot r f s = s\<lparr>slots := (slots s)(r := f (slots s r))\<rparr>"

definition set_comp :: "comp_ref \<Rightarrow> (nx_component \<Rightarrow> nx_component) \<Rightarrow> 'a graph_scheme \<Rightarrow> 'a graph_scheme" where
  "set_comp r f s = s\<lparr>comps := (comps s)(r := f (comps s r))\<rparr>"

definition set_conn :: "conn_ref \<Rightarrow> (nx_connection \<Rightarrow> nx_connection) \<Rightarrow> 'a graph_scheme \<Rightarrow> 'a graph_scheme" where
  "set_conn r f s = s\<lparr>conns := (conns s)(r := f (conns s r))\<rparr>"

definition bump_gen :: "'a graph_scheme \<Rightarrow> 'a graph_scheme" where
  "bump_gen s = s\<lparr>g_generation := g_generation s + 1\<rparr>"

section \<open>Subscribers\<close>

definition subscriber_find :: "ptr \<Rightarrow> ptr \<Rightarrow> 'a graph_scheme \<Rightarrow> nat option" where
  "subscriber_find cb ctx s = find_idx (\<lambda>x. sub_in_use x \<and> sub_cb x = cb \<and> sub_ctx x = ctx) (g_subscribers s)"

definition nx_graph_subscribe :: "ptr \<Rightarrow> ptr \<Rightarrow> 'a graph_scheme \<Rightarrow> nx_status \<times> 'a graph_scheme" where
  "nx_graph_subscribe cb ctx s =
     (if cb = NULL then (NX_EINVAL, s)
      else if subscriber_find cb ctx s \<noteq> None then (NX_EEXIST, s)
      else case find_idx (\<lambda>x. \<not> sub_in_use x) (g_subscribers s) of
             None \<Rightarrow> (NX_ENOMEM, s)
           | Some i \<Rightarrow>
               (NX_OK, s\<lparr>g_subscribers := (g_subscribers s)[i := \<lparr>sub_cb = cb, sub_ctx = ctx, sub_in_use = True\<rparr>]\<rparr>))"

definition nx_graph_unsubscribe :: "ptr \<Rightarrow> ptr \<Rightarrow> 'a graph_scheme \<Rightarrow> 'a graph_scheme" where
  "nx_graph_unsubscribe cb ctx s =
     (case subscriber_find cb ctx s of
        None \<Rightarrow> s
      | Some i \<Rightarrow> s\<lparr>g_subscribers := (g_subscribers s)[i := (g_subscribers s ! i)\<lparr>sub_in_use := False\<rparr>]\<rparr>)"

section \<open>The change log\<close>

definition change_log_append :: "nx_graph_event \<Rightarrow> 'a graph_scheme \<Rightarrow> 'a graph_scheme" where
  "change_log_append ev s =
     (let total = g_log_total s in
      s\<lparr>g_log_total := total + 1, g_log_ring := (g_log_ring s)[unat (total mod NX_CHANGE_LOG_CAPACITY) := ev]\<rparr>)"

definition nx_change_log_total :: "'a graph_scheme \<Rightarrow> u64" where
  "nx_change_log_total s = g_log_total s"

definition nx_change_log_size :: "'a graph_scheme \<Rightarrow> u64" where
  "nx_change_log_size s =
     (let total = nx_change_log_total s in if total < NX_CHANGE_LOG_CAPACITY then total else NX_CHANGE_LOG_CAPACITY)"

text \<open>
  The loop of \<^verbatim>\<open>nx_change_log_read\<close> visits the logical indices from the oldest held event to the newest; the test of
  \<open>max\<close> ends it once that many events have been copied.
\<close>

fun log_copy :: "nx_graph_event list \<Rightarrow> u64 \<Rightarrow> nat list \<Rightarrow> nat \<Rightarrow> nx_graph_event list" where
  "log_copy ring since [] room = []"
| "log_copy ring since (i # is) room =
     (if room = 0 then []
      else let ev = ring ! (i mod 256) in
           if ev_generation ev > since then ev # log_copy ring since is (room - 1)
           else log_copy ring since is room)"

definition nx_change_log_read :: "u64 \<Rightarrow> nat \<Rightarrow> 'a graph_scheme \<Rightarrow> nx_graph_event list" where
  "nx_change_log_read since_gen mx s =
     (if mx = 0 then []
      else let total = nx_change_log_total s;
               held = (if total < NX_CHANGE_LOG_CAPACITY then total else NX_CHANGE_LOG_CAPACITY);
               oldest_idx = total - held
           in log_copy (g_log_ring s) since_gen [unat oldest_idx..<unat total] mx)"

definition nx_change_log_reset :: "'a graph_scheme \<Rightarrow> 'a graph_scheme" where
  "nx_change_log_reset s = s\<lparr>g_log_total := 0\<rparr>"

text \<open>The kernel build has no clock here: time stamps are 0.\<close>

definition now_ns :: u64 where "now_ns = 0"

definition emit_event :: "nx_graph_event_arm \<Rightarrow> 'a graph_scheme \<Rightarrow> 'a graph_scheme" where
  "emit_event arm s =
     (let ev = \<lparr>ev_arm = arm, ev_generation = g_generation s, ev_timestamp_ns = now_ns\<rparr>;
          s1 = change_log_append ev s
      in s1\<lparr>notified := notified s1 @ map (\<lambda>x. (sub_cb x, sub_ctx x, ev)) (filter sub_in_use (g_subscribers s1))\<rparr>)"

section \<open>Finding nodes\<close>

text \<open>
  Names that do not point into the RAM window of the machine are skipped, as are null names.
\<close>

definition name_valid :: "c_string option \<Rightarrow> bool" where
  "name_valid nm = (case nm of None \<Rightarrow> False | Some (a, _) \<Rightarrow> \<not> (a < 0x40000000 \<or> a > 0x80000000))"

definition slot_node_find :: "string option \<Rightarrow> 'a graph_scheme \<Rightarrow> slot_node option" where
  "slot_node_find name s =
     find (\<lambda>n. let nm = sl_name (slots s (sn_slot n)) in
              name_valid nm \<and> name \<noteq> None \<and> map_option snd nm = name) (g_slots s)"

definition slot_node_for :: "slot_ref \<Rightarrow> 'a graph_scheme \<Rightarrow> slot_node option" where
  "slot_node_for r s = (if r = NULL then None else find (\<lambda>n. sn_slot n = r) (g_slots s))"

definition component_node_find :: "string option \<Rightarrow> string option \<Rightarrow> 'a graph_scheme \<Rightarrow> component_node option" where
  "component_node_find mid iid s =
     (if mid = None \<or> iid = None then None
      else find (\<lambda>n. let c = comps s (cmn_comp n) in
                   cm_state c \<noteq> NX_LC_DESTROYED \<and> cm_manifest_id c = mid \<and> cm_instance_id c = iid) (g_components s))"

definition component_node_for :: "comp_ref \<Rightarrow> 'a graph_scheme \<Rightarrow> component_node option" where
  "component_node_for r s = (if r = NULL then None else find (\<lambda>n. cmn_comp n = r) (g_components s))"

definition nx_component_is_bound :: "comp_ref \<Rightarrow> 'a graph_scheme \<Rightarrow> bool" where
  "nx_component_is_bound c s = (c \<noteq> NULL \<and> (\<exists>n \<in> set (g_slots s). sl_active (slots s (sn_slot n)) = c))"

text \<open>The walk over the slots; the binding of each slot is read when its turn comes.\<close>

definition nx_component_foreach_bound_slot ::
    "comp_ref \<Rightarrow> (slot_ref \<Rightarrow> 'a graph_scheme \<Rightarrow> 'a graph_scheme) \<Rightarrow> 'a graph_scheme \<Rightarrow> 'a graph_scheme" where
  "nx_component_foreach_bound_slot c cb s =
     (if c = NULL then s
      else fold (\<lambda>r t. if sl_active (slots t r) = c then cb r t else t) (map sn_slot (g_slots s)) s)"

section \<open>Lists of a slot\<close>

text \<open>An update of the node that \<^verbatim>\<open>slot_node_for\<close> returns.\<close>

fun upd_node :: "slot_ref \<Rightarrow> (slot_node \<Rightarrow> slot_node) \<Rightarrow> slot_node list \<Rightarrow> slot_node list" where
  "upd_node r f [] = []"
| "upd_node r f (n # ns) = (if sn_slot n = r then f n # ns else n # upd_node r f ns)"

definition slot_add_incoming :: "slot_ref \<Rightarrow> conn_ref \<Rightarrow> 'a graph_scheme \<Rightarrow> 'a graph_scheme" where
  "slot_add_incoming r c s = s\<lparr>g_slots := upd_node r (\<lambda>n. n\<lparr>sn_incoming := c # sn_incoming n\<rparr>) (g_slots s)\<rparr>"

definition slot_add_outgoing :: "slot_ref \<Rightarrow> conn_ref \<Rightarrow> 'a graph_scheme \<Rightarrow> 'a graph_scheme" where
  "slot_add_outgoing r c s = s\<lparr>g_slots := upd_node r (\<lambda>n. n\<lparr>sn_outgoing := c # sn_outgoing n\<rparr>) (g_slots s)\<rparr>"

definition slot_remove_incoming :: "slot_ref \<Rightarrow> conn_ref \<Rightarrow> 'a graph_scheme \<Rightarrow> 'a graph_scheme" where
  "slot_remove_incoming r c s =
     s\<lparr>g_slots := upd_node r (\<lambda>n. n\<lparr>sn_incoming := remove1 c (sn_incoming n)\<rparr>) (g_slots s)\<rparr>"

definition slot_remove_outgoing :: "slot_ref \<Rightarrow> conn_ref \<Rightarrow> 'a graph_scheme \<Rightarrow> 'a graph_scheme" where
  "slot_remove_outgoing r c s =
     s\<lparr>g_slots := upd_node r (\<lambda>n. n\<lparr>sn_outgoing := remove1 c (sn_outgoing n)\<rparr>) (g_slots s)\<rparr>"

section \<open>Slots\<close>

definition slot_name :: "slot_ref \<Rightarrow> 'a graph_scheme \<Rightarrow> string option" where
  "slot_name r s = (if r = NULL then None else map_option snd (sl_name (slots s r)))"

definition nx_slot_register :: "bool \<Rightarrow> slot_ref \<Rightarrow> 'a graph_scheme \<Rightarrow> nx_status \<times> 'a graph_scheme" where
  "nx_slot_register mem r s =
     (if r = NULL \<or> sl_name (slots s r) = None then (NX_EINVAL, s)
      else if slot_node_find (slot_name r s) s \<noteq> None then (NX_EEXIST, s)
      else if \<not> mem then (NX_ENOMEM, s)
      else let s1 = set_slot r (\<lambda>x. x\<lparr>sl_pause_state := NX_SLOT_PAUSE_NONE, sl_fallback := NULL,
                                    sl_resume_waitq := [], sl_in_flight_calls := 0\<rparr>) s;
               s2 = bump_gen s1;
               s3 = s2\<lparr>g_slots := \<lparr>sn_slot = r, sn_incoming = [], sn_outgoing = [], sn_created_gen = g_generation s2\<rparr>
                                 # g_slots s2,
                       g_slot_count := g_slot_count s2 + 1\<rparr>
           in (NX_OK, emit_event (NX_EV_SLOT_CREATED (slot_name r s3)) s3))"

definition comp_manifest :: "comp_ref \<Rightarrow> 'a graph_scheme \<Rightarrow> string option" where
  "comp_manifest c s = (if c = NULL then None else cm_manifest_id (comps s c))"

definition comp_instance :: "comp_ref \<Rightarrow> 'a graph_scheme \<Rightarrow> string option" where
  "comp_instance c s = (if c = NULL then None else cm_instance_id (comps s c))"

text \<open>The part of \<^verbatim>\<open>nx_slot_swap\<close> before the hook dispatch, for arguments that passed the checks.\<close>

definition slot_bind :: "slot_ref \<Rightarrow> comp_ref \<Rightarrow> 'a graph_scheme \<Rightarrow> 'a graph_scheme" where
  "slot_bind r new_impl s =
     (let old_impl = sl_active (slots s r);
          s1 = bump_gen (set_slot r (\<lambda>x. x\<lparr>sl_active := new_impl\<rparr>) s)
      in emit_event (NX_EV_SLOT_SWAPPED (slot_name r s1) (comp_manifest old_impl s1) (comp_instance old_impl s1)
                       (comp_manifest new_impl s1) (comp_instance new_impl s1)) s1)"

definition nx_slot_swap :: "'a graph_run \<Rightarrow> slot_ref \<Rightarrow> comp_ref \<Rightarrow> 'a graph_scheme \<Rightarrow> nx_status \<times> 'a graph_scheme" where
  "nx_slot_swap run r new_impl s =
     (if slot_node_for r s = None then (NX_ENOENT, s)
      else if new_impl \<noteq> NULL \<and> component_node_for new_impl s = None then (NX_ENOENT, s)
      else let old_impl = sl_active (slots s r);
               s1 = slot_bind r new_impl s;
               hctx = \<lparr>ctx_point = NX_HOOK_SLOT_SWAPPED, ctx_u = ctx_swap r old_impl new_impl\<rparr>
           in (NX_OK, snd (nx_hook_dispatch run hctx s1)))"

definition nx_slot_set_fallback :: "slot_ref \<Rightarrow> slot_ref \<Rightarrow> 'a graph_scheme \<Rightarrow> nx_status \<times> 'a graph_scheme" where
  "nx_slot_set_fallback r fallback s =
     (if slot_node_for r s = None then (NX_ENOENT, s)
      else if fallback = r then (NX_EINVAL, s)
      else if fallback \<noteq> NULL \<and> slot_node_for fallback s = None then (NX_ENOENT, s)
      else (NX_OK, set_slot r (\<lambda>x. x\<lparr>sl_fallback := fallback\<rparr>) s))"

definition nx_slot_set_pause_state :: "slot_ref \<Rightarrow> nx_slot_pause_state \<Rightarrow> 'a graph_scheme \<Rightarrow> nx_status \<times> 'a graph_scheme" where
  "nx_slot_set_pause_state r st s =
     (if slot_node_for r s = None then (NX_ENOENT, s)
      else (NX_OK, set_slot r (\<lambda>x. x\<lparr>sl_pause_state := st\<rparr>) s))"

definition nx_slot_pause_state_of :: "slot_ref \<Rightarrow> 'a graph_scheme \<Rightarrow> nx_slot_pause_state" where
  "nx_slot_pause_state_of r s = (if r = NULL then NX_SLOT_PAUSE_NONE else sl_pause_state (slots s r))"

fun drop_node :: "slot_ref \<Rightarrow> slot_node list \<Rightarrow> slot_node list" where
  "drop_node r [] = []"
| "drop_node r (n # ns) = (if sn_slot n = r then ns else n # drop_node r ns)"

definition nx_slot_unregister :: "slot_ref \<Rightarrow> 'a graph_scheme \<Rightarrow> nx_status \<times> 'a graph_scheme" where
  "nx_slot_unregister r s =
     (case slot_node_for r s of
        None \<Rightarrow> (NX_ENOENT, s)
      | Some sn \<Rightarrow>
          if sn_incoming sn \<noteq> [] \<or> sn_outgoing sn \<noteq> [] then (NX_EBUSY, s)
          else let s1 = bump_gen (s\<lparr>g_slots := drop_node r (g_slots s), g_slot_count := g_slot_count s - 1\<rparr>)
               in (NX_OK, emit_event (NX_EV_SLOT_DESTROYED (slot_name r s)) s1))"

section \<open>Components\<close>

definition nx_component_register :: "bool \<Rightarrow> comp_ref \<Rightarrow> 'a graph_scheme \<Rightarrow> nx_status \<times> 'a graph_scheme" where
  "nx_component_register mem c s =
     (if c = NULL \<or> cm_manifest_id (comps s c) = None \<or> cm_instance_id (comps s c) = None then (NX_EINVAL, s)
      else if component_node_find (cm_manifest_id (comps s c)) (cm_instance_id (comps s c)) s \<noteq> None then (NX_EEXIST, s)
      else if \<not> mem then (NX_ENOMEM, s)
      else let s1 = bump_gen s;
               s2 = s1\<lparr>g_components := \<lparr>cmn_comp = c, cmn_created_gen = g_generation s1\<rparr> # g_components s1,
                       g_component_count := g_component_count s1 + 1\<rparr>
           in (NX_OK, emit_event (NX_EV_COMPONENT_REGISTERED (cm_manifest_id (comps s c)) (cm_instance_id (comps s c))) s2))"

fun drop_comp :: "comp_ref \<Rightarrow> component_node list \<Rightarrow> component_node list" where
  "drop_comp c [] = []"
| "drop_comp c (n # ns) = (if cmn_comp n = c then ns else n # drop_comp c ns)"

definition nx_component_unregister :: "comp_ref \<Rightarrow> 'a graph_scheme \<Rightarrow> nx_status \<times> 'a graph_scheme" where
  "nx_component_unregister c s =
     (if component_node_for c s = None then (NX_ENOENT, s)
      else if nx_component_is_bound c s then (NX_EBUSY, s)
      else let s1 = bump_gen (s\<lparr>g_components := drop_comp c (g_components s), g_component_count := g_component_count s - 1\<rparr>)
           in (NX_OK, emit_event (NX_EV_COMPONENT_UNREGISTERED (cm_manifest_id (comps s c)) (cm_instance_id (comps s c))) s1))"

definition nx_component_state_set :: "comp_ref \<Rightarrow> nx_lifecycle_state \<Rightarrow> 'a graph_scheme \<Rightarrow> nx_status \<times> 'a graph_scheme" where
  "nx_component_state_set c st s =
     (if component_node_for c s = None then (NX_ENOENT, s)
      else let old = cm_state (comps s c);
               s1 = bump_gen (set_comp c (\<lambda>x. x\<lparr>cm_state := st\<rparr>) s)
           in (NX_OK, emit_event (NX_EV_COMPONENT_STATE (cm_manifest_id (comps s1 c)) (cm_instance_id (comps s1 c)) old st) s1))"

section \<open>Connections\<close>

text \<open>The argument \<open>mem\<close> is the new connection, or nothing when one of the two allocations fails.\<close>

definition nx_connection_register ::
    "conn_ref option \<Rightarrow> slot_ref \<Rightarrow> slot_ref \<Rightarrow> nx_conn_mode \<Rightarrow> bool \<Rightarrow> nx_pause_policy \<Rightarrow> 'a graph_scheme \<Rightarrow>
       (nx_status + conn_ref) \<times> 'a graph_scheme" where
  "nx_connection_register mem frm to mode stateful policy s =
     (if to = NULL then (Inl NX_EINVAL, s)
      else if slot_node_for to s = None then (Inl NX_ENOENT, s)
      else if frm \<noteq> NULL \<and> slot_node_for frm s = None then (Inl NX_ENOENT, s)
      else case mem of
             None \<Rightarrow> (Inl NX_ENOMEM, s)
           | Some c \<Rightarrow>
               let s1 = bump_gen s;
                   s2 = set_conn c (\<lambda>_. \<lparr>cn_from_slot = frm, cn_to_slot = to, cn_mode = mode, cn_stateful = stateful,
                                        cn_policy = policy, cn_installed_gen = g_generation s1\<rparr>) s1;
                   s3 = s2\<lparr>g_connections := c # g_connections s2, g_connection_count := g_connection_count s2 + 1\<rparr>;
                   s4 = slot_add_incoming to c s3;
                   s5 = (if frm \<noteq> NULL then slot_add_outgoing frm c s4 else s4)
               in (Inr c, emit_event (NX_EV_CONNECTION_ADDED (slot_name frm s5) (slot_name to s5) mode stateful) s5))"

definition nx_connection_retune :: "conn_ref \<Rightarrow> nx_conn_mode \<Rightarrow> bool \<Rightarrow> 'a graph_scheme \<Rightarrow> nx_status \<times> 'a graph_scheme" where
  "nx_connection_retune c mode stateful s =
     (if c = NULL then (NX_EINVAL, s)
      else if c \<notin> set (g_connections s) then (NX_ENOENT, s)
      else let s1 = bump_gen (set_conn c (\<lambda>x. x\<lparr>cn_mode := mode, cn_stateful := stateful\<rparr>) s)
           in (NX_OK, emit_event (NX_EV_CONNECTION_RETUNED (slot_name (cn_from_slot (conns s1 c)) s1)
                                    (slot_name (cn_to_slot (conns s1 c)) s1) mode stateful) s1))"

definition nx_connection_unregister :: "conn_ref \<Rightarrow> 'a graph_scheme \<Rightarrow> nx_status \<times> 'a graph_scheme" where
  "nx_connection_unregister c s =
     (if c = NULL then (NX_EINVAL, s)
      else if c \<notin> set (g_connections s) then (NX_ENOENT, s)
      else let k = conns s c;
               s1 = s\<lparr>g_connections := remove1 c (g_connections s)\<rparr>;
               s2 = (if slot_node_for (cn_to_slot k) s1 \<noteq> None then slot_remove_incoming (cn_to_slot k) c s1 else s1);
               s3 = (if slot_node_for (cn_from_slot k) s2 \<noteq> None then slot_remove_outgoing (cn_from_slot k) c s2 else s2);
               s4 = bump_gen (s3\<lparr>g_connection_count := g_connection_count s3 - 1\<rparr>)
           in (NX_OK, emit_event (NX_EV_CONNECTION_REMOVED (slot_name (cn_from_slot k) s) (slot_name (cn_to_slot k) s)
                                    (cn_mode k) (cn_stateful k)) s4))"

section \<open>Lookup and traversal\<close>

definition nx_slot_lookup :: "string option \<Rightarrow> 'a graph_scheme \<Rightarrow> slot_ref" where
  "nx_slot_lookup name s = (case slot_node_find name s of None \<Rightarrow> NULL | Some n \<Rightarrow> sn_slot n)"

definition nx_component_lookup :: "string option \<Rightarrow> string option \<Rightarrow> 'a graph_scheme \<Rightarrow> comp_ref" where
  "nx_component_lookup mid iid s = (case component_node_find mid iid s of None \<Rightarrow> NULL | Some n \<Rightarrow> cmn_comp n)"

text \<open>The traversals as the lists of what they visit, in order.\<close>

definition nx_graph_foreach_slot :: "'a graph_scheme \<Rightarrow> slot_ref list" where
  "nx_graph_foreach_slot s = map sn_slot (g_slots s)"

definition nx_graph_foreach_component :: "'a graph_scheme \<Rightarrow> comp_ref list" where
  "nx_graph_foreach_component s = map cmn_comp (g_components s)"

definition nx_graph_foreach_connection :: "'a graph_scheme \<Rightarrow> conn_ref list" where
  "nx_graph_foreach_connection s = g_connections s"

definition nx_slot_foreach_dependent :: "slot_ref \<Rightarrow> 'a graph_scheme \<Rightarrow> conn_ref list" where
  "nx_slot_foreach_dependent r s = (case slot_node_for r s of None \<Rightarrow> [] | Some n \<Rightarrow> sn_incoming n)"

definition nx_slot_foreach_dependency :: "slot_ref \<Rightarrow> 'a graph_scheme \<Rightarrow> conn_ref list" where
  "nx_slot_foreach_dependency r s = (case slot_node_for r s of None \<Rightarrow> [] | Some n \<Rightarrow> sn_outgoing n)"

definition nx_graph_reset :: "'a graph_scheme \<Rightarrow> 'a graph_scheme" where
  "nx_graph_reset s =
     nx_change_log_reset
       (s\<lparr>g_connections := [], g_connection_count := 0, g_slots := [], g_slot_count := 0,
          g_components := [], g_component_count := 0, g_generation := 0,
          g_subscribers := map (\<lambda>x. x\<lparr>sub_in_use := False\<rparr>) (g_subscribers s)\<rparr>)"

section \<open>The shape of the graph\<close>

lemma bump_gen_simps [simp]:
  "slots (bump_gen s) = slots s" "comps (bump_gen s) = comps s" "conns (bump_gen s) = conns s"
  "g_slots (bump_gen s) = g_slots s" "g_components (bump_gen s) = g_components s"
  "g_connections (bump_gen s) = g_connections s" "g_slot_count (bump_gen s) = g_slot_count s"
  "g_component_count (bump_gen s) = g_component_count s" "g_connection_count (bump_gen s) = g_connection_count s"
  "g_log_ring (bump_gen s) = g_log_ring s" "g_log_total (bump_gen s) = g_log_total s"
  "g_subscribers (bump_gen s) = g_subscribers s" "g_generation (bump_gen s) = g_generation s + 1"
  "graph.more (bump_gen s) = graph.more s"
  by (simp_all add: bump_gen_def)

lemma emit_event_simps [simp]:
  "slots (emit_event a s) = slots s" "comps (emit_event a s) = comps s" "conns (emit_event a s) = conns s"
  "g_slots (emit_event a s) = g_slots s" "g_components (emit_event a s) = g_components s"
  "g_connections (emit_event a s) = g_connections s" "g_slot_count (emit_event a s) = g_slot_count s"
  "g_component_count (emit_event a s) = g_component_count s" "g_connection_count (emit_event a s) = g_connection_count s"
  "g_generation (emit_event a s) = g_generation s" "g_subscribers (emit_event a s) = g_subscribers s"
  "graph.more (emit_event a s) = graph.more s"
  by (simp_all add: emit_event_def change_log_append_def Let_def)

abbreviation reg_slots :: "'a graph_scheme \<Rightarrow> slot_ref list" where
  "reg_slots s \<equiv> map sn_slot (g_slots s)"

abbreviation reg_comps :: "'a graph_scheme \<Rightarrow> comp_ref list" where
  "reg_comps s \<equiv> map cmn_comp (g_components s)"

definition slots_ok :: "'a graph_scheme \<Rightarrow> bool" where
  "slots_ok s \<longleftrightarrow>
     distinct (reg_slots s) \<and> NULL \<notin> set (reg_slots s) \<and>
     (\<forall>r \<in> set (reg_slots s). name_valid (sl_name (slots s r))) \<and>
     (\<forall>r \<in> set (reg_slots s). \<forall>q \<in> set (reg_slots s). slot_name r s = slot_name q s \<longrightarrow> r = q)"

definition edges_ok :: "'a graph_scheme \<Rightarrow> bool" where
  "edges_ok s \<longleftrightarrow>
     distinct (g_connections s) \<and> NULL \<notin> set (g_connections s) \<and>
     (\<forall>c \<in> set (g_connections s).
        cn_to_slot (conns s c) \<in> set (reg_slots s) \<and>
        (cn_from_slot (conns s c) = NULL \<or> cn_from_slot (conns s c) \<in> set (reg_slots s)))"

definition lists_ok :: "'a graph_scheme \<Rightarrow> bool" where
  "lists_ok s \<longleftrightarrow>
     (\<forall>n \<in> set (g_slots s).
        sn_incoming n = filter (\<lambda>c. cn_to_slot (conns s c) = sn_slot n) (g_connections s) \<and>
        sn_outgoing n = filter (\<lambda>c. cn_from_slot (conns s c) = sn_slot n) (g_connections s))"

definition comps_ok :: "'a graph_scheme \<Rightarrow> bool" where
  "comps_ok s \<longleftrightarrow>
     distinct (reg_comps s) \<and> NULL \<notin> set (reg_comps s) \<and>
     (\<forall>c \<in> set (reg_comps s). cm_manifest_id (comps s c) \<noteq> None \<and> cm_instance_id (comps s c) \<noteq> None) \<and>
     (\<forall>c \<in> set (reg_comps s). \<forall>d \<in> set (reg_comps s).
        cm_state (comps s c) \<noteq> NX_LC_DESTROYED \<and> cm_state (comps s d) \<noteq> NX_LC_DESTROYED \<and>
        cm_manifest_id (comps s c) = cm_manifest_id (comps s d) \<and>
        cm_instance_id (comps s c) = cm_instance_id (comps s d) \<longrightarrow> c = d)"

definition bound_ok :: "'a graph_scheme \<Rightarrow> bool" where
  "bound_ok s \<longleftrightarrow> (\<forall>r \<in> set (reg_slots s). sl_active (slots s r) = NULL \<or> sl_active (slots s r) \<in> set (reg_comps s))"

definition counts_ok :: "'a graph_scheme \<Rightarrow> bool" where
  "counts_ok s \<longleftrightarrow>
     g_slot_count s = length (g_slots s) \<and> g_component_count s = length (g_components s) \<and>
     g_connection_count s = length (g_connections s)"

definition graph_inv :: "'a graph_scheme \<Rightarrow> bool" where
  "graph_inv s \<longleftrightarrow> slots_ok s \<and> edges_ok s \<and> lists_ok s \<and> comps_ok s \<and> bound_ok s \<and> counts_ok s"

lemmas graph_parts = slots_ok_def edges_ok_def lists_ok_def comps_ok_def bound_ok_def counts_ok_def

text \<open>The invariant reads nothing but the stores, the lists and the counts.\<close>

definition graph_same :: "'a graph_scheme \<Rightarrow> 'a graph_scheme \<Rightarrow> bool" where
  "graph_same s t \<longleftrightarrow>
     slots t = slots s \<and> comps t = comps s \<and> conns t = conns s \<and> g_slots t = g_slots s \<and>
     g_components t = g_components s \<and> g_connections t = g_connections s \<and> g_slot_count t = g_slot_count s \<and>
     g_component_count t = g_component_count s \<and> g_connection_count t = g_connection_count s"

lemma graph_same_inv: "graph_same s t \<Longrightarrow> graph_inv t \<longleftrightarrow> graph_inv s"
  by (simp add: graph_same_def graph_inv_def graph_parts slot_name_def)

lemma graph_inv_emit [simp]: "graph_inv (emit_event a s) \<longleftrightarrow> graph_inv s"
  by (rule graph_same_inv) (simp add: graph_same_def)

lemma graph_inv_bump [simp]: "graph_inv (bump_gen s) \<longleftrightarrow> graph_inv s"
  by (rule graph_same_inv) (simp add: graph_same_def)

lemma slot_node_for_None: "NULL \<notin> set (reg_slots s) \<Longrightarrow> slot_node_for r s = None \<longleftrightarrow> r \<notin> set (reg_slots s)"
  by (auto simp: slot_node_for_def find_None_iff)

lemma slot_node_for_Some:
  assumes "slot_node_for r s = Some n"
  shows "n \<in> set (g_slots s)" "sn_slot n = r" "r \<noteq> NULL" "r \<in> set (reg_slots s)"
  using assms by (auto simp: slot_node_for_def find_Some_iff split: if_splits)

lemma component_node_for_None:
  "NULL \<notin> set (reg_comps s) \<Longrightarrow> component_node_for c s = None \<longleftrightarrow> c \<notin> set (reg_comps s)"
  by (auto simp: component_node_for_def find_None_iff)

lemma distinct_map_head: "distinct (map f (x # xs)) \<Longrightarrow> y \<in> set xs \<Longrightarrow> f y \<noteq> f x"
  by (metis distinct.simps(2) image_eqI list.set_map list.simps(9))

lemma filter_neq_remove1: "distinct xs \<Longrightarrow> filter (\<lambda>q. q \<noteq> x) xs = remove1 x xs"
  by (induction xs) (auto simp: filter_id_conv)

lemma length_filter_neq: "distinct xs \<Longrightarrow> x \<in> set xs \<Longrightarrow> length (filter (\<lambda>q. q \<noteq> x) xs) = length xs - 1"
  by (simp add: filter_neq_remove1 length_remove1)

lemma upd_node_map:
  "distinct (map sn_slot ns) \<Longrightarrow> upd_node r f ns = map (\<lambda>n. if sn_slot n = r then f n else n) ns"
proof (induction ns)
  case (Cons n ns)
  then have "sn_slot m \<noteq> sn_slot n" if "m \<in> set ns" for m using that by (blast dest: distinct_map_head)
  with Cons show ?case by (auto intro!: map_idI [symmetric])
qed simp

lemma drop_node_filter: "distinct (map sn_slot ns) \<Longrightarrow> drop_node r ns = filter (\<lambda>n. sn_slot n \<noteq> r) ns"
proof (induction ns)
  case (Cons n ns)
  then have "sn_slot m \<noteq> sn_slot n" if "m \<in> set ns" for m using that by (blast dest: distinct_map_head)
  with Cons show ?case by (auto intro!: filter_True [symmetric])
qed simp

lemma drop_comp_filter: "distinct (map cmn_comp ns) \<Longrightarrow> drop_comp r ns = filter (\<lambda>n. cmn_comp n \<noteq> r) ns"
proof (induction ns)
  case (Cons n ns)
  then have "cmn_comp m \<noteq> cmn_comp n" if "m \<in> set ns" for m using that by (blast dest: distinct_map_head)
  with Cons show ?case by (auto intro!: filter_True [symmetric])
qed simp

section \<open>Every operation keeps it\<close>

lemma slot_register_inv [nx_inv]:
  assumes "graph_inv s" "name_valid (sl_name (slots s r))" "sl_active (slots s r) = NULL"
  shows "graph_inv (snd (nx_slot_register mem r s))"
proof (cases "fst (nx_slot_register mem r s) = NX_OK")
  case False
  then show ?thesis using assms by (auto simp: nx_slot_register_def Let_def split: if_splits)
next
  case True
  then have r: "r \<noteq> NULL" "sl_name (slots s r) \<noteq> None" "slot_node_find (slot_name r s) s = None"
    by (auto simp: nx_slot_register_def Let_def split: if_splits)
  have fresh: "slot_name q s \<noteq> slot_name r s" if "q \<in> set (reg_slots s)" for q
    using r that assms(1) by (auto simp: slot_node_find_def find_None_iff slot_name_def graph_inv_def slots_ok_def Let_def)
  then have new: "r \<notin> set (reg_slots s)" by blast
  define t where "t = (set_slot r (\<lambda>x. x\<lparr>sl_pause_state := NX_SLOT_PAUSE_NONE, sl_fallback := NULL,
                                    sl_resume_waitq := [], sl_in_flight_calls := 0\<rparr>) s)
     \<lparr>g_slots := \<lparr>sn_slot = r, sn_incoming = [], sn_outgoing = [], sn_created_gen = g_generation s + 1\<rparr> # g_slots s,
      g_slot_count := g_slot_count s + 1\<rparr>"
  have same: "graph_same t (snd (nx_slot_register mem r s))"
    using True by (auto simp: nx_slot_register_def Let_def t_def set_slot_def graph_same_def split: if_splits)
  have empty: "filter (\<lambda>c. cn_to_slot (conns s c) = r) (g_connections s) = []"
    "filter (\<lambda>c. cn_from_slot (conns s c) = r) (g_connections s) = []"
    using new r(1) assms(1) by (auto simp: graph_inv_def edges_ok_def filter_empty_conv)
  have nm: "slot_name q t = slot_name q s" for q by (simp add: t_def set_slot_def slot_name_def)
  note inv = assms(1) [unfolded graph_inv_def]
  have rs: "set (reg_slots t) = insert r (set (reg_slots s))" by (simp add: t_def set_slot_def)
  have "slots_ok t"
  proof -
    have "distinct (reg_slots t)" "NULL \<notin> set (reg_slots t)" "\<forall>q \<in> set (reg_slots t). name_valid (sl_name (slots t q))"
      using inv new r(1) assms(2) by (auto simp: slots_ok_def t_def set_slot_def)
    moreover have "\<forall>a \<in> set (reg_slots t). \<forall>b \<in> set (reg_slots t). slot_name a t = slot_name b t \<longrightarrow> a = b"
      unfolding rs nm using fresh inv unfolding slots_ok_def by (metis insert_iff)
    ultimately show ?thesis by (simp add: slots_ok_def)
  qed
  moreover have "edges_ok t" "comps_ok t" "counts_ok t"
    using inv by (auto simp: edges_ok_def comps_ok_def counts_ok_def t_def set_slot_def)
  moreover have "lists_ok t" using inv empty by (auto simp: lists_ok_def t_def set_slot_def)
  moreover have "bound_ok t" using inv assms(3) by (auto simp: bound_ok_def t_def set_slot_def)
  ultimately show ?thesis using graph_same_inv [OF same] by (simp add: graph_inv_def)
qed

text \<open>Updates of a slot that keep its name, and its binding within the registered components.\<close>

lemma set_slot_bound_inv:
  assumes "graph_inv s" "\<And>x. sl_name (f x) = sl_name x"
    and "sl_active (f (slots s r)) = NULL \<or> sl_active (f (slots s r)) \<in> set (reg_comps s)"
  shows "graph_inv (set_slot r f s)"
proof -
  let ?t = "set_slot r f s"
  note inv = assms(1) [unfolded graph_inv_def]
  have nm: "sl_name (slots ?t q) = sl_name (slots s q)" for q using assms(2) by (simp add: set_slot_def)
  have fl: "g_slots ?t = g_slots s" "comps ?t = comps s" "conns ?t = conns s" "g_components ?t = g_components s"
    "g_connections ?t = g_connections s" "g_slot_count ?t = g_slot_count s"
    "g_component_count ?t = g_component_count s" "g_connection_count ?t = g_connection_count s"
    by (simp_all add: set_slot_def)
  have "slots_ok ?t" using inv unfolding slots_ok_def slot_name_def fl nm by blast
  moreover have "edges_ok ?t" "lists_ok ?t" "comps_ok ?t" "counts_ok ?t"
    using inv unfolding edges_ok_def lists_ok_def comps_ok_def counts_ok_def fl by blast+
  moreover have "bound_ok ?t"
    using inv assms(3) unfolding bound_ok_def fl by (auto simp: set_slot_def)
  ultimately show ?thesis by (simp add: graph_inv_def)
qed

lemma slot_bind_inv [nx_inv]:
  assumes "graph_inv s" "new = NULL \<or> new \<in> set (reg_comps s)"
  shows "graph_inv (slot_bind r new s)"
  using set_slot_bound_inv [OF assms(1), of "\<lambda>x. x\<lparr>sl_active := new\<rparr>" r] assms(2)
  by (simp add: slot_bind_def Let_def)

text \<open>Fields of a slot that the invariant does not read.\<close>

lemma set_slot_inv:
  assumes "graph_inv s" "\<And>x. sl_name (f x) = sl_name x" "\<And>x. sl_active (f x) = sl_active x"
    and "r \<in> set (reg_slots s)"
  shows "graph_inv (set_slot r f s)"
  using assms by (intro set_slot_bound_inv) (auto simp: graph_inv_def bound_ok_def)

lemma slot_set_fallback_inv [nx_inv]: "graph_inv s \<Longrightarrow> graph_inv (snd (nx_slot_set_fallback r fb s))"
  using set_slot_inv [of s "\<lambda>x. x\<lparr>sl_fallback := fb\<rparr>" r]
  by (auto simp: nx_slot_set_fallback_def dest: slot_node_for_Some(4))

lemma slot_set_pause_state_inv [nx_inv]: "graph_inv s \<Longrightarrow> graph_inv (snd (nx_slot_set_pause_state r st s))"
  using set_slot_inv [of s "\<lambda>x. x\<lparr>sl_pause_state := st\<rparr>" r]
  by (auto simp: nx_slot_set_pause_state_def dest: slot_node_for_Some(4))

lemma slot_unregister_inv [nx_inv]:
  assumes "graph_inv s"
  shows "graph_inv (snd (nx_slot_unregister r s))"
proof (cases "fst (nx_slot_unregister r s) = NX_OK")
  case False
  then show ?thesis using assms by (auto simp: nx_slot_unregister_def Let_def split: if_splits option.splits)
next
  case True
  then obtain sn where sn: "slot_node_for r s = Some sn" "sn_incoming sn = []" "sn_outgoing sn = []"
    by (auto simp: nx_slot_unregister_def Let_def split: if_splits option.splits)
  note n = slot_node_for_Some [OF sn(1)]
  note inv = assms [unfolded graph_inv_def]
  define t where "t = s\<lparr>g_slots := filter (\<lambda>n. sn_slot n \<noteq> r) (g_slots s), g_slot_count := g_slot_count s - 1\<rparr>"
  have same: "graph_same t (snd (nx_slot_unregister r s))"
    using sn inv drop_node_filter [of "g_slots s" r]
    by (simp add: nx_slot_unregister_def Let_def graph_same_def t_def slots_ok_def)
  have rs: "reg_slots t = filter (\<lambda>q. q \<noteq> r) (reg_slots s)"
    by (simp add: t_def filter_map o_def)
  have free: "cn_to_slot (conns s c) \<noteq> r" "cn_from_slot (conns s c) \<noteq> r" if "c \<in> set (g_connections s)" for c
    using inv sn n that by (auto simp: lists_ok_def filter_empty_conv)
  have len: "length (g_slots t) = length (g_slots s) - 1"
  proof -
    have "length (reg_slots t) = length (reg_slots s) - 1"
      unfolding rs using inv n(4) by (intro length_filter_neq) (simp_all add: slots_ok_def)
    then show ?thesis by simp
  qed
  have fl: "slots t = slots s" "g_components t = g_components s" by (simp_all add: t_def)
  have "slots_ok t"
    using inv unfolding slots_ok_def slot_name_def rs fl set_filter by (blast intro: distinct_filter)
  moreover have "bound_ok t"
    using inv unfolding bound_ok_def rs fl set_filter by blast
  moreover have "edges_ok t" unfolding edges_ok_def rs using inv free by (simp add: edges_ok_def t_def)
  moreover have "lists_ok t" "comps_ok t" "counts_ok t"
    using inv len by (simp_all add: lists_ok_def comps_ok_def counts_ok_def t_def)
  ultimately show ?thesis using graph_same_inv [OF same] by (simp add: graph_inv_def)
qed

lemma component_register_inv [nx_inv]:
  assumes "graph_inv s" "c \<in> set (reg_comps s) \<Longrightarrow> cm_state (comps s c) \<noteq> NX_LC_DESTROYED"
  shows "graph_inv (snd (nx_component_register mem c s))"
proof (cases "fst (nx_component_register mem c s) = NX_OK")
  case False
  then show ?thesis using assms by (auto simp: nx_component_register_def Let_def split: if_splits)
next
  case True
  let ?m = "cm_manifest_id (comps s c)" and ?i = "cm_instance_id (comps s c)"
  from True have c: "c \<noteq> NULL" "?m \<noteq> None" "?i \<noteq> None" "component_node_find ?m ?i s = None"
    by (auto simp: nx_component_register_def Let_def split: if_splits)
  note inv = assms(1) [unfolded graph_inv_def]
  have fresh: "cm_state (comps s d) = NX_LC_DESTROYED \<or> cm_manifest_id (comps s d) \<noteq> ?m \<or> cm_instance_id (comps s d) \<noteq> ?i"
    if "d \<in> set (reg_comps s)" for d
    using c that by (auto simp: component_node_find_def find_None_iff Let_def)
  then have new: "c \<notin> set (reg_comps s)" using assms(2) by blast
  define t where "t = s\<lparr>g_components := \<lparr>cmn_comp = c, cmn_created_gen = g_generation s + 1\<rparr> # g_components s,
                       g_component_count := g_component_count s + 1\<rparr>"
  have same: "graph_same t (snd (nx_component_register mem c s))"
    using True by (auto simp: nx_component_register_def Let_def graph_same_def t_def split: if_splits)
  have rc: "set (reg_comps t) = insert c (set (reg_comps s))" by (simp add: t_def)
  have "comps_ok t"
  proof -
    have "distinct (reg_comps t)" "NULL \<notin> set (reg_comps t)"
      "\<forall>d \<in> set (reg_comps t). cm_manifest_id (comps t d) \<noteq> None \<and> cm_instance_id (comps t d) \<noteq> None"
      using inv new c by (auto simp: comps_ok_def t_def)
    moreover have "\<forall>a \<in> set (reg_comps t). \<forall>b \<in> set (reg_comps t).
        cm_state (comps t a) \<noteq> NX_LC_DESTROYED \<and> cm_state (comps t b) \<noteq> NX_LC_DESTROYED \<and>
        cm_manifest_id (comps t a) = cm_manifest_id (comps t b) \<and>
        cm_instance_id (comps t a) = cm_instance_id (comps t b) \<longrightarrow> a = b"
    proof -
      have "comps t = comps s" by (simp add: t_def)
      then show ?thesis unfolding rc using fresh inv unfolding comps_ok_def by (metis insert_iff)
    qed
    ultimately show ?thesis by (simp add: comps_ok_def)
  qed
  moreover have "slots_ok t" "edges_ok t" "lists_ok t" "bound_ok t" "counts_ok t"
    using inv by (auto simp: slots_ok_def edges_ok_def lists_ok_def bound_ok_def counts_ok_def t_def slot_name_def)
  ultimately show ?thesis using graph_same_inv [OF same] by (simp add: graph_inv_def)
qed

lemma component_unregister_inv [nx_inv]:
  assumes "graph_inv s"
  shows "graph_inv (snd (nx_component_unregister c s))"
proof (cases "fst (nx_component_unregister c s) = NX_OK")
  case False
  then show ?thesis using assms by (auto simp: nx_component_unregister_def Let_def split: if_splits)
next
  case True
  note inv = assms [unfolded graph_inv_def]
  from True have c: "component_node_for c s \<noteq> None" "\<not> nx_component_is_bound c s"
    by (auto simp: nx_component_unregister_def Let_def split: if_splits)
  have mem: "c \<in> set (reg_comps s)" "c \<noteq> NULL"
    using c(1) inv component_node_for_None [of s c] by (auto simp: comps_ok_def component_node_for_def split: if_splits)
  define t where "t = s\<lparr>g_components := filter (\<lambda>n. cmn_comp n \<noteq> c) (g_components s),
                        g_component_count := g_component_count s - 1\<rparr>"
  have same: "graph_same t (snd (nx_component_unregister c s))"
    using c inv drop_comp_filter [of "g_components s" c]
    by (auto simp: nx_component_unregister_def Let_def graph_same_def t_def comps_ok_def)
  have rc: "reg_comps t = filter (\<lambda>q. q \<noteq> c) (reg_comps s)"
    by (simp add: t_def filter_map o_def)
  have len: "length (g_components t) = length (g_components s) - 1"
  proof -
    have "length (reg_comps t) = length (reg_comps s) - 1"
      unfolding rc using inv mem(1) by (intro length_filter_neq) (simp_all add: comps_ok_def)
    then show ?thesis by simp
  qed
  have fl: "comps t = comps s" "g_slots t = g_slots s" "slots t = slots s" by (simp_all add: t_def)
  have "comps_ok t"
    using inv unfolding comps_ok_def rc fl set_filter by (blast intro: distinct_filter)
  moreover have "bound_ok t"
    using inv c(2) mem(2) unfolding bound_ok_def rc fl set_filter by (auto simp: nx_component_is_bound_def)
  moreover have "slots_ok t" "edges_ok t" "lists_ok t" "counts_ok t"
    using inv len by (auto simp: slots_ok_def edges_ok_def lists_ok_def counts_ok_def t_def slot_name_def)
  ultimately show ?thesis using graph_same_inv [OF same] by (simp add: graph_inv_def)
qed

lemma component_state_set_inv [nx_inv]:
  assumes "graph_inv s" "cm_state (comps s c) = NX_LC_DESTROYED \<Longrightarrow> st = NX_LC_DESTROYED"
  shows "graph_inv (snd (nx_component_state_set c st s))"
proof -
  let ?t = "set_comp c (\<lambda>x. x\<lparr>cm_state := st\<rparr>) s"
  note inv = assms(1) [unfolded graph_inv_def]
  have id: "cm_manifest_id (comps ?t d) = cm_manifest_id (comps s d)"
    "cm_instance_id (comps ?t d) = cm_instance_id (comps s d)" for d
    by (simp_all add: set_comp_def)
  have st: "cm_state (comps s d) \<noteq> NX_LC_DESTROYED" if "cm_state (comps ?t d) \<noteq> NX_LC_DESTROYED" for d
    using that assms(2) by (auto simp: set_comp_def split: if_splits)
  have fl: "g_slots ?t = g_slots s" "slots ?t = slots s" "conns ?t = conns s" "g_components ?t = g_components s"
    "g_connections ?t = g_connections s" "g_slot_count ?t = g_slot_count s"
    "g_component_count ?t = g_component_count s" "g_connection_count ?t = g_connection_count s"
    by (simp_all add: set_comp_def)
  have "comps_ok ?t" using inv st unfolding comps_ok_def fl id by blast
  moreover have "slots_ok ?t" "edges_ok ?t" "lists_ok ?t" "bound_ok ?t" "counts_ok ?t"
    using inv unfolding slots_ok_def edges_ok_def lists_ok_def bound_ok_def counts_ok_def slot_name_def fl by blast+
  ultimately have "graph_inv ?t" by (simp add: graph_inv_def)
  with assms(1) show ?thesis by (simp add: nx_component_state_set_def Let_def)
qed

text \<open>The two list updates of a new connection, on distinct nodes.\<close>

lemma connection_register_inv [nx_inv]:
  assumes "graph_inv s" "\<And>c. mem = Some c \<Longrightarrow> c \<noteq> NULL \<and> c \<notin> set (g_connections s)"
  shows "graph_inv (snd (nx_connection_register mem frm to mode stateful policy s))"
proof (cases "\<exists>c. fst (nx_connection_register mem frm to mode stateful policy s) = Inr c")
  case False
  then show ?thesis
    using assms(1) by (auto simp: nx_connection_register_def Let_def split: if_splits option.splits)
next
  case True
  note inv = assms(1) [unfolded graph_inv_def]
  have null: "NULL \<notin> set (reg_slots s)" and dist: "distinct (reg_slots s)" using inv by (auto simp: slots_ok_def)
  from True obtain c where mem: "mem = Some c" and to: "to \<noteq> NULL" "slot_node_for to s \<noteq> None"
    and frm: "frm \<noteq> NULL \<longrightarrow> slot_node_for frm s \<noteq> None"
    by (auto simp: nx_connection_register_def Let_def split: if_splits option.splits)
  have c: "c \<noteq> NULL" "c \<notin> set (g_connections s)" using assms(2) [OF mem] by auto
  have reg: "to \<in> set (reg_slots s)" "frm = NULL \<or> frm \<in> set (reg_slots s)"
    using to frm by (auto dest!: slot_node_for_Some(4))
  let ?k = "\<lparr>cn_from_slot = frm, cn_to_slot = to, cn_mode = mode, cn_stateful = stateful,
            cn_policy = policy, cn_installed_gen = g_generation s + 1\<rparr>"
  define t where "t = s\<lparr>conns := (conns s)(c := ?k), g_connections := c # g_connections s,
      g_connection_count := g_connection_count s + 1,
      g_slots := map (\<lambda>n. n\<lparr>sn_incoming := (if sn_slot n = to then c # sn_incoming n else sn_incoming n),
                            sn_outgoing := (if sn_slot n = frm then c # sn_outgoing n else sn_outgoing n)\<rparr>) (g_slots s)\<rparr>"
  have "g_slots (snd (nx_connection_register mem frm to mode stateful policy s)) = g_slots t"
  proof -
    let ?f = "\<lambda>n. n\<lparr>sn_incoming := c # sn_incoming n\<rparr>" and ?g = "\<lambda>n. n\<lparr>sn_outgoing := c # sn_outgoing n\<rparr>"
    have m: "map sn_slot (map (\<lambda>n. if sn_slot n = to then ?f n else n) (g_slots s)) = reg_slots s" by simp
    have up: "upd_node to ?f (g_slots s) = map (\<lambda>n. if sn_slot n = to then ?f n else n) (g_slots s)"
      by (rule upd_node_map [OF dist])
    have up2: "upd_node frm ?g (upd_node to ?f (g_slots s)) =
        map (\<lambda>n. if sn_slot n = frm then ?g n else n) (map (\<lambda>n. if sn_slot n = to then ?f n else n) (g_slots s))"
      unfolding up by (rule upd_node_map) (simp only: m dist)
    have eq: "g_slots (snd (nx_connection_register mem frm to mode stateful policy s)) =
        (if frm \<noteq> NULL then upd_node frm ?g (upd_node to ?f (g_slots s)) else upd_node to ?f (g_slots s))"
      using mem to frm
      by (auto simp: nx_connection_register_def Let_def slot_add_incoming_def slot_add_outgoing_def set_conn_def)
    show ?thesis
      unfolding eq up2 unfolding up t_def using null
      by (cases "frm = NULL") (auto simp: image_iff)
  qed
  then have same: "graph_same t (snd (nx_connection_register mem frm to mode stateful policy s))"
    using mem to frm
    by (auto simp: nx_connection_register_def Let_def slot_add_incoming_def slot_add_outgoing_def set_conn_def
        graph_same_def t_def)
  have rs: "reg_slots t = reg_slots s" by (simp add: t_def)
  have fl: "slots t = slots s" "comps t = comps s" "g_components t = g_components s" by (simp_all add: t_def)
  have old: "conns t d = conns s d" if "d \<in> set (g_connections s)" for d
    using that c by (auto simp: t_def)
  have "slots_ok t" "comps_ok t" "bound_ok t"
    using inv unfolding slots_ok_def comps_ok_def bound_ok_def slot_name_def rs fl by blast+
  moreover have "edges_ok t"
    unfolding edges_ok_def rs using inv c reg by (auto simp: edges_ok_def t_def)
  moreover have "lists_ok t"
    using inv c(2) by (auto simp: lists_ok_def t_def intro!: filter_cong)
  moreover have "counts_ok t" using inv by (simp add: counts_ok_def t_def)
  ultimately show ?thesis using graph_same_inv [OF same] by (simp add: graph_inv_def)
qed

lemma connection_retune_inv [nx_inv]:
  assumes "graph_inv s"
  shows "graph_inv (snd (nx_connection_retune c mode stateful s))"
proof -
  let ?t = "set_conn c (\<lambda>x. x\<lparr>cn_mode := mode, cn_stateful := stateful\<rparr>) s"
  note inv = assms [unfolded graph_inv_def]
  have ep: "cn_from_slot (conns ?t d) = cn_from_slot (conns s d)" "cn_to_slot (conns ?t d) = cn_to_slot (conns s d)" for d
    by (simp_all add: set_conn_def)
  have fl: "g_slots ?t = g_slots s" "slots ?t = slots s" "comps ?t = comps s" "g_components ?t = g_components s"
    "g_connections ?t = g_connections s" "g_slot_count ?t = g_slot_count s"
    "g_component_count ?t = g_component_count s" "g_connection_count ?t = g_connection_count s"
    by (simp_all add: set_conn_def)
  have "graph_inv ?t"
    using inv unfolding graph_inv_def graph_parts slot_name_def fl ep by blast
  with assms show ?thesis by (simp add: nx_connection_retune_def Let_def)
qed

lemma connection_unregister_inv [nx_inv]:
  assumes "graph_inv s"
  shows "graph_inv (snd (nx_connection_unregister c s))"
proof (cases "fst (nx_connection_unregister c s) = NX_OK")
  case False
  then show ?thesis using assms by (auto simp: nx_connection_unregister_def Let_def split: if_splits)
next
  case True
  note inv = assms [unfolded graph_inv_def]
  from True have c: "c \<noteq> NULL" "c \<in> set (g_connections s)"
    by (auto simp: nx_connection_unregister_def Let_def split: if_splits)
  have dist: "distinct (reg_slots s)" and dc: "distinct (g_connections s)"
    using inv by (auto simp: slots_ok_def edges_ok_def)
  let ?rm = "\<lambda>n. n\<lparr>sn_incoming := remove1 c (sn_incoming n), sn_outgoing := remove1 c (sn_outgoing n)\<rparr>"
  define t where "t = s\<lparr>g_connections := remove1 c (g_connections s), g_connection_count := g_connection_count s - 1,
      g_slots := map ?rm (g_slots s)\<rparr>"
  let ?to = "cn_to_slot (conns s c)" and ?fr = "cn_from_slot (conns s c)"
  let ?f = "\<lambda>n. n\<lparr>sn_incoming := remove1 c (sn_incoming n)\<rparr>" and ?g = "\<lambda>n. n\<lparr>sn_outgoing := remove1 c (sn_outgoing n)\<rparr>"
  let ?s1 = "s\<lparr>g_connections := remove1 c (g_connections s)\<rparr>"
  have in_out: "c \<notin> set (sn_incoming n)" if "n \<in> set (g_slots s)" "sn_slot n \<noteq> ?to" for n
    using inv that by (auto simp: lists_ok_def)
  have in_out2: "c \<notin> set (sn_outgoing n)" if "n \<in> set (g_slots s)" "sn_slot n \<noteq> ?fr" for n
    using inv that by (auto simp: lists_ok_def)
  have to: "upd_node ?to ?f (g_slots s) = map ?f (g_slots s)"
    using in_out by (simp add: upd_node_map [OF dist] remove1_idem)
  have fr: "upd_node ?fr ?g (map ?f (g_slots s)) = map ?rm (g_slots s)"
    using in_out2 upd_node_map [of "map ?f (g_slots s)" ?fr ?g] dist
    by (simp add: remove1_idem comp_def)
  have found: "slot_node_for ?to ?s1 \<noteq> None"
  proof -
    have "?to \<in> set (reg_slots s)" using inv c by (simp add: edges_ok_def)
    then show ?thesis using inv slot_node_for_None [of ?s1 ?to] by (simp add: slots_ok_def)
  qed
  have missing: "map ?f (g_slots s) = map ?rm (g_slots s)" if "slot_node_for ?fr (slot_remove_incoming ?to c ?s1) = None"
  proof -
    have "?fr \<notin> set (reg_slots s)"
      using that inv slot_node_for_None [of "slot_remove_incoming ?to c ?s1" ?fr]
      by (simp add: slot_remove_incoming_def to slots_ok_def image_image)
    then have "\<And>n. n \<in> set (g_slots s) \<Longrightarrow> c \<notin> set (sn_outgoing n)" using in_out2 by force
    then show ?thesis by (simp add: remove1_idem)
  qed
  have "g_slots (snd (nx_connection_unregister c s)) = map ?rm (g_slots s)"
    using c found missing fr
    by (simp add: nx_connection_unregister_def Let_def slot_remove_outgoing_def)
       (simp add: slot_remove_incoming_def to)
  then have same: "graph_same t (snd (nx_connection_unregister c s))"
    using c by (simp add: nx_connection_unregister_def Let_def slot_remove_incoming_def slot_remove_outgoing_def
        graph_same_def t_def)
  have rs: "reg_slots t = reg_slots s" by (simp add: t_def comp_def)
  have fl: "slots t = slots s" "comps t = comps s" "g_components t = g_components s" "conns t = conns s"
    "g_connections t = remove1 c (g_connections s)"
    by (simp_all add: t_def)
  have "slots_ok t" "comps_ok t" "bound_ok t"
    using inv unfolding slots_ok_def comps_ok_def bound_ok_def slot_name_def rs fl by blast+
  moreover have "edges_ok t"
    using inv unfolding edges_ok_def rs fl by (auto dest: notin_set_remove1 set_remove1_subset [THEN subsetD])
  moreover have "lists_ok t"
    using inv unfolding lists_ok_def fl filter_remove1 by (auto simp: t_def)
  moreover have "counts_ok t" using inv c by (simp add: counts_ok_def t_def length_remove1)
  ultimately show ?thesis using graph_same_inv [OF same] by (simp add: graph_inv_def)
qed

lemma graph_reset_inv [nx_inv]: "graph_inv (nx_graph_reset s)"
  by (simp add: nx_graph_reset_def nx_change_log_reset_def graph_inv_def graph_parts)

section \<open>Histories\<close>

text \<open>
  What the owners of slots and components may write: everything in unregistered structures, and in registered ones
  all but the name and the binding of a slot and the identity and the state of a component. Hooks, subscribers and
  the log are no part of the graph.
\<close>

definition owner_writes :: "'a graph_scheme \<Rightarrow> 'a graph_scheme \<Rightarrow> bool" where
  "owner_writes s t \<longleftrightarrow>
     g_slots t = g_slots s \<and> g_components t = g_components s \<and> g_connections t = g_connections s \<and>
     g_slot_count t = g_slot_count s \<and> g_component_count t = g_component_count s \<and>
     g_connection_count t = g_connection_count s \<and>
     (\<forall>c \<in> set (g_connections s). conns t c = conns s c) \<and>
     (\<forall>r \<in> set (reg_slots s). sl_name (slots t r) = sl_name (slots s r) \<and> sl_active (slots t r) = sl_active (slots s r)) \<and>
     (\<forall>c \<in> set (reg_comps s). cm_manifest_id (comps t c) = cm_manifest_id (comps s c) \<and>
        cm_instance_id (comps t c) = cm_instance_id (comps s c) \<and> cm_state (comps t c) = cm_state (comps s c))"

lemma owner_writes_inv:
  assumes "graph_inv s" "owner_writes s t"
  shows "graph_inv t"
proof -
  note inv = assms(1) [unfolded graph_inv_def] and w = assms(2) [unfolded owner_writes_def]
  have rs: "reg_slots t = reg_slots s" and rc: "reg_comps t = reg_comps s" and gc: "g_connections t = g_connections s"
    using w by simp_all
  have nm: "slot_name r t = slot_name r s" if "r \<in> set (reg_slots s)" for r
    using w that unfolding slot_name_def by metis
  have "slots_ok t" using inv w nm unfolding slots_ok_def rs by simp
  moreover have "edges_ok t" using inv w unfolding edges_ok_def rs gc by simp
  moreover have "lists_ok t"
    using inv w unfolding lists_ok_def by (auto intro!: filter_cong)
  moreover have "comps_ok t" using inv w unfolding comps_ok_def rc by simp
  moreover have "bound_ok t" using inv w unfolding bound_ok_def rs rc by simp
  moreover have "counts_ok t" using inv w unfolding counts_ok_def by simp
  ultimately show ?thesis by (simp add: graph_inv_def)
qed

text \<open>
  Sequences of registry calls. The callers keep three rules of the interface: a slot is unbound when it is
  registered and its name lies in memory that the lookup accepts; a destroyed component is unregistered before it is
  registered again; and the destroyed state is final.
\<close>

inductive graph_acts :: "'a graph_scheme \<Rightarrow> 'a graph_scheme \<Rightarrow> bool" for s where
  ga_none: "graph_acts s s"
| ga_slot_register: "graph_acts s t \<Longrightarrow> name_valid (sl_name (slots t r)) \<Longrightarrow> sl_active (slots t r) = NULL \<Longrightarrow>
    graph_acts s (snd (nx_slot_register mem r t))"
| ga_bind: "graph_acts s t \<Longrightarrow> new = NULL \<or> component_node_for new t \<noteq> None \<Longrightarrow> graph_acts s (slot_bind r new t)"
| ga_set_fallback: "graph_acts s t \<Longrightarrow> graph_acts s (snd (nx_slot_set_fallback r fb t))"
| ga_set_pause_state: "graph_acts s t \<Longrightarrow> graph_acts s (snd (nx_slot_set_pause_state r st t))"
| ga_slot_unregister: "graph_acts s t \<Longrightarrow> graph_acts s (snd (nx_slot_unregister r t))"
| ga_component_register: "graph_acts s t \<Longrightarrow> (c \<in> set (reg_comps t) \<Longrightarrow> cm_state (comps t c) \<noteq> NX_LC_DESTROYED) \<Longrightarrow>
    graph_acts s (snd (nx_component_register mem c t))"
| ga_component_unregister: "graph_acts s t \<Longrightarrow> graph_acts s (snd (nx_component_unregister c t))"
| ga_state_set: "graph_acts s t \<Longrightarrow> (cm_state (comps t c) = NX_LC_DESTROYED \<Longrightarrow> lc = NX_LC_DESTROYED) \<Longrightarrow>
    graph_acts s (snd (nx_component_state_set c lc t))"
| ga_connection_register: "graph_acts s t \<Longrightarrow> (\<And>c. cm = Some c \<Longrightarrow> c \<noteq> NULL \<and> c \<notin> set (g_connections t)) \<Longrightarrow>
    graph_acts s (snd (nx_connection_register cm frm to mode stateful policy t))"
| ga_connection_retune: "graph_acts s t \<Longrightarrow> graph_acts s (snd (nx_connection_retune c mode stateful t))"
| ga_connection_unregister: "graph_acts s t \<Longrightarrow> graph_acts s (snd (nx_connection_unregister c t))"
| ga_reset: "graph_acts s t \<Longrightarrow> graph_acts s (nx_graph_reset t)"
| ga_other: "graph_acts s t \<Longrightarrow> owner_writes t u \<Longrightarrow> graph_acts s u"

lemma component_node_for_mem: "component_node_for c s \<noteq> None \<Longrightarrow> c \<in> set (reg_comps s)"
  by (auto simp: component_node_for_def find_Some_iff split: if_splits)

lemma graph_acts_inv: "graph_acts s t \<Longrightarrow> graph_inv s \<Longrightarrow> graph_inv t"
proof (induction rule: graph_acts.induct)
  case (ga_bind t new r)
  then show ?case using component_node_for_mem slot_bind_inv by blast
next
  case (ga_other t u)
  then show ?case using owner_writes_inv by blast
qed (blast intro: nx_inv)+

lemma graph_acts_trans: "graph_acts t u \<Longrightarrow> graph_acts s t \<Longrightarrow> graph_acts s u"
  by (induction rule: graph_acts.induct) (blast intro: graph_acts.intros)+

text \<open>Hook callbacks that use the registry through its interface.\<close>

definition graph_disciplined :: "'a graph_run \<Rightarrow> bool" where
  "graph_disciplined run \<longleftrightarrow> (\<forall>f c u s. graph_acts s (snd (run f c u s)))"

lemma sweep_points_form: "\<exists>hs cs. fold sweep_point ps s = s\<lparr>hooks := hs, g_chains := cs\<rparr>"
proof (induction ps arbitrary: s)
  case Nil
  have "s = s\<lparr>hooks := hooks s, g_chains := g_chains s\<rparr>" by simp
  then show ?case by (metis fold_simps(1))
next
  case (Cons p ps)
  obtain hs cs where "sweep_point p s = s\<lparr>hooks := hs, g_chains := cs\<rparr>"
    by (cases "sweep_chain (g_chains s p) (hooks s)") (simp add: sweep_point_def)
  moreover obtain hs' cs' where "fold sweep_point ps (sweep_point p s) = (sweep_point p s)\<lparr>hooks := hs', g_chains := cs'\<rparr>"
    using Cons by blast
  ultimately have "fold sweep_point (p # ps) s = s\<lparr>hooks := hs', g_chains := cs'\<rparr>" by simp
  then show ?case by blast
qed

lemma sweep_dead_form:
  obtains hs cs where "sweep_dead s = s\<lparr>hooks := hs, g_chains := cs\<rparr>"
  using sweep_points_form unfolding sweep_dead_def by blast

lemma walk_graph_acts:
  assumes "graph_disciplined run"
  shows "graph_acts s (snd (hook_walk run ctx n ho s))"
proof (induction n arbitrary: ho s)
  case 0
  then show ?case by (simp add: ga_none)
next
  case (Suc n)
  show ?case
  proof (cases ho)
    case None
    then show ?thesis by (simp add: ga_none)
  next
    case (Some h)
    have "graph_acts s (snd (run f c u s))" for f c u
      using assms by (simp add: graph_disciplined_def)
    then show ?thesis
      unfolding Some walk_Suc using Suc.IH graph_acts_trans [OF Suc.IH] by simp
  qed
qed

lemma dispatch_graph_acts:
  assumes "graph_disciplined run"
  shows "graph_acts s (snd (nx_hook_dispatch run ctx s))"
proof (cases "ctx_point ctx \<ge> NX_HOOK_POINT_COUNT")
  case True
  then show ?thesis by (simp add: nx_hook_dispatch_def ga_none)
next
  case False
  let ?s1 = "s\<lparr>g_dispatching := g_dispatching s + 1\<rparr>"
  let ?w = "snd (hook_walk run ctx (2 ^ 64) (chain_head (g_chains ?s1 (ctx_point ctx))) ?s1)"
  let ?s3 = "?w\<lparr>g_dispatching := g_dispatching ?w - 1\<rparr>"
  have "graph_acts s ?s1" by (rule ga_other [OF ga_none]) (simp add: owner_writes_def)
  from graph_acts_trans [OF walk_graph_acts [OF assms] this] have "graph_acts s ?w" .
  then have s3: "graph_acts s ?s3" by (rule ga_other) (simp add: owner_writes_def)
  obtain hs cs where sw: "sweep_dead ?s3 = ?s3\<lparr>hooks := hs, g_chains := cs\<rparr>" by (rule sweep_dead_form)
  have "owner_writes ?s3 (sweep_dead ?s3)" unfolding sw by (simp add: owner_writes_def)
  then have "graph_acts s (sweep_dead ?s3)" by (rule ga_other [OF s3])
  moreover have "snd (nx_hook_dispatch run ctx s) = (if g_dispatching ?s3 = 0 then sweep_dead ?s3 else ?s3)"
    using False by (simp add: nx_hook_dispatch_def Let_def split_beta)
  ultimately show ?thesis using s3 by presburger
qed

lemma slot_swap_graph_acts:
  assumes "graph_disciplined run"
  shows "graph_acts s (snd (nx_slot_swap run r new s))"
proof -
  have "graph_acts s (slot_bind r new s)" if "new = NULL \<or> component_node_for new s \<noteq> None"
    using ga_bind [OF ga_none] that by blast
  then show ?thesis
    using graph_acts_trans [OF dispatch_graph_acts [OF assms]]
    by (auto simp: nx_slot_swap_def Let_def ga_none)
qed

inductive graph_reach :: "'a graph_run \<Rightarrow> 'a graph_scheme \<Rightarrow> bool" for run where
  gr_reset: "graph_reach run (nx_graph_reset s)"
| gr_swap: "graph_reach run s \<Longrightarrow> graph_reach run (snd (nx_slot_swap run r new s))"
| gr_acts: "graph_reach run s \<Longrightarrow> graph_acts s t \<Longrightarrow> graph_reach run t"

lemma graph_reach_inv:
  assumes "graph_disciplined run" "graph_reach run s"
  shows "graph_inv s"
  using assms(2)
proof (induction rule: graph_reach.induct)
  case (gr_swap s r new)
  then show ?case using graph_acts_inv [OF slot_swap_graph_acts [OF assms(1)]] by blast
qed (auto intro: graph_reset_inv graph_acts_inv)

lemma slot_node_for_reg:
  assumes "graph_inv s" "r \<in> set (reg_slots s)"
  obtains n where "slot_node_for r s = Some n" "n \<in> set (g_slots s)" "sn_slot n = r"
proof -
  have "NULL \<notin> set (reg_slots s)" using assms(1) by (simp add: graph_inv_def slots_ok_def)
  then have "slot_node_for r s \<noteq> None" using assms(2) slot_node_for_None by blast
  then obtain n where n: "slot_node_for r s = Some n" by blast
  show thesis by (rule that [OF n slot_node_for_Some(1,2) [OF n]])
qed

lemma slot_lookup_reg:
  assumes "graph_inv s" "r \<in> set (reg_slots s)"
  shows "nx_slot_lookup (slot_name r s) s = r"
proof -
  note inv = assms(1) [unfolded graph_inv_def slots_ok_def]
  have r: "r \<noteq> NULL" "name_valid (sl_name (slots s r))" using inv assms(2) by auto
  have some: "slot_node_find (slot_name r s) s \<noteq> None"
  proof -
    from assms(2) obtain n where "n \<in> set (g_slots s)" "sn_slot n = r" by auto
    moreover from this r have "slot_name r s \<noteq> None" "map_option snd (sl_name (slots s (sn_slot n))) = slot_name r s"
      by (auto simp: slot_name_def name_valid_def split: option.splits)
    ultimately show ?thesis using r(2) by (auto simp: slot_node_find_def find_None_iff Let_def)
  qed
  then obtain n where n: "slot_node_find (slot_name r s) s = Some n" by blast
  then have "n \<in> set (g_slots s)" "map_option snd (sl_name (slots s (sn_slot n))) = slot_name r s"
    by (auto simp: slot_node_find_def find_Some_iff Let_def)
  then have mem: "sn_slot n \<in> set (reg_slots s)" and "slot_name (sn_slot n) s = slot_name r s"
    using inv by (force simp: slot_name_def)+
  then have "sn_slot n = r" using inv assms(2) by blast
  with n show ?thesis by (simp add: nx_slot_lookup_def)
qed


section \<open>The change log\<close>

text \<open>The ring after a sequence of appends: the index of the event \<open>i\<close> is \<open>i mod 256\<close>.\<close>

lemma append_total: "g_log_total (fold change_log_append evs s) = g_log_total s + of_nat (length evs)"
  by (induction evs arbitrary: s) (simp_all add: change_log_append_def Let_def algebra_simps)

lemma append_ring_length [simp]: "length (g_log_ring (fold change_log_append evs s)) = length (g_log_ring s)"
  by (induction evs arbitrary: s) (simp_all add: change_log_append_def Let_def)

lemma unat_mod_256: "unat ((of_nat n :: u64) mod 256) = n mod 256"
proof -
  have "unat ((of_nat n :: u64) mod 256) = unat (of_nat n :: u64) mod 256"
    by (simp add: unat_mod)
  also have "\<dots> = n mod 2 ^ 64 mod 256" by (simp add: unat_of_nat take_bit_nat_def)
  also have "\<dots> = n mod 256"
    by (rule mod_mod_cancel) (simp add: dvd_def exI [of _ "2 ^ 56"])
  finally show ?thesis .
qed

lemma append_ring:
  assumes "g_log_total s = 0" "length (g_log_ring s) = 256" "i < length evs" "length evs \<le> i + 256"
  shows "g_log_ring (fold change_log_append evs s) ! (i mod 256) = evs ! i"
  using assms(3,4)
proof (induction evs rule: rev_induct)
  case Nil
  then show ?case by simp
next
  case (snoc e evs)
  let ?n = "length evs"
  have t: "g_log_total (fold change_log_append evs s) = of_nat ?n"
    using append_total [of evs s] assms(1) by simp
  have upd: "g_log_ring (fold change_log_append (evs @ [e]) s) =
      (g_log_ring (fold change_log_append evs s))[?n mod 256 := e]"
    by (simp add: change_log_append_def Let_def t unat_mod_256)
  show ?case
  proof (cases "i = ?n")
    case True
    then show ?thesis unfolding upd using assms(2) by simp
  next
    case False
    with snoc.prems have i: "i < ?n" "?n \<le> i + 255" by auto
    have "i mod 256 \<noteq> ?n mod 256"
    proof
      assume "i mod 256 = ?n mod 256"
      then have "256 dvd ?n - i" using i(1) by (metis mod_eq_dvd_iff_nat less_imp_le)
      then have "256 \<le> ?n - i" using i(1) by (simp add: dvd_imp_le)
      with i(2) show False by simp
    qed
    with snoc.IH i show ?thesis unfolding upd by (simp add: nth_append)
  qed
qed

lemma log_copy_eq:
  "log_copy ring since is room =
     take room (filter (\<lambda>e. ev_generation e > since) (map (\<lambda>i. ring ! (i mod 256)) is))"
  by (induction "is" arbitrary: room) (auto simp: Let_def take_Cons' )

text \<open>The held part of the ring, as the readers compute it.\<close>

lemma log_ring_view:
  assumes "g_log_total s = 0" "length (g_log_ring s) = 256" "length evs < 2 ^ 64"
  defines "n \<equiv> length evs"
  shows "g_log_total (fold change_log_append evs s) = of_nat n"
    and "unat (of_nat n :: u64) = n"
    and "unat ((of_nat n :: u64) - (if (of_nat n :: u64) < 256 then of_nat n else 256)) = n - 256"
    and "map (\<lambda>i. g_log_ring (fold change_log_append evs s) ! (i mod 256)) [n - 256..<n] = drop (n - 256) evs"
proof -
  show "g_log_total (fold change_log_append evs s) = of_nat n"
    using append_total [of evs s] assms(1) by (simp add: n_def)
  show un: "unat (of_nat n :: u64) = n" using assms(3) unfolding n_def by (rule unat_of_nat_u64)
  have lt: "(of_nat n :: u64) < 256 \<longleftrightarrow> n < 256" by (simp add: word_less_nat_alt un)
  show "unat ((of_nat n :: u64) - (if (of_nat n :: u64) < 256 then of_nat n else 256)) = n - 256"
    using un by (simp add: lt unat_sub word_le_nat_alt)
  show "map (\<lambda>i. g_log_ring (fold change_log_append evs s) ! (i mod 256)) [n - 256..<n] = drop (n - 256) evs"
    by (rule nth_equalityI) (auto simp: n_def intro!: append_ring [OF assms(1,2), THEN trans])
qed

text \<open>
  C24. The ring keeps the most recent 256 events: after any sequence of appends a reader gets, oldest first, exactly those
  of the last 256 events that are newer than the generation it asks for, cut to the room it has.
\<close>

theorem change_log_reads_recent_events:
  assumes "g_log_total s = 0" "length (g_log_ring s) = 256" "length evs < 2 ^ 64"
  shows "nx_change_log_read since mx (fold change_log_append evs s) =
           take mx (filter (\<lambda>e. ev_generation e > since) (drop (length evs - 256) evs))"
  unfolding nx_change_log_read_def nx_change_log_total_def Let_def log_ring_view [OF assms] log_copy_eq by simp

text \<open>A step that took one generation, wrote one event of that generation to the log and told every subscriber of it.\<close>

definition logged :: "'a graph_scheme \<Rightarrow> 'a graph_scheme \<Rightarrow> bool" where
  "logged s t \<longleftrightarrow>
     g_generation t = g_generation s + 1 \<and> g_log_total t = g_log_total s + 1 \<and>
     (\<exists>ev. ev_generation ev = g_generation t \<and>
        g_log_ring t = (g_log_ring s)[unat (g_log_total s mod NX_CHANGE_LOG_CAPACITY) := ev] \<and>
        notified t = notified s @ map (\<lambda>x. (sub_cb x, sub_ctx x, ev)) (filter sub_in_use (g_subscribers s)))"

lemma logged_emit:
  assumes "g_generation t = g_generation s + 1" "g_log_total t = g_log_total s" "g_log_ring t = g_log_ring s"
    "notified t = notified s" "g_subscribers t = g_subscribers s"
  shows "logged s (emit_event a t)"
  using assms by (auto simp: logged_def emit_event_def change_log_append_def Let_def intro!: exI)

lemmas graph_updates =
  bump_gen_def set_slot_def set_comp_def set_conn_def slot_add_incoming_def slot_add_outgoing_def
  slot_remove_incoming_def slot_remove_outgoing_def


section \<open>A binding that outlives its component\<close>

text \<open>
  Unregistering a bound slot leaves its binding in place. The component behind it then counts as unbound and can be
  unregistered, and when the slot is registered again it is bound to a component that the registry no longer knows.
\<close>

theorem reregistered_slot_dangles:
  assumes "graph_inv s" "fst (nx_slot_unregister r s) = NX_OK"
    and "c = sl_active (slots s r)" "c \<noteq> NULL" "\<forall>q \<in> set (reg_slots s). q \<noteq> r \<longrightarrow> sl_active (slots s q) \<noteq> c"
    and "s1 = snd (nx_slot_unregister r s)" "s2 = snd (nx_component_unregister c s1)"
    and "s3 = snd (nx_slot_register True r s2)"
  shows "fst (nx_component_unregister c s1) = NX_OK \<and> fst (nx_slot_register True r s2) = NX_OK \<and>
         r \<in> set (reg_slots s3) \<and> sl_active (slots s3 r) = c \<and> c \<notin> set (reg_comps s3)"
proof -
  note inv = assms(1) [unfolded graph_inv_def]
  obtain sn where sn: "slot_node_for r s = Some sn" "sn_incoming sn = []" "sn_outgoing sn = []"
    using assms(2) by (auto simp: nx_slot_unregister_def Let_def split: if_splits option.splits)
  note n = slot_node_for_Some [OF sn(1)]
  have s1: "g_slots s1 = filter (\<lambda>n. sn_slot n \<noteq> r) (g_slots s)" "slots s1 = slots s" "comps s1 = comps s"
    "g_components s1 = g_components s"
    using sn inv drop_node_filter [of "g_slots s" r]
    by (simp_all add: assms(6) nx_slot_unregister_def Let_def slots_ok_def)
  have cr: "c \<in> set (reg_comps s)" using inv n(4) assms(3,4) by (auto simp: bound_ok_def)
  have found: "component_node_for c s1 \<noteq> None"
    using component_node_for_None [of s1 c] inv cr by (auto simp: s1 comps_ok_def)
  have unbound: "\<not> nx_component_is_bound c s1"
    using assms(5) by (auto simp: nx_component_is_bound_def s1)
  have s2: "g_slots s2 = g_slots s1" "slots s2 = slots s" "reg_comps s2 = filter (\<lambda>d. d \<noteq> c) (reg_comps s)"
    using found unbound inv drop_comp_filter [of "g_components s" c]
    by (auto simp: assms(7) nx_component_unregister_def Let_def s1 comps_ok_def filter_map o_def)
  have free: "slot_node_find (slot_name r s2) s2 = None"
  proof -
    have "map_option snd (sl_name (slots s (sn_slot m))) \<noteq> slot_name r s" if "m \<in> set (g_slots s)" "sn_slot m \<noteq> r" for m
    proof -
      have m: "sn_slot m \<in> set (reg_slots s)" using that(1) by simp
      then have "sn_slot m \<noteq> NULL" using inv unfolding slots_ok_def by metis
      moreover have "slot_name (sn_slot m) s \<noteq> slot_name r s"
        using inv m n(4) that(2) unfolding slots_ok_def by blast
      ultimately show ?thesis by (simp add: slot_name_def)
    qed
    moreover have "slot_name r s2 = slot_name r s" by (simp add: slot_name_def s2)
    ultimately show ?thesis by (auto simp: slot_node_find_def find_None_iff s2 s1 Let_def)
  qed
  have nm: "sl_name (slots s2 r) \<noteq> None"
  proof -
    have "name_valid (sl_name (slots s r))" using inv n(4) unfolding slots_ok_def by blast
    then show ?thesis by (cases "sl_name (slots s r)") (simp_all add: s2 name_valid_def)
  qed
  have "c \<notin> set (reg_comps s2)" unfolding s2(3) by simp
  then show ?thesis
    using found unbound free nm n(3) s2(1,2) assms(3)
    by (simp add: assms(8) nx_component_unregister_def nx_slot_register_def Let_def graph_updates)
qed

section \<open>A concrete graph\<close>

definition quiet_run :: "unit graph_run" where
  "quiet_run f c u s = (NX_HOOK_CONTINUE, s)"

definition demo_slot :: "ptr \<Rightarrow> string \<Rightarrow> nx_slot" where
  "demo_slot a nm = \<lparr>sl_name = Some (a, nm), sl_iface = Some nm, sl_mutability = NX_MUT_HOT,
     sl_concurrency = NX_CONC_SHARED, sl_active = NULL, sl_fallback = NULL, sl_pause_state = NX_SLOT_PAUSE_NONE,
     sl_resume_waitq = [], sl_in_flight_calls = 0\<rparr>"

definition demo_event :: nx_graph_event where
  "demo_event = \<lparr>ev_arm = NX_EV_SLOT_CREATED None, ev_generation = 0, ev_timestamp_ns = 0\<rparr>"

text \<open>Two slots at the addresses 1 and 2, a component at 3, and nothing registered yet.\<close>

definition demo_memory :: graph where
  "demo_memory =
     \<lparr>hooks = (\<lambda>h. \<lparr>hk_point = 0, hk_priority = 0, hk_fn = 0, hk_user = 0, hk_dead = False\<rparr>),
      g_chains = (\<lambda>p. []), g_dispatching = 0,
      slots = (\<lambda>r. if r = 1 then demo_slot 0x40001000 ''scheduler'' else demo_slot 0x40002000 ''vfs''),
      comps = (\<lambda>c. \<lparr>cm_manifest_id = Some ''sched_rr'', cm_instance_id = Some ''0'', cm_state = NX_LC_UNINIT,
                   cm_impl = 0, cm_descriptor = 0\<rparr>),
      conns = (\<lambda>c. \<lparr>cn_from_slot = 0, cn_to_slot = 0, cn_mode = NX_CONN_ASYNC, cn_stateful = False,
                   cn_policy = NX_PAUSE_QUEUE, cn_installed_gen = 0\<rparr>),
      g_slots = [], g_components = [], g_connections = [], g_slot_count = 0, g_component_count = 0,
      g_connection_count = 0, g_generation = 0,
      g_subscribers = replicate 16 \<lparr>sub_cb = 0, sub_ctx = 0, sub_in_use = False\<rparr>,
      g_log_ring = replicate 256 demo_event, g_log_total = 0, notified = []\<rparr>"

definition demo_slots :: graph where
  "demo_slots = snd (nx_slot_register True 2 (snd (nx_slot_register True 1 (nx_graph_reset demo_memory))))"

definition demo_bound :: graph where
  "demo_bound = snd (nx_slot_swap quiet_run 1 3 (snd (nx_component_register True 3 demo_slots)))"

definition demo_wired :: graph where
  "demo_wired = snd (nx_connection_register (Some 4) 2 1 NX_CONN_SYNC False NX_PAUSE_REJECT demo_bound)"

lemma quiet_run_disciplined: "graph_disciplined quiet_run"
  by (simp add: graph_disciplined_def quiet_run_def ga_none)

lemma demo_graph_reach: "graph_reach quiet_run demo_bound" "graph_reach quiet_run demo_wired"
proof -
  have "graph_reach quiet_run demo_slots"
    unfolding demo_slots_def
  proof (rule gr_acts [OF gr_reset [of _ demo_memory]], intro ga_slot_register ga_none)
    let ?s0 = "nx_graph_reset demo_memory"
    show "name_valid (sl_name (slots ?s0 1))" "sl_active (slots ?s0 1) = NULL" by code_simp+
    show "name_valid (sl_name (slots (snd (nx_slot_register True 1 ?s0)) 2))"
      "sl_active (slots (snd (nx_slot_register True 1 ?s0)) 2) = NULL" by code_simp+
  qed
  moreover have "graph_acts demo_slots (snd (nx_component_register True 3 demo_slots))"
  proof (rule ga_component_register [OF ga_none])
    have "reg_comps demo_slots = []" by code_simp
    then show "cm_state (comps demo_slots 3) \<noteq> NX_LC_DESTROYED" if "3 \<in> set (reg_comps demo_slots)"
      using that by simp
  qed
  ultimately have "graph_reach quiet_run (snd (nx_component_register True 3 demo_slots))" by (rule gr_acts)
  then show b: "graph_reach quiet_run demo_bound" unfolding demo_bound_def by (rule gr_swap)
  have "g_connections demo_bound = []" by code_simp
  then have "graph_acts demo_bound demo_wired"
    unfolding demo_wired_def by (intro ga_connection_register ga_none) auto
  with b show "graph_reach quiet_run demo_wired" by (rule gr_acts)
qed


theorem change_log_reads_recent_events_witness:
  "nx_change_log_read 0 5 (fold change_log_append [demo_event, demo_event\<lparr>ev_generation := 7\<rparr>] demo_memory) =
     [demo_event\<lparr>ev_generation := 7\<rparr>]"
proof -
  have "g_log_total demo_memory = 0" "length (g_log_ring demo_memory) = 256" by (simp_all add: demo_memory_def)
  from change_log_reads_recent_events [OF this, of "[demo_event, demo_event\<lparr>ev_generation := 7\<rparr>]" 0 5]
  show ?thesis by (simp add: demo_event_def)
qed

theorem reregistered_slot_dangles_witness:
  "sl_active (slots (snd (nx_slot_register True 1
     (snd (nx_component_unregister 3 (snd (nx_slot_unregister 1 demo_bound)))))) 1) = 3 \<and>
   3 \<notin> set (reg_comps (snd (nx_slot_register True 1
     (snd (nx_component_unregister 3 (snd (nx_slot_unregister 1 demo_bound)))))))"
proof -
  have inv: "graph_inv demo_bound" by (rule graph_reach_inv [OF quiet_run_disciplined demo_graph_reach(1)])
  have ok: "fst (nx_slot_unregister 1 demo_bound) = NX_OK" by code_simp
  have a: "3 = sl_active (slots demo_bound 1)" "reg_slots demo_bound = [2, 1]" "sl_active (slots demo_bound 2) = 0"
    by code_simp+
  from reregistered_slot_dangles [OF inv ok a(1) _ _ refl refl refl] a(2,3) show ?thesis by simp
qed

end
