(* ===== verification/Nx_Json.thy ===== *)
theory Nx_Json
  imports Nx_Prelude "HOL-Library.Code_Target_Nat"
begin

text \<open>
  The JSON appender of the registry (\<^verbatim>\<open>framework/registry.c\<close>, \<^verbatim>\<open>struct json_buf\<close> and its functions) and what
  it is judged by: JSON values, their compact text, and a parser for that text. The buffer is the caller's array; every
  write goes through \<open>jb_putc\<close>, which keeps one byte for the terminating NUL.
\<close>

section \<open>The appender\<close>

record json_buf =
  jb_buf :: "char list"
  jb_cap :: nat
  jb_pos :: nat
  jb_truncated :: bool

abbreviation (input) NUL :: char where "NUL \<equiv> CHR 0x00"

definition jb_init :: "char list \<Rightarrow> nat \<Rightarrow> json_buf" where
  "jb_init buf cap =
     \<lparr>jb_buf = (if cap \<noteq> 0 then buf[0 := NUL] else buf), jb_cap = cap, jb_pos = 0, jb_truncated = False\<rparr>"

definition jb_putc :: "char \<Rightarrow> json_buf \<Rightarrow> json_buf" where
  "jb_putc c jb =
     (if jb_pos jb + 1 < jb_cap jb
      then jb\<lparr>jb_buf := (jb_buf jb)[jb_pos jb := c, jb_pos jb + 1 := NUL], jb_pos := jb_pos jb + 1\<rparr>
      else jb\<lparr>jb_truncated := True\<rparr>)"

definition jb_puts :: "string \<Rightarrow> json_buf \<Rightarrow> json_buf" where
  "jb_puts s jb = fold jb_putc s jb"

definition json_hex_digit :: "nat \<Rightarrow> char" where
  "json_hex_digit d = ''0123456789abcdef'' ! d"

definition fmt_hex4 :: "nat \<Rightarrow> string" where
  "fmt_hex4 c =
     [CHR 0x5C, CHR ''u'', json_hex_digit (c div 2 ^ 12 mod 16), json_hex_digit (c div 2 ^ 8 mod 16),
      json_hex_digit (c div 2 ^ 4 mod 16), json_hex_digit (c mod 16)]"

text \<open>The digits in the order the loop of \<^verbatim>\<open>fmt_u64\<close> produces them, the lowest first.\<close>

fun low_digits :: "nat \<Rightarrow> string" where
  "low_digits v = (if v = 0 then [] else char_of (48 + v mod 10) # low_digits (v div 10))"

declare low_digits.simps [simp del]

definition fmt_u64 :: "u64 \<Rightarrow> string" where
  "fmt_u64 v = (if v = 0 then ''0'' else rev (low_digits (unat v)))"

definition escape_char :: "char \<Rightarrow> string" where
  "escape_char ch =
     (if ch = CHR 0x22 then [CHR 0x5C, CHR 0x22]
      else if ch = CHR 0x5C then [CHR 0x5C, CHR 0x5C]
      else if ch = CHR 0x0A then [CHR 0x5C, CHR ''n'']
      else if ch = CHR 0x0D then [CHR 0x5C, CHR ''r'']
      else if ch = CHR 0x09 then [CHR 0x5C, CHR ''t'']
      else if (of_char ch :: nat) < 0x20 then fmt_hex4 (of_char ch)
      else [ch])"

definition jb_puts_escaped :: "string option \<Rightarrow> json_buf \<Rightarrow> json_buf" where
  "jb_puts_escaped so jb =
     (case so of
        None \<Rightarrow> jb_puts ''null'' jb
      | Some s \<Rightarrow> jb_putc (CHR 0x22) (fold (\<lambda>ch. jb_puts (escape_char ch)) s (jb_putc (CHR 0x22) jb)))"

definition jb_putu64 :: "u64 \<Rightarrow> json_buf \<Rightarrow> json_buf" where
  "jb_putu64 v jb = jb_puts (fmt_u64 v) jb"

section \<open>What the appender leaves in the buffer\<close>

lemma jb_puts_append: "jb_puts t (jb_puts s jb) = jb_puts (s @ t) jb"
  by (simp add: jb_puts_def)

lemma jb_putc_puts: "jb_putc c jb = jb_puts [c] jb"
  by (simp add: jb_puts_def)

lemma jb_puts_Nil [simp]: "jb_puts [] jb = jb"
  by (simp add: jb_puts_def)

definition escaped :: "string option \<Rightarrow> string" where
  "escaped so = (case so of None \<Rightarrow> ''null'' | Some s \<Rightarrow> [CHR 0x22] @ concat (map escape_char s) @ [CHR 0x22])"

lemma fold_jb_puts: "fold (\<lambda>x. jb_puts (f x)) xs jb = jb_puts (concat (map f xs)) jb"
  by (induction xs arbitrary: jb) (simp_all add: jb_puts_append)

lemma jb_puts_escaped_eq: "jb_puts_escaped so jb = jb_puts (escaped so) jb"
  by (simp add: jb_puts_escaped_def escaped_def fold_jb_puts jb_putc_puts jb_puts_append split: option.splits)

text \<open>
  A text of any length, put into a buffer of positive size: as much of it as fits, terminated; the bytes behind stay as
  they were.
\<close>

lemma jb_puts_init:
  assumes "0 < cap" "cap \<le> length buf"
  shows "jb_puts s (jb_init buf cap) =
     (let n = min (length s) (cap - 1) in
      \<lparr>jb_buf = take n s @ [NUL] @ drop (Suc n) buf, jb_cap = cap, jb_pos = n, jb_truncated = (cap \<le> length s)\<rparr>)"
proof (induction s rule: rev_induct)
  case Nil
  from assms obtain b bs where "buf = b # bs" by (cases buf) auto
  with assms show ?case by (simp add: jb_init_def Let_def)
next
  case (snoc c s)
  show ?case
  proof (cases "length s + 1 < cap")
    case True
    let ?n = "length s"
    have len: "?n < length buf" "Suc ?n < length buf" using True assms by auto
    have d: "drop (Suc ?n) buf = buf ! Suc ?n # drop (Suc (Suc ?n)) buf"
      using len by (simp add: Cons_nth_drop_Suc)
    have "jb_puts s (jb_init buf cap) =
        \<lparr>jb_buf = s @ [NUL] @ drop (Suc ?n) buf, jb_cap = cap, jb_pos = ?n, jb_truncated = False\<rparr>"
      using snoc.IH True by (simp add: Let_def)
    then have "jb_puts (s @ [c]) (jb_init buf cap) =
        jb_putc c \<lparr>jb_buf = s @ [NUL] @ drop (Suc ?n) buf, jb_cap = cap, jb_pos = ?n, jb_truncated = False\<rparr>"
      by (simp flip: jb_puts_append add: jb_putc_puts)
    also have "\<dots> = \<lparr>jb_buf = s @ [c, NUL] @ drop (Suc (Suc ?n)) buf, jb_cap = cap, jb_pos = Suc ?n, jb_truncated = False\<rparr>"
      using True by (simp add: jb_putc_def d list_update_append)
    finally show ?thesis using True by (simp add: Let_def)
  next
    case False
    then have m: "min (length s) (cap - 1) = cap - 1" "min (length (s @ [c])) (cap - 1) = cap - 1" by auto
    have "jb_puts (s @ [c]) (jb_init buf cap) = jb_putc c (jb_puts s (jb_init buf cap))"
      by (simp flip: jb_puts_append add: jb_putc_puts)
    then show ?thesis
      unfolding snoc.IH Let_def m using False assms(1) by (simp add: jb_putc_def)
  qed
qed

section \<open>JSON values and their text\<close>

datatype json =
    JNull
  | JBool bool
  | JNum nat
  | JStr string
  | JArr "json list"
  | JObj "(string \<times> json) list"

definition opt_json :: "string option \<Rightarrow> json" where
  "opt_json so = (case so of None \<Rightarrow> JNull | Some s \<Rightarrow> JStr s)"

definition num_text :: "nat \<Rightarrow> string" where
  "num_text n = (if n = 0 then ''0'' else rev (low_digits n))"

fun commas :: "string list \<Rightarrow> string" where
  "commas [] = []"
| "commas [x] = x"
| "commas (x # y # zs) = x @ '','' @ commas (y # zs)"

fun json_text :: "json \<Rightarrow> string" where
  "json_text JNull = ''null''"
| "json_text (JBool b) = (if b then ''true'' else ''false'')"
| "json_text (JNum n) = num_text n"
| "json_text (JStr s) = escaped (Some s)"
| "json_text (JArr xs) = ''['' @ commas (map json_text xs) @ '']''"
| "json_text (JObj ms) = ''{'' @ commas (map (\<lambda>(k, v). escaped (Some k) @ '':'' @ json_text v) ms) @ ''}''"

lemma json_text_opt: "json_text (opt_json so) = escaped so"
  by (simp add: opt_json_def escaped_def split: option.splits)

lemma fmt_u64_text: "fmt_u64 v = json_text (JNum (unat v))"
  by (simp add: fmt_u64_def num_text_def unat_eq_0)

section \<open>A parser\<close>

definition hex_value :: "char \<Rightarrow> nat" where
  "hex_value ch = (if (of_char ch :: nat) \<ge> 97 then of_char ch - 87 else of_char ch - 48)"

definition hex4_value :: "string \<Rightarrow> nat" where
  "hex4_value ds = fold (\<lambda>d a. 16 * a + hex_value d) ds 0"

text \<open>The rest of a string literal after its opening quote.\<close>

function parse_chars :: "string \<Rightarrow> (string \<times> string) option" where
  "parse_chars [] = None"
| "parse_chars (c # r) =
     (if c = CHR 0x22 then Some ([], r)
      else if c \<noteq> CHR 0x5C then map_option (apfst (Cons c)) (parse_chars r)
      else case r of
             [] \<Rightarrow> None
           | e # q \<Rightarrow>
               if e = CHR ''u'' then map_option (apfst (Cons (char_of (hex4_value (take 4 q))))) (parse_chars (drop 4 q))
               else if e = CHR ''n'' then map_option (apfst (Cons (CHR 0x0A))) (parse_chars q)
               else if e = CHR ''r'' then map_option (apfst (Cons (CHR 0x0D))) (parse_chars q)
               else if e = CHR ''t'' then map_option (apfst (Cons (CHR 0x09))) (parse_chars q)
               else map_option (apfst (Cons e)) (parse_chars q))"
  by pat_completeness auto
termination by (relation "measure length") auto

definition is_digit :: "char \<Rightarrow> bool" where
  "is_digit ch = (48 \<le> (of_char ch :: nat) \<and> (of_char ch :: nat) \<le> 57)"

definition num_value :: "string \<Rightarrow> nat" where
  "num_value ds = fold (\<lambda>d a. 10 * a + (of_char d - 48)) ds 0"

fun parse_json :: "nat \<Rightarrow> string \<Rightarrow> (json \<times> string) option"
and parse_elems :: "nat \<Rightarrow> string \<Rightarrow> (json list \<times> string) option"
and parse_members :: "nat \<Rightarrow> string \<Rightarrow> ((string \<times> json) list \<times> string) option" where
  "parse_json 0 inp = None"
| "parse_json (Suc n) inp =
     (if take 4 inp = ''null'' then Some (JNull, drop 4 inp)
      else if take 4 inp = ''true'' then Some (JBool True, drop 4 inp)
      else if take 5 inp = ''false'' then Some (JBool False, drop 5 inp)
      else case inp of
             [] \<Rightarrow> None
           | c # r \<Rightarrow>
               if c = CHR 0x22 then map_option (apfst JStr) (parse_chars r)
               else if c = CHR ''['' then
                 (if take 1 r = '']'' then Some (JArr [], drop 1 r) else map_option (apfst JArr) (parse_elems n r))
               else if c = CHR ''{'' then
                 (if take 1 r = ''}'' then Some (JObj [], drop 1 r) else map_option (apfst JObj) (parse_members n r))
               else if is_digit c then Some (JNum (num_value (takeWhile is_digit inp)), dropWhile is_digit inp)
               else None)"
| "parse_elems 0 inp = None"
| "parse_elems (Suc n) inp =
     (case parse_json n inp of
        Some (v, c # r) \<Rightarrow>
          if c = CHR '','' then map_option (apfst (Cons v)) (parse_elems n r)
          else if c = CHR '']'' then Some ([v], r) else None
      | _ \<Rightarrow> None)"
| "parse_members 0 inp = None"
| "parse_members (Suc n) inp =
     (if take 1 inp \<noteq> [CHR 0x22] then None
      else case parse_chars (drop 1 inp) of
             Some (k, d # q) \<Rightarrow>
               (if d \<noteq> CHR '':'' then None
                else case parse_json n q of
                       Some (v, c # r) \<Rightarrow>
                         if c = CHR '','' then map_option (apfst (Cons (k, v))) (parse_members n r)
                         else if c = CHR ''}'' then Some ([(k, v)], r) else None
                     | _ \<Rightarrow> None)
           | _ \<Rightarrow> None)"

section \<open>The parser inverts the text\<close>

lemma hex4_inverse:
  assumes "n < 32"
  shows "hex4_value (drop 2 (fmt_hex4 n)) = n"
proof -
  have "\<forall>n \<in> set [0..<32]. hex4_value (drop 2 (fmt_hex4 n)) = n" by code_simp
  with assms show ?thesis by simp
qed

lemma fmt_hex4_shape: "fmt_hex4 n = CHR 0x5C # CHR ''u'' # drop 2 (fmt_hex4 n)" "length (fmt_hex4 n) = 6"
  by (simp_all add: fmt_hex4_def)

lemma parse_escaped_char: "parse_chars (escape_char ch @ r) = map_option (apfst (Cons ch)) (parse_chars r)"
proof (cases "escape_char ch = fmt_hex4 (of_char ch) \<and> (of_char ch :: nat) < 32")
  case True
  have "parse_chars (fmt_hex4 (of_char ch) @ r) =
      map_option (apfst (Cons (char_of (hex4_value (drop 2 (fmt_hex4 (of_char ch))))))) (parse_chars r)"
    by (subst fmt_hex4_shape(1)) (simp add: fmt_hex4_shape(2))
  with True hex4_inverse [of "of_char ch"] show ?thesis by simp
next
  case False
  then show ?thesis by (auto simp: escape_char_def split: if_splits)
qed

lemma parse_escaped: "parse_chars (concat (map escape_char s) @ CHR 0x22 # r) = Some (s, r)"
  by (induction s) (simp_all add: parse_escaped_char)

lemma low_digits_digit: "ch \<in> set (low_digits n) \<Longrightarrow> is_digit ch"
proof (induction n rule: low_digits.induct)
  case (1 v)
  have "(48 + v mod 10) mod 256 = 48 + v mod 10" by simp
  with 1 show ?case
    by (subst (asm) (2) low_digits.simps) (auto simp: is_digit_def split: if_splits)
qed

lemma low_digits_value: "fold (\<lambda>d a. 10 * a + (of_char d - 48)) (rev (low_digits n)) 0 = n"
proof (induction n rule: low_digits.induct)
  case (1 v)
  have "(48 + v mod 10) mod 256 = 48 + v mod 10" by simp
  with 1 show ?case
    by (subst low_digits.simps) (simp add: foldr_conv_fold [symmetric])
qed

lemma num_text_digits: "ch \<in> set (num_text n) \<Longrightarrow> is_digit ch"
  by (auto simp: num_text_def is_digit_def dest: low_digits_digit split: if_splits)

lemma num_text_value: "num_value (num_text n) = n"
  by (simp add: num_text_def num_value_def low_digits_value)

lemma num_text_nonempty: "num_text n \<noteq> []"
  by (simp add: num_text_def low_digits.simps [of n])

definition no_digit :: "string \<Rightarrow> bool" where
  "no_digit r = (case r of [] \<Rightarrow> True | c # _ \<Rightarrow> \<not> is_digit c)"

lemma json_text_nonempty: "json_text t \<noteq> []"
  by (cases t) (auto simp: escaped_def num_text_nonempty)

lemma commas_Cons: "commas (x # xs) = x @ (if xs = [] then [] else '','' @ commas xs)"
  by (cases xs) simp_all

lemma parse_num:
  assumes "no_digit r"
  shows "parse_json (Suc n) (num_text k @ r) = Some (JNum k, r)"
proof -
  obtain c cs where c: "num_text k = c # cs" using num_text_nonempty by (cases "num_text k") auto
  have d: "\<forall>x \<in> set (num_text k). is_digit x" using num_text_digits by blast
  then have cd: "is_digit c" by (simp add: c)
  have split: "takeWhile is_digit (num_text k @ r) = num_text k" "dropWhile is_digit (num_text k @ r) = r"
    using d assms by (cases r; simp add: no_digit_def takeWhile_append dropWhile_append)+
  have "c \<noteq> CHR ''n''" "c \<noteq> CHR ''t''" "c \<noteq> CHR ''f''" "c \<noteq> CHR 0x22" "c \<noteq> CHR ''[''" "c \<noteq> CHR ''{''"
    using cd by (auto simp: is_digit_def)
  then show ?thesis
    using cd split num_text_value [of k] by (simp add: c)
qed

lemma parse_elems_text:
  assumes "\<And>x n r. x \<in> set xs \<Longrightarrow> no_digit r \<Longrightarrow> length (json_text x) \<le> n \<Longrightarrow>
      parse_json n (json_text x @ r) = Some (x, r)"
    and "xs \<noteq> []" "length (commas (map json_text xs)) < n"
  shows "parse_elems n (commas (map json_text xs) @ '']'' @ r) = Some (xs, r)"
  using assms
proof (induction xs arbitrary: n)
  case Nil
  then show ?case by simp
next
  case (Cons x xs)
  then obtain m where n: "n = Suc m" by (cases n) auto
  show ?case
  proof (cases "xs = []")
    case True
    with Cons.prems n have "parse_json m (json_text x @ '']'' @ r) = Some (x, '']'' @ r)"
      by (intro Cons.prems(1)) (simp_all add: no_digit_def is_digit_def)
    with True n show ?thesis by simp
  next
    case False
    let ?t = "commas (map json_text xs) @ '']'' @ r"
    have "parse_json m (json_text x @ '','' @ ?t) = Some (x, '','' @ ?t)"
      using Cons.prems n False
      by (intro Cons.prems(1)) (simp_all add: commas_Cons no_digit_def is_digit_def)
    moreover have "parse_elems m ?t = Some (xs, r)"
      using Cons.prems n False by (intro Cons.IH) (auto simp: commas_Cons)
    ultimately show ?thesis
      using False n by (simp add: commas_Cons)
  qed
qed

lemma parse_members_text:
  assumes "\<And>k v n r. (k, v) \<in> set ms \<Longrightarrow> no_digit r \<Longrightarrow> length (json_text v) \<le> n \<Longrightarrow>
      parse_json n (json_text v @ r) = Some (v, r)"
    and "ms \<noteq> []" "length (commas (map (\<lambda>(k, v). escaped (Some k) @ '':'' @ json_text v) ms)) < n"
  shows "parse_members n (commas (map (\<lambda>(k, v). escaped (Some k) @ '':'' @ json_text v) ms) @ ''}'' @ r) = Some (ms, r)"
  using assms
proof (induction ms arbitrary: n)
  case Nil
  then show ?case by simp
next
  case (Cons m ms)
  obtain k v where m: "m = (k, v)" by (cases m)
  from Cons.prems obtain i where n: "n = Suc i" by (cases n) auto
  have key: "parse_chars (concat (map escape_char k) @ CHR 0x22 # q) = Some (k, q)" for q
    by (rule parse_escaped)
  show ?case
  proof (cases "ms = []")
    case True
    with Cons.prems n m have "parse_json i (json_text v @ ''}'' @ r) = Some (v, ''}'' @ r)"
      by (intro Cons.prems(1)) (auto simp: no_digit_def is_digit_def)
    with True n m key show ?thesis by (simp add: escaped_def)
  next
    case False
    let ?t = "commas (map (\<lambda>(k, v). escaped (Some k) @ '':'' @ json_text v) ms) @ ''}'' @ r"
    have "parse_json i (json_text v @ '','' @ ?t) = Some (v, '','' @ ?t)"
      using Cons.prems n m False
      by (intro Cons.prems(1)) (auto simp: commas_Cons no_digit_def is_digit_def)
    moreover have "parse_members i ?t = Some (ms, r)"
      using Cons.prems n m False by (intro Cons.IH) (auto simp: commas_Cons)
    ultimately show ?thesis
      using False n m key by (simp add: commas_Cons escaped_def)
  qed
qed

lemma commas_no_bracket:
  "xs \<noteq> [] \<Longrightarrow> take 1 (commas (map json_text xs) @ r) \<noteq> '']''"
  "ms \<noteq> [] \<Longrightarrow> take 1 (commas (map (\<lambda>(k, v). escaped (Some k) @ '':'' @ json_text v) ms) @ r) \<noteq> ''}''"
proof -
  have digit: "is_digit (hd (num_text k))" for k
    using num_text_digits num_text_nonempty by (meson list.set_sel(1))
  have "hd (num_text k) \<noteq> CHR '']''" for k
    using digit [of k] by (auto simp: is_digit_def)
  then have "hd (json_text x) \<noteq> CHR '']''" for x
    by (cases x) (auto simp: escaped_def)
  then show "take 1 (commas (map json_text xs) @ r) \<noteq> '']''" if "xs \<noteq> []"
    using that json_text_nonempty
    by (cases xs) (auto simp: commas_Cons hd_append take_Suc)
  show "take 1 (commas (map (\<lambda>(k, v). escaped (Some k) @ '':'' @ json_text v) ms) @ r) \<noteq> ''}''" if "ms \<noteq> []"
    using that by (cases ms) (auto simp: commas_Cons escaped_def)
qed

lemma parse_json_text:
  "no_digit r \<Longrightarrow> length (json_text t) \<le> n \<Longrightarrow> parse_json n (json_text t @ r) = Some (t, r)"
proof (induction t arbitrary: n r)
  case (JNum k)
  moreover from this obtain m where "n = Suc m" using num_text_nonempty [of k] by (cases n) auto
  ultimately show ?case using parse_num by simp
next
  case (JArr xs)
  then obtain m where n: "n = Suc m" by (cases n) auto
  show ?case
  proof (cases "xs = []")
    case True
    then show ?thesis by (simp add: n)
  next
    case False
    have "parse_elems m (commas (map json_text xs) @ '']'' @ r) = Some (xs, r)"
      using JArr n False by (intro parse_elems_text) auto
    with commas_no_bracket(1) [OF False, of "'']'' @ r"] show ?thesis by (simp add: n)
  qed
next
  case (JObj ms)
  then obtain m where n: "n = Suc m" by (cases n) auto
  show ?case
  proof (cases "ms = []")
    case True
    then show ?thesis by (simp add: n)
  next
    case False
    have "parse_members m (commas (map (\<lambda>(k, v). escaped (Some k) @ '':'' @ json_text v) ms) @ ''}'' @ r) = Some (ms, r)"
      using JObj n False by (intro parse_members_text) auto
    with commas_no_bracket(2) [OF False, of "''}'' @ r"] show ?thesis by (simp add: n)
  qed
next
  case (JStr s)
  then obtain m where "n = Suc m" by (cases n) (auto simp: escaped_def)
  then show ?case by (simp add: escaped_def parse_escaped)
next
  case JNull
  then obtain m where "n = Suc m" by (cases n) auto
  then show ?case by simp
next
  case (JBool b)
  then obtain m where "n = Suc m" by (cases n) (auto split: if_splits)
  then show ?case by simp
qed

end
