(* ===== verification/Nx_Snapshot.thy ===== *)
theory Nx_Snapshot
  imports Nx_Registry Nx_Json
begin

text \<open>
  Snapshots of the registry and the two JSON serialisers (\<^verbatim>\<open>framework/registry.c\<close>). A snapshot owns copies of the
  entity arrays; the arrays are lists here. The serialisers are sequences of appender calls in the order of the code; the
  JSON value that their text denotes is defined beside them.
\<close>

section \<open>Snapshots\<close>

record nx_snapshot_slot =
  ss_name :: "string option"
  ss_iface :: "string option"
  ss_mutability :: nx_slot_mutability
  ss_concurrency :: nx_slot_concurrency
  ss_active_manifest :: "string option"
  ss_active_instance :: "string option"

record nx_snapshot_component =
  sc_manifest_id :: "string option"
  sc_instance_id :: "string option"
  sc_state :: nx_lifecycle_state

record nx_snapshot_connection =
  sx_from_slot :: "string option"
  sx_to_slot :: "string option"
  sx_mode :: nx_conn_mode
  sx_stateful :: bool
  sx_policy :: nx_pause_policy
  sx_installed_gen :: u64

record nx_graph_snapshot =
  sh_refcount :: int
  sh_generation :: u64
  sh_timestamp_ns :: u64
  sh_slot_count :: nat
  sh_component_count :: nat
  sh_connection_count :: nat
  sh_slots :: "nx_snapshot_slot list"
  sh_components :: "nx_snapshot_component list"
  sh_connections :: "nx_snapshot_connection list"

definition snap_slot :: "'a graph_scheme \<Rightarrow> slot_ref \<Rightarrow> nx_snapshot_slot" where
  "snap_slot s r =
     \<lparr>ss_name = map_option snd (sl_name (slots s r)), ss_iface = sl_iface (slots s r),
      ss_mutability = sl_mutability (slots s r), ss_concurrency = sl_concurrency (slots s r),
      ss_active_manifest = comp_manifest (sl_active (slots s r)) s,
      ss_active_instance = comp_instance (sl_active (slots s r)) s\<rparr>"

definition snap_component :: "'a graph_scheme \<Rightarrow> comp_ref \<Rightarrow> nx_snapshot_component" where
  "snap_component s c =
     \<lparr>sc_manifest_id = cm_manifest_id (comps s c), sc_instance_id = cm_instance_id (comps s c),
      sc_state = cm_state (comps s c)\<rparr>"

definition snap_connection :: "'a graph_scheme \<Rightarrow> conn_ref \<Rightarrow> nx_snapshot_connection" where
  "snap_connection s c =
     \<lparr>sx_from_slot = slot_name (cn_from_slot (conns s c)) s, sx_to_slot = slot_name (cn_to_slot (conns s c)) s,
      sx_mode = cn_mode (conns s c), sx_stateful = cn_stateful (conns s c), sx_policy = cn_policy (conns s c),
      sx_installed_gen = cn_installed_gen (conns s c)\<rparr>"

text \<open>
  The four arguments \<open>m0\<close> .. \<open>m3\<close> say which of the allocations succeed; the three arrays are only allocated when they
  are not empty.
\<close>

definition nx_graph_snapshot_take :: "bool \<Rightarrow> bool \<Rightarrow> bool \<Rightarrow> bool \<Rightarrow> 'a graph_scheme \<Rightarrow> nx_graph_snapshot option" where
  "nx_graph_snapshot_take m0 m1 m2 m3 s =
     (if \<not> m0 then None
      else if g_slot_count s \<noteq> 0 \<and> \<not> m1 then None
      else if g_component_count s \<noteq> 0 \<and> \<not> m2 then None
      else if g_connection_count s \<noteq> 0 \<and> \<not> m3 then None
      else Some
        \<lparr>sh_refcount = 1, sh_generation = g_generation s, sh_timestamp_ns = now_ns,
         sh_slot_count = g_slot_count s, sh_component_count = g_component_count s,
         sh_connection_count = g_connection_count s,
         sh_slots = map (\<lambda>n. snap_slot s (sn_slot n)) (g_slots s),
         sh_components = map (\<lambda>n. snap_component s (cmn_comp n)) (g_components s),
         sh_connections = map (snap_connection s) (g_connections s)\<rparr>)"

definition nx_graph_snapshot_retain :: "nx_graph_snapshot \<Rightarrow> nx_graph_snapshot" where
  "nx_graph_snapshot_retain h = h\<lparr>sh_refcount := sh_refcount h + 1\<rparr>"

text \<open>The result is the snapshot that is left, if it was not freed.\<close>

definition nx_graph_snapshot_put :: "nx_graph_snapshot \<Rightarrow> nx_graph_snapshot option" where
  "nx_graph_snapshot_put h =
     (let h1 = h\<lparr>sh_refcount := sh_refcount h - 1\<rparr> in if sh_refcount h1 > 0 then Some h1 else None)"

definition nx_graph_snapshot_slot :: "nx_graph_snapshot option \<Rightarrow> nat \<Rightarrow> nx_snapshot_slot option" where
  "nx_graph_snapshot_slot ho i =
     (case ho of None \<Rightarrow> None | Some h \<Rightarrow> if i \<ge> sh_slot_count h then None else Some (sh_slots h ! i))"

definition nx_graph_snapshot_component :: "nx_graph_snapshot option \<Rightarrow> nat \<Rightarrow> nx_snapshot_component option" where
  "nx_graph_snapshot_component ho i =
     (case ho of None \<Rightarrow> None | Some h \<Rightarrow> if i \<ge> sh_component_count h then None else Some (sh_components h ! i))"

definition nx_graph_snapshot_connection :: "nx_graph_snapshot option \<Rightarrow> nat \<Rightarrow> nx_snapshot_connection option" where
  "nx_graph_snapshot_connection ho i =
     (case ho of None \<Rightarrow> None | Some h \<Rightarrow> if i \<ge> sh_connection_count h then None else Some (sh_connections h ! i))"

section \<open>Names of enumeration values\<close>

fun mutability_str :: "nx_slot_mutability \<Rightarrow> string" where
  "mutability_str NX_MUT_HOT = ''hot''"
| "mutability_str NX_MUT_WARM = ''warm''"
| "mutability_str NX_MUT_FROZEN = ''frozen''"

fun concurrency_str :: "nx_slot_concurrency \<Rightarrow> string" where
  "concurrency_str NX_CONC_SHARED = ''shared''"
| "concurrency_str NX_CONC_SERIALIZED = ''serialized''"
| "concurrency_str NX_CONC_PER_CPU = ''per_cpu''"
| "concurrency_str NX_CONC_DEDICATED = ''dedicated''"

definition mode_str :: "nx_conn_mode \<Rightarrow> string" where
  "mode_str m = (if m = NX_CONN_SYNC then ''sync'' else ''async'')"

fun policy_str :: "nx_pause_policy \<Rightarrow> string" where
  "policy_str NX_PAUSE_QUEUE = ''queue''"
| "policy_str NX_PAUSE_REJECT = ''reject''"
| "policy_str NX_PAUSE_REDIRECT = ''redirect''"

fun lifecycle_str :: "nx_lifecycle_state \<Rightarrow> string" where
  "lifecycle_str NX_LC_UNINIT = ''uninit''"
| "lifecycle_str NX_LC_INIT = ''init''"
| "lifecycle_str NX_LC_READY = ''ready''"
| "lifecycle_str NX_LC_ACTIVE = ''active''"
| "lifecycle_str NX_LC_PAUSED = ''paused''"
| "lifecycle_str NX_LC_DESTROYED = ''destroyed''"

fun event_type_str :: "nx_graph_event_arm \<Rightarrow> string" where
  "event_type_str (NX_EV_SLOT_CREATED _) = ''slot_created''"
| "event_type_str (NX_EV_SLOT_DESTROYED _) = ''slot_destroyed''"
| "event_type_str (NX_EV_SLOT_SWAPPED _ _ _ _ _) = ''slot_swapped''"
| "event_type_str (NX_EV_COMPONENT_REGISTERED _ _) = ''component_registered''"
| "event_type_str (NX_EV_COMPONENT_UNREGISTERED _ _) = ''component_unregistered''"
| "event_type_str (NX_EV_COMPONENT_STATE _ _ _ _) = ''component_state''"
| "event_type_str (NX_EV_CONNECTION_ADDED _ _ _ _) = ''connection_added''"
| "event_type_str (NX_EV_CONNECTION_REMOVED _ _ _ _) = ''connection_removed''"
| "event_type_str (NX_EV_CONNECTION_RETUNED _ _ _ _) = ''connection_retuned''"

section \<open>The snapshot as JSON\<close>

text \<open>A key with its colon, and its leading comma when it is not the first.\<close>

abbreviation (input) key0 :: "string \<Rightarrow> string" where
  "key0 k \<equiv> CHR 0x22 # k @ [CHR 0x22, CHR '':'']"

abbreviation (input) key1 :: "string \<Rightarrow> string" where
  "key1 k \<equiv> CHR '','' # CHR 0x22 # k @ [CHR 0x22, CHR '':'']"

definition json_slot :: "nx_snapshot_slot \<Rightarrow> json_buf \<Rightarrow> json_buf" where
  "json_slot sl jb0 =
     (let jb1 = jb_puts_escaped (ss_name sl) (jb_puts (CHR ''{'' # key0 ''name'') jb0);
          jb2 = jb_puts_escaped (ss_iface sl) (jb_puts (key1 ''iface'') jb1);
          jb3 = jb_puts_escaped (Some (mutability_str (ss_mutability sl))) (jb_puts (key1 ''mutability'') jb2);
          jb4 = jb_puts_escaped (Some (concurrency_str (ss_concurrency sl))) (jb_puts (key1 ''concurrency'') jb3);
          jb5 = jb_puts (key1 ''active'') jb4;
          jb6 = (if ss_active_manifest sl \<noteq> None
                 then jb_puts ''}'' (jb_puts_escaped (ss_active_instance sl) (jb_puts (key1 ''instance'')
                        (jb_puts_escaped (ss_active_manifest sl) (jb_puts (CHR ''{'' # key0 ''manifest'') jb5))))
                 else jb_puts ''null'' jb5)
      in jb_puts ''}'' jb6)"

definition json_component :: "nx_snapshot_component \<Rightarrow> json_buf \<Rightarrow> json_buf" where
  "json_component c jb0 =
     (let jb1 = jb_puts_escaped (sc_manifest_id c) (jb_puts (CHR ''{'' # key0 ''manifest'') jb0);
          jb2 = jb_puts_escaped (sc_instance_id c) (jb_puts (key1 ''instance'') jb1);
          jb3 = jb_puts_escaped (Some (lifecycle_str (sc_state c))) (jb_puts (key1 ''state'') jb2)
      in jb_puts ''}'' jb3)"

definition json_connection :: "nx_snapshot_connection \<Rightarrow> json_buf \<Rightarrow> json_buf" where
  "json_connection cn jb0 =
     (let jb1 = jb_puts_escaped (sx_from_slot cn) (jb_puts (CHR ''{'' # key0 ''from'') jb0);
          jb2 = jb_puts_escaped (sx_to_slot cn) (jb_puts (key1 ''to'') jb1);
          jb3 = jb_puts_escaped (Some (mode_str (sx_mode cn))) (jb_puts (key1 ''mode'') jb2);
          jb4 = jb_puts (if sx_stateful cn then ''true'' else ''false'') (jb_puts (key1 ''stateful'') jb3);
          jb5 = jb_puts_escaped (Some (policy_str (sx_policy cn))) (jb_puts (key1 ''policy'') jb4);
          jb6 = jb_putu64 (sx_installed_gen cn) (jb_puts (key1 ''installed_gen'') jb5)
      in jb_puts ''}'' jb6)"

text \<open>The loops: the first \<open>n\<close> entries of an array, with a comma before each but the first.\<close>

fun json_each :: "('a \<Rightarrow> json_buf \<Rightarrow> json_buf) \<Rightarrow> 'a list \<Rightarrow> nat \<Rightarrow> nat \<Rightarrow> json_buf \<Rightarrow> json_buf" where
  "json_each f [] i n jb = jb"
| "json_each f (x # xs) i n jb =
     (if i < n then json_each f xs (i + 1) n (f x (if i \<noteq> 0 then jb_putc (CHR '','') jb else jb)) else jb)"

definition nx_graph_snapshot_to_json ::
    "nx_graph_snapshot option \<Rightarrow> char list \<Rightarrow> nat \<Rightarrow> (nx_status + nat) \<times> char list" where
  "nx_graph_snapshot_to_json ho buf buflen =
     (case ho of
        None \<Rightarrow> (Inl NX_EINVAL, buf)
      | Some h \<Rightarrow>
          if buflen = 0 then (Inl NX_EINVAL, buf)
          else let jb0 = jb_init buf buflen;
                   jb1 = jb_putu64 (sh_generation h) (jb_puts (CHR ''{'' # key0 ''generation'') jb0);
                   jb2 = jb_putu64 (sh_timestamp_ns h) (jb_puts (key1 ''timestamp_ns'') jb1);
                   jb3 = jb_puts (key1 ''slots'' @ ''['') jb2;
                   jb4 = jb_puts '']'' (json_each json_slot (sh_slots h) 0 (sh_slot_count h) jb3);
                   jb5 = jb_puts (key1 ''components'' @ ''['') jb4;
                   jb6 = jb_puts '']'' (json_each json_component (sh_components h) 0 (sh_component_count h) jb5);
                   jb7 = jb_puts (key1 ''connections'' @ ''['') jb6;
                   jb8 = jb_puts '']}'' (json_each json_connection (sh_connections h) 0 (sh_connection_count h) jb7)
               in (if jb_truncated jb8 then Inl NX_ENOMEM else Inr (jb_pos jb8), jb_buf jb8))"

section \<open>The change log as JSON\<close>

fun emit_event_arm :: "nx_graph_event_arm \<Rightarrow> json_buf \<Rightarrow> json_buf" where
  "emit_event_arm (NX_EV_SLOT_CREATED nm) jb = jb_puts_escaped nm (jb_puts (key1 ''slot'') jb)"
| "emit_event_arm (NX_EV_SLOT_DESTROYED nm) jb = jb_puts_escaped nm (jb_puts (key1 ''slot'') jb)"
| "emit_event_arm (NX_EV_SLOT_SWAPPED nm om oi m i) jb =
     jb_puts_escaped i (jb_puts (key1 ''new_instance'')
       (jb_puts_escaped m (jb_puts (key1 ''new_manifest'')
         (jb_puts_escaped oi (jb_puts (key1 ''old_instance'')
           (jb_puts_escaped om (jb_puts (key1 ''old_manifest'')
             (jb_puts_escaped nm (jb_puts (key1 ''slot'') jb)))))))))"
| "emit_event_arm (NX_EV_COMPONENT_REGISTERED m i) jb =
     jb_puts_escaped i (jb_puts (key1 ''instance'') (jb_puts_escaped m (jb_puts (key1 ''manifest'') jb)))"
| "emit_event_arm (NX_EV_COMPONENT_UNREGISTERED m i) jb =
     jb_puts_escaped i (jb_puts (key1 ''instance'') (jb_puts_escaped m (jb_puts (key1 ''manifest'') jb)))"
| "emit_event_arm (NX_EV_COMPONENT_STATE m i old new) jb =
     jb_puts_escaped (Some (lifecycle_str new)) (jb_puts (key1 ''to'')
       (jb_puts_escaped (Some (lifecycle_str old)) (jb_puts (key1 ''from'')
         (jb_puts_escaped i (jb_puts (key1 ''instance'') (jb_puts_escaped m (jb_puts (key1 ''manifest'') jb)))))))"
| "emit_event_arm (NX_EV_CONNECTION_ADDED frm to mode st) jb =
     jb_puts (if st then ''true'' else ''false'') (jb_puts (key1 ''stateful'')
       (jb_puts_escaped (Some (mode_str mode)) (jb_puts (key1 ''mode'')
         (jb_puts_escaped to (jb_puts (key1 ''to'') (jb_puts_escaped frm (jb_puts (key1 ''from'') jb)))))))"
| "emit_event_arm (NX_EV_CONNECTION_REMOVED frm to mode st) jb =
     jb_puts (if st then ''true'' else ''false'') (jb_puts (key1 ''stateful'')
       (jb_puts_escaped (Some (mode_str mode)) (jb_puts (key1 ''mode'')
         (jb_puts_escaped to (jb_puts (key1 ''to'') (jb_puts_escaped frm (jb_puts (key1 ''from'') jb)))))))"
| "emit_event_arm (NX_EV_CONNECTION_RETUNED frm to mode st) jb =
     jb_puts (if st then ''true'' else ''false'') (jb_puts (key1 ''stateful'')
       (jb_puts_escaped (Some (mode_str mode)) (jb_puts (key1 ''mode'')
         (jb_puts_escaped to (jb_puts (key1 ''to'') (jb_puts_escaped frm (jb_puts (key1 ''from'') jb)))))))"

definition emit_event_json :: "nx_graph_event \<Rightarrow> json_buf \<Rightarrow> json_buf" where
  "emit_event_json ev jb0 =
     (let jb1 = jb_puts_escaped (Some (event_type_str (ev_arm ev))) (jb_puts (CHR ''{'' # key0 ''type'') jb0);
          jb2 = jb_putu64 (ev_generation ev) (jb_puts (key1 ''generation'') jb1);
          jb3 = jb_putu64 (ev_timestamp_ns ev) (jb_puts (key1 ''timestamp_ns'') jb2)
      in jb_puts ''}'' (emit_event_arm (ev_arm ev) jb3))"

definition nx_change_log_to_json :: "char list \<Rightarrow> nat \<Rightarrow> 'a graph_scheme \<Rightarrow> (nx_status + nat) \<times> char list" where
  "nx_change_log_to_json buf buflen s =
     (if buflen = 0 then (Inl NX_EINVAL, buf)
      else let total = nx_change_log_total s;
               held = (if total < NX_CHANGE_LOG_CAPACITY then total else NX_CHANGE_LOG_CAPACITY);
               oldest_idx = total - held;
               evs = map (\<lambda>i. g_log_ring s ! (i mod 256)) [unat oldest_idx..<unat total];
               jb1 = jb_putu64 total (jb_puts (CHR ''{'' # key0 ''total'') (jb_init buf buflen));
               jb2 = jb_putu64 held (jb_puts (key1 ''held'') jb1);
               jb3 = jb_puts (key1 ''events'' @ ''['') jb2;
               jb4 = jb_puts '']}'' (json_each emit_event_json evs 0 (length evs) jb3)
           in (if jb_truncated jb4 then Inl NX_ENOMEM else Inr (jb_pos jb4), jb_buf jb4))"

section \<open>The values behind the texts\<close>

definition slot_tree :: "nx_snapshot_slot \<Rightarrow> json" where
  "slot_tree sl =
     JObj [(''name'', opt_json (ss_name sl)), (''iface'', opt_json (ss_iface sl)),
           (''mutability'', JStr (mutability_str (ss_mutability sl))),
           (''concurrency'', JStr (concurrency_str (ss_concurrency sl))),
           (''active'', if ss_active_manifest sl \<noteq> None
                        then JObj [(''manifest'', opt_json (ss_active_manifest sl)), (''instance'', opt_json (ss_active_instance sl))]
                        else JNull)]"

definition component_tree :: "nx_snapshot_component \<Rightarrow> json" where
  "component_tree c =
     JObj [(''manifest'', opt_json (sc_manifest_id c)), (''instance'', opt_json (sc_instance_id c)),
           (''state'', JStr (lifecycle_str (sc_state c)))]"

definition connection_tree :: "nx_snapshot_connection \<Rightarrow> json" where
  "connection_tree cn =
     JObj [(''from'', opt_json (sx_from_slot cn)), (''to'', opt_json (sx_to_slot cn)), (''mode'', JStr (mode_str (sx_mode cn))),
           (''stateful'', JBool (sx_stateful cn)), (''policy'', JStr (policy_str (sx_policy cn))),
           (''installed_gen'', JNum (unat (sx_installed_gen cn)))]"

definition snapshot_tree :: "nx_graph_snapshot \<Rightarrow> json" where
  "snapshot_tree h =
     JObj [(''generation'', JNum (unat (sh_generation h))), (''timestamp_ns'', JNum (unat (sh_timestamp_ns h))),
           (''slots'', JArr (map slot_tree (sh_slots h))), (''components'', JArr (map component_tree (sh_components h))),
           (''connections'', JArr (map connection_tree (sh_connections h)))]"

fun arm_tree :: "nx_graph_event_arm \<Rightarrow> (string \<times> json) list" where
  "arm_tree (NX_EV_SLOT_CREATED nm) = [(''slot'', opt_json nm)]"
| "arm_tree (NX_EV_SLOT_DESTROYED nm) = [(''slot'', opt_json nm)]"
| "arm_tree (NX_EV_SLOT_SWAPPED nm om oi m i) =
     [(''slot'', opt_json nm), (''old_manifest'', opt_json om), (''old_instance'', opt_json oi),
      (''new_manifest'', opt_json m), (''new_instance'', opt_json i)]"
| "arm_tree (NX_EV_COMPONENT_REGISTERED m i) = [(''manifest'', opt_json m), (''instance'', opt_json i)]"
| "arm_tree (NX_EV_COMPONENT_UNREGISTERED m i) = [(''manifest'', opt_json m), (''instance'', opt_json i)]"
| "arm_tree (NX_EV_COMPONENT_STATE m i old new) =
     [(''manifest'', opt_json m), (''instance'', opt_json i), (''from'', JStr (lifecycle_str old)),
      (''to'', JStr (lifecycle_str new))]"
| "arm_tree (NX_EV_CONNECTION_ADDED frm to mode st) =
     [(''from'', opt_json frm), (''to'', opt_json to), (''mode'', JStr (mode_str mode)), (''stateful'', JBool st)]"
| "arm_tree (NX_EV_CONNECTION_REMOVED frm to mode st) =
     [(''from'', opt_json frm), (''to'', opt_json to), (''mode'', JStr (mode_str mode)), (''stateful'', JBool st)]"
| "arm_tree (NX_EV_CONNECTION_RETUNED frm to mode st) =
     [(''from'', opt_json frm), (''to'', opt_json to), (''mode'', JStr (mode_str mode)), (''stateful'', JBool st)]"

definition event_tree :: "nx_graph_event \<Rightarrow> json" where
  "event_tree ev =
     JObj ([(''type'', JStr (event_type_str (ev_arm ev))), (''generation'', JNum (unat (ev_generation ev))),
            (''timestamp_ns'', JNum (unat (ev_timestamp_ns ev)))] @ arm_tree (ev_arm ev))"

definition log_tree :: "nx_graph_event list \<Rightarrow> nat \<Rightarrow> json" where
  "log_tree evs tot =
     JObj [(''total'', JNum tot), (''held'', JNum (length evs)), (''events'', JArr (map event_tree evs))]"

section \<open>The serialisers write the texts\<close>

text \<open>Names of keys need no escapes.\<close>

lemma escaped_keys:
  "\<forall>k \<in> {''name'', ''iface'', ''mutability'', ''concurrency'', ''active'', ''manifest'', ''instance'', ''state'', ''from'',
        ''to'', ''mode'', ''stateful'', ''policy'', ''installed_gen'', ''generation'', ''timestamp_ns'', ''slots'',
        ''components'', ''connections'', ''total'', ''held'', ''events'', ''type'', ''slot'', ''old_manifest'',
        ''old_instance'', ''new_manifest'', ''new_instance''}. escaped (Some k) = CHR 0x22 # k @ [CHR 0x22]"
  by (simp add: escaped_def escape_char_def)

lemmas key_text = escaped_keys [unfolded ball_simps]

lemmas json_unfold = jb_puts_escaped_eq jb_putu64_def jb_puts_append fmt_u64_text json_text_opt

lemma members_text:
  "json_text (JObj (m # ms)) =
     ''{'' @ escaped (Some (fst m)) @ '':'' @ json_text (snd m) @
     concat (map (\<lambda>(k, v). '','' @ escaped (Some k) @ '':'' @ json_text v) ms) @ ''}''"
proof -
  have "commas (map f (x # xs)) = f x @ concat (map (\<lambda>y. '','' @ f y) xs)" for f :: "string \<times> json \<Rightarrow> string" and x xs
    by (induction xs arbitrary: x) (simp_all add: commas_Cons)
  from this [of "\<lambda>(k, v). escaped (Some k) @ '':'' @ json_text v" m ms] show ?thesis
    by (cases m) (simp add: case_prod_beta')
qed

lemma json_slot_eq: "json_slot sl jb = jb_puts (json_text (slot_tree sl)) jb"
  by (simp add: json_slot_def slot_tree_def Let_def members_text key_text json_unfold del: json_text.simps(6))

lemma json_component_eq: "json_component c jb = jb_puts (json_text (component_tree c)) jb"
  by (simp add: json_component_def component_tree_def Let_def members_text key_text json_unfold del: json_text.simps(6))

lemma json_connection_eq: "json_connection cn jb = jb_puts (json_text (connection_tree cn)) jb"
  by (simp add: json_connection_def connection_tree_def Let_def members_text key_text json_unfold del: json_text.simps(6))

lemma emit_event_arm_eq:
  "emit_event_arm a jb = jb_puts (concat (map (\<lambda>(k, v). '','' @ escaped (Some k) @ '':'' @ json_text v) (arm_tree a))) jb"
  by (cases a) (simp_all add: key_text json_unfold)

lemma emit_event_json_eq: "emit_event_json ev jb = jb_puts (json_text (event_tree ev)) jb"
  by (simp add: emit_event_json_def event_tree_def Let_def members_text key_text json_unfold emit_event_arm_eq
      del: json_text.simps(6))

lemma json_each_from:
  assumes "\<And>x jb. f x jb = jb_puts (t x) jb" "n = i + length xs"
  shows "json_each f xs i n jb = jb_puts ((if i \<noteq> 0 \<and> xs \<noteq> [] then '','' else []) @ commas (map t xs)) jb"
  using assms(2)
proof (induction xs arbitrary: i jb)
  case Nil
  then show ?case by simp
next
  case (Cons x xs)
  then show ?case
    by (simp add: assms(1) jb_putc_puts jb_puts_append commas_Cons)
qed

lemmas json_each_all = json_each_from [where i = 0, simplified]

lemma array_text: "commas (map (\<lambda>x. json_text (f x)) xs) = commas (map json_text (map f xs))"
  by (simp add: comp_def)

text \<open>What the caller finds in the buffer, in terms of the JSON value.\<close>

definition serialised :: "json \<Rightarrow> char list \<Rightarrow> nat \<Rightarrow> (nx_status + nat) \<times> char list \<Rightarrow> bool" where
  "serialised t buf buflen r =
     (let n = length (json_text t); out = snd r in
      (if n < buflen
       then fst r = Inr n \<and> out ! n = NUL \<and> parse_json n (take n out) = Some (t, [])
       else fst r = Inl NX_ENOMEM \<and> take (buflen - 1) out = take (buflen - 1) (json_text t) \<and> out ! (buflen - 1) = NUL) \<and>
      length out = length buf \<and> drop buflen out = drop buflen buf)"

lemma serialised_puts:
  assumes "0 < buflen" "buflen \<le> length buf" "jb = jb_puts (json_text t) (jb_init buf buflen)"
  shows "serialised t buf buflen (if jb_truncated jb then Inl NX_ENOMEM else Inr (jb_pos jb), jb_buf jb)"
proof (cases "length (json_text t) < buflen")
  case True
  let ?n = "length (json_text t)"
  have jb: "jb = \<lparr>jb_buf = json_text t @ [NUL] @ drop (Suc ?n) buf, jb_cap = buflen, jb_pos = ?n, jb_truncated = False\<rparr>"
    using True assms(1,2) min_absorb1 [of ?n "buflen - 1"] by (simp add: assms(3) jb_puts_init Let_def)
  have "parse_json ?n (json_text t @ []) = Some (t, [])"
    by (rule parse_json_text) (simp_all add: no_digit_def)
  moreover have "drop (buflen - ?n) (NUL # drop (Suc ?n) buf) = drop buflen buf"
    using True by (simp add: drop_Cons')
  ultimately show ?thesis using True assms(2) by (simp add: serialised_def jb nth_append Let_def)
next
  case False
  have m: "min (length (json_text t)) (buflen - 1) = buflen - 1" using False by simp
  have jb: "jb = \<lparr>jb_buf = take (buflen - 1) (json_text t) @ [NUL] @ drop buflen buf, jb_cap = buflen,
      jb_pos = buflen - 1, jb_truncated = True\<rparr>"
    using False assms unfolding assms(3) jb_puts_init [OF assms(1,2)] Let_def m by simp
  have l: "length (take (buflen - 1) (json_text t)) = buflen - 1" using m by simp
  show ?thesis
    using False assms(1,2) l by (simp add: serialised_def jb nth_append)
qed

lemma snapshot_take_counts:
  assumes "graph_inv s" "nx_graph_snapshot_take m0 m1 m2 m3 s = Some h"
  shows "sh_slot_count h = length (sh_slots h)" "sh_component_count h = length (sh_components h)"
    "sh_connection_count h = length (sh_connections h)"
  using assms by (auto simp: nx_graph_snapshot_take_def graph_inv_def counts_ok_def split: if_splits)

text \<open>
  C7. The text that \<^verbatim>\<open>nx_graph_snapshot_to_json\<close> writes for a snapshot of a consistent graph is JSON and loses nothing: when
  it fits, the length returned is that of the text, the text is terminated, and parsing it gives back the value that
  the snapshot stands for. When it does not fit the caller is told so and finds the terminated beginning of the text.
  In no case is a byte past the given length changed.
\<close>

theorem snapshot_json_roundtrip:
  assumes "graph_inv s" "nx_graph_snapshot_take m0 m1 m2 m3 s = Some h" "0 < buflen" "buflen \<le> length buf"
  shows "serialised (snapshot_tree h) buf buflen (nx_graph_snapshot_to_json (Some h) buf buflen)"
proof -
  note cnt = snapshot_take_counts [OF assms(1,2)]
  let ?jb = "jb_puts (json_text (snapshot_tree h)) (jb_init buf buflen)"
  have "nx_graph_snapshot_to_json (Some h) buf buflen =
      (if jb_truncated ?jb then Inl NX_ENOMEM else Inr (jb_pos ?jb), jb_buf ?jb)"
    using assms(3)
    by (simp add: nx_graph_snapshot_to_json_def snapshot_tree_def Let_def members_text key_text json_unfold
        json_each_all [OF json_slot_eq cnt(1)] json_each_all [OF json_component_eq cnt(2)]
        json_each_all [OF json_connection_eq cnt(3)] comp_def del: json_text.simps(6))
  with serialised_puts [OF assms(3,4) refl] show ?thesis by simp
qed

theorem snapshot_json_roundtrip_witness:
  "serialised (snapshot_tree (the (nx_graph_snapshot_take True True True True demo_wired))) (replicate 600 NUL) 512
     (nx_graph_snapshot_to_json (nx_graph_snapshot_take True True True True demo_wired) (replicate 600 NUL) 512)"
proof -
  have inv: "graph_inv demo_wired" by (rule graph_reach_inv [OF quiet_run_disciplined demo_graph_reach(2)])
  have take: "nx_graph_snapshot_take True True True True demo_wired =
      Some (the (nx_graph_snapshot_take True True True True demo_wired))"
    by (simp add: nx_graph_snapshot_take_def)
  have "serialised (snapshot_tree (the (nx_graph_snapshot_take True True True True demo_wired))) (replicate 600 NUL) 512
     (nx_graph_snapshot_to_json (Some (the (nx_graph_snapshot_take True True True True demo_wired))) (replicate 600 NUL) 512)"
    by (rule snapshot_json_roundtrip [OF inv take]) simp_all
  then show ?thesis using take by simp
qed

text \<open>
  The same for the change log: after any sequence of appends its JSON text denotes the total, the number of events held,
  and the last 256 events, oldest first.
\<close>

theorem change_log_json_roundtrip:
  assumes "g_log_total s = 0" "length (g_log_ring s) = 256" "length evs < 2 ^ 64" "0 < buflen" "buflen \<le> length buf"
  shows "serialised (log_tree (drop (length evs - 256) evs) (length evs)) buf buflen
           (nx_change_log_to_json buf buflen (fold change_log_append evs s))"
proof -
  let ?t = "fold change_log_append evs s" and ?n = "length evs"
  let ?last = "drop (?n - 256) evs"
  let ?jb = "jb_puts (json_text (log_tree ?last ?n)) (jb_init buf buflen)"
  note ring = log_ring_view [OF assms(1-3)]
  have held: "unat (if (of_nat ?n :: u64) < NX_CHANGE_LOG_CAPACITY then of_nat ?n else NX_CHANGE_LOG_CAPACITY) = length ?last"
    using ring(2) by (simp add: word_less_nat_alt)
  have each: "json_each emit_event_json ?last 0 (length ?last) jb =
      jb_puts (commas (map (\<lambda>e. json_text (event_tree e)) ?last)) jb" for jb
    by (rule json_each_all [OF emit_event_json_eq refl])
  have "nx_change_log_to_json buf buflen ?t =
      (if jb_truncated ?jb then Inl NX_ENOMEM else Inr (jb_pos ?jb), jb_buf ?jb)"
    using assms(4)
    unfolding nx_change_log_to_json_def nx_change_log_total_def Let_def ring each log_tree_def
    by (simp add: members_text key_text json_unfold held ring(2) comp_def del: json_text.simps(6) length_drop)
  with serialised_puts [OF assms(4,5) refl] show ?thesis by simp
qed

theorem change_log_json_roundtrip_witness:
  "serialised (log_tree [demo_event, demo_event] (length [demo_event, demo_event])) (replicate 300 NUL) 300
     (nx_change_log_to_json (replicate 300 NUL) 300 (fold change_log_append [demo_event, demo_event] demo_memory))"
proof -
  have "g_log_total demo_memory = 0" "length (g_log_ring demo_memory) = 256" by (simp_all add: demo_memory_def)
  from change_log_json_roundtrip [OF this, of "[demo_event, demo_event]" 300 "replicate 300 NUL"] show ?thesis by simp
qed

end
