(* ===== verification/Nx_Mpsc.thy ===== *)
theory Nx_Mpsc
  imports Nx_Fifo "HOL-Library.Code_Target_Nat"
begin

text \<open>
  The multi-producer single-consumer queue of the dispatcher (\<^verbatim>\<open>core/lib/mpsc.h\<close>). Producers may be interrupted
  anywhere, so a push is its three accesses to shared memory and a pop is a machine that makes one access at a time; the
  record holds the memory, the progress of each producer and that of the consumer. The two functions as the code writes
  them are compositions of these steps.
\<close>

section \<open>Memory and progress\<close>

text \<open>Where the consumer is in \<^verbatim>\<open>nx_mpsc_pop\<close>, with its local variables.\<close>

datatype pop_pc =
    Pop_Idle
  | Pop_Loaded ptr ptr
  | Pop_Checked ptr ptr
  | Pop_Tail ptr ptr
  | Pop_Stub ptr
  | Pop_Link ptr ptr
  | Pop_Final ptr

record nx_mpsc_queue =
  mq_next :: "ptr \<Rightarrow> ptr"
  mq_tail :: ptr
  mq_head :: ptr
  mq_stub :: ptr
  mq_stored :: "ptr list"
  mq_linking :: "(ptr \<times> ptr) list"
  mq_pc :: pop_pc

definition nx_mpsc_init :: "nx_mpsc_queue \<Rightarrow> nx_mpsc_queue" where
  "nx_mpsc_init q =
     q\<lparr>mq_next := (mq_next q)(mq_stub q := NULL), mq_head := mq_stub q, mq_tail := mq_stub q,
       mq_stored := [], mq_linking := [], mq_pc := Pop_Idle\<rparr>"

section \<open>A push in three steps\<close>

definition push_store :: "ptr \<Rightarrow> nx_mpsc_queue \<Rightarrow> nx_mpsc_queue" where
  "push_store n q = q\<lparr>mq_next := (mq_next q)(n := NULL), mq_stored := n # mq_stored q\<rparr>"

definition push_exchange :: "ptr \<Rightarrow> nx_mpsc_queue \<Rightarrow> nx_mpsc_queue" where
  "push_exchange n q =
     q\<lparr>mq_tail := n, mq_stored := remove1 n (mq_stored q), mq_linking := (mq_tail q, n) # mq_linking q\<rparr>"

definition push_link :: "ptr \<times> ptr \<Rightarrow> nx_mpsc_queue \<Rightarrow> nx_mpsc_queue" where
  "push_link pn q =
     q\<lparr>mq_next := (mq_next q)(fst pn := snd pn), mq_linking := remove1 pn (mq_linking q)\<rparr>"

text \<open>A push that is not interrupted.\<close>

definition nx_mpsc_push :: "ptr \<Rightarrow> nx_mpsc_queue \<Rightarrow> nx_mpsc_queue" where
  "nx_mpsc_push n q = push_link (mq_tail q, n) (push_exchange n (push_store n q))"

section \<open>A pop, one access at a time\<close>

text \<open>The first component is what the pop returns with this step, if it returns.\<close>

definition pop_step :: "nx_mpsc_queue \<Rightarrow> ptr option \<times> nx_mpsc_queue" where
  "pop_step q =
     (case mq_pc q of
        Pop_Idle \<Rightarrow> (None, q\<lparr>mq_pc := Pop_Loaded (mq_head q) (mq_next q (mq_head q))\<rparr>)
      | Pop_Loaded h nx \<Rightarrow>
          if h = mq_stub q then
            (if nx = NULL then (Some NULL, q\<lparr>mq_pc := Pop_Idle\<rparr>)
             else (None, q\<lparr>mq_head := nx, mq_pc := Pop_Checked nx (mq_next q nx)\<rparr>))
          else (None, q\<lparr>mq_pc := Pop_Checked h nx\<rparr>)
      | Pop_Checked h nx \<Rightarrow>
          if nx \<noteq> NULL then (Some h, q\<lparr>mq_head := nx, mq_pc := Pop_Idle\<rparr>)
          else (None, q\<lparr>mq_pc := Pop_Tail h (mq_tail q)\<rparr>)
      | Pop_Tail h t \<Rightarrow>
          if h \<noteq> t then (Some NULL, q\<lparr>mq_pc := Pop_Idle\<rparr>)
          else (None, q\<lparr>mq_next := (mq_next q)(mq_stub q := NULL), mq_pc := Pop_Stub h\<rparr>)
      | Pop_Stub h \<Rightarrow> (None, q\<lparr>mq_tail := mq_stub q, mq_pc := Pop_Link h (mq_tail q)\<rparr>)
      | Pop_Link h prev \<Rightarrow> (None, q\<lparr>mq_next := (mq_next q)(prev := mq_stub q), mq_pc := Pop_Final h\<rparr>)
      | Pop_Final h \<Rightarrow>
          let nx = mq_next q h in
          if nx \<noteq> NULL then (Some h, q\<lparr>mq_head := nx, mq_pc := Pop_Idle\<rparr>)
          else (Some NULL, q\<lparr>mq_pc := Pop_Idle\<rparr>))"

text \<open>A pop that no producer interrupts, as the code writes it.\<close>

definition pop_rest :: "ptr \<Rightarrow> ptr \<Rightarrow> nx_mpsc_queue \<Rightarrow> ptr \<times> nx_mpsc_queue" where
  "pop_rest h nx q =
     (if nx \<noteq> NULL then (h, q\<lparr>mq_head := nx\<rparr>)
      else if h \<noteq> mq_tail q then (NULL, q)
      else let q1 = nx_mpsc_push (mq_stub q) q; nx1 = mq_next q1 h in
           if nx1 \<noteq> NULL then (h, q1\<lparr>mq_head := nx1\<rparr>) else (NULL, q1))"

definition nx_mpsc_pop :: "nx_mpsc_queue \<Rightarrow> ptr \<times> nx_mpsc_queue" where
  "nx_mpsc_pop q =
     (let h = mq_head q; nx = mq_next q h in
      if h = mq_stub q then
        (if nx = NULL then (NULL, q) else let q1 = q\<lparr>mq_head := nx\<rparr> in pop_rest nx (mq_next q1 nx) q1)
      else pop_rest h nx q)"

section \<open>The chain behind the pointers\<close>

text \<open>
  The nodes from the head to the tail, in the order in which the tail was exchanged. Two neighbours are linked, or the
  producer of the second one is about to link them.
\<close>

fun linked :: "(ptr \<Rightarrow> ptr) \<Rightarrow> (ptr \<times> ptr) set \<Rightarrow> ptr list \<Rightarrow> bool" where
  "linked nx P [] = False"
| "linked nx P [a] = (nx a = NULL)"
| "linked nx P (a # b # c) =
     (((a, b) \<in> P \<and> nx a = NULL \<or> (a, b) \<notin> P \<and> nx a = b) \<and> linked nx P (b # c))"

fun neighbours :: "'a list \<Rightarrow> ('a \<times> 'a) set" where
  "neighbours (a # b # c) = insert (a, b) (neighbours (b # c))"
| "neighbours _ = {}"

text \<open>The links still to be written, the one of the consumer's own push of the stub included.\<close>

definition unlinked :: "nx_mpsc_queue \<Rightarrow> (ptr \<times> ptr) list" where
  "unlinked q = (case mq_pc q of Pop_Link h prev \<Rightarrow> (prev, mq_stub q) # mq_linking q | _ \<Rightarrow> mq_linking q)"

definition pc_ok :: "nx_mpsc_queue \<Rightarrow> ptr list \<Rightarrow> bool" where
  "pc_ok q c =
     (case mq_pc q of
        Pop_Idle \<Rightarrow> True
      | Pop_Loaded h nx \<Rightarrow> h = mq_head q \<and> (nx = NULL \<or> nx = mq_next q h)
      | Pop_Checked h nx \<Rightarrow> h = mq_head q \<and> h \<noteq> mq_stub q \<and> (nx = NULL \<or> nx = mq_next q h)
      | Pop_Tail h t \<Rightarrow> h = mq_head q \<and> h \<noteq> mq_stub q \<and> (h = t \<longrightarrow> mq_stub q \<notin> set c)
      | Pop_Stub h \<Rightarrow> h = mq_head q \<and> h \<noteq> mq_stub q \<and> mq_stub q \<notin> set c \<and> mq_next q (mq_stub q) = NULL
      | Pop_Link h prev \<Rightarrow> h = mq_head q \<and> h \<noteq> mq_stub q
      | Pop_Final h \<Rightarrow> h = mq_head q \<and> h \<noteq> mq_stub q)"

definition mpsc_inv :: "nx_mpsc_queue \<times> ptr list \<Rightarrow> bool" where
  "mpsc_inv qc =
     (case qc of (q, c) \<Rightarrow>
        linked (mq_next q) (set (unlinked q)) c \<and> distinct c \<and> NULL \<notin> set c \<and> mq_stub q \<noteq> NULL \<and>
        hd c = mq_head q \<and> last c = mq_tail q \<and>
        set (unlinked q) \<subseteq> neighbours c \<and> distinct (unlinked q) \<and>
        distinct (mq_stored q) \<and>
        (\<forall>n \<in> set (mq_stored q). n \<notin> set c \<and> n \<noteq> NULL \<and> n \<noteq> mq_stub q \<and> mq_next q n = NULL) \<and> pc_ok q c)"

definition mpsc_contents :: "nx_mpsc_queue \<times> ptr list \<Rightarrow> ptr list" where
  "mpsc_contents qc = filter (\<lambda>n. n \<noteq> mq_stub (fst qc)) (snd qc)"

section \<open>Every interleaving of the steps\<close>

text \<open>
  The exchange of the tail is the step that inserts a node, the return of a node the one that removes it. The other
  steps are those of the producers before and after the exchange, and those of the consumer that return no node. A
  step that is not enabled does nothing: a node is stored by its producer only while it is neither queued nor NULL.
\<close>

datatype mpsc_step = Store ptr | Link "ptr \<times> ptr" | Consume

fun mpsc_put :: "ptr \<Rightarrow> nx_mpsc_queue \<times> ptr list \<Rightarrow> (nx_mpsc_queue \<times> ptr list) option" where
  "mpsc_put n (q, c) = (if n \<in> set (mq_stored q) then Some (push_exchange n q, c @ [n]) else None)"

fun mpsc_get :: "unit \<Rightarrow> nx_mpsc_queue \<times> ptr list \<Rightarrow> (ptr \<times> nx_mpsc_queue \<times> ptr list) option" where
  "mpsc_get u (q, c) =
     (case pop_step q of
        (Some h, q1) \<Rightarrow> if h \<noteq> NULL then Some (h, q1, tl c) else None
      | (None, q1) \<Rightarrow> None)"

text \<open>The consumer moves the chain when it skips the stub and when it queues it again.\<close>

definition chain_after :: "nx_mpsc_queue \<Rightarrow> ptr list \<Rightarrow> ptr list" where
  "chain_after q c =
     (case mq_pc q of
        Pop_Loaded h nx \<Rightarrow> if h = mq_stub q \<and> nx \<noteq> NULL then tl c else c
      | Pop_Stub h \<Rightarrow> c @ [mq_stub q]
      | _ \<Rightarrow> c)"

fun mpsc_other :: "mpsc_step \<Rightarrow> nx_mpsc_queue \<times> ptr list \<Rightarrow> nx_mpsc_queue \<times> ptr list" where
  "mpsc_other (Store n) (q, c) =
     (if n = NULL \<or> n = mq_stub q \<or> n \<in> set c \<or> n \<in> set (mq_stored q) then (q, c) else (push_store n q, c))"
| "mpsc_other (Link pn) (q, c) = (if pn \<in> set (mq_linking q) then (push_link pn q, c) else (q, c))"
| "mpsc_other Consume (q, c) =
     (case pop_step q of
        (Some h, q1) \<Rightarrow> if h = NULL then (q1, c) else (q, c)
      | (None, q1) \<Rightarrow> (q1, chain_after q c))"

section \<open>Lemmas on chains\<close>

lemma linked_last: "linked nx P c \<Longrightarrow> c \<noteq> [] \<and> nx (last c) = NULL"
  by (induction nx P c rule: linked.induct) auto

lemma chain_linked_cong:
  "(\<And>a. a \<in> set c \<Longrightarrow> nx a = nx' a) \<Longrightarrow> (\<And>a b. a \<in> set c \<Longrightarrow> b \<in> set c \<Longrightarrow> (a, b) \<in> P \<longleftrightarrow> (a, b) \<in> P') \<Longrightarrow>
    linked nx P c = linked nx' P' c"
  by (induction nx P c rule: linked.induct) auto

lemma neighbours_mem: "(a, b) \<in> neighbours c \<Longrightarrow> a \<in> set c \<and> b \<in> set (tl c)"
  by (induction c rule: neighbours.induct) auto

lemma neighbours_in: "(a, b) \<in> neighbours c \<Longrightarrow> b \<in> set c"
  using neighbours_mem [of a b c] by (cases c) auto

lemma neighbours_snoc: "c \<noteq> [] \<Longrightarrow> neighbours (c @ [n]) = insert (last c, n) (neighbours c)"
  by (induction c rule: neighbours.induct) auto

lemma linked_snoc:
  "linked nx P c \<Longrightarrow> n \<notin> set c \<Longrightarrow> nx n = NULL \<Longrightarrow> linked nx (insert (last c, n) P) (c @ [n])"
proof (induction nx P c rule: linked.induct)
  case (3 nx P a b c)
  then show ?case by (auto simp: last_ConsR)
qed auto

lemma linked_link:
  assumes "linked nx P c" and "distinct c" and "(p, n) \<in> P" and "(p, n) \<in> neighbours c"
  shows "linked (nx(p := n)) (P - {(p, n)}) c"
  using assms
proof (induction nx P c rule: linked.induct)
  case (3 nx P a b c)
  show ?case
  proof (cases "p = a")
    case True
    have nb: "n = b" using "3.prems"(2,4) True by (auto dest: neighbours_mem)
    have "linked (nx(p := n)) (P - {(p, n)}) (b # c) = linked nx P (b # c)"
      using "3.prems"(2) True by (intro chain_linked_cong) auto
    then show ?thesis using "3.prems"(1) True nb by (simp add: fun_upd_def)
  next
    case False
    then have "(p, n) \<in> neighbours (b # c)" using "3.prems"(4) by auto
    then have "linked (nx(p := n)) (P - {(p, n)}) (b # c)" using 3 by (simp add: fun_upd_def)
    then show ?thesis using "3.prems"(1) False by (auto simp: fun_upd_def)
  qed
qed auto

lemma linked_next:
  assumes "linked nx P c" and "nx (hd c) \<noteq> NULL" and "P \<subseteq> neighbours c"
  obtains r where "c = hd c # nx (hd c) # r" and "linked nx P (tl c)" and "P \<subseteq> neighbours (tl c)"
  using assms that by (cases c rule: neighbours.cases) auto

lemma linked_pending: "linked nx P c \<Longrightarrow> distinct c \<Longrightarrow> (p, n) \<in> P \<Longrightarrow> (p, n) \<in> neighbours c \<Longrightarrow> nx p = NULL"
  by (induction nx P c rule: linked.induct) (auto dest: neighbours_mem)

section \<open>Each step keeps the chain\<close>

lemmas mpsc_defs = mpsc_inv_def unlinked_def pc_ok_def

lemma chain_nonempty: "mpsc_inv (q, c) \<Longrightarrow> c \<noteq> [] \<and> mq_head q \<in> set c"
  using linked_last [of "mq_next q" "set (unlinked q)" c] by (cases c) (auto simp: mpsc_inv_def)

lemma store_keeps:
  assumes "mpsc_inv (q, c)"
  shows "mpsc_inv (mpsc_other (Store n) (q, c))"
proof (cases "n = NULL \<or> n = mq_stub q \<or> n \<in> set c \<or> n \<in> set (mq_stored q)")
  case False
  have hd: "mq_head q \<in> set c" using chain_nonempty [OF assms] by simp
  have un: "unlinked (push_store n q) = unlinked q"
    by (simp add: unlinked_def push_store_def split: pop_pc.split)
  have "linked ((mq_next q)(n := NULL)) (set (unlinked q)) c = linked (mq_next q) (set (unlinked q)) c"
    using False by (intro chain_linked_cong) auto
  moreover have "pc_ok (push_store n q) c"
    using assms False hd by (auto simp: mpsc_inv_def pc_ok_def push_store_def split: pop_pc.splits)
  ultimately show ?thesis using assms False un by (auto simp: mpsc_inv_def push_store_def)
qed (use assms in auto)

lemma link_chain:
  assumes "linked nx P c" and "distinct c" and "P \<subseteq> neighbours c" and "(p, n) \<in> P"
  shows "linked (nx(p := n)) (P - {(p, n)}) c" and "p \<in> set c" and "nx p = NULL"
  using linked_link [OF assms(1,2,4)] linked_pending [OF assms(1,2,4)] neighbours_mem [of p n c] assms(3,4) by blast+

lemma link_keeps:
  assumes "mpsc_inv (q, c)"
  shows "mpsc_inv (mpsc_other (Link pn) (q, c))"
proof (cases "pn \<in> set (mq_linking q)")
  case True
  obtain p n where pn: "pn = (p, n)" by (cases pn)
  have mem: "(p, n) \<in> set (unlinked q)" using True pn by (auto simp: unlinked_def split: pop_pc.split)
  have ch: "linked (mq_next q) (set (unlinked q)) c" "distinct c" "set (unlinked q) \<subseteq> neighbours c"
    and dist: "distinct (unlinked q)"
    using assms by (simp_all add: mpsc_inv_def)
  note L = link_chain [OF ch mem]
  have un: "set (unlinked (push_link pn q)) = set (unlinked q) - {(p, n)}" "distinct (unlinked (push_link pn q))"
    using dist True pn by (auto simp: unlinked_def push_link_def split: pop_pc.splits)
  have "pc_ok (push_link pn q) c"
    using assms L(2,3) pn by (auto simp: mpsc_inv_def pc_ok_def push_link_def split: pop_pc.splits)
  then show ?thesis using assms True un L pn by (auto simp: mpsc_inv_def push_link_def)
qed (use assms in auto)

lemma exchange_keeps:
  assumes inv: "mpsc_inv (q, c)" and n: "n \<in> set (mq_stored q)"
  shows "mpsc_inv (push_exchange n q, c @ [n])"
proof -
  have ch: "linked (mq_next q) (set (unlinked q)) c" and fresh: "n \<notin> set c" "mq_next q n = NULL" "n \<noteq> mq_stub q" "n \<noteq> NULL"
    and last: "last c = mq_tail q" and sub: "set (unlinked q) \<subseteq> neighbours c"
    using inv n by (auto simp: mpsc_inv_def)
  have ne: "c \<noteq> []" using linked_last [OF ch] by simp
  have un: "set (unlinked (push_exchange n q)) = insert (last c, n) (set (unlinked q))"
    by (auto simp: unlinked_def push_exchange_def last split: pop_pc.split)
  have new: "(last c, n) \<notin> set (unlinked q)" using neighbours_in [of "last c" n c] sub fresh(1) by (meson subsetD)
  then have "distinct (unlinked (push_exchange n q))"
    using inv last fresh(3) by (cases "mq_pc q") (simp_all add: mpsc_inv_def unlinked_def push_exchange_def)
  moreover have "pc_ok (push_exchange n q) (c @ [n])"
    using inv fresh by (auto simp: mpsc_inv_def pc_ok_def push_exchange_def split: pop_pc.splits)
  moreover have "linked (mq_next q) (insert (last c, n) (set (unlinked q))) (c @ [n])"
    using linked_snoc [OF ch fresh(1,2)] .
  ultimately show ?thesis
    using inv n fresh ne un by (auto simp: mpsc_inv_def push_exchange_def neighbours_snoc)
qed

text \<open>A step of the consumer that returns no node, and one that returns a node.\<close>

lemma linked_head: "linked nx P c \<Longrightarrow> hd c = last c \<Longrightarrow> distinct c \<Longrightarrow> c = [hd c]"
  by (cases c rule: neighbours.cases) (auto split: if_splits)

lemma queue_stub_keeps:
  assumes inv: "mpsc_inv (q, c)" and pc: "mq_pc q = Pop_Stub h"
  shows "mpsc_inv (q\<lparr>mq_tail := mq_stub q, mq_pc := Pop_Link h (mq_tail q)\<rparr>, c @ [mq_stub q])"
proof -
  have un: "unlinked q = mq_linking q" using pc by (simp add: unlinked_def)
  have ch: "linked (mq_next q) (set (mq_linking q)) c" and fresh: "mq_stub q \<notin> set c" "mq_next q (mq_stub q) = NULL"
    and last: "last c = mq_tail q" and sub: "set (mq_linking q) \<subseteq> neighbours c"
    using inv pc un by (auto simp: mpsc_inv_def pc_ok_def)
  have "(mq_tail q, mq_stub q) \<notin> set (mq_linking q)"
    using neighbours_in [of "mq_tail q" "mq_stub q" c] sub fresh(1) by (meson subsetD)
  then show ?thesis
    using inv pc un fresh last linked_snoc [OF ch fresh] linked_last [OF ch]
    by (auto simp: mpsc_inv_def pc_ok_def unlinked_def neighbours_snoc)
qed

lemma link_stub_keeps:
  assumes inv: "mpsc_inv (q, c)" and pc: "mq_pc q = Pop_Link h prev"
  shows "mpsc_inv (q\<lparr>mq_next := (mq_next q)(prev := mq_stub q), mq_pc := Pop_Final h\<rparr>, c)"
proof -
  have un: "unlinked q = (prev, mq_stub q) # mq_linking q" using pc by (simp add: unlinked_def)
  have ch: "linked (mq_next q) (set (unlinked q)) c" "distinct c" "set (unlinked q) \<subseteq> neighbours c"
    using inv by (auto simp: mpsc_inv_def)
  have "set (unlinked q) - {(prev, mq_stub q)} = set (mq_linking q)"
    using inv un by (auto simp: mpsc_inv_def)
  then show ?thesis using inv pc un link_chain [OF ch, of prev "mq_stub q"]
    by (auto simp: mpsc_inv_def pc_ok_def unlinked_def)
qed

text \<open>The head moves to its successor.\<close>

lemma advance_keeps:
  assumes inv: "mpsc_inv (q, c)" and nx: "mq_next q (mq_head q) \<noteq> NULL"
    and pc: "\<And>h prev. mq_pc q \<noteq> Pop_Link h prev" "\<And>h prev. pc' \<noteq> Pop_Link h prev"
    and ok: "pc_ok (q\<lparr>mq_head := mq_next q (mq_head q), mq_pc := pc'\<rparr>) (tl c)"
  shows "mpsc_inv (q\<lparr>mq_head := mq_next q (mq_head q), mq_pc := pc'\<rparr>, tl c)"
    and "c = mq_head q # tl c"
proof -
  have un: "unlinked q = mq_linking q" using pc(1) by (simp add: unlinked_def split: pop_pc.splits)
  have un': "unlinked (q\<lparr>mq_head := mq_next q (mq_head q), mq_pc := pc'\<rparr>) = mq_linking q"
    using pc(2) by (simp add: unlinked_def split: pop_pc.splits)
  have ch: "linked (mq_next q) (set (mq_linking q)) c" "mq_next q (hd c) \<noteq> NULL" "set (mq_linking q) \<subseteq> neighbours c"
    and hd: "hd c = mq_head q"
    using inv un nx by (auto simp: mpsc_inv_def)
  obtain r where r: "c = mq_head q # mq_next q (mq_head q) # r" "linked (mq_next q) (set (mq_linking q)) (tl c)"
    "set (mq_linking q) \<subseteq> neighbours (tl c)" using linked_next [OF ch] hd by metis
  then show "c = mq_head q # tl c" by (metis list.sel(3))
  have t: "tl c = mq_next q (mq_head q) # r" using r(1) by (metis list.sel(3))
  have last: "last c = last (tl c)" using r(1) t by (metis last_ConsR list.distinct(1))
  have d: "distinct (tl c)" "set (tl c) \<subseteq> set c" "hd (tl c) = mq_next q (mq_head q)"
    using inv t r(1) by (auto simp: mpsc_inv_def distinct_tl dest: list.set_sel(2))
  show "mpsc_inv (q\<lparr>mq_head := mq_next q (mq_head q), mq_pc := pc'\<rparr>, tl c)"
    using inv ok un un' r(2,3) last d by (auto simp: mpsc_inv_def)
qed

lemma pc_change:
  assumes "mpsc_inv (q, c)" and "\<And>h prev. mq_pc q \<noteq> Pop_Link h prev" "\<And>h prev. pc' \<noteq> Pop_Link h prev"
    and "pc_ok (q\<lparr>mq_pc := pc'\<rparr>) c"
  shows "mpsc_inv (q\<lparr>mq_pc := pc'\<rparr>, c)"
proof -
  have "unlinked (q\<lparr>mq_pc := pc'\<rparr>) = unlinked q"
    using assms(2,3) by (simp add: unlinked_def split: pop_pc.splits)
  then show ?thesis using assms(1,4) by (simp add: mpsc_inv_def)
qed

lemma reset_stub_keeps:
  assumes inv: "mpsc_inv (q, c)" and pc: "mq_pc q = Pop_Tail h h"
  shows "mpsc_inv (q\<lparr>mq_next := (mq_next q)(mq_stub q := NULL), mq_pc := Pop_Stub h\<rparr>, c)"
proof -
  have un: "unlinked q = mq_linking q" using pc by (simp add: unlinked_def)
  have "mq_stub q \<notin> set c" using inv pc by (simp add: mpsc_inv_def pc_ok_def)
  moreover from this have "linked ((mq_next q)(mq_stub q := NULL)) (set (mq_linking q)) c = linked (mq_next q) (set (mq_linking q)) c"
    by (intro chain_linked_cong) auto
  ultimately show ?thesis using inv pc un by (auto simp: mpsc_inv_def pc_ok_def unlinked_def)
qed

lemma stub_not_queued:
  assumes inv: "mpsc_inv (q, c)" and "mq_head q = mq_tail q" and "mq_head q \<noteq> mq_stub q"
  shows "mq_stub q \<notin> set c"
proof -
  have "linked (mq_next q) (set (unlinked q)) c" "hd c = last c" "distinct c" "hd c = mq_head q"
    using inv assms(2) by (simp_all add: mpsc_inv_def)
  then have "c = [mq_head q]" using linked_head by metis
  then show ?thesis using assms(3) by simp
qed

lemma consume_keeps:
  assumes inv: "mpsc_inv (q, c)" and step: "pop_step q = (None, q1)"
  shows "mpsc_inv (q1, chain_after q c) \<and> mpsc_contents (q1, chain_after q c) = mpsc_contents (q, c)"
proof (cases "mq_pc q")
  case Pop_Idle
  then show ?thesis using step pc_change [OF inv, of "Pop_Loaded (mq_head q) (mq_next q (mq_head q))"]
    by (auto simp: pop_step_def chain_after_def mpsc_contents_def pc_ok_def)
next
  case (Pop_Loaded h nx)
  then have h: "h = mq_head q" "nx = NULL \<or> nx = mq_next q (mq_head q)"
    using inv by (auto simp: mpsc_inv_def pc_ok_def)
  show ?thesis
  proof (cases "h = mq_stub q")
    case True
    then have nx: "nx \<noteq> NULL" using step Pop_Loaded by (auto simp: pop_step_def split: if_splits)
    have "mq_next q (mq_head q) \<noteq> mq_stub q"
    proof
      assume "mq_next q (mq_head q) = mq_stub q"
      then have "mq_next q (hd c) = hd c" "linked (mq_next q) (set (unlinked q)) c" "distinct c" "hd c \<noteq> NULL"
        using inv h True by (auto simp: mpsc_inv_def)
      then show False by (cases c rule: neighbours.cases) auto
    qed
    then have "pc_ok (q\<lparr>mq_head := mq_next q (mq_head q), mq_pc := Pop_Checked nx (mq_next q nx)\<rparr>) (tl c)"
      using h nx by (simp add: pc_ok_def)
    note A = advance_keeps [OF inv _ _ _ this]
    have "mpsc_inv (q\<lparr>mq_head := nx, mq_pc := Pop_Checked nx (mq_next q nx)\<rparr>, tl c)" and c: "c = mq_head q # tl c"
      using A h nx Pop_Loaded by simp_all
    moreover have "filter (\<lambda>n. n \<noteq> mq_stub q) c = filter (\<lambda>n. n \<noteq> mq_stub q) (tl c)"
      by (subst c) (use h True in simp)
    ultimately show ?thesis
      using step Pop_Loaded True nx by (auto simp: pop_step_def chain_after_def mpsc_contents_def)
  next
    case False
    then show ?thesis using step Pop_Loaded h pc_change [OF inv, of "Pop_Checked h nx"]
      by (auto simp: pop_step_def chain_after_def mpsc_contents_def pc_ok_def)
  qed
next
  case (Pop_Checked h nx)
  then have "h = mq_head q" "h \<noteq> mq_stub q" using inv by (auto simp: mpsc_inv_def pc_ok_def)
  then show ?thesis
    using step Pop_Checked pc_change [OF inv, of "Pop_Tail h (mq_tail q)"] stub_not_queued [OF inv]
    by (auto simp: pop_step_def chain_after_def mpsc_contents_def pc_ok_def split: if_splits)
next
  case (Pop_Tail h t)
  then show ?thesis
    using step reset_stub_keeps [OF inv, of h]
    by (auto simp: pop_step_def chain_after_def mpsc_contents_def split: if_splits)
next
  case (Pop_Stub h)
  then show ?thesis using step queue_stub_keeps [OF inv Pop_Stub]
    by (auto simp: pop_step_def chain_after_def mpsc_contents_def)
next
  case (Pop_Link h prev)
  then show ?thesis using step link_stub_keeps [OF inv Pop_Link]
    by (auto simp: pop_step_def chain_after_def mpsc_contents_def)
next
  case (Pop_Final h)
  then show ?thesis using step by (auto simp: pop_step_def Let_def split: if_splits)
qed

lemma return_empty_keeps:
  assumes inv: "mpsc_inv (q, c)" and step: "pop_step q = (Some NULL, q1)"
  shows "mpsc_inv (q1, c) \<and> mpsc_contents (q1, c) = mpsc_contents (q, c)"
proof -
  have "mq_head q \<noteq> NULL" using inv chain_nonempty [OF inv] by (auto simp: mpsc_inv_def)
  then have "q1 = q\<lparr>mq_pc := Pop_Idle\<rparr> \<and> (\<forall>h prev. mq_pc q \<noteq> Pop_Link h prev)"
    using step inv by (auto simp: pop_step_def mpsc_inv_def pc_ok_def Let_def split: if_splits pop_pc.splits)
  then show ?thesis using pc_change [OF inv, of Pop_Idle] by (simp add: pc_ok_def mpsc_contents_def)
qed

lemma return_node_keeps:
  assumes inv: "mpsc_inv (q, c)" and step: "pop_step q = (Some h, q1)" and h: "h \<noteq> NULL"
  shows "mpsc_inv (q1, tl c) \<and> mpsc_contents (q, c) = h # mpsc_contents (q1, tl c)"
proof -
  have q1: "q1 = q\<lparr>mq_head := mq_next q (mq_head q), mq_pc := Pop_Idle\<rparr>" "h = mq_head q" "h \<noteq> mq_stub q"
    "mq_next q (mq_head q) \<noteq> NULL" "\<And>h prev. mq_pc q \<noteq> Pop_Link h prev"
    using step inv h by (auto simp: pop_step_def mpsc_inv_def pc_ok_def Let_def split: if_splits pop_pc.splits)
  note A = advance_keeps [OF inv q1(4,5), of Pop_Idle]
  have c: "c = mq_head q # tl c" and i: "mpsc_inv (q1, tl c)" using A q1(1) by (simp_all add: pc_ok_def)
  have "filter (\<lambda>n. n \<noteq> mq_stub q) c = h # filter (\<lambda>n. n \<noteq> mq_stub q) (tl c)"
    by (subst c) (use q1(2,3) in simp)
  then show ?thesis using i q1(1) by (simp add: mpsc_contents_def)
qed

section \<open>First in, first out\<close>

interpretation dispatch_queue: fifo mpsc_inv mpsc_contents mpsc_put mpsc_get mpsc_other
proof
  fix s s' n
  assume "mpsc_inv s" and "mpsc_put n s = Some s'"
  then obtain q c where s: "s = (q, c)" "mpsc_inv (q, c)" "n \<in> set (mq_stored q)" "s' = (push_exchange n q, c @ [n])"
    by (cases s) (auto split: if_splits)
  then show "mpsc_inv s'" using exchange_keeps by simp
  have "n \<noteq> mq_stub q" using s by (auto simp: mpsc_inv_def)
  then show "mpsc_contents s' = mpsc_contents s @ [n]"
    using s by (simp add: mpsc_contents_def push_exchange_def)
next
  fix s s' h and u :: unit
  assume "mpsc_inv s" and "mpsc_get u s = Some (h, s')"
  then obtain q c q1 where s: "s = (q, c)" "mpsc_inv (q, c)" "pop_step q = (Some h, q1)" "h \<noteq> NULL" "s' = (q1, tl c)"
    by (cases s) (auto split: if_splits prod.splits option.splits)
  show "mpsc_inv s'" and "mpsc_contents s = h # mpsc_contents s'"
    using return_node_keeps [OF s(2-4)] s by simp_all
next
  fix s and x :: mpsc_step
  assume inv: "mpsc_inv s"
  obtain q c where s: "s = (q, c)" by (cases s)
  have "mpsc_inv (mpsc_other x s) \<and> mpsc_contents (mpsc_other x s) = mpsc_contents s"
  proof (cases x)
    case (Store n)
    then show ?thesis using store_keeps inv s by (simp add: mpsc_contents_def push_store_def)
  next
    case (Link pn)
    then show ?thesis using link_keeps inv s by (simp add: mpsc_contents_def push_link_def)
  next
    case Consume
    then show ?thesis using consume_keeps [of q c] return_empty_keeps [of q c] inv s
      by (auto split: prod.split option.split)
  qed
  then show "mpsc_inv (mpsc_other x s)" and "mpsc_contents (mpsc_other x s) = mpsc_contents s" by simp_all
qed

lemma mpsc_init_inv: "mq_stub q \<noteq> NULL \<Longrightarrow> mpsc_inv (nx_mpsc_init q, [mq_stub q])"
  by (simp add: mpsc_inv_def nx_mpsc_init_def unlinked_def pc_ok_def)

text \<open>Where the producers are, when one of them runs alone: nothing stored, and all links written.\<close>

lemma push_settled:
  assumes "mpsc_inv (q, c)" and "n \<noteq> NULL" "n \<noteq> mq_stub q" "n \<notin> set c" "n \<notin> set (mq_stored q)"
  shows "mpsc_inv (nx_mpsc_push n q, c @ [n])"
proof -
  have a: "mpsc_inv (push_store n q, c)" using store_keeps [OF assms(1), of n] assms by simp
  have "mpsc_inv (push_exchange n (push_store n q), c @ [n])"
    by (rule exchange_keeps [OF a]) (simp add: push_store_def)
  from link_keeps [OF this, of "(mq_tail q, n)"] show ?thesis
    by (simp add: nx_mpsc_push_def push_exchange_def push_store_def)
qed

text \<open>The function the code writes is the run of the consumer's steps.\<close>

fun pop_run :: "nat \<Rightarrow> nx_mpsc_queue \<Rightarrow> ptr option \<times> nx_mpsc_queue" where
  "pop_run 0 q = (None, q)"
| "pop_run (Suc k) q = (case pop_step q of (Some r, q1) \<Rightarrow> (Some r, q1) | (None, q1) \<Rightarrow> pop_run k q1)"

lemma pop_run_is_pop:
  assumes "mq_pc q = Pop_Idle" and "(mq_tail q, mq_stub q) \<notin> set (mq_linking q)" and "mq_stub q \<notin> set (mq_stored q)"
  shows "pop_run 7 q = (case nx_mpsc_pop q of (r, q1) \<Rightarrow> (Some r, q1))"
  using assms
  by (simp add: eval_nat_numeral pop_step_def nx_mpsc_pop_def pop_rest_def nx_mpsc_push_def push_store_def
      push_exchange_def push_link_def Let_def split: if_splits)

section \<open>Between pushes\<close>

text \<open>No producer and no consumer is on its way.\<close>

definition mpsc_settled :: "nx_mpsc_queue \<Rightarrow> ptr list \<Rightarrow> bool" where
  "mpsc_settled q c \<longleftrightarrow> mpsc_inv (q, c) \<and> mq_pc q = Pop_Idle \<and> mq_linking q = [] \<and> mq_stored q = []"

lemma linked_unique:
  "linked nx {} c \<Longrightarrow> linked nx {} d \<Longrightarrow> hd c = hd d \<Longrightarrow> NULL \<notin> set c \<Longrightarrow> NULL \<notin> set d \<Longrightarrow> c = d"
proof (induction nx "{} :: (ptr \<times> ptr) set" c arbitrary: d rule: linked.induct)
  case (2 nx a)
  then show ?case by (cases d rule: neighbours.cases) auto
next
  case (3 nx a b c)
  then obtain e where d: "d = a # b # e" by (cases d rule: neighbours.cases) auto
  then have "b # c = b # e" using "3.prems" by (intro "3.hyps") auto
  then show ?case using d by simp
qed auto

text \<open>The chain of a queue at rest is determined by its pointers.\<close>

lemma settled_unique: "mpsc_settled q c \<Longrightarrow> mpsc_settled q d \<Longrightarrow> c = d"
  using linked_unique [of "mq_next q" c d] by (auto simp: mpsc_settled_def mpsc_inv_def unlinked_def)

lemma settled_push:
  assumes "mpsc_settled q c" and "n \<noteq> NULL" "n \<noteq> mq_stub q" "n \<notin> set c"
  shows "mpsc_settled (nx_mpsc_push n q) (c @ [n])"
  using assms push_settled [of q c n]
  by (auto simp: mpsc_settled_def nx_mpsc_push_def push_link_def push_exchange_def push_store_def)

lemma pop_rest_settled:
  assumes set: "mpsc_settled q c" and h: "mq_head q \<noteq> mq_stub q"
  shows "\<exists>q1 c1. pop_rest (mq_head q) (mq_next q (mq_head q)) q = (mq_head q, q1) \<and> mpsc_settled q1 c1 \<and>
    mpsc_contents (q, c) = mq_head q # mpsc_contents (q1, c1) \<and> mq_stub q1 = mq_stub q"
proof (cases "mq_next q (mq_head q) = NULL")
  case False
  have inv: "mpsc_inv (q, c)" and pc: "mq_pc q = Pop_Idle" using set by (auto simp: mpsc_settled_def)
  have "mpsc_inv (q\<lparr>mq_head := mq_next q (mq_head q), mq_pc := Pop_Idle\<rparr>, tl c)" and c: "c = mq_head q # tl c"
    using advance_keeps [OF inv False, of Pop_Idle] pc by (simp_all add: pc_ok_def)
  moreover have "q\<lparr>mq_head := x, mq_pc := Pop_Idle\<rparr> = q\<lparr>mq_head := x\<rparr>" for x using pc by simp
  moreover have "filter (\<lambda>n. n \<noteq> mq_stub q) c = mq_head q # filter (\<lambda>n. n \<noteq> mq_stub q) (tl c)"
    by (subst c) (use h in simp)
  ultimately show ?thesis using set False
    by (intro exI [of _ "q\<lparr>mq_head := mq_next q (mq_head q)\<rparr>"] exI [of _ "tl c"])
      (simp add: pop_rest_def mpsc_settled_def mpsc_contents_def)
next
  case True
  have inv: "mpsc_inv (q, c)" "unlinked q = []" using set by (auto simp: mpsc_settled_def unlinked_def)
  then have c: "c = [mq_head q]" using True by (cases c rule: neighbours.cases) (auto simp: mpsc_inv_def)
  let ?q = "(nx_mpsc_push (mq_stub q) q)\<lparr>mq_head := mq_stub q\<rparr>"
  have t: "mq_tail q = mq_head q" "mq_stub q \<noteq> NULL" "mq_linking q = []" "mq_stored q = []" "mq_pc q = Pop_Idle"
    using inv set c by (auto simp: mpsc_inv_def mpsc_settled_def)
  have f: "mq_next ?q (mq_head q) = mq_stub q" "mq_next ?q (mq_stub q) = NULL" "mq_tail ?q = mq_stub q"
    "mq_linking ?q = []" "mq_stored ?q = []" "mq_pc ?q = Pop_Idle" "mq_stub ?q = mq_stub q" "mq_head ?q = mq_stub q"
    using h t by (simp_all add: nx_mpsc_push_def push_link_def push_exchange_def push_store_def)
  have "mpsc_settled ?q [mq_stub q]"
    using t f by (simp add: mpsc_settled_def mpsc_inv_def unlinked_def pc_ok_def)
  moreover have "pop_rest (mq_head q) (mq_next q (mq_head q)) q = (mq_head q, ?q)"
    using True t f(1) by (simp add: pop_rest_def Let_def)
  ultimately show ?thesis using c h f(7)
    by (intro exI [of _ ?q] exI [of _ "[mq_stub q]"]) (simp add: mpsc_contents_def)
qed

lemma settled_pop:
  assumes set: "mpsc_settled q c"
  shows "\<exists>r q1 c1. nx_mpsc_pop q = (r, q1) \<and> mpsc_settled q1 c1 \<and> mq_stub q1 = mq_stub q \<and>
    (case mpsc_contents (q, c) of [] \<Rightarrow> r = NULL \<and> q1 = q \<and> c1 = c | m # ms \<Rightarrow> r = m \<and> mpsc_contents (q1, c1) = ms)"
proof (cases "mq_head q = mq_stub q")
  case False
  then show ?thesis using pop_rest_settled [OF set False] by (auto simp: nx_mpsc_pop_def Let_def)
next
  case True
  have inv: "mpsc_inv (q, c)" "unlinked q = []" "mq_pc q = Pop_Idle" using set by (auto simp: mpsc_settled_def unlinked_def)
  show ?thesis
  proof (cases "mq_next q (mq_head q) = NULL")
    case nx: True
    then have "c = [mq_stub q]" using inv True by (cases c rule: neighbours.cases) (auto simp: mpsc_inv_def)
    then show ?thesis using set nx True by (auto simp: nx_mpsc_pop_def mpsc_contents_def)
  next
    case nx: False
    let ?q = "q\<lparr>mq_head := mq_next q (mq_head q)\<rparr>"
    have i: "mpsc_inv (q\<lparr>mq_head := mq_next q (mq_head q), mq_pc := Pop_Idle\<rparr>, tl c)" and c: "c = mq_head q # tl c"
      using advance_keeps [OF inv(1) nx, of Pop_Idle] inv(3) by (simp_all add: pc_ok_def)
    have "q\<lparr>mq_head := x, mq_pc := Pop_Idle\<rparr> = q\<lparr>mq_head := x\<rparr>" for x using inv(3) by simp
    then have s: "mpsc_settled ?q (tl c)" using i set by (simp add: mpsc_settled_def)
    have "hd (tl c) = mq_next q (mq_head q)" "tl c \<noteq> []"
      using i chain_nonempty [OF i] by (auto simp: mpsc_inv_def)
    then have "mq_next q (mq_head q) \<in> set (tl c)" by (metis hd_in_set)
    moreover have "mq_head q \<notin> set (tl c)" using inv(1) c by (metis (lifting) distinct.simps(2) mpsc_inv_def case_prodD)
    ultimately have ns: "mq_head ?q \<noteq> mq_stub ?q" using True by auto
    have "filter (\<lambda>n. n \<noteq> mq_stub q) c = filter (\<lambda>n. n \<noteq> mq_stub q) (tl c)"
      by (subst c) (use True in simp)
    then show ?thesis using pop_rest_settled [OF s ns] nx True
      by (auto simp: nx_mpsc_pop_def Let_def mpsc_contents_def)
  qed
qed

section \<open>Properties\<close>

text \<open>
  C14. However the accesses of any number of producers and of the consumer interleave, the queue is first in, first out:
  the nodes returned by the pops, followed by those still in the chain, are exactly the nodes whose push has exchanged the
  tail, in the order of the exchanges. None is lost, returned twice or overtaken, even by a push that was interrupted
  between its exchange and its link, and the chain is intact at every moment.
\<close>

theorem mpsc_delivers_in_order:
  assumes "mq_stub q \<noteq> NULL"
  shows "case fifo_run mpsc_put mpsc_get mpsc_other evs (nx_mpsc_init q, [mq_stub q]) of
    (qc, pushed, popped) \<Rightarrow> mpsc_inv qc \<and> pushed = popped @ mpsc_contents qc"
proof -
  obtain qc pushed popped
    where r: "fifo_run mpsc_put mpsc_get mpsc_other evs (nx_mpsc_init q, [mq_stub q]) = (qc, pushed, popped)"
    by (metis prod_cases3)
  have "mpsc_contents (nx_mpsc_init q, [mq_stub q]) = []" by (simp add: mpsc_contents_def nx_mpsc_init_def)
  then show ?thesis
    using dispatch_queue.run_invar [OF mpsc_init_inv [OF assms] r] dispatch_queue.run_conserves [OF mpsc_init_inv [OF assms] r] r
    by simp
qed

text \<open>Two producers: the second exchanges the tail first; the consumer meets the missing link and comes back later.\<close>

definition demo_mpsc :: nx_mpsc_queue where
  "demo_mpsc =
     \<lparr>mq_next = (\<lambda>_. NULL), mq_tail = NULL, mq_head = NULL, mq_stub = 8, mq_stored = [], mq_linking = [], mq_pc = Pop_Idle\<rparr>"

definition demo_interleaving :: "(ptr, unit, mpsc_step) fifo_event list" where
  "demo_interleaving =
     [Other (Store 16), Other (Store 32), Put 32, Other Consume, Other Consume, Put 16, Other (Link (8, 32)),
      Other Consume, Other Consume, Other Consume, Other Consume, Other (Link (32, 16)), Other Consume, Other Consume,
      Other Consume, Get ()]"

theorem mpsc_delivers_in_order_witness:
  "snd (fifo_run mpsc_put mpsc_get mpsc_other demo_interleaving (nx_mpsc_init demo_mpsc, [mq_stub demo_mpsc])) =
     ([32, 16], [32]) \<and>
   (case fifo_run mpsc_put mpsc_get mpsc_other demo_interleaving (nx_mpsc_init demo_mpsc, [mq_stub demo_mpsc]) of
      (qc, pushed, popped) \<Rightarrow> mpsc_inv qc \<and> pushed = popped @ mpsc_contents qc)"
proof
  show "snd (fifo_run mpsc_put mpsc_get mpsc_other demo_interleaving (nx_mpsc_init demo_mpsc, [mq_stub demo_mpsc])) =
     ([32, 16], [32])" by code_simp
  have "mq_stub demo_mpsc \<noteq> NULL" by code_simp
  then show "case fifo_run mpsc_put mpsc_get mpsc_other demo_interleaving (nx_mpsc_init demo_mpsc, [mq_stub demo_mpsc]) of
      (qc, pushed, popped) \<Rightarrow> mpsc_inv qc \<and> pushed = popped @ mpsc_contents qc"
    by (rule mpsc_delivers_in_order)
qed

text \<open>
  C15. A pop never gives up without reason: when no push is between its exchange and its link, it returns the oldest
  queued node, and NULL only from an empty queue, which it leaves as it was.
\<close>

theorem mpsc_pop_complete:
  assumes "mpsc_settled q c"
  shows "\<exists>r q1 c1. nx_mpsc_pop q = (r, q1) \<and> mpsc_settled q1 c1 \<and> mq_stub q1 = mq_stub q \<and>
    (case mpsc_contents (q, c) of [] \<Rightarrow> r = NULL \<and> q1 = q \<and> c1 = c | m # ms \<Rightarrow> r = m \<and> mpsc_contents (q1, c1) = ms)"
  by (rule settled_pop [OF assms])

theorem mpsc_pop_complete_witness:
  "mpsc_contents (nx_mpsc_push 16 (nx_mpsc_init demo_mpsc), [8, 16]) = [16] \<and>
   (\<exists>r q1 c1. nx_mpsc_pop (nx_mpsc_push 16 (nx_mpsc_init demo_mpsc)) = (r, q1) \<and> r = 16 \<and> mpsc_contents (q1, c1) = [])"
proof -
  have "mpsc_settled (nx_mpsc_push 16 (nx_mpsc_init demo_mpsc)) [8, 16]" by code_simp
  from mpsc_pop_complete [OF this] show ?thesis
    by (auto simp: mpsc_contents_def demo_mpsc_def nx_mpsc_init_def nx_mpsc_push_def push_link_def push_exchange_def
        push_store_def)
qed

end
