(* ===== verification/Nx_Ipc.thy ===== *)
theory Nx_Ipc
  imports Nx_Registry Nx_Mpsc
begin

text \<open>
  The message router of the kernel build (\<^verbatim>\<open>framework/ipc.c\<close>) and the producer side of the dispatcher
  (\<^verbatim>\<open>nx_dispatcher_enqueue\<close> of \<^verbatim>\<open>framework/dispatcher.c\<close>). A send runs the hooks, finds the edge, checks the capabilities
  and then calls the handler, queues the message for the dispatcher, holds it for a paused slot or redirects it to the
  slot's fallback. The state extends the graph with the messages, the hold queues and the dispatcher's queue. What
  hooks and message handlers do, and the results of the allocator, are the parameter \<open>E\<close>.
\<close>

section \<open>Messages\<close>

abbreviation (input) NX_CAP_SLOT_REF :: u32 where "NX_CAP_SLOT_REF \<equiv> 1"

datatype nx_cap_ownership = NX_CAP_BORROW | NX_CAP_TRANSFER

record nx_ipc_cap =
  cap_kind :: u32
  cap_ownership :: nx_cap_ownership
  cap_slot_ref :: slot_ref
  cap_id :: u32
  cap_claimed :: bool

abbreviation (input) NX_MSG_FLAG_REPLY :: u32 where "NX_MSG_FLAG_REPLY \<equiv> 1"
abbreviation (input) NX_MSG_FLAG_ONEWAY :: u32 where "NX_MSG_FLAG_ONEWAY \<equiv> 2"
abbreviation (input) NX_MSG_FLAG_REPLY_REQUESTED :: u32 where "NX_MSG_FLAG_REPLY_REQUESTED \<equiv> 4"

text \<open>
  The capability array is a list. The links of a message are its place in the list that stands for the queue it is on;
  the payload is the contents of the buffer.
\<close>

record nx_ipc_message =
  im_src_slot :: slot_ref
  im_dst_slot :: slot_ref
  im_msg_type :: u32
  im_flags :: u32
  im_caps :: "nx_ipc_cap list"
  im_payload_len :: u32
  im_payload :: "u8 list option"
  im_reply_payload_len :: u32

text \<open>The queue node of a message is the field at offset 72.\<close>

definition node_of :: "msg_ref \<Rightarrow> ptr" where
  "node_of m = m + 72"

definition node_to_msg :: "ptr \<Rightarrow> msg_ref" where
  "node_to_msg n = n - 72"

section \<open>State\<close>

text \<open>
  A hold entry has an address, since the flush below keeps a pointer to its predecessor. The field \<open>g_detached\<close> has the
  entries that a flush has taken out of the list \<^verbatim>\<open>g_holds\<close> and not freed yet.
\<close>

type_synonym hold_ref = ptr

record ipc_hold_entry =
  he_addr :: hold_ref
  he_src :: slot_ref
  he_dst :: slot_ref
  he_msgs :: "msg_ref list"

record ipc_state = graph +
  msgs :: "msg_ref \<Rightarrow> nx_ipc_message"
  g_holds :: "ipc_hold_entry list"
  g_detached :: "ipc_hold_entry list"
  g_disp_mpsc :: nx_mpsc_queue
  g_disp_mpsc_initialized :: bool
  g_disp_wq :: "ptr list"
  g_disp_pending :: u32
  g_reply_pool :: ptr
  g_reply_pool_inuse :: "u64 list"

text \<open>
  What is not router code: hook callbacks by function pointer, the message handler of a component descriptor (none when
  the descriptor has no operations or no handler), and the result of the next allocation.
\<close>

record 's ipc_env =
  env_run :: "ptr \<Rightarrow> nx_hook_context \<Rightarrow> ptr \<Rightarrow> 's \<Rightarrow> nx_hook_action \<times> 's"
  env_handle_msg :: "ptr \<Rightarrow> (ptr \<Rightarrow> msg_ref \<Rightarrow> 's \<Rightarrow> int \<times> 's) option"
  env_calloc :: "'s \<Rightarrow> ptr option"

text \<open>The status codes as the integers that handlers return.\<close>

fun nx_rc :: "nx_status \<Rightarrow> int" where
  "nx_rc NX_OK = 0"
| "nx_rc NX_EINVAL = -1"
| "nx_rc NX_ENOMEM = -2"
| "nx_rc NX_EEXIST = -3"
| "nx_rc NX_ENOENT = -4"
| "nx_rc NX_EBUSY = -5"
| "nx_rc NX_ESTATE = -6"
| "nx_rc NX_ELOOP = -7"
| "nx_rc NX_EABORT = -8"
| "nx_rc NX_EDEADLINE = -9"
| "nx_rc NX_EPERM = -10"
| "nx_rc NX_EAGAIN = -11"

definition set_msg :: "msg_ref \<Rightarrow> (nx_ipc_message \<Rightarrow> nx_ipc_message) \<Rightarrow> 'a ipc_state_scheme \<Rightarrow> 'a ipc_state_scheme" where
  "set_msg m f s = s\<lparr>msgs := (msgs s)(m := f (msgs s m))\<rparr>"

definition nx_ipc_inbox_depth :: "slot_ref \<Rightarrow> nat" where
  "nx_ipc_inbox_depth slot = 0"

section \<open>Hold queues\<close>

definition hold_find :: "slot_ref \<Rightarrow> slot_ref \<Rightarrow> 'a ipc_state_scheme \<Rightarrow> ipc_hold_entry option" where
  "hold_find src dst s = find (\<lambda>e. he_src e = src \<and> he_dst e = dst) (g_holds s)"

text \<open>The entry's address, or null when it would have to be created and cannot.\<close>

definition hold_entry_for :: "'a ipc_state_scheme ipc_env \<Rightarrow> slot_ref \<Rightarrow> slot_ref \<Rightarrow> 'a ipc_state_scheme \<Rightarrow>
    hold_ref option \<times> 'a ipc_state_scheme" where
  "hold_entry_for E src dst s =
     (case hold_find src dst s of
        Some e \<Rightarrow> (Some (he_addr e), s)
      | None \<Rightarrow>
          (case env_calloc E s of
             None \<Rightarrow> (None, s)
           | Some a \<Rightarrow> (Some a, s\<lparr>g_holds := \<lparr>he_addr = a, he_src = src, he_dst = dst, he_msgs = []\<rparr> # g_holds s\<rparr>)))"

definition hold_upd :: "hold_ref \<Rightarrow> (msg_ref list \<Rightarrow> msg_ref list) \<Rightarrow> 'a ipc_state_scheme \<Rightarrow> 'a ipc_state_scheme" where
  "hold_upd a f s =
     s\<lparr>g_holds := map (\<lambda>e. if he_addr e = a then e\<lparr>he_msgs := f (he_msgs e)\<rparr> else e) (g_holds s)\<rparr>"

definition hold_enqueue :: "hold_ref \<Rightarrow> msg_ref \<Rightarrow> 'a ipc_state_scheme \<Rightarrow> 'a ipc_state_scheme" where
  "hold_enqueue a m s = hold_upd a (\<lambda>ms. ms @ [m]) s"

definition nx_ipc_hold_queue_depth :: "slot_ref \<Rightarrow> slot_ref \<Rightarrow> 'a ipc_state_scheme \<Rightarrow> nat" where
  "nx_ipc_hold_queue_depth src dst s =
     (case hold_find src dst s of None \<Rightarrow> 0 | Some e \<Rightarrow> length (he_msgs e))"

definition nx_ipc_reset :: "'a ipc_state_scheme \<Rightarrow> 'a ipc_state_scheme" where
  "nx_ipc_reset s = s\<lparr>g_holds := []\<rparr>"

section \<open>Edges and capabilities\<close>

definition find_edge :: "slot_ref \<Rightarrow> slot_ref \<Rightarrow> 'a graph_scheme \<Rightarrow> conn_ref" where
  "find_edge frm to s =
     (if frm = NULL \<or> to = NULL then NULL
      else case find (\<lambda>c. cn_to_slot (conns s c) = to) (nx_slot_foreach_dependency frm s) of
             None \<Rightarrow> NULL
           | Some c \<Rightarrow> c)"

fun scan_caps :: "slot_ref \<Rightarrow> nx_ipc_cap list \<Rightarrow> 'a graph_scheme \<Rightarrow> nx_status" where
  "scan_caps sender [] s = NX_OK"
| "scan_caps sender (c # cs) s =
     (if cap_kind c \<noteq> NX_CAP_SLOT_REF then scan_caps sender cs s
      else if cap_slot_ref c = NULL then NX_EINVAL
      else if find_edge sender (cap_slot_ref c) s = NULL then NX_EINVAL
      else scan_caps sender cs s)"

definition nx_ipc_scan_send_caps :: "slot_ref \<Rightarrow> msg_ref \<Rightarrow> 'a ipc_state_scheme \<Rightarrow> nx_status" where
  "nx_ipc_scan_send_caps sender m s =
     (if sender = NULL \<or> m = NULL then NX_EINVAL else scan_caps sender (im_caps (msgs s m)) s)"

definition nx_ipc_scan_recv_caps :: "slot_ref \<Rightarrow> msg_ref \<Rightarrow> 'a ipc_state_scheme \<Rightarrow> nat" where
  "nx_ipc_scan_recv_caps recv m s =
     (if m = NULL then 0
      else length (filter (\<lambda>c. cap_kind c = NX_CAP_SLOT_REF \<and> \<not> cap_claimed c \<and> cap_ownership c = NX_CAP_TRANSFER)
                     (im_caps (msgs s m))))"

section \<open>To the dispatcher\<close>

definition ensure_queue_init :: "'a ipc_state_scheme \<Rightarrow> 'a ipc_state_scheme" where
  "ensure_queue_init s =
     (if g_disp_mpsc_initialized s then s
      else s\<lparr>g_disp_mpsc := nx_mpsc_init (g_disp_mpsc s), g_disp_mpsc_initialized := True\<rparr>)"

definition nx_dispatcher_enqueue :: "msg_ref \<Rightarrow> 'a ipc_state_scheme \<Rightarrow> nx_status \<times> 'a ipc_state_scheme" where
  "nx_dispatcher_enqueue m s =
     (if m = NULL \<or> im_dst_slot (msgs s m) = NULL then (NX_EINVAL, s)
      else let s1 = ensure_queue_init s;
               s2 = set_slot (im_dst_slot (msgs s m)) (\<lambda>x. x\<lparr>sl_in_flight_calls := sl_in_flight_calls x + 1\<rparr>) s1;
               s3 = s2\<lparr>g_disp_pending := g_disp_pending s2 + 1\<rparr>;
               s4 = s3\<lparr>g_disp_mpsc := nx_mpsc_push (node_of m) (g_disp_mpsc s3)\<rparr>
           in (NX_OK, s4\<lparr>g_disp_wq := drop 1 (g_disp_wq s4)\<rparr>))"

definition nx_ipc_enqueue_from_irq :: "msg_ref \<Rightarrow> 'a ipc_state_scheme \<Rightarrow> nx_status \<times> 'a ipc_state_scheme" where
  "nx_ipc_enqueue_from_irq m s = nx_dispatcher_enqueue m s"

section \<open>Routing\<close>

definition invoke_handler :: "'a ipc_state_scheme ipc_env \<Rightarrow> slot_ref \<Rightarrow> msg_ref \<Rightarrow> 'a ipc_state_scheme \<Rightarrow>
    int \<times> 'a ipc_state_scheme" where
  "invoke_handler E dst m s =
     (let active = sl_active (slots s dst) in
      if active = NULL \<or> cm_descriptor (comps s active) = NULL then (nx_rc NX_ENOENT, s)
      else case env_handle_msg E (cm_descriptor (comps s active)) of
             None \<Rightarrow> (nx_rc NX_ENOENT, s)
           | Some h \<Rightarrow> h (cm_impl (comps s active)) m s)"

abbreviation (input) NX_IPC_REDIRECT_DEPTH_MAX :: nat where "NX_IPC_REDIRECT_DEPTH_MAX \<equiv> 4"

text \<open>What follows the pause protocol: a direct call or the dispatcher's queue.\<close>

definition deliver :: "'a ipc_state_scheme ipc_env \<Rightarrow> conn_ref \<Rightarrow> msg_ref \<Rightarrow> 'a ipc_state_scheme \<Rightarrow>
    int \<times> 'a ipc_state_scheme" where
  "deliver E edge m s =
     (if cn_mode (conns s edge) = NX_CONN_SYNC then invoke_handler E (im_dst_slot (msgs s m)) m s
      else let (st, s1) = nx_dispatcher_enqueue m s in (nx_rc st, s1))"

definition hold_message :: "'a ipc_state_scheme ipc_env \<Rightarrow> msg_ref \<Rightarrow> 'a ipc_state_scheme \<Rightarrow> int \<times> 'a ipc_state_scheme" where
  "hold_message E m s =
     (case hold_entry_for E (im_src_slot (msgs s m)) (im_dst_slot (msgs s m)) s of
        (None, s1) \<Rightarrow> (nx_rc NX_ENOMEM, s1)
      | (Some a, s1) \<Rightarrow> (nx_rc NX_OK, hold_enqueue a m s1))"

function do_send :: "'a ipc_state_scheme ipc_env \<Rightarrow> msg_ref \<Rightarrow> nat \<Rightarrow> 'a ipc_state_scheme \<Rightarrow>
    int \<times> 'a ipc_state_scheme" where
  "do_send E m depth s =
     (if m = NULL \<or> im_src_slot (msgs s m) = NULL \<or> im_dst_slot (msgs s m) = NULL then (nx_rc NX_EINVAL, s)
      else case nx_hook_dispatch (env_run E)
                  \<lparr>ctx_point = NX_HOOK_IPC_SEND,
                   ctx_u = ctx_ipc (im_src_slot (msgs s m)) (im_dst_slot (msgs s m)) m NULL\<rparr> s of
             (NX_HOOK_ABORT, s1) \<Rightarrow> (nx_rc NX_EABORT, s1)
           | (NX_HOOK_CONTINUE, s1) \<Rightarrow>
               let edge = find_edge (im_src_slot (msgs s1 m)) (im_dst_slot (msgs s1 m)) s1;
                   scan = nx_ipc_scan_send_caps (im_src_slot (msgs s1 m)) m s1
               in if edge = NULL then (nx_rc NX_ENOENT, s1)
                  else if scan \<noteq> NX_OK then (nx_rc scan, s1)
                  else if nx_slot_pause_state_of (im_dst_slot (msgs s1 m)) s1 = NX_SLOT_PAUSE_NONE then deliver E edge m s1
                  else case cn_policy (conns s1 edge) of
                         NX_PAUSE_QUEUE \<Rightarrow> hold_message E m s1
                       | NX_PAUSE_REJECT \<Rightarrow> (nx_rc NX_EBUSY, s1)
                       | NX_PAUSE_REDIRECT \<Rightarrow>
                           if depth \<ge> NX_IPC_REDIRECT_DEPTH_MAX then (nx_rc NX_ELOOP, s1)
                           else let fb = sl_fallback (slots s1 (im_dst_slot (msgs s1 m))) in
                                if fb = NULL then (nx_rc NX_ENOENT, s1)
                                else do_send E m (depth + 1) (set_msg m (\<lambda>x. x\<lparr>im_dst_slot := fb\<rparr>) s1))"
  by pat_completeness auto

termination do_send
  by (relation "measure (\<lambda>(E, m, depth, s). 5 - depth)") auto

declare do_send.simps [simp del]

definition nx_ipc_send :: "'a ipc_state_scheme ipc_env \<Rightarrow> msg_ref \<Rightarrow> 'a ipc_state_scheme \<Rightarrow> int \<times> 'a ipc_state_scheme" where
  "nx_ipc_send E m s = do_send E m 0 s"

definition nx_ipc_dispatch :: "slot_ref \<Rightarrow> nat \<Rightarrow> 'a ipc_state_scheme \<Rightarrow> nat \<times> 'a ipc_state_scheme" where
  "nx_ipc_dispatch slot mx s = (0, s)"

section \<open>Flushing held messages\<close>

text \<open>
  The cursor \<^verbatim>\<open>pp\<close> is the list head (None) or the link of an entry. A send inside the loop can put new entries in front
  of the list or, in a nested flush, take entries out. If the entry that holds the cursor is gone, the code reads freed
  memory: the result is None, as it is for a loop that never ends.
\<close>

definition entry_at :: "hold_ref \<Rightarrow> 'a ipc_state_scheme \<Rightarrow> ipc_hold_entry option" where
  "entry_at a s = find (\<lambda>e. he_addr e = a) (g_holds s)"

definition at_cursor :: "hold_ref option \<Rightarrow> 'a ipc_state_scheme \<Rightarrow> ipc_hold_entry option option" where
  "at_cursor pp s =
     (case pp of
        None \<Rightarrow> Some (chain_head (g_holds s))
      | Some a \<Rightarrow>
          (if entry_at a s = None then None
           else Some (chain_head (tl (dropWhile (\<lambda>e. he_addr e \<noteq> a) (g_holds s))))))"

definition detach_entry :: "ipc_hold_entry \<Rightarrow> 'a ipc_state_scheme \<Rightarrow> 'a ipc_state_scheme" where
  "detach_entry e s =
     s\<lparr>g_holds := filter (\<lambda>x. he_addr x \<noteq> he_addr e) (g_holds s), g_detached := e # g_detached s\<rparr>"

definition hold_dequeue :: "hold_ref \<Rightarrow> msg_ref list \<Rightarrow> 'a ipc_state_scheme \<Rightarrow> 'a ipc_state_scheme" where
  "hold_dequeue a rest s =
     s\<lparr>g_detached := map (\<lambda>e. if he_addr e = a then e\<lparr>he_msgs := rest\<rparr> else e) (g_detached s)\<rparr>"

definition free_entry :: "hold_ref \<Rightarrow> 'a ipc_state_scheme \<Rightarrow> 'a ipc_state_scheme" where
  "free_entry a s = s\<lparr>g_detached := filter (\<lambda>e. he_addr e \<noteq> a) (g_detached s)\<rparr>"

text \<open>The inner loop: each message of the detached entry is sent again; its status is ignored.\<close>

partial_function (option) flush_entry :: "'a ipc_state_scheme ipc_env \<Rightarrow> hold_ref \<Rightarrow> 'a ipc_state_scheme \<Rightarrow>
    'a ipc_state_scheme option" where
  "flush_entry E a s =
     (case find (\<lambda>e. he_addr e = a) (g_detached s) of
        None \<Rightarrow> None
      | Some e \<Rightarrow>
          (case he_msgs e of
             [] \<Rightarrow> Some (free_entry a s)
           | m # rest \<Rightarrow> flush_entry E a (snd (nx_ipc_send E m (hold_dequeue a rest s)))))"

partial_function (option) flush_walk :: "'a ipc_state_scheme ipc_env \<Rightarrow> slot_ref \<Rightarrow> hold_ref option \<Rightarrow>
    'a ipc_state_scheme \<Rightarrow> 'a ipc_state_scheme option" where
  "flush_walk E dst pp s =
     (case at_cursor pp s of
        None \<Rightarrow> None
      | Some None \<Rightarrow> Some s
      | Some (Some e) \<Rightarrow>
          if he_dst e \<noteq> dst then flush_walk E dst (Some (he_addr e)) s
          else Option.bind (flush_entry E (he_addr e) (detach_entry e s)) (flush_walk E dst pp))"

definition nx_ipc_flush_hold_queue :: "'a ipc_state_scheme ipc_env \<Rightarrow> slot_ref \<Rightarrow> 'a ipc_state_scheme \<Rightarrow>
    'a ipc_state_scheme option" where
  "nx_ipc_flush_hold_queue E dst s = (if dst = NULL then Some s else flush_walk E dst None s)"

section \<open>Kept references\<close>

text \<open>A capability is a message and an index into its array; \<open>mem\<close> is the connection the registry allocates.\<close>

definition nx_slot_ref_retain :: "conn_ref option \<Rightarrow> slot_ref \<Rightarrow> (msg_ref \<times> nat) option \<Rightarrow> 'a ipc_state_scheme \<Rightarrow>
    (nx_status \<times> conn_ref) \<times> 'a ipc_state_scheme" where
  "nx_slot_ref_retain mem self cap s =
     (case cap of
        None \<Rightarrow> ((NX_EINVAL, NULL), s)
      | Some (m, i) \<Rightarrow>
          let c = im_caps (msgs s m) ! i in
          if self = NULL then ((NX_EINVAL, NULL), s)
          else if cap_kind c \<noteq> NX_CAP_SLOT_REF then ((NX_EINVAL, NULL), s)
          else if cap_claimed c then ((NX_EINVAL, NULL), s)
          else if cap_slot_ref c = NULL then ((NX_EINVAL, NULL), s)
          else case nx_connection_register mem self (cap_slot_ref c) NX_CONN_ASYNC False NX_PAUSE_QUEUE s of
                 (Inl err, s1) \<Rightarrow> ((err, NULL), s1)
               | (Inr k, s1) \<Rightarrow>
                   ((NX_OK, k), set_msg m (\<lambda>x. x\<lparr>im_caps := (im_caps x)[i := (im_caps x ! i)\<lparr>cap_claimed := True\<rparr>]\<rparr>) s1))"

definition nx_slot_ref_release :: "slot_ref \<Rightarrow> slot_ref \<Rightarrow> 'a ipc_state_scheme \<Rightarrow> 'a ipc_state_scheme" where
  "nx_slot_ref_release self target s =
     (if self = NULL \<or> target = NULL then s
      else let c = find_edge self target s in
           if c \<noteq> NULL then snd (nx_connection_unregister c s) else s)"

section \<open>Hooks\<close>

text \<open>What every callback keeps, and what does not read the hook chains, a dispatch keeps.\<close>

lemma walk_keeps:
  assumes "\<And>f c u s. P s \<Longrightarrow> P (snd (run f c u s))" and "P s"
  shows "P (snd (hook_walk run ctx n ho s))"
  using assms(2)
proof (induction n arbitrary: ho s)
  case 0
  then show ?case by simp
next
  case (Suc n)
  then show ?case using assms(1) by (cases ho) (simp, simp only: walk_Suc, simp)
qed

lemma dispatch_keeps:
  fixes s :: "'a hook_state_scheme"
  assumes run: "\<And>f c u s. P s \<Longrightarrow> P (snd (run f c u s))"
    and upd: "\<And>s hs cs n. P s \<Longrightarrow> P (s\<lparr>hooks := hs, g_chains := cs, g_dispatching := n\<rparr>)" and s: "P s"
  shows "P (snd (nx_hook_dispatch run ctx s))"
proof (cases "ctx_point ctx \<ge> NX_HOOK_POINT_COUNT")
  case True
  then show ?thesis using s by (simp add: nx_hook_dispatch_def)
next
  case False
  let ?s1 = "s\<lparr>g_dispatching := g_dispatching s + 1\<rparr>"
  let ?w = "snd (hook_walk run ctx (2 ^ 64) (chain_head (g_chains ?s1 (ctx_point ctx))) ?s1)"
  let ?s3 = "?w\<lparr>g_dispatching := g_dispatching ?w - 1\<rparr>"
  have disp: "P (t\<lparr>g_dispatching := n\<rparr>)" if "P t" for t n
    using upd [OF that, where hs = "hooks t" and cs = "g_chains t" and n = n] by simp
  have s3: "P ?s3" by (intro disp walk_keeps [of P] run s)
  obtain hs cs where sw: "sweep_dead ?s3 = ?s3\<lparr>hooks := hs, g_chains := cs\<rparr>" by (rule sweep_dead_form)
  have chains: "P (t\<lparr>hooks := hs, g_chains := cs\<rparr>)" if "P t" for t
    using upd [OF that, where hs = hs and cs = cs and n = "g_dispatching t"] by (cases t) simp
  have "P (sweep_dead ?s3)" unfolding sw by (rule chains [OF s3])
  moreover have "snd (nx_hook_dispatch run ctx s) = (if g_dispatching ?s3 = 0 then sweep_dead ?s3 else ?s3)"
    using False by (simp add: nx_hook_dispatch_def Let_def split_beta)
  ultimately show ?thesis using s3 by presburger
qed

text \<open>Without hooks a dispatch does nothing.\<close>

lemma dispatch_no_hooks:
  assumes "\<And>p. g_chains s p = []" and "g_dispatching s = 0"
  shows "nx_hook_dispatch run ctx s = (NX_HOOK_CONTINUE, s)"
proof -
  have walk: "hook_walk run ctx n None t = (NX_HOOK_CONTINUE, t)" for n t by (cases n) simp_all
  have pt: "sweep_point p s = s" for p
  proof -
    have "(g_chains s)(p := []) = g_chains s" using assms(1) by auto
    then show ?thesis by (simp add: sweep_point_def assms(1))
  qed
  have "fold sweep_point ps s = s" for ps by (induction ps) (simp_all add: pt)
  then have "sweep_dead s = s" unfolding sweep_dead_def .
  moreover have level: "s\<lparr>g_dispatching := 0\<rparr> = s" by (subst assms(2) [symmetric]) simp
  ultimately show ?thesis using assms walk
    by (simp add: nx_hook_dispatch_def chain_head_def level)
qed

end
