(* ===== verification/Nx_Dispatcher.thy ===== *)
theory Nx_Dispatcher
  imports Nx_Ipc "HOL-Library.Multiset"
begin

text \<open>
  The dispatcher (\<^verbatim>\<open>framework/dispatcher.c\<close>, kernel build): it takes one message after the other from the queue, runs the
  receive hooks and the handler of the destination, and answers blocking calls with a reply from a fixed pool. Running
  out of replies stops the machine; such an outcome is None here.
\<close>

section \<open>The reply pool\<close>

abbreviation (input) NX_REPLY_POOL_SIZE :: nat where "NX_REPLY_POOL_SIZE \<equiv> 256"
abbreviation (input) NX_REPLY_PAYLOAD_MAX :: nat where "NX_REPLY_PAYLOAD_MAX \<equiv> 512"
abbreviation (input) NX_REPLY_POOL_BITMAP_WORDS :: nat where "NX_REPLY_POOL_BITMAP_WORDS \<equiv> 4"

text \<open>An entry is a message of 80 bytes, at offset 0, and its payload.\<close>

abbreviation (input) reply_entry_size :: nat where "reply_entry_size \<equiv> 592"

definition reply_entry :: "'a ipc_state_scheme \<Rightarrow> nat \<Rightarrow> msg_ref" where
  "reply_entry s i = g_reply_pool s + of_nat (i * reply_entry_size)"

text \<open>
  The lowest clear bit, by the trick of the code, and its index. No other processor changes a word in between, so the
  compare and exchange succeeds.
\<close>

fun bit_index :: "nat \<Rightarrow> u64 \<Rightarrow> nat" where
  "bit_index 0 v = 0"
| "bit_index (Suc n) v = (if v AND 1 = 0 then Suc (bit_index n (drop_bit 1 v)) else 0)"

fun reply_pool_scan :: "nat \<Rightarrow> u64 list \<Rightarrow> (nat \<times> u64 list) option" where
  "reply_pool_scan w [] = None"
| "reply_pool_scan w (cur # ws) =
     (if cur = NOT 0 then map_option (\<lambda>(i, vs). (i, cur # vs)) (reply_pool_scan (w + 1) ws)
      else let free_bit = NOT cur AND (cur + 1);
               idx = w * 64 + bit_index 64 free_bit
           in if idx \<ge> NX_REPLY_POOL_SIZE then map_option (\<lambda>(i, vs). (i, cur # vs)) (reply_pool_scan (w + 1) ws)
              else Some (idx, (cur OR free_bit) # ws))"

definition reply_pool_alloc :: "'a ipc_state_scheme \<Rightarrow> (nat \<times> 'a ipc_state_scheme) option" where
  "reply_pool_alloc s =
     (case reply_pool_scan 0 (g_reply_pool_inuse s) of
        None \<Rightarrow> None
      | Some (i, ws) \<Rightarrow> Some (i, s\<lparr>g_reply_pool_inuse := ws\<rparr>))"

definition reply_pool_owns :: "msg_ref \<Rightarrow> 'a ipc_state_scheme \<Rightarrow> bool" where
  "reply_pool_owns m s =
     (m \<noteq> NULL \<and> g_reply_pool s \<le> m \<and> m < g_reply_pool s + of_nat (NX_REPLY_POOL_SIZE * reply_entry_size))"

text \<open>The pointer difference is the byte distance divided by the size of an entry.\<close>

definition reply_pool_free :: "msg_ref \<Rightarrow> 'a ipc_state_scheme \<Rightarrow> 'a ipc_state_scheme" where
  "reply_pool_free e s =
     (if e = NULL then s
      else let idx = unat (e - g_reply_pool s) div reply_entry_size in
           if idx \<ge> NX_REPLY_POOL_SIZE then s
           else let w = idx div 64; b = idx mod 64 in
                s\<lparr>g_reply_pool_inuse := (g_reply_pool_inuse s)[w := (g_reply_pool_inuse s ! w) AND NOT (push_bit b 1)]\<rparr>)"

definition nx_dispatcher_reply_pool_in_use :: "'a ipc_state_scheme \<Rightarrow> nat" where
  "nx_dispatcher_reply_pool_in_use s =
     length (filter (\<lambda>i. (g_reply_pool_inuse s ! (i div 64)) AND push_bit (i mod 64) 1 \<noteq> 0) [0..<NX_REPLY_POOL_SIZE])"

definition nx_dispatcher_reply_pool_reset :: "'a ipc_state_scheme \<Rightarrow> 'a ipc_state_scheme" where
  "nx_dispatcher_reply_pool_reset s = s\<lparr>g_reply_pool_inuse := replicate NX_REPLY_POOL_BITMAP_WORDS 0\<rparr>"

section \<open>Replies\<close>

text \<open>A 32-bit integer in memory, least significant byte first.\<close>

definition le_bytes :: "u32 \<Rightarrow> u8 list" where
  "le_bytes w = [ucast w, ucast (drop_bit 8 w), ucast (drop_bit 16 w), ucast (drop_bit 24 w)]"

definition pad_payload :: "u8 list \<Rightarrow> u8 list" where
  "pad_payload bs = bs @ replicate (NX_REPLY_PAYLOAD_MAX - length bs) 0"

definition reply_payload :: "nx_ipc_message \<Rightarrow> int \<Rightarrow> u8 list" where
  "reply_payload req rc =
     (if im_reply_payload_len req > 0
      then take (min (unat (im_reply_payload_len req)) NX_REPLY_PAYLOAD_MAX) (case im_payload req of None \<Rightarrow> [] | Some bs \<Rightarrow> bs)
      else le_bytes (word_of_int rc))"

definition reply_len :: "nx_ipc_message \<Rightarrow> u32" where
  "reply_len req =
     (if im_reply_payload_len req > 0 then min (im_reply_payload_len req) (of_nat NX_REPLY_PAYLOAD_MAX) else 4)"

definition build_reply :: "msg_ref \<Rightarrow> int \<Rightarrow> 'a ipc_state_scheme \<Rightarrow> (msg_ref \<times> 'a ipc_state_scheme) option" where
  "build_reply req rc s =
     (case reply_pool_alloc s of
        None \<Rightarrow> None
      | Some (i, s1) \<Rightarrow>
          let e = reply_entry s1 i; q = msgs s1 req in
          Some (e, set_msg e (\<lambda>_. \<lparr>im_src_slot = im_dst_slot q, im_dst_slot = im_src_slot q, im_msg_type = im_msg_type q,
                                 im_flags = NX_MSG_FLAG_REPLY, im_caps = [], im_payload_len = reply_len q,
                                 im_payload = Some (pad_payload (reply_payload q rc)), im_reply_payload_len = 0\<rparr>) s1))"

section \<open>One round\<close>

definition in_flight_done :: "slot_ref \<Rightarrow> 'a ipc_state_scheme \<Rightarrow> 'a ipc_state_scheme" where
  "in_flight_done dst s = set_slot dst (\<lambda>x. x\<lparr>sl_in_flight_calls := sl_in_flight_calls x - 1\<rparr>) s"

text \<open>The reply leg and the return of a delivered reply to the pool: the end of both branches of the round.\<close>

definition pump_reply :: "bool \<Rightarrow> bool \<Rightarrow> msg_ref \<Rightarrow> int \<Rightarrow> 'a ipc_state_scheme \<Rightarrow> 'a ipc_state_scheme option" where
  "pump_reply reply_requested free_it m rc s =
     (case (if reply_requested \<and> im_src_slot (msgs s m) \<noteq> NULL
            then map_option (\<lambda>(r, s1). snd (nx_dispatcher_enqueue r s1)) (build_reply m rc s)
            else Some s) of
        None \<Rightarrow> None
      | Some s1 \<Rightarrow> Some (if free_it then reply_pool_free m s1 else s1))"

text \<open>The receive hooks and the handler. An abort is the status of the call, as if a handler had returned it.\<close>

definition pump_deliver :: "'a ipc_state_scheme ipc_env \<Rightarrow> msg_ref \<Rightarrow> 'a ipc_state_scheme \<Rightarrow> int \<times> 'a ipc_state_scheme" where
  "pump_deliver E m s =
     (let dst = im_dst_slot (msgs s m) in
      case nx_hook_dispatch (env_run E)
             \<lparr>ctx_point = NX_HOOK_IPC_RECV, ctx_u = ctx_ipc (im_src_slot (msgs s m)) dst m NULL\<rparr> s of
        (NX_HOOK_ABORT, s1) \<Rightarrow> (nx_rc NX_EABORT, s1)
      | (NX_HOOK_CONTINUE, s1) \<Rightarrow> invoke_handler E dst m s1)"

definition nx_dispatcher_pump_once :: "'a ipc_state_scheme ipc_env \<Rightarrow> 'a ipc_state_scheme \<Rightarrow>
    (nat \<times> 'a ipc_state_scheme) option" where
  "nx_dispatcher_pump_once E s =
     (if \<not> g_disp_mpsc_initialized s then Some (0, s)
      else case nx_mpsc_pop (g_disp_mpsc s) of (node, q) \<Rightarrow>
        let s0 = s\<lparr>g_disp_mpsc := q\<rparr> in
        if node = NULL then Some (0, s0)
        else let s1 = s0\<lparr>g_disp_pending := g_disp_pending s0 - 1\<rparr>;
                 m = node_to_msg node;
                 dst = im_dst_slot (msgs s1 m);
                 reply_requested = (im_flags (msgs s1 m) AND NX_MSG_FLAG_REPLY_REQUESTED \<noteq> 0);
                 is_reply = (im_flags (msgs s1 m) AND NX_MSG_FLAG_REPLY \<noteq> 0);
                 pool_owned = reply_pool_owns m s1
             in case pump_deliver E m s1 of (rc, s2) \<Rightarrow>
                  map_option (\<lambda>t. (1, t))
                    (pump_reply reply_requested (is_reply \<and> pool_owned) m rc (in_flight_done dst s2)))"

section \<open>The dispatcher thread\<close>

text \<open>
  The inner loop of \<^verbatim>\<open>nx_dispatcher_kthread_entry\<close>: rounds until the queue is empty. It need not end, since handlers
  can send new messages; then, as after a panic, the result is None. The thread then sleeps unless messages are pending.
\<close>

partial_function (option) pump_all :: "'a ipc_state_scheme ipc_env \<Rightarrow> 'a ipc_state_scheme \<Rightarrow>
    'a ipc_state_scheme option" where
  "pump_all E s =
     (case nx_dispatcher_pump_once E s of
        None \<Rightarrow> None
      | Some (n, t) \<Rightarrow> if n = 0 then Some t else pump_all E t)"

definition disp_has_pending :: "'a ipc_state_scheme \<Rightarrow> bool" where
  "disp_has_pending s = (sint (g_disp_pending s) > 0)"

definition dispatcher_sleep :: "ptr \<Rightarrow> 'a ipc_state_scheme \<Rightarrow> 'a ipc_state_scheme" where
  "dispatcher_sleep task s = (if disp_has_pending s then s else s\<lparr>g_disp_wq := g_disp_wq s @ [task]\<rparr>)"

definition nx_dispatcher_init :: "'a ipc_state_scheme \<Rightarrow> 'a ipc_state_scheme" where
  "nx_dispatcher_init s = (ensure_queue_init s)\<lparr>g_disp_wq := [], g_disp_pending := 0\<rparr>"

partial_function (option) pop_all :: "nx_mpsc_queue \<Rightarrow> nx_mpsc_queue option" where
  "pop_all q = (case nx_mpsc_pop q of (n, q1) \<Rightarrow> if n = NULL then Some q1 else pop_all q1)"

definition nx_dispatcher_reset :: "'a ipc_state_scheme \<Rightarrow> 'a ipc_state_scheme option" where
  "nx_dispatcher_reset s =
     (if \<not> g_disp_mpsc_initialized s then Some s
      else case pop_all (g_disp_mpsc s) of
             None \<Rightarrow> None
           | Some q \<Rightarrow> Some ((nx_dispatcher_reply_pool_reset (s\<lparr>g_disp_mpsc := nx_mpsc_init q\<rparr>))\<lparr>g_disp_pending := 0\<rparr>))"

section \<open>The queued messages\<close>

lemma node_inverse [simp]: "node_to_msg (node_of m) = m" "node_of (node_to_msg n) = n"
  by (simp_all add: node_of_def node_to_msg_def)

lemma node_of_eq [simp]: "node_of m = node_of k \<longleftrightarrow> m = k" "node_to_msg n = node_to_msg l \<longleftrightarrow> n = l"
  by (simp_all add: node_of_def node_to_msg_def)

text \<open>The messages in the dispatcher's queue, oldest first, while no push or pop is under way.\<close>

definition queue_is :: "'a ipc_state_scheme \<Rightarrow> msg_ref list \<Rightarrow> bool" where
  "queue_is s Q \<longleftrightarrow>
     (if g_disp_mpsc_initialized s
      then \<exists>c. mpsc_settled (g_disp_mpsc s) c \<and> Q = map node_to_msg (mpsc_contents (g_disp_mpsc s, c))
      else Q = [] \<and> mq_stub (g_disp_mpsc s) \<noteq> NULL)"

lemma queue_same:
  "g_disp_mpsc t = g_disp_mpsc s \<Longrightarrow> g_disp_mpsc_initialized t = g_disp_mpsc_initialized s \<Longrightarrow> queue_is t Q \<longleftrightarrow> queue_is s Q"
  by (simp add: queue_is_def)

lemma queue_unique: "queue_is s Q \<Longrightarrow> queue_is s R \<Longrightarrow> Q = R"
  using settled_unique by (fastforce simp: queue_is_def split: if_splits)

lemma init_settled: "mq_stub q \<noteq> NULL \<Longrightarrow> mpsc_settled (nx_mpsc_init q) [mq_stub q]"
  using mpsc_init_inv by (simp add: mpsc_settled_def nx_mpsc_init_def)

lemma push_stub [simp]: "mq_stub (nx_mpsc_push n q) = mq_stub q"
  by (simp add: nx_mpsc_push_def push_link_def push_exchange_def push_store_def)

lemma ensure_queue:
  assumes "queue_is s Q"
  obtains c where "mpsc_settled (g_disp_mpsc (ensure_queue_init s)) c"
    and "Q = map node_to_msg (mpsc_contents (g_disp_mpsc (ensure_queue_init s), c))"
proof (cases "g_disp_mpsc_initialized s")
  case True
  then show ?thesis using assms that by (auto simp: queue_is_def ensure_queue_init_def)
next
  case False
  then have "Q = []" "mq_stub (g_disp_mpsc s) \<noteq> NULL" using assms by (auto simp: queue_is_def)
  then show ?thesis using False that [of "[mq_stub (g_disp_mpsc s)]"] init_settled [of "g_disp_mpsc s"]
    by (simp add: ensure_queue_init_def mpsc_contents_def nx_mpsc_init_def)
qed

lemma ensure_simps [simp]:
  "g_disp_mpsc_initialized (ensure_queue_init s)" "slots (ensure_queue_init s) = slots s" "msgs (ensure_queue_init s) = msgs s"
  "g_holds (ensure_queue_init s) = g_holds s" "g_detached (ensure_queue_init s) = g_detached s" "g_disp_pending (ensure_queue_init s) = g_disp_pending s"
  "g_disp_wq (ensure_queue_init s) = g_disp_wq s" "g_reply_pool (ensure_queue_init s) = g_reply_pool s"
  "g_reply_pool_inuse (ensure_queue_init s) = g_reply_pool_inuse s"
  "mq_stub (g_disp_mpsc (ensure_queue_init s)) = mq_stub (g_disp_mpsc s)"
  by (simp_all add: ensure_queue_init_def nx_mpsc_init_def)

lemma enqueue_simps:
  assumes "m \<noteq> NULL" "im_dst_slot (msgs s m) \<noteq> NULL"
  defines "t \<equiv> snd (nx_dispatcher_enqueue m s)"
  shows "fst (nx_dispatcher_enqueue m s) = NX_OK" "msgs t = msgs s" "g_holds t = g_holds s \<and> g_detached t = g_detached s"
    "g_disp_mpsc_initialized t" "g_disp_pending t = g_disp_pending s + 1" "g_reply_pool t = g_reply_pool s"
    "g_reply_pool_inuse t = g_reply_pool_inuse s" "mq_stub (g_disp_mpsc t) = mq_stub (g_disp_mpsc s)"
    "sl_in_flight_calls (slots t r) = sl_in_flight_calls (slots s r) + (if r = im_dst_slot (msgs s m) then 1 else 0)"
    "g_disp_mpsc t = nx_mpsc_push (node_of m) (g_disp_mpsc (ensure_queue_init s))"
  using assms by (simp_all add: nx_dispatcher_enqueue_def Let_def set_slot_def)

lemma enqueue_fails: "m = NULL \<or> im_dst_slot (msgs s m) = NULL \<Longrightarrow> nx_dispatcher_enqueue m s = (NX_EINVAL, s)"
  by (simp add: nx_dispatcher_enqueue_def)

lemma queue_enqueue:
  assumes "queue_is s Q" and "m \<noteq> NULL" "im_dst_slot (msgs s m) \<noteq> NULL" and "m \<notin> set Q"
    and "node_of m \<noteq> NULL" "node_of m \<noteq> mq_stub (g_disp_mpsc s)"
  shows "queue_is (snd (nx_dispatcher_enqueue m s)) (Q @ [m])"
proof -
  obtain c where c: "mpsc_settled (g_disp_mpsc (ensure_queue_init s)) c"
    and Q: "Q = map node_to_msg (mpsc_contents (g_disp_mpsc (ensure_queue_init s), c))"
    using ensure_queue [OF assms(1)] .
  have "node_of m \<notin> set c"
  proof
    assume "node_of m \<in> set c"
    then have "node_of m \<in> set (mpsc_contents (g_disp_mpsc (ensure_queue_init s), c))"
      using assms(6) by (simp add: mpsc_contents_def)
    then have "node_to_msg (node_of m) \<in> set Q" unfolding Q set_map by (rule imageI)
    then show False using assms(4) by simp
  qed
  then have "mpsc_settled (nx_mpsc_push (node_of m) (g_disp_mpsc (ensure_queue_init s))) (c @ [node_of m])"
    using settled_push [OF c] assms(5,6) by simp
  moreover have "Q @ [m] = map node_to_msg (mpsc_contents
      (nx_mpsc_push (node_of m) (g_disp_mpsc (ensure_queue_init s)), c @ [node_of m]))"
    using assms(6) by (simp add: Q mpsc_contents_def)
  ultimately show ?thesis
    using enqueue_simps(4,10) [OF assms(2,3)] by (auto simp: queue_is_def)
qed

lemma queue_pop:
  assumes "queue_is s Q" and "g_disp_mpsc_initialized s" and "nx_mpsc_pop (g_disp_mpsc s) = (n, q)"
  shows "queue_is (s\<lparr>g_disp_mpsc := q\<rparr>) (tl Q)" and "mq_stub q = mq_stub (g_disp_mpsc s)"
    and "Q = [] \<Longrightarrow> n = NULL" and "Q \<noteq> [] \<Longrightarrow> n = node_of (hd Q) \<and> n \<noteq> NULL"
proof -
  obtain c where c: "mpsc_settled (g_disp_mpsc s) c" and Q: "Q = map node_to_msg (mpsc_contents (g_disp_mpsc s, c))"
    using assms(1,2) by (auto simp: queue_is_def)
  obtain c1 where p: "mpsc_settled q c1" "mq_stub q = mq_stub (g_disp_mpsc s)"
    "case mpsc_contents (g_disp_mpsc s, c) of [] \<Rightarrow> n = NULL \<and> q = g_disp_mpsc s \<and> c1 = c
      | m # ms \<Rightarrow> n = m \<and> mpsc_contents (q, c1) = ms"
    using settled_pop [OF c] assms(3) by auto
  show "mq_stub q = mq_stub (g_disp_mpsc s)" by (rule p)
  show "queue_is (s\<lparr>g_disp_mpsc := q\<rparr>) (tl Q)" and "Q = [] \<Longrightarrow> n = NULL"
    using p assms(2) by (auto simp: queue_is_def Q split: list.splits)
  have "NULL \<notin> set (mpsc_contents (g_disp_mpsc s, c))"
    using c by (auto simp: mpsc_settled_def mpsc_inv_def mpsc_contents_def)
  then show "Q \<noteq> [] \<Longrightarrow> n = node_of (hd Q) \<and> n \<noteq> NULL"
    using p(3) by (auto simp: Q split: list.splits)
qed

section \<open>What components may do\<close>

definition held :: "'a ipc_state_scheme \<Rightarrow> msg_ref list" where
  "held s = concat (map he_msgs (g_holds s @ g_detached s))"

text \<open>Steps that leave the router and the dispatcher alone, whatever they do to hooks and graph.\<close>

definition router_same :: "'a ipc_state_scheme \<Rightarrow> 'a ipc_state_scheme \<Rightarrow> bool" where
  "router_same s t \<longleftrightarrow>
     msgs t = msgs s \<and> g_holds t = g_holds s \<and> g_detached t = g_detached s \<and> g_disp_mpsc t = g_disp_mpsc s \<and>
     g_disp_mpsc_initialized t = g_disp_mpsc_initialized s \<and> g_disp_pending t = g_disp_pending s \<and>
     g_reply_pool t = g_reply_pool s \<and> g_reply_pool_inuse t = g_reply_pool_inuse s \<and>
     (\<forall>r. sl_in_flight_calls (slots t r) = sl_in_flight_calls (slots s r))"

text \<open>
  A message that its owner may send: it is on no list, and it is not one of the dispatcher's own replies. The two
  other conditions say that its queue node is not at the address of the stub or at the null address.
\<close>

definition sendable :: "'a ipc_state_scheme \<Rightarrow> msg_ref \<Rightarrow> bool" where
  "sendable s m \<longleftrightarrow>
     node_of m \<noteq> NULL \<and> node_of m \<noteq> mq_stub (g_disp_mpsc s) \<and> (\<forall>Q. queue_is s Q \<longrightarrow> m \<notin> set Q) \<and>
     m \<notin> set (held s) \<and> \<not> reply_pool_owns m s"

inductive ipc_acts :: "'a ipc_state_scheme ipc_env \<Rightarrow> 'a ipc_state_scheme \<Rightarrow> 'a ipc_state_scheme \<Rightarrow> bool" for E s where
  ia_none: "ipc_acts E s s"
| ia_other: "ipc_acts E s t \<Longrightarrow> router_same t u \<Longrightarrow> ipc_acts E s u"
| ia_write: "ipc_acts E s t \<Longrightarrow> sendable t m \<Longrightarrow> ipc_acts E s (set_msg m f t)"
| ia_enqueue: "ipc_acts E s t \<Longrightarrow> sendable t m \<Longrightarrow> ipc_acts E s (snd (nx_dispatcher_enqueue m t))"
| ia_hold: "ipc_acts E s t \<Longrightarrow> sendable t m \<Longrightarrow> ipc_acts E s (snd (hold_message E m t))"

lemma ipc_acts_trans: "ipc_acts E t u \<Longrightarrow> ipc_acts E s t \<Longrightarrow> ipc_acts E s u"
  by (induction rule: ipc_acts.induct) (blast intro: ipc_acts.intros)+

text \<open>
  Callbacks that keep to the interface: hooks watch and steer the message traffic without sending themselves, handlers
  send only messages that they own, and the allocator returns memory that is not in use.
\<close>

definition ipc_disciplined :: "'a ipc_state_scheme ipc_env \<Rightarrow> bool" where
  "ipc_disciplined E \<longleftrightarrow>
     (\<forall>f c u s. router_same s (snd (env_run E f c u s))) \<and>
     (\<forall>d h impl m s. env_handle_msg E d = Some h \<longrightarrow> ipc_acts E s (snd (h impl m s))) \<and>
     (\<forall>s a. env_calloc E s = Some a \<longrightarrow> a \<notin> he_addr ` set (g_holds s @ g_detached s))"

lemma router_same_refl [simp]: "router_same s s"
  by (simp add: router_same_def)

lemma router_same_trans: "router_same s t \<Longrightarrow> router_same t u \<Longrightarrow> router_same s u"
  by (simp add: router_same_def)

lemma router_same_queue: "router_same s t \<Longrightarrow> queue_is t Q \<longleftrightarrow> queue_is s Q"
  by (simp add: router_same_def queue_is_def)

lemma router_same_held: "router_same s t \<Longrightarrow> held t = held s"
  by (simp add: router_same_def held_def)

lemma router_same_owns: "router_same s t \<Longrightarrow> reply_pool_owns m t \<longleftrightarrow> reply_pool_owns m s"
  by (simp add: router_same_def reply_pool_owns_def)

lemma router_same_sendable: "router_same s t \<Longrightarrow> sendable s m \<Longrightarrow> sendable t m"
  using router_same_queue [of s t] router_same_held [of s t] router_same_owns [of s t]
  by (simp add: sendable_def) (simp add: router_same_def)

lemma dispatch_router_same:
  assumes "ipc_disciplined E"
  shows "router_same s (snd (nx_hook_dispatch (env_run E) ctx s))"
proof (rule dispatch_keeps [where P = "router_same s"])
  show "router_same s t \<Longrightarrow> router_same s (snd (env_run E f c u t))" for f c u t
    using assms router_same_trans [of s t] by (simp add: ipc_disciplined_def)
  show "router_same s t \<Longrightarrow> router_same s (t\<lparr>hooks := hs, g_chains := cs, g_dispatching := n\<rparr>)" for t hs cs n
    by (simp add: router_same_def)
qed simp

lemma set_msg_sendable: "sendable s m \<Longrightarrow> sendable (set_msg k f s) m"
  by (simp add: sendable_def set_msg_def queue_is_def held_def reply_pool_owns_def)

section \<open>Sending keeps the discipline\<close>

lemma deliver_acts:
  assumes "ipc_disciplined E" and "sendable s m"
  shows "ipc_acts E s (snd (deliver E edge m s))"
proof -
  have "ipc_acts E s (snd (invoke_handler E d m s))" for d
    using assms(1) by (auto simp: invoke_handler_def Let_def ipc_disciplined_def ia_none split: option.splits)
  moreover have "ipc_acts E s (snd (nx_dispatcher_enqueue m s))"
    by (rule ia_enqueue [OF ia_none assms(2)])
  ultimately show ?thesis by (simp add: deliver_def split_beta)
qed

lemma do_send_acts: "ipc_disciplined E \<Longrightarrow> sendable s m \<Longrightarrow> ipc_acts E s (snd (do_send E m depth s))"
proof (induction E m depth s rule: do_send.induct)
  case (1 E m depth s)
  let ?ctx = "\<lparr>ctx_point = NX_HOOK_IPC_SEND, ctx_u = ctx_ipc (im_src_slot (msgs s m)) (im_dst_slot (msgs s m)) m NULL\<rparr>"
  obtain a s1 where d: "nx_hook_dispatch (env_run E) ?ctx s = (a, s1)" by fastforce
  have same: "router_same s s1" using dispatch_router_same [OF "1.prems"(1), of s ?ctx] d by simp
  have s1: "ipc_acts E s s1" by (rule ia_other [OF ia_none same])
  have m: "sendable s1 m" by (rule router_same_sendable [OF same "1.prems"(2)])
  let ?fb = "sl_fallback (slots s1 (im_dst_slot (msgs s1 m)))"
  let ?r = "set_msg m (\<lambda>x. x\<lparr>im_dst_slot := ?fb\<rparr>) s1"
  have fwd: "ipc_acts E s u" if "ipc_acts E s1 u" for u using ipc_acts_trans [OF that s1] .
  have del: "ipc_acts E s (snd (deliver E e m s1))" for e by (rule fwd [OF deliver_acts [OF "1.prems"(1) m]])
  have hold: "ipc_acts E s (snd (hold_message E m s1))" by (rule ia_hold [OF s1 m])
  have red: "ipc_acts E s ?r" by (rule ia_write [OF s1 m])
  show ?case
  proof (cases "m = NULL \<or> im_src_slot (msgs s m) = NULL \<or> im_dst_slot (msgs s m) = NULL \<or> a = NX_HOOK_ABORT")
    case True
    then show ?thesis using d s1 by (auto simp: do_send.simps [of E m depth s] ia_none split: nx_hook_action.split)
  next
    case False
    then have a: "a = NX_HOOK_CONTINUE" by (cases a) auto
    have "ipc_acts E s (snd (do_send E m (depth + 1) ?r))"
      if "find_edge (im_src_slot (msgs s1 m)) (im_dst_slot (msgs s1 m)) s1 \<noteq> NULL"
        "nx_ipc_scan_send_caps (im_src_slot (msgs s1 m)) m s1 = NX_OK"
        "nx_slot_pause_state_of (im_dst_slot (msgs s1 m)) s1 \<noteq> NX_SLOT_PAUSE_NONE"
        "cn_policy (conns s1 (find_edge (im_src_slot (msgs s1 m)) (im_dst_slot (msgs s1 m)) s1)) = NX_PAUSE_REDIRECT"
        "\<not> depth \<ge> NX_IPC_REDIRECT_DEPTH_MAX" "?fb \<noteq> NULL"
    proof (rule ipc_acts_trans [OF _ red])
      show "ipc_acts E ?r (snd (do_send E m (depth + 1) ?r))"
        using False that "1.prems"(1) set_msg_sendable [OF m] d a by (intro "1.IH") auto
    qed
    then show ?thesis
      using False d a s1 del hold by (auto simp: do_send.simps [of E m depth s] Let_def split: nx_pause_policy.split)
  qed
qed

section \<open>Accounting\<close>

definition count_for :: "'a ipc_state_scheme \<Rightarrow> msg_ref list \<Rightarrow> slot_ref \<Rightarrow> nat" where
  "count_for s Q r = length (filter (\<lambda>m. im_dst_slot (msgs s m) = r) Q)"

text \<open>
  Every message is on at most one list, the counter of a slot is the number of messages queued for it, plus \<open>busy\<close> for
  those whose handler is running, and the dispatcher's own counter is the length of its queue.
\<close>

definition ipc_inv :: "(slot_ref \<Rightarrow> nat) \<Rightarrow> 'a ipc_state_scheme \<Rightarrow> msg_ref list \<Rightarrow> bool" where
  "ipc_inv busy s Q \<longleftrightarrow>
     queue_is s Q \<and> mq_stub (g_disp_mpsc s) \<noteq> NULL \<and> distinct (Q @ held s) \<and> NULL \<notin> set Q \<and>
     (\<forall>m \<in> set (held s). \<not> reply_pool_owns m s \<and> node_of m \<noteq> NULL \<and> node_of m \<noteq> mq_stub (g_disp_mpsc s)) \<and>
     (\<forall>r. sl_in_flight_calls (slots s r) = of_nat (count_for s Q r + busy r)) \<and>
     g_disp_pending s = of_nat (length Q) \<and> distinct (map he_addr (g_holds s @ g_detached s))"

text \<open>What is left alone by the steps of a component.\<close>

definition keeps :: "'a ipc_state_scheme \<Rightarrow> msg_ref list \<Rightarrow> 'a ipc_state_scheme \<Rightarrow> bool" where
  "keeps s Q t \<longleftrightarrow>
     (\<forall>m. m \<in> set Q \<or> reply_pool_owns m s \<longrightarrow> msgs t m = msgs s m) \<and> g_reply_pool t = g_reply_pool s \<and>
     g_reply_pool_inuse t = g_reply_pool_inuse s \<and> mq_stub (g_disp_mpsc t) = mq_stub (g_disp_mpsc s) \<and>
     g_detached t = g_detached s"

lemma keeps_refl [simp]: "keeps s Q s"
  by (simp add: keeps_def)

lemma keeps_trans: "keeps s Q t \<Longrightarrow> keeps t (Q @ new) u \<Longrightarrow> keeps s Q u"
  by (auto simp: keeps_def reply_pool_owns_def)

lemma count_for_cong: "(\<And>m. m \<in> set Q \<Longrightarrow> msgs t m = msgs s m) \<Longrightarrow> count_for t Q r = count_for s Q r"
  unfolding count_for_def by (auto intro!: arg_cong [of _ _ length] filter_cong)

lemma inv_router_same:
  assumes "ipc_inv busy s Q" "router_same s t"
  shows "ipc_inv busy t Q \<and> keeps s Q t"
proof -
  have c: "count_for t Q r = count_for s Q r" for r
    using assms(2) by (intro count_for_cong) (simp add: router_same_def)
  show ?thesis
    using assms router_same_queue [OF assms(2)] router_same_held [OF assms(2)] router_same_owns [OF assms(2)]
    unfolding ipc_inv_def c by (auto simp: router_same_def keeps_def)
qed

lemma inv_write:
  assumes "ipc_inv busy s Q" "sendable s m"
  shows "ipc_inv busy (set_msg m f s) Q \<and> keeps s Q (set_msg m f s)"
proof -
  have m: "m \<notin> set Q" "\<not> reply_pool_owns m s" using assms by (auto simp: ipc_inv_def sendable_def)
  have c: "count_for (set_msg m f s) Q r = count_for s Q r" for r
    using m(1) by (intro count_for_cong) (auto simp: set_msg_def)
  have q: "queue_is (set_msg m f s) Q" "held (set_msg m f s) = held s"
    using assms(1) by (auto simp: ipc_inv_def queue_is_def held_def set_msg_def)
  show ?thesis
    using assms(1) q m unfolding ipc_inv_def c by (auto simp: keeps_def set_msg_def reply_pool_owns_def)
qed

lemma inv_enqueue:
  assumes "ipc_inv busy s Q" and "m \<noteq> NULL" "im_dst_slot (msgs s m) \<noteq> NULL"
    and "node_of m \<noteq> NULL" "node_of m \<noteq> mq_stub (g_disp_mpsc s)" "m \<notin> set Q" "m \<notin> set (held s)"
  shows "ipc_inv busy (snd (nx_dispatcher_enqueue m s)) (Q @ [m])"
    and "keeps s Q (snd (nx_dispatcher_enqueue m s))"
proof -
  let ?t = "snd (nx_dispatcher_enqueue m s)"
  note E = enqueue_simps [OF assms(2,3)]
  have q: "queue_is ?t (Q @ [m])" using queue_enqueue assms by (auto simp: ipc_inv_def)
  have h: "held ?t = held s" using E(3) by (simp add: held_def)
  have c: "count_for ?t (Q @ [m]) r = count_for s Q r + (if r = im_dst_slot (msgs s m) then 1 else 0)" for r
    by (auto simp: count_for_def E(2))
  have f: "sl_in_flight_calls (slots ?t r) = of_nat (count_for ?t (Q @ [m]) r + busy r)" for r
    using assms(1) unfolding ipc_inv_def E(9) c by simp
  show "ipc_inv busy ?t (Q @ [m])"
    using assms q h f E by (auto simp: ipc_inv_def reply_pool_owns_def)
  show "keeps s Q ?t" using E by (simp add: keeps_def)
qed

definition upd_msgs :: "hold_ref \<Rightarrow> (msg_ref list \<Rightarrow> msg_ref list) \<Rightarrow> ipc_hold_entry list \<Rightarrow> ipc_hold_entry list" where
  "upd_msgs a f es = map (\<lambda>x. if he_addr x = a then x\<lparr>he_msgs := f (he_msgs x)\<rparr> else x) es"

lemma upd_msgs_addr [simp]: "map he_addr (upd_msgs a f es) = map he_addr es"
  by (simp add: upd_msgs_def)

lemma upd_msgs_mset:
  assumes "distinct (map he_addr es)" and "e \<in> set es"
  shows "mset (concat (map he_msgs (upd_msgs (he_addr e) f es))) + mset (he_msgs e) =
    mset (concat (map he_msgs es)) + mset (f (he_msgs e))"
  using assms
proof (induction es)
  case (Cons y es)
  show ?case
  proof (cases "y = e")
    case True
    then have "he_addr x \<noteq> he_addr e" if "x \<in> set es" for x
      using distinct_map_head [OF Cons.prems(1) that] True by simp
    then have "upd_msgs (he_addr e) f es = es"
      unfolding upd_msgs_def by (intro map_idI) auto
    then show ?thesis using True by (simp add: upd_msgs_def)
  next
    case False
    then have "e \<in> set es" "he_addr y \<noteq> he_addr e" using Cons.prems by auto
    then show ?thesis using Cons by (simp add: upd_msgs_def)
  qed
qed simp

lemma hold_message_form:
  assumes "ipc_disciplined E" "distinct (map he_addr (g_holds s @ g_detached s))"
  shows "snd (hold_message E m s) = s \<or>
    (\<exists>hs. snd (hold_message E m s) = s\<lparr>g_holds := hs\<rparr> \<and> distinct (map he_addr (hs @ g_detached s)) \<and>
       mset (concat (map he_msgs hs)) = add_mset m (mset (concat (map he_msgs (g_holds s)))))"
proof (cases "hold_find (im_src_slot (msgs s m)) (im_dst_slot (msgs s m)) s")
  case (Some e)
  then have e: "e \<in> set (g_holds s)" by (auto simp: hold_find_def find_Some_iff)
  let ?hs = "upd_msgs (he_addr e) (\<lambda>ms. ms @ [m]) (g_holds s)"
  have "snd (hold_message E m s) = s\<lparr>g_holds := ?hs\<rparr>"
    using Some by (simp add: hold_message_def hold_entry_for_def hold_enqueue_def hold_upd_def upd_msgs_def)
  moreover have "distinct (map he_addr (?hs @ g_detached s))"
    using assms(2) unfolding map_append upd_msgs_addr .
  moreover have "mset (concat (map he_msgs ?hs)) = add_mset m (mset (concat (map he_msgs (g_holds s))))"
    using upd_msgs_mset [OF _ e, of "\<lambda>ms. ms @ [m]"] assms(2) by simp
  ultimately show ?thesis by blast
next
  case None
  show ?thesis
  proof (cases "env_calloc E s")
    case None
    then show ?thesis using \<open>hold_find _ _ s = None\<close> by (simp add: hold_message_def hold_entry_for_def)
  next
    case (Some a)
    then have a: "a \<notin> he_addr ` set (g_holds s @ g_detached s)" using assms(1) by (simp add: ipc_disciplined_def)
    let ?e = "\<lparr>he_addr = a, he_src = im_src_slot (msgs s m), he_dst = im_dst_slot (msgs s m), he_msgs = [m]\<rparr>"
    have "map (\<lambda>e. if he_addr e = a then e\<lparr>he_msgs := he_msgs e @ [m]\<rparr> else e) (g_holds s) = g_holds s"
      using a by (intro map_idI) auto
    then have "snd (hold_message E m s) = s\<lparr>g_holds := ?e # g_holds s\<rparr>"
      using Some \<open>hold_find _ _ s = None\<close>
      by (simp add: hold_message_def hold_entry_for_def hold_enqueue_def hold_upd_def)
    then show ?thesis using a assms(2) by (intro disjI2 exI [of _ "?e # g_holds s"]) auto
  qed
qed

lemma inv_hold:
  assumes "ipc_disciplined E" "ipc_inv busy s Q" "sendable s m"
  shows "ipc_inv busy (snd (hold_message E m s)) Q \<and> keeps s Q (snd (hold_message E m s))"
proof -
  have d: "distinct (map he_addr (g_holds s @ g_detached s))" using assms(2) by (simp add: ipc_inv_def)
  consider "snd (hold_message E m s) = s"
    | hs where "snd (hold_message E m s) = s\<lparr>g_holds := hs\<rparr>" "distinct (map he_addr (hs @ g_detached s))"
      "mset (concat (map he_msgs hs)) = add_mset m (mset (concat (map he_msgs (g_holds s))))"
    using hold_message_form [OF assms(1) d] by blast
  then show ?thesis
  proof cases
    case 1
    then show ?thesis using assms(2) by simp
  next
    case 2
    let ?t = "s\<lparr>g_holds := hs\<rparr>"
    have ms: "mset (held ?t) = mset (m # held s)" using 2(3) by (simp add: held_def)
    have m: "m \<notin> set Q" "m \<notin> set (held s)" using assms(2,3) by (auto simp: sendable_def ipc_inv_def)
    have "mset (Q @ held ?t) = mset (Q @ m # held s)" using ms by simp
    then have "distinct (Q @ held ?t) = distinct (Q @ m # held s)" by (rule mset_eq_imp_distinct_iff)
    then have dist: "distinct (Q @ held ?t)" using assms(2) m by (auto simp: ipc_inv_def)
    have set: "set (held ?t) = insert m (set (held s))" using mset_eq_setD [OF ms] by simp
    have q: "queue_is ?t Q" using assms(2) by (simp add: ipc_inv_def queue_is_def)
    have "count_for ?t Q r = count_for s Q r" for r by (simp add: count_for_def)
    then show ?thesis
      using assms(2,3) dist set q 2(1,2) by (auto simp: ipc_inv_def keeps_def sendable_def reply_pool_owns_def)
  qed
qed

lemma acts_inv:
  assumes "ipc_acts E s t" "ipc_disciplined E" "ipc_inv busy s Q"
  shows "\<exists>new. ipc_inv busy t (Q @ new) \<and> keeps s Q t \<and> (\<forall>m \<in> set new. \<not> reply_pool_owns m s)"
  using assms(1)
proof (induction rule: ipc_acts.induct)
  case ia_none
  show ?case using assms(3) by (intro exI [of _ "[]"]) simp
next
  case (ia_other t u)
  then show ?case using inv_router_same keeps_trans by blast
next
  case (ia_write t m f)
  then show ?case using inv_write keeps_trans by blast
next
  case (ia_enqueue t m)
  then obtain new where t: "ipc_inv busy t (Q @ new)" "keeps s Q t" "\<forall>m \<in> set new. \<not> reply_pool_owns m s" by blast
  show ?case
  proof (cases "m = NULL \<or> im_dst_slot (msgs t m) = NULL")
    case True
    then show ?thesis using t enqueue_fails [OF True] by auto
  next
    case False
    have m: "node_of m \<noteq> NULL" "node_of m \<noteq> mq_stub (g_disp_mpsc t)" "m \<notin> set (Q @ new)" "m \<notin> set (held t)"
      "\<not> reply_pool_owns m t"
      using ia_enqueue.hyps(2) t(1) by (auto simp: sendable_def ipc_inv_def)
    have "ipc_inv busy (snd (nx_dispatcher_enqueue m t)) (Q @ new @ [m])"
      "keeps t (Q @ new) (snd (nx_dispatcher_enqueue m t))"
      using inv_enqueue [OF t(1) _ _ m(1-4)] False by auto
    moreover have "\<not> reply_pool_owns m s" using m(5) t(2) by (simp add: keeps_def reply_pool_owns_def)
    ultimately show ?thesis using t(2,3) keeps_trans by (intro exI [of _ "new @ [m]"]) auto
  qed
next
  case (ia_hold t m)
  then show ?case using inv_hold [OF assms(2)] keeps_trans by blast
qed

section \<open>The pool hands out the lowest free reply\<close>

lemma lowest_clear:
  fixes cur :: u64
  assumes "cur \<noteq> NOT 0"
  obtains k where "k < 64" "\<not> bit cur k" "\<And>j. j < k \<Longrightarrow> bit cur j" "NOT cur AND (cur + 1) = push_bit k 1"
proof -
  have ex: "\<exists>k. k < 64 \<and> \<not> bit cur k"
  proof (rule ccontr)
    assume "\<not> ?thesis"
    then have "cur = NOT 0" by (intro bit_word_eqI) (auto simp: bit_not_iff)
    then show False using assms by simp
  qed
  define k where "k = (LEAST k. k < 64 \<and> \<not> bit cur k)"
  have k: "k < 64" "\<not> bit cur k" using LeastI_ex [OF ex] by (simp_all add: k_def)
  have low: "bit cur j" if "j < k" for j
    using not_less_Least [of j "\<lambda>k. k < 64 \<and> \<not> bit cur k"] that k(1) by (simp add: k_def)
  define y where "y = push_bit (Suc k) (drop_bit (Suc k) cur)"
  have yb: "bit y n \<longleftrightarrow> Suc k \<le> n \<and> bit cur n" for n
    unfolding y_def bit_push_bit_iff bit_drop_bit_eq by (auto dest: bit_imp_le_length)
  have cb: "bit cur n \<longleftrightarrow> n < k \<or> bit y n" for n
    using k(2) low by (cases n k rule: linorder_cases) (auto simp: yb)
  have "cur = mask k OR y"
    by (intro bit_word_eqI) (simp add: bit_or_iff bit_mask_iff cb)
  also have "\<dots> = mask k + y"
    by (rule disjunctive_add [symmetric]) (auto simp: bit_mask_iff yb)
  finally have "cur + 1 = 2 ^ k + y" by (simp add: mask_eq_exp_minus_1)
  also have "\<dots> = push_bit k 1 OR y"
    by (subst disjunctive_add) (auto simp: push_bit_of_1 bit_exp_iff yb)
  finally have c1: "cur + 1 = push_bit k 1 OR y" .
  have "NOT cur AND (cur + 1) = push_bit k 1"
    unfolding c1 using k by (intro bit_word_eqI) (auto simp: bit_and_iff bit_not_iff bit_or_iff yb push_bit_of_1 bit_exp_iff)
  then show thesis using that k low by blast
qed

lemma bit_index_push: "k < n \<Longrightarrow> n \<le> 64 \<Longrightarrow> bit_index n (push_bit k 1) = k"
proof (induction k arbitrary: n)
  case 0
  then show ?case by (cases n) auto
next
  case (Suc k)
  then obtain l where n: "n = Suc l" "k < l" by (cases n) auto
  have "push_bit (Suc k) 1 AND (1 :: u64) = 0"
    by (intro bit_word_eqI) (auto simp: bit_and_iff push_bit_of_1 bit_exp_iff bit_1_iff simp del: power_Suc push_bit_Suc)
  moreover have "drop_bit 1 (push_bit (Suc k) 1) = (push_bit k 1 :: u64)"
    using Suc.prems by (intro bit_word_eqI) (auto simp: bit_drop_bit_eq push_bit_of_1 bit_exp_iff simp del: power_Suc push_bit_Suc)
  ultimately show ?case using Suc n by simp
qed

definition pool_bit :: "u64 list \<Rightarrow> nat \<Rightarrow> bool" where
  "pool_bit ws i \<longleftrightarrow> bit (ws ! (i div 64)) (i mod 64)"

lemma pool_bit_Cons: "pool_bit (x # ws) i \<longleftrightarrow> (if i < 64 then bit x i else pool_bit ws (i - 64))"
  by (auto simp: pool_bit_def nth_Cons' le_div_geq le_mod_geq)

lemma all_block: "(\<forall>l < 64 + n. P l) \<longleftrightarrow> (\<forall>l < 64. P l) \<and> (\<forall>l < n. P (64 + l))" for n :: nat
proof safe
  fix l
  assume "\<forall>l < 64. P l" "\<forall>l < n. P (64 + l)" "l < 64 + n"
  then show "P l" by (cases "l < 64") (simp, metis add_less_cancel_left le_add_diff_inverse not_le)
qed simp_all

lemma pool_scan:
  assumes "w + length ws = NX_REPLY_POOL_BITMAP_WORDS"
  shows "case reply_pool_scan w ws of
      None \<Rightarrow> \<forall>i < length ws * 64. pool_bit ws i
    | Some (i, vs) \<Rightarrow> \<exists>j. i = w * 64 + j \<and> j < length ws * 64 \<and> \<not> pool_bit ws j \<and> (\<forall>l < j. pool_bit ws l) \<and>
        length vs = length ws \<and> (\<forall>l < length ws * 64. pool_bit vs l \<longleftrightarrow> pool_bit ws l \<or> l = j)"
  using assms
proof (induction ws arbitrary: w)
  case Nil
  then show ?case by simp
next
  case (Cons x ws)
  show ?case
  proof (cases "x = NOT 0")
    case True
    have full: "pool_bit (x # ws) l \<longleftrightarrow> l < 64 \<or> pool_bit ws (l - 64)" for l
      using True by (simp add: pool_bit_Cons bit_not_iff)
    have IH: "case reply_pool_scan (w + 1) ws of None \<Rightarrow> \<forall>i < length ws * 64. pool_bit ws i
      | Some (i, vs) \<Rightarrow> \<exists>j. i = (w + 1) * 64 + j \<and> j < length ws * 64 \<and> \<not> pool_bit ws j \<and> (\<forall>l < j. pool_bit ws l) \<and>
          length vs = length ws \<and> (\<forall>l < length ws * 64. pool_bit vs l \<longleftrightarrow> pool_bit ws l \<or> l = j)"
      using Cons.prems by (intro Cons.IH) simp
    show ?thesis
    proof (cases "reply_pool_scan (w + 1) ws")
      case None
      then have r: "reply_pool_scan w (x # ws) = None" using True by simp
      show ?thesis unfolding r using IH None by (simp add: full all_block)
    next
      case (Some p)
      obtain i vs where p: "p = (i, vs)" by (cases p)
      obtain j where j: "i = (w + 1) * 64 + j" "j < length ws * 64" "\<not> pool_bit ws j" "\<forall>l < j. pool_bit ws l"
        "length vs = length ws" "\<forall>l < length ws * 64. pool_bit vs l \<longleftrightarrow> pool_bit ws l \<or> l = j"
        using IH Some p by auto
      have r: "reply_pool_scan w (x # ws) = Some (i, x # vs)" using True Some p by simp
      have fullv: "pool_bit (x # vs) l \<longleftrightarrow> l < 64 \<or> pool_bit vs (l - 64)" for l
        using True by (simp add: pool_bit_Cons bit_not_iff)
      show ?thesis
        unfolding r using j by (simp add: full fullv all_block exI [of _ "64 + j"])
    qed
  next
    case False
    obtain k where k: "k < 64" "\<not> bit x k" "\<And>j. j < k \<Longrightarrow> bit x j" "NOT x AND (x + 1) = push_bit k 1"
      using lowest_clear [OF False] by blast
    have r: "reply_pool_scan w (x # ws) = Some (w * 64 + k, (x OR push_bit k 1) # ws)"
      using False Cons.prems k(1) bit_index_push [of k 64] by (simp add: k(4) Let_def)
    show ?thesis
      unfolding r using k
      by (auto simp: pool_bit_Cons bit_or_iff push_bit_of_1 bit_exp_iff intro!: exI [of _ k])
  qed
qed

text \<open>The entries in use are those in the set \<open>X\<close>, and what is in the pool's memory is a reply.\<close>

definition pool_inv :: "'a ipc_state_scheme \<Rightarrow> msg_ref set \<Rightarrow> bool" where
  "pool_inv s X \<longleftrightarrow>
     length (g_reply_pool_inuse s) = NX_REPLY_POOL_BITMAP_WORDS \<and> g_reply_pool s \<noteq> NULL \<and>
     unat (g_reply_pool s) + NX_REPLY_POOL_SIZE * reply_entry_size < 2 ^ 64 \<and>
     (\<forall>i < NX_REPLY_POOL_SIZE. node_of (reply_entry s i) \<noteq> mq_stub (g_disp_mpsc s)) \<and>
     (\<forall>i < NX_REPLY_POOL_SIZE. pool_bit (g_reply_pool_inuse s) i \<longleftrightarrow> reply_entry s i \<in> X) \<and>
     (\<forall>m \<in> X. reply_pool_owns m s \<longrightarrow>
        (\<exists>i < NX_REPLY_POOL_SIZE. m = reply_entry s i) \<and> im_flags (msgs s m) = NX_MSG_FLAG_REPLY)"

definition pool_placed :: "'a ipc_state_scheme \<Rightarrow> bool" where
  "pool_placed s \<longleftrightarrow>
     g_reply_pool s \<noteq> NULL \<and> unat (g_reply_pool s) + NX_REPLY_POOL_SIZE * reply_entry_size < 2 ^ 64"

lemma pool_inv_placed: "pool_inv s X \<Longrightarrow> pool_placed s"
  by (simp add: pool_inv_def pool_placed_def)

lemma entry_unat:
  assumes "pool_placed s" "i < NX_REPLY_POOL_SIZE"
  shows "unat (reply_entry s i) = unat (g_reply_pool s) + i * reply_entry_size"
  using assms by (simp add: reply_entry_def pool_placed_def unat_word_ariths unat_of_nat)

lemma entry_facts:
  assumes "pool_placed s" "i < NX_REPLY_POOL_SIZE"
  shows "reply_entry s i \<noteq> NULL" "node_of (reply_entry s i) \<noteq> NULL" "reply_pool_owns (reply_entry s i) s"
    "unat (reply_entry s i - g_reply_pool s) div reply_entry_size = i"
proof -
  note u = entry_unat [OF assms]
  have base: "unat (g_reply_pool s) > 0" using assms(1) by (simp add: pool_placed_def unat_gt_0)
  then have "unat (reply_entry s i) \<noteq> 0" using u by simp
  then show n: "reply_entry s i \<noteq> NULL" by (metis unat_0)
  have "unat (node_of (reply_entry s i)) = unat (g_reply_pool s) + i * reply_entry_size + 72"
    using u assms by (simp add: node_of_def unat_word_ariths pool_placed_def)
  then show "node_of (reply_entry s i) \<noteq> NULL" by (metis add_is_0 unat_0 zero_neq_numeral)
  have "unat (g_reply_pool s + of_nat (NX_REPLY_POOL_SIZE * reply_entry_size)) =
      unat (g_reply_pool s) + NX_REPLY_POOL_SIZE * reply_entry_size"
    using assms(1) by (simp add: unat_word_ariths pool_placed_def)
  then show "reply_pool_owns (reply_entry s i) s"
    using n u assms(2) unfolding reply_pool_owns_def word_le_nat_alt word_less_nat_alt by simp
  have "unat (reply_entry s i - g_reply_pool s) = i * reply_entry_size"
    using assms by (simp add: reply_entry_def unat_of_nat unat_word_ariths)
  then show "unat (reply_entry s i - g_reply_pool s) div reply_entry_size = i" by simp
qed

lemma entry_inj:
  assumes "pool_placed s" "i < NX_REPLY_POOL_SIZE" "j < NX_REPLY_POOL_SIZE"
  shows "reply_entry s i = reply_entry s j \<longleftrightarrow> i = j"
  using entry_facts(4) [OF assms(1,2)] entry_facts(4) [OF assms(1,3)] by metis

lemma pool_keeps:
  assumes "pool_inv s (set Q \<union> X)" "keeps s Q t" "\<And>m. m \<in> set new \<Longrightarrow> \<not> reply_pool_owns m s"
  shows "pool_inv t (set (Q @ new) \<union> X)"
proof -
  have p: "g_reply_pool t = g_reply_pool s" "g_reply_pool_inuse t = g_reply_pool_inuse s"
    "mq_stub (g_disp_mpsc t) = mq_stub (g_disp_mpsc s)" using assms(2) by (simp_all add: keeps_def)
  have e: "reply_entry t = reply_entry s" by (rule ext) (simp add: reply_entry_def p)
  have o: "reply_pool_owns m t = reply_pool_owns m s" for m by (simp add: reply_pool_owns_def p)
  have "reply_entry s i \<notin> set new" if "i < NX_REPLY_POOL_SIZE" for i
    using entry_facts(3) [OF pool_inv_placed [OF assms(1)] that] assms(3) by blast
  moreover have "msgs t m = msgs s m" if "reply_pool_owns m s" for m using assms(2) that by (simp add: keeps_def)
  ultimately show ?thesis
    using assms(1,3) unfolding pool_inv_def p e o by auto
qed

lemma pool_alloc:
  assumes inv: "pool_inv s X" and a: "reply_pool_alloc s = Some (i, t)"
  obtains ws where "t = s\<lparr>g_reply_pool_inuse := ws\<rparr>" "i < NX_REPLY_POOL_SIZE" "reply_entry s i \<notin> X"
    "length ws = NX_REPLY_POOL_BITMAP_WORDS"
    "\<And>l. l < NX_REPLY_POOL_SIZE \<Longrightarrow> pool_bit ws l \<longleftrightarrow> reply_entry s l \<in> insert (reply_entry s i) X"
proof -
  have len: "length (g_reply_pool_inuse s) = 4" using inv by (simp add: pool_inv_def)
  obtain ws where ws: "reply_pool_scan 0 (g_reply_pool_inuse s) = Some (i, ws)" "t = s\<lparr>g_reply_pool_inuse := ws\<rparr>"
    using a by (auto simp: reply_pool_alloc_def split: option.splits)
  have sc: "i < 256" "\<not> pool_bit (g_reply_pool_inuse s) i" "length ws = 4"
    "\<And>l. l < 256 \<Longrightarrow> pool_bit ws l \<longleftrightarrow> pool_bit (g_reply_pool_inuse s) l \<or> l = i"
    using pool_scan [of 0 "g_reply_pool_inuse s"] len ws(1) by auto
  have e: "\<And>l. l < 256 \<Longrightarrow> pool_bit (g_reply_pool_inuse s) l \<longleftrightarrow> reply_entry s l \<in> X"
    using inv by (simp add: pool_inv_def)
  show thesis
    using that [OF ws(2) sc(1)] sc e entry_inj [OF pool_inv_placed [OF inv] _ sc(1)] by auto
qed

lemma pool_alloc_None:
  assumes "pool_inv s X" and "reply_pool_alloc s = None" and "i < NX_REPLY_POOL_SIZE"
  shows "reply_entry s i \<in> X"
proof -
  have "reply_pool_scan 0 (g_reply_pool_inuse s) = None"
    using assms(2) by (auto simp: reply_pool_alloc_def split: option.splits)
  then have "\<forall>i < 256. pool_bit (g_reply_pool_inuse s) i"
    using pool_scan [of 0 "g_reply_pool_inuse s"] assms(1) by (auto simp: pool_inv_def)
  then show ?thesis using assms by (simp add: pool_inv_def)
qed

lemma pool_free:
  assumes "pool_inv s X" "i < NX_REPLY_POOL_SIZE"
  shows "pool_inv (reply_pool_free (reply_entry s i) s) (X - {reply_entry s i})"
    and "\<exists>ws. reply_pool_free (reply_entry s i) s = s\<lparr>g_reply_pool_inuse := ws\<rparr>"
proof -
  note P = pool_inv_placed [OF assms(1)] and f = entry_facts [OF pool_inv_placed [OF assms(1)] assms(2)]
  let ?ws = "g_reply_pool_inuse s"
  define vs where "vs = ?ws[i div 64 := (?ws ! (i div 64)) AND NOT (push_bit (i mod 64) 1)]"
  have eq: "reply_pool_free (reply_entry s i) s = s\<lparr>g_reply_pool_inuse := vs\<rparr>"
    using f assms(2) by (simp add: reply_pool_free_def Let_def vs_def)
  have len: "length ?ws = 4" using assms(1) by (simp add: pool_inv_def)
  have b: "pool_bit vs l \<longleftrightarrow> pool_bit ?ws l \<and> l \<noteq> i" if "l < 256" for l
  proof (cases "l div 64 = i div 64")
    case True
    then have "l = i \<longleftrightarrow> l mod 64 = i mod 64" by (metis mod_div_mult_eq)
    moreover have "l div 64 < 4" using that by simp
    ultimately show ?thesis
      using True len by (auto simp: pool_bit_def vs_def bit_and_iff bit_not_iff push_bit_of_1 bit_exp_iff
          dest: bit_imp_le_length)
  next
    case False
    then show ?thesis by (auto simp: pool_bit_def vs_def)
  qed
  have e: "reply_entry (s\<lparr>g_reply_pool_inuse := vs\<rparr>) = reply_entry s" by (rule ext) (simp add: reply_entry_def)
  have o: "reply_pool_owns m (s\<lparr>g_reply_pool_inuse := vs\<rparr>) = reply_pool_owns m s" for m by (simp add: reply_pool_owns_def)
  have "length vs = 4" by (simp add: vs_def len)
  then show "pool_inv (reply_pool_free (reply_entry s i) s) (X - {reply_entry s i})"
    using assms b entry_inj [OF P _ assms(2)] unfolding eq pool_inv_def e o by auto
  show "\<exists>ws. reply_pool_free (reply_entry s i) s = s\<lparr>g_reply_pool_inuse := ws\<rparr>" using eq by blast
qed

section \<open>A round keeps the accounts\<close>

lemma inv_inuse: "ipc_inv busy (s\<lparr>g_reply_pool_inuse := ws\<rparr>) Q \<longleftrightarrow> ipc_inv busy s Q"
  by (simp add: ipc_inv_def queue_is_def held_def reply_pool_owns_def count_for_def)

lemma inv_set_msg:
  assumes "ipc_inv busy s Q" "m \<notin> set Q"
  shows "ipc_inv busy (set_msg m f s) Q"
proof -
  have c: "count_for (set_msg m f s) Q r = count_for s Q r" for r
    using assms(2) by (intro count_for_cong) (auto simp: set_msg_def)
  show ?thesis
    using assms(1) unfolding ipc_inv_def c by (simp add: queue_is_def held_def set_msg_def reply_pool_owns_def)
qed

text \<open>The reply to the request \<open>req\<close>.\<close>

definition reply_to :: "nx_ipc_message \<Rightarrow> int \<Rightarrow> nx_ipc_message" where
  "reply_to q rc =
     \<lparr>im_src_slot = im_dst_slot q, im_dst_slot = im_src_slot q, im_msg_type = im_msg_type q,
      im_flags = NX_MSG_FLAG_REPLY, im_caps = [], im_payload_len = reply_len q,
      im_payload = Some (pad_payload (reply_payload q rc)), im_reply_payload_len = 0\<rparr>"

lemma reply_inv:
  assumes inv: "ipc_inv busy s Q" and pool: "pool_inv s (set Q)" and b: "build_reply m rc s = Some (e, t)"
    and src: "im_src_slot (msgs s m) \<noteq> NULL"
  defines "u \<equiv> snd (nx_dispatcher_enqueue e t)"
  shows "ipc_inv busy u (Q @ [e])" "pool_inv u (set (Q @ [e]))"
    "reply_pool_owns e s" "e \<notin> set Q" "msgs u = (msgs s)(e := reply_to (msgs s m) rc)"
proof -
  obtain i s1 where a: "reply_pool_alloc s = Some (i, s1)"
    and e: "e = reply_entry s1 i" and t: "t = set_msg e (\<lambda>_. reply_to (msgs s1 m) rc) s1"
    using b by (auto simp: build_reply_def reply_to_def Let_def split: option.splits)
  obtain ws where s1: "s1 = s\<lparr>g_reply_pool_inuse := ws\<rparr>" and i: "i < NX_REPLY_POOL_SIZE" "reply_entry s i \<notin> set Q"
    "length ws = NX_REPLY_POOL_BITMAP_WORDS"
    "\<And>l. l < NX_REPLY_POOL_SIZE \<Longrightarrow> pool_bit ws l \<longleftrightarrow> reply_entry s l \<in> insert (reply_entry s i) (set Q)"
    using pool_alloc [OF pool a] by blast
  have es: "e = reply_entry s i" by (simp add: e s1 reply_entry_def)
  note f = entry_facts [OF pool_inv_placed [OF pool] i(1), folded es]
  have m1: "msgs t = (msgs s)(e := reply_to (msgs s m) rc)" by (simp add: t s1 set_msg_def)
  have inv_t: "ipc_inv busy t Q" unfolding t s1 using inv i(2) es by (intro inv_set_msg) (simp_all add: inv_inuse)
  have stub: "node_of e \<noteq> mq_stub (g_disp_mpsc t)" using pool i(1) es by (simp add: t s1 set_msg_def pool_inv_def)
  have held: "e \<notin> set (held t)" using inv f(3) by (auto simp: t s1 set_msg_def held_def ipc_inv_def)
  have dst: "im_dst_slot (msgs t e) \<noteq> NULL" using src by (simp add: m1 reply_to_def)
  note E = enqueue_simps [OF f(1) dst]
  show "ipc_inv busy u (Q @ [e])" unfolding u_def
    using inv_enqueue(1) [OF inv_t f(1) dst f(2) stub _ held] i(2) es by simp
  show "reply_pool_owns e s" "e \<notin> set Q" using f(3) i(2) es by simp_all
  show mu: "msgs u = (msgs s)(e := reply_to (msgs s m) rc)" by (simp add: u_def E(2) m1)
  have p: "g_reply_pool u = g_reply_pool s" "g_reply_pool_inuse u = ws" "mq_stub (g_disp_mpsc u) = mq_stub (g_disp_mpsc s)"
    using E(6-8) by (simp_all add: u_def t s1 set_msg_def)
  have en: "reply_entry u = reply_entry s" by (rule ext) (simp add: reply_entry_def p)
  have o: "reply_pool_owns k u = reply_pool_owns k s" for k by (simp add: reply_pool_owns_def p)
  show "pool_inv u (set (Q @ [e]))"
    unfolding pool_inv_def p en o mu using pool i es by (auto simp: pool_inv_def reply_to_def)
qed

text \<open>
  The end of a round, for a message in the dispatcher's hand. The set of pool entries in use is the queue and that
  message, if it is a reply.
\<close>

definition in_hand :: "'a ipc_state_scheme \<Rightarrow> msg_ref \<Rightarrow> msg_ref set" where
  "in_hand s m = (if reply_pool_owns m s then {m} else {})"

lemma pump_reply_inv:
  assumes inv: "ipc_inv (\<lambda>_. 0) s Q" and pool: "pool_inv s (set Q \<union> in_hand s m)" and m: "reply_pool_owns m s \<Longrightarrow> m \<notin> set Q"
    and rr: "reply_requested \<Longrightarrow> \<not> reply_pool_owns m s" and fr: "free_it \<longleftrightarrow> reply_pool_owns m s"
    and p: "pump_reply reply_requested free_it m rc s = Some t"
  shows "\<exists>rs. ipc_inv (\<lambda>_. 0) t (Q @ rs) \<and> pool_inv t (set (Q @ rs)) \<and> (\<forall>k \<in> set Q. msgs t k = msgs s k) \<and>
    (if reply_requested \<and> im_src_slot (msgs s m) \<noteq> NULL
     then \<exists>r. rs = [r] \<and> reply_pool_owns r t \<and> msgs t r = reply_to (msgs s m) rc
     else rs = [])"
proof (cases "reply_requested \<and> im_src_slot (msgs s m) \<noteq> NULL")
  case True
  then have "\<not> free_it" "in_hand s m = {}" using rr fr by (auto simp: in_hand_def)
  moreover from this True p obtain e u where b: "build_reply m rc s = Some (e, u)" "t = snd (nx_dispatcher_enqueue e u)"
    by (auto simp: pump_reply_def split: option.splits)
  moreover have "pool_inv s (set Q)" using pool calculation(2) by simp
  note R = reply_inv [OF inv this b(1), folded b(2)]
  have "reply_pool_owns e t \<longleftrightarrow> reply_pool_owns e s"
    using R(2) b unfolding reply_pool_owns_def nx_dispatcher_enqueue_def
    by (auto simp: Let_def set_slot_def build_reply_def reply_pool_alloc_def set_msg_def split: option.splits)
  then show ?thesis using True R by (intro exI [of _ "[e]"]) auto
next
  case False
  then have t: "t = (if free_it then reply_pool_free m s else s)" using p by (auto simp: pump_reply_def)
  show ?thesis
  proof (cases free_it)
    case True
    then have own: "reply_pool_owns m s" using fr by simp
    then obtain i where i: "i < NX_REPLY_POOL_SIZE" "m = reply_entry s i"
      using pool by (auto simp: pool_inv_def in_hand_def)
    note F = pool_free [OF pool i(1), folded i(2)]
    obtain ws where ws: "t = s\<lparr>g_reply_pool_inuse := ws\<rparr>" using F(2) t True by auto
    have "ipc_inv (\<lambda>_. 0) t Q" unfolding ws inv_inuse by (rule inv)
    moreover have "(set Q \<union> in_hand s m) - {m} = set Q" using m own by (auto simp: in_hand_def)
    then have "pool_inv t (set Q)" using F(1) t True by simp
    moreover have "msgs t = msgs s" by (simp add: ws)
    ultimately show ?thesis using False by (intro exI [of _ "[]"]) simp
  next
    case f: False
    then show ?thesis using inv pool t fr False by (intro exI [of _ "[]"]) (auto simp: in_hand_def)
  qed
qed

definition one_at :: "slot_ref \<Rightarrow> slot_ref \<Rightarrow> nat" where
  "one_at d r = (if r = d then 1 else 0)"

lemma in_flight_done_simps [simp]:
  "msgs (in_flight_done d s) = msgs s" "g_reply_pool (in_flight_done d s) = g_reply_pool s"
  "g_reply_pool_inuse (in_flight_done d s) = g_reply_pool_inuse s" "g_disp_mpsc (in_flight_done d s) = g_disp_mpsc s"
  "g_holds (in_flight_done d s) = g_holds s" "g_detached (in_flight_done d s) = g_detached s"
  "g_disp_mpsc_initialized (in_flight_done d s) = g_disp_mpsc_initialized s"
  "g_disp_pending (in_flight_done d s) = g_disp_pending s"
  by (simp_all add: in_flight_done_def set_slot_def)

lemma in_flight_done_inv:
  assumes "ipc_inv (one_at d) s Q"
  shows "ipc_inv (\<lambda>_. 0) (in_flight_done d s) Q"
proof -
  have "sl_in_flight_calls (slots (in_flight_done d s) r) = of_nat (count_for s Q r)" for r
    using assms by (auto simp: ipc_inv_def in_flight_done_def set_slot_def one_at_def)
  then show ?thesis
    using assms by (simp add: ipc_inv_def queue_is_def held_def reply_pool_owns_def count_for_def)
qed

lemma pool_same:
  assumes "g_reply_pool t = g_reply_pool s" "g_reply_pool_inuse t = g_reply_pool_inuse s" "msgs t = msgs s"
    "mq_stub (g_disp_mpsc t) = mq_stub (g_disp_mpsc s)"
  shows "pool_inv t X \<longleftrightarrow> pool_inv s X"
  using assms by (simp add: pool_inv_def reply_entry_def reply_pool_owns_def)

text \<open>Taking the oldest message from the queue.\<close>

lemma take_inv:
  assumes inv: "ipc_inv (\<lambda>_. 0) s (m # R)" and pool: "pool_inv s (set (m # R))" and init: "g_disp_mpsc_initialized s"
    and pop: "nx_mpsc_pop (g_disp_mpsc s) = (n, q)"
  defines "t \<equiv> s\<lparr>g_disp_mpsc := q, g_disp_pending := g_disp_pending s - 1\<rparr>"
  shows "n = node_of m" "n \<noteq> NULL" "ipc_inv (one_at (im_dst_slot (msgs s m))) t R" "pool_inv t (set R \<union> in_hand s m)"
    "m \<notin> set R"
proof -
  have q: "queue_is s (m # R)" using inv by (simp add: ipc_inv_def)
  note P = queue_pop [OF q init pop]
  show "n = node_of m" "n \<noteq> NULL" using P(4) by auto
  show mR: "m \<notin> set R" using inv by (simp add: ipc_inv_def)
  have "queue_is t R" using P(1) queue_same [of t "s\<lparr>g_disp_mpsc := q\<rparr>"] by (simp add: t_def)
  moreover have "held t = held s" by (simp add: t_def held_def)
  moreover have "sl_in_flight_calls (slots t r) = of_nat (count_for t R r + one_at (im_dst_slot (msgs s m)) r)" for r
    using inv by (simp add: ipc_inv_def t_def count_for_def one_at_def)
  ultimately show "ipc_inv (one_at (im_dst_slot (msgs s m))) t R"
    using inv P(2) by (simp add: ipc_inv_def t_def reply_pool_owns_def)
  have "reply_entry s i \<in> set (m # R) \<longleftrightarrow> reply_entry s i \<in> set R \<union> in_hand s m" if "i < NX_REPLY_POOL_SIZE" for i
    using entry_facts(3) [OF pool_inv_placed [OF pool] that] by (auto simp: in_hand_def)
  moreover have "set R \<union> in_hand s m \<subseteq> set (m # R)" by (auto simp: in_hand_def)
  ultimately have "pool_inv s (set R \<union> in_hand s m)" using pool unfolding pool_inv_def by blast
  moreover have "pool_inv t (set R \<union> in_hand s m) \<longleftrightarrow> pool_inv s (set R \<union> in_hand s m)"
    using P(2) by (intro pool_same) (simp_all add: t_def)
  ultimately show "pool_inv t (set R \<union> in_hand s m)" by simp
qed

text \<open>What a round does to the queue: it takes the oldest message, and appends what the handler sent and the reply.\<close>

definition taken :: "'a ipc_state_scheme \<Rightarrow> 'a ipc_state_scheme" where
  "taken s = s\<lparr>g_disp_mpsc := snd (nx_mpsc_pop (g_disp_mpsc s)), g_disp_pending := g_disp_pending s - 1\<rparr>"

lemma pump_deliver_acts:
  assumes "ipc_disciplined E"
  shows "ipc_acts E s (snd (pump_deliver E m s))"
proof -
  let ?ctx = "\<lparr>ctx_point = NX_HOOK_IPC_RECV, ctx_u = ctx_ipc (im_src_slot (msgs s m)) (im_dst_slot (msgs s m)) m NULL\<rparr>"
  obtain a s1 where d: "nx_hook_dispatch (env_run E) ?ctx s = (a, s1)" by fastforce
  have s1: "ipc_acts E s s1"
    using dispatch_router_same [OF assms, of s ?ctx] d by (auto intro: ia_other [OF ia_none])
  have "ipc_acts E s1 (snd (invoke_handler E (im_dst_slot (msgs s m)) m s1))"
    using assms by (auto simp: invoke_handler_def Let_def ipc_disciplined_def ia_none split: option.splits)
  from ipc_acts_trans [OF this s1] show ?thesis
    using d s1 by (cases a) (simp_all add: pump_deliver_def Let_def)
qed

lemma pump_inv:
  assumes E: "ipc_disciplined E" and inv: "ipc_inv (\<lambda>_. 0) s (m # R)" and pool: "pool_inv s (set (m # R))"
    and p: "nx_dispatcher_pump_once E s = Some (n, t)" and d: "pump_deliver E m (taken s) = (rc, u)"
  shows "n = 1 \<and> (\<exists>new rs. queue_is u (R @ new) \<and> ipc_inv (\<lambda>_. 0) t (R @ new @ rs) \<and> pool_inv t (set (R @ new @ rs)) \<and>
     (\<forall>k \<in> set R. msgs t k = msgs s k) \<and> (\<forall>k \<in> set new. \<not> reply_pool_owns k s) \<and>
     (if im_flags (msgs s m) AND NX_MSG_FLAG_REPLY_REQUESTED \<noteq> 0 \<and> im_src_slot (msgs u m) \<noteq> NULL
      then \<exists>r. rs = [r] \<and> reply_pool_owns r t \<and> msgs t r = reply_to (msgs u m) rc
      else rs = []))"
proof -
  have init: "g_disp_mpsc_initialized s" using inv by (auto simp: ipc_inv_def queue_is_def split: if_splits)
  obtain nd q where pop: "nx_mpsc_pop (g_disp_mpsc s) = (nd, q)" by fastforce
  have tk: "taken s = s\<lparr>g_disp_mpsc := q, g_disp_pending := g_disp_pending s - 1\<rparr>" by (simp add: taken_def pop)
  note T = take_inv [OF inv pool init pop, folded tk]
  let ?dst = "im_dst_slot (msgs s m)" and ?v = "in_flight_done (im_dst_slot (msgs s m)) u"
  let ?rr = "im_flags (msgs s m) AND NX_MSG_FLAG_REPLY_REQUESTED \<noteq> 0"
  let ?fr = "im_flags (msgs s m) AND NX_MSG_FLAG_REPLY \<noteq> 0 \<and> reply_pool_owns m s"
  have "reply_pool_owns m (taken s) = reply_pool_owns m s" by (simp add: reply_pool_owns_def taken_def)
  then have pr: "pump_reply ?rr ?fr m rc ?v = Some t" and n: "n = 1"
    using p init pop T(1,2) d tk by (auto simp: nx_dispatcher_pump_once_def Let_def)
  have "ipc_acts E (taken s) u" using pump_deliver_acts [OF E, of "taken s" m] d by simp
  then obtain new where N: "ipc_inv (one_at ?dst) u (R @ new)" "keeps (taken s) R u"
    "\<forall>k \<in> set new. \<not> reply_pool_owns k (taken s)"
    using acts_inv [OF _ E T(3)] by blast
  have own: "reply_pool_owns k (taken s) = reply_pool_owns k s" "reply_pool_owns k ?v = reply_pool_owns k s" for k
    using N(2) by (simp_all add: keeps_def reply_pool_owns_def taken_def)
  have "pool_inv u (set (R @ new) \<union> in_hand s m)"
    using pool_keeps [OF T(4) N(2)] N(3) by blast
  then have pv: "pool_inv ?v (set (R @ new) \<union> in_hand ?v m)"
    using own by (simp add: pool_same [of ?v u] in_hand_def)
  have flags: "im_flags (msgs s m) = NX_MSG_FLAG_REPLY" if "reply_pool_owns m s"
    using pool that by (simp add: pool_inv_def)
  have mN: "m \<notin> set (R @ new)" if "reply_pool_owns m ?v"
    using N(3) T(5) that own by auto
  have rr: "\<not> reply_pool_owns m ?v" if ?rr using flags that own by auto
  have fr: "?fr \<longleftrightarrow> reply_pool_owns m ?v" using flags own by auto
  have mu: "msgs u k = msgs s k" if "k \<in> set R" for k using N(2) that by (simp add: keeps_def taken_def)
  obtain rs where rs: "ipc_inv (\<lambda>_. 0) t ((R @ new) @ rs)" "pool_inv t (set ((R @ new) @ rs))"
    "\<forall>k \<in> set (R @ new). msgs t k = msgs u k"
    "if ?rr \<and> im_src_slot (msgs u m) \<noteq> NULL
     then \<exists>r. rs = [r] \<and> reply_pool_owns r t \<and> msgs t r = reply_to (msgs u m) rc else rs = []"
    using pump_reply_inv [OF in_flight_done_inv [OF N(1)] pv mN rr fr pr, unfolded in_flight_done_simps] by blast
  show ?thesis
    apply (rule conjI [OF n], rule exI [of _ new], rule exI [of _ rs])
    using rs mu N(1,3) own by (simp add: ipc_inv_def)
qed

lemma pump_total:
  assumes E: "ipc_disciplined E" and inv: "ipc_inv (\<lambda>_. 0) s (m # R)" and pool: "pool_inv s (set (m # R))"
    and i: "i < NX_REPLY_POOL_SIZE" "reply_entry s i \<notin> set (m # R)"
  shows "nx_dispatcher_pump_once E s \<noteq> None"
proof
  assume p: "nx_dispatcher_pump_once E s = None"
  have init: "g_disp_mpsc_initialized s" using inv by (auto simp: ipc_inv_def queue_is_def split: if_splits)
  obtain nd q where pop: "nx_mpsc_pop (g_disp_mpsc s) = (nd, q)" by fastforce
  obtain rc u where d: "pump_deliver E m (taken s) = (rc, u)" by fastforce
  have tk: "taken s = s\<lparr>g_disp_mpsc := q, g_disp_pending := g_disp_pending s - 1\<rparr>" by (simp add: taken_def pop)
  note T = take_inv [OF inv pool init pop, folded tk]
  have "ipc_acts E (taken s) u" using pump_deliver_acts [OF E, of "taken s" m] d by simp
  then obtain new where N: "keeps (taken s) R u" "\<forall>k \<in> set new. \<not> reply_pool_owns k (taken s)"
    using acts_inv [OF _ E T(3)] by blast
  have pu: "pool_inv u (set (R @ new) \<union> in_hand s m)" using pool_keeps [OF T(4) N(1)] N(2) by blast
  let ?v = "in_flight_done (im_dst_slot (msgs s m)) u"
  have "build_reply m rc ?v = None"
    using p init pop T(1,2) d tk
    by (auto simp: nx_dispatcher_pump_once_def Let_def pump_reply_def split: option.splits if_splits)
  then have a: "reply_pool_alloc ?v = None" by (auto simp: build_reply_def Let_def split: option.splits)
  have pv: "pool_inv ?v (set (R @ new) \<union> in_hand s m)" using pu by (simp add: pool_same [of ?v u])
  have e: "reply_entry ?v i = reply_entry s i" using N(1) by (simp add: reply_entry_def keeps_def taken_def)
  from pool_alloc_None [OF pv a i(1)] have "reply_entry s i \<in> set (R @ new) \<union> in_hand s m" by (simp add: e)
  moreover have "reply_pool_owns (reply_entry s i) (taken s)"
    using entry_facts(3) [OF pool_inv_placed [OF pool] i(1)] by (simp add: reply_pool_owns_def taken_def)
  ultimately show False using i(2) N(2) by (auto simp: in_hand_def split: if_splits)
qed

section \<open>A flush keeps the accounts\<close>

definition disp_inv :: "'a ipc_state_scheme \<Rightarrow> msg_ref list \<Rightarrow> bool" where
  "disp_inv s Q \<longleftrightarrow> ipc_inv (\<lambda>_. 0) s Q \<and> pool_inv s (set Q)"

lemma distinct_submset:
  assumes "mset xs \<subseteq># mset ys" "distinct ys"
  shows "distinct xs"
  unfolding distinct_count_atmost_1
proof
  fix a
  have "count (mset xs) a \<le> count (mset ys) a" using assms(1) by (rule mset_subset_eq_count)
  also have "\<dots> \<le> 1" using assms(2) unfolding distinct_count_atmost_1 by simp
  finally show "count (mset xs) a = (if a \<in> set xs then 1 else 0)"
    using count_greater_zero_iff [of "mset xs" a] by (cases "count (mset xs) a") auto
qed

text \<open>Moving hold entries around, without losing or duplicating a message.\<close>

lemma inv_holds:
  assumes "ipc_inv busy s Q" and "mset (concat (map he_msgs (hs @ ds))) \<subseteq># mset (held s)"
    and "distinct (map he_addr (hs @ ds))"
  shows "ipc_inv busy (s\<lparr>g_holds := hs, g_detached := ds\<rparr>) Q"
proof -
  let ?t = "s\<lparr>g_holds := hs, g_detached := ds\<rparr>"
  have ms: "mset (held ?t) \<subseteq># mset (held s)" using assms(2) by (simp add: held_def)
  then have set: "set (held ?t) \<subseteq> set (held s)" by (metis set_mset_mono set_mset_mset)
  have "mset (Q @ held ?t) \<subseteq># mset (Q @ held s)" using ms by simp
  then have "distinct (Q @ held ?t)"
    by (rule distinct_submset) (use assms(1) in \<open>simp add: ipc_inv_def\<close>)
  moreover have "queue_is ?t Q \<longleftrightarrow> queue_is s Q" by (rule queue_same) simp_all
  moreover have "count_for ?t Q r = count_for s Q r" for r by (simp add: count_for_def)
  ultimately show ?thesis using assms(1,3) set by (auto simp: ipc_inv_def reply_pool_owns_def)
qed

lemma disp_inv_holds:
  assumes "disp_inv s Q" and "mset (concat (map he_msgs (hs @ ds))) \<subseteq># mset (held s)"
    and "distinct (map he_addr (hs @ ds))"
  shows "disp_inv (s\<lparr>g_holds := hs, g_detached := ds\<rparr>) Q"
  using assms(1) inv_holds [OF _ assms(2,3)] pool_same [of "s\<lparr>g_holds := hs, g_detached := ds\<rparr>" s]
  by (simp add: disp_inv_def)

lemma acts_disp_inv:
  assumes "ipc_acts E s t" "ipc_disciplined E" "disp_inv s Q"
  shows "\<exists>new. disp_inv t (Q @ new) \<and> keeps s Q t"
  using acts_inv [OF assms(1,2)] assms(3) pool_keeps [of s Q "{}" t] by (fastforce simp: disp_inv_def)

lemma filter_addr:
  assumes "distinct (map he_addr es)" "e \<in> set es"
  shows "filter (\<lambda>x. he_addr x \<noteq> he_addr e) es = remove1 e es"
  using assms
proof (induction es)
  case (Cons y es)
  show ?case
  proof (cases "y = e")
    case True
    then have "he_addr x \<noteq> he_addr e" if "x \<in> set es" for x
      using distinct_map_head [OF Cons.prems(1) that] True by simp
    then show ?thesis using True by (simp add: filter_id_conv)
  next
    case False
    then have "e \<in> set es" "he_addr y \<noteq> he_addr e" using Cons.prems by auto
    then show ?thesis using Cons False by simp
  qed
qed simp

lemma mset_msgs_remove1:
  "e \<in> set es \<Longrightarrow> mset (he_msgs e) + mset (concat (map he_msgs (remove1 e es))) = mset (concat (map he_msgs es))"
  by (induction es) auto

lemma detach_disp_inv:
  assumes "disp_inv s Q" "e \<in> set (g_holds s)"
  shows "disp_inv (detach_entry e s) Q"
proof -
  have d: "distinct (map he_addr (g_holds s @ g_detached s))" using assms(1) by (simp add: disp_inv_def ipc_inv_def)
  have f: "filter (\<lambda>x. he_addr x \<noteq> he_addr e) (g_holds s) = remove1 e (g_holds s)"
    using d assms(2) by (intro filter_addr) simp_all
  have m: "mset (concat (map he_msgs (remove1 e (g_holds s) @ e # g_detached s))) = mset (held s)"
    using mset_msgs_remove1 [OF assms(2)] by (simp add: held_def ac_simps)
  have "mset (remove1 e (g_holds s) @ e # g_detached s) = mset (g_holds s @ g_detached s)" using assms(2) by simp
  then have "mset (map he_addr (remove1 e (g_holds s) @ e # g_detached s)) = mset (map he_addr (g_holds s @ g_detached s))"
    by (simp only: mset_map)
  then have "distinct (map he_addr (remove1 e (g_holds s) @ e # g_detached s))"
    using d mset_eq_imp_distinct_iff by blast
  then show ?thesis using disp_inv_holds [OF assms(1)] m by (simp add: detach_entry_def f)
qed

lemma dequeue_disp_inv:
  assumes inv: "disp_inv s Q" and e: "e \<in> set (g_detached s)" "he_msgs e = m # rest"
  shows "disp_inv (hold_dequeue (he_addr e) rest s) Q" "sendable (hold_dequeue (he_addr e) rest s) m"
proof -
  let ?ds = "upd_msgs (he_addr e) (\<lambda>_. rest) (g_detached s)"
  let ?t = "hold_dequeue (he_addr e) rest s"
  have d: "distinct (map he_addr (g_holds s @ g_detached s))" and dist: "distinct (Q @ held s)"
    using inv by (simp_all add: disp_inv_def ipc_inv_def)
  have t: "?t = s\<lparr>g_holds := g_holds s, g_detached := ?ds\<rparr>" by (simp add: hold_dequeue_def upd_msgs_def)
  have "mset (concat (map he_msgs ?ds)) + mset (m # rest) = mset (concat (map he_msgs (g_detached s))) + mset rest"
    using upd_msgs_mset [OF _ e(1), of "\<lambda>_. rest"] d e(2) by simp
  then have ms: "add_mset m (mset (held ?t)) = mset (held s)" by (simp add: t held_def)
  have "distinct (map he_addr (g_holds s @ ?ds))" using d unfolding map_append upd_msgs_addr .
  moreover have sub: "mset (held ?t) \<subseteq># mset (held s)" using ms by (metis add_mset_remove_trivial diff_subset_eq_self)
  ultimately show inv_t: "disp_inv ?t Q" using disp_inv_holds [OF inv, of "g_holds s" ?ds] by (simp add: t held_def)
  have "mset (m # held ?t) = mset (held s)" using ms by simp
  then have "distinct (m # held ?t)" "m \<in> set (held s)"
    using dist mset_eq_imp_distinct_iff mset_eq_setD by (metis distinct_append, metis list.set_intros(1))
  moreover have "\<forall>R. queue_is ?t R \<longrightarrow> R = Q" using inv_t queue_unique by (auto simp: disp_inv_def ipc_inv_def)
  moreover have "mq_stub (g_disp_mpsc ?t) = mq_stub (g_disp_mpsc s)" "reply_pool_owns m ?t \<longleftrightarrow> reply_pool_owns m s"
    by (simp_all add: t reply_pool_owns_def)
  ultimately show "sendable ?t m"
    using inv dist by (auto simp: sendable_def disp_inv_def ipc_inv_def)
qed

lemma free_disp_inv:
  assumes inv: "disp_inv s Q"
  shows "disp_inv (free_entry a s) Q"
proof -
  let ?ds = "filter (\<lambda>e. he_addr e \<noteq> a) (g_detached s)"
  have d: "distinct (map he_addr (g_holds s @ g_detached s))" using inv by (simp add: disp_inv_def ipc_inv_def)
  have "distinct (map he_addr (g_holds s @ ?ds))" using d by (auto simp: distinct_map_filter)
  moreover have "mset (concat (map he_msgs (filter P es))) \<subseteq># mset (concat (map he_msgs es))" for P es
    by (induction es) (auto intro: subset_mset.add_mono subset_mset.add_increasing)
  then have "mset (concat (map he_msgs (g_holds s @ ?ds))) \<subseteq># mset (held s)" by (simp add: held_def)
  ultimately show ?thesis using disp_inv_holds [OF inv, of "g_holds s" ?ds] by (simp add: free_entry_def)
qed

lemma flush_entry_inv:
  assumes "flush_entry E a s = Some t" "ipc_disciplined E" "disp_inv s Q"
  shows "\<exists>new. disp_inv t (Q @ new)"
proof -
  let ?P = "\<lambda>E a s t. \<forall>Q. ipc_disciplined E \<longrightarrow> disp_inv s Q \<longrightarrow> (\<exists>new. disp_inv t (Q @ new))"
  have "?P E a s t"
  proof (rule flush_entry.raw_induct [where P = ?P, OF _ assms(1)], intro allI impI)
    fix f E a s t Q
    assume IH: "\<And>E a s t. f E a s = Some t \<Longrightarrow> ?P E a s t"
      and step: "(case find (\<lambda>e. he_addr e = a) (g_detached s) of None \<Rightarrow> None
        | Some e \<Rightarrow> (case he_msgs e of [] \<Rightarrow> Some (free_entry a s)
          | m # rest \<Rightarrow> f E a (snd (nx_ipc_send E m (hold_dequeue a rest s))))) = Some t"
      and E: "ipc_disciplined E" and inv: "disp_inv s Q"
    obtain e where e: "find (\<lambda>e. he_addr e = a) (g_detached s) = Some e" using step by (auto split: option.splits)
    then have mem: "e \<in> set (g_detached s)" "a = he_addr e" by (auto simp: find_Some_iff)
    show "\<exists>new. disp_inv t (Q @ new)"
    proof (cases "he_msgs e")
      case Nil
      then have "t = free_entry a s" using step e by simp
      then show ?thesis using free_disp_inv [OF inv] by (metis append_Nil2)
    next
      case (Cons m rest)
      note D = dequeue_disp_inv [OF inv mem(1) Cons, folded mem(2)]
      obtain new where n: "disp_inv (snd (nx_ipc_send E m (hold_dequeue a rest s))) (Q @ new)"
        using acts_disp_inv [OF do_send_acts [OF E D(2)] E D(1)] unfolding nx_ipc_send_def by blast
      have "f E a (snd (nx_ipc_send E m (hold_dequeue a rest s))) = Some t" using step e Cons by simp
      from IH [OF this] E n show ?thesis by (metis append_assoc)
    qed
  qed
  then show ?thesis using assms(2,3) by blast
qed

lemma at_cursor_mem:
  assumes "at_cursor pp s = Some (Some e)"
  shows "e \<in> set (g_holds s)"
proof -
  have hd: "e \<in> set xs" if "chain_head xs = Some e" for xs using that by (cases xs) (auto simp: chain_head_def)
  show ?thesis
  proof (cases pp)
    case None
    then show ?thesis using assms hd by (simp add: at_cursor_def)
  next
    case (Some a)
    then have "chain_head (tl (dropWhile (\<lambda>e. he_addr e \<noteq> a) (g_holds s))) = Some e"
      using assms by (simp add: at_cursor_def split: if_splits)
    from hd [OF this] have "e \<in> set (dropWhile (\<lambda>e. he_addr e \<noteq> a) (g_holds s))"
      by (cases "dropWhile (\<lambda>e. he_addr e \<noteq> a) (g_holds s)") auto
    then show ?thesis by (rule set_dropWhileD)
  qed
qed

lemma flush_walk_inv:
  assumes "flush_walk E dst pp s = Some t" "ipc_disciplined E" "disp_inv s Q"
  shows "\<exists>new. disp_inv t (Q @ new)"
proof -
  let ?P = "\<lambda>E dst pp s t. \<forall>Q. ipc_disciplined E \<longrightarrow> disp_inv s Q \<longrightarrow> (\<exists>new. disp_inv t (Q @ new))"
  have "?P E dst pp s t"
  proof (rule flush_walk.raw_induct [where P = ?P, OF _ assms(1)], intro allI impI)
    fix f E dst pp s t Q
    assume IH: "\<And>E dst pp s t. f E dst pp s = Some t \<Longrightarrow> ?P E dst pp s t"
      and step: "(case at_cursor pp s of None \<Rightarrow> None | Some None \<Rightarrow> Some s
        | Some (Some e) \<Rightarrow> if he_dst e \<noteq> dst then f E dst (Some (he_addr e)) s
            else Option.bind (flush_entry E (he_addr e) (detach_entry e s)) (f E dst pp)) = Some t"
      and E: "ipc_disciplined E" and inv: "disp_inv s Q"
    show "\<exists>new. disp_inv t (Q @ new)"
    proof (cases "at_cursor pp s")
      case None
      then show ?thesis using step by simp
    next
      case (Some c)
      show ?thesis
      proof (cases c)
        case None
        then have "t = s" using step Some by simp
        then show ?thesis using inv by (intro exI [of _ "[]"]) simp
      next
        case e: (Some e)
        show ?thesis
        proof (cases "he_dst e = dst")
          case False
          then have "f E dst (Some (he_addr e)) s = Some t" using step Some e by simp
          from IH [OF this] E inv show ?thesis by blast
        next
          case True
          then obtain u where u: "flush_entry E (he_addr e) (detach_entry e s) = Some u" "f E dst pp u = Some t"
            using step Some e by (auto simp: bind_eq_Some_conv)
          have "disp_inv (detach_entry e s) Q" using detach_disp_inv [OF inv at_cursor_mem] Some e by simp
          then obtain new where "disp_inv u (Q @ new)" using flush_entry_inv [OF u(1) E] by blast
          then show ?thesis using IH [OF u(2)] E by (metis append_assoc)
        qed
      qed
    qed
  qed
  then show ?thesis using assms(2,3) by blast
qed

section \<open>Histories\<close>

text \<open>
  The state before the first message: nothing queued or held, all replies free, and the pool somewhere in memory, away
  from the stub of the queue.
\<close>

definition disp_boot :: "'a ipc_state_scheme \<Rightarrow> bool" where
  "disp_boot s \<longleftrightarrow>
     \<not> g_disp_mpsc_initialized s \<and> mq_stub (g_disp_mpsc s) \<noteq> NULL \<and> g_holds s = [] \<and> g_detached s = [] \<and>
     (\<forall>r. sl_in_flight_calls (slots s r) = 0) \<and> g_disp_pending s = 0 \<and>
     g_reply_pool_inuse s = replicate NX_REPLY_POOL_BITMAP_WORDS 0 \<and> pool_placed s \<and>
     (\<forall>i < NX_REPLY_POOL_SIZE. node_of (reply_entry s i) \<noteq> mq_stub (g_disp_mpsc s))"

inductive disp_reach :: "'a ipc_state_scheme ipc_env \<Rightarrow> 'a ipc_state_scheme \<Rightarrow> bool" for E where
  dr_boot: "disp_boot s \<Longrightarrow> disp_reach E s"
| dr_acts: "disp_reach E s \<Longrightarrow> ipc_acts E s t \<Longrightarrow> disp_reach E t"
| dr_send: "disp_reach E s \<Longrightarrow> sendable s m \<Longrightarrow> disp_reach E (snd (nx_ipc_send E m s))"
| dr_flush: "disp_reach E s \<Longrightarrow> nx_ipc_flush_hold_queue E dst s = Some t \<Longrightarrow> disp_reach E t"
| dr_pump: "disp_reach E s \<Longrightarrow> nx_dispatcher_pump_once E s = Some (n, t) \<Longrightarrow> disp_reach E t"

lemma boot_inv: "disp_boot s \<Longrightarrow> disp_inv s []"
proof -
  assume b: "disp_boot s"
  have "\<not> pool_bit (replicate 4 0) i" if "i < 256" for i
    using that by (simp add: pool_bit_def)
  then show ?thesis
    using b by (auto simp: disp_boot_def disp_inv_def ipc_inv_def pool_inv_def pool_placed_def queue_is_def held_def count_for_def)
qed

lemma pump_empty:
  assumes "queue_is s []" "nx_dispatcher_pump_once E s = Some (n, t)"
  shows "n = 0 \<and> queue_is t [] \<and> t = s\<lparr>g_disp_mpsc := g_disp_mpsc t\<rparr> \<and> mq_stub (g_disp_mpsc t) = mq_stub (g_disp_mpsc s)"
proof (cases "g_disp_mpsc_initialized s")
  case True
  obtain nd q where pop: "nx_mpsc_pop (g_disp_mpsc s) = (nd, q)" by fastforce
  note P = queue_pop [OF assms(1) True pop]
  have "n = 0" "t = s\<lparr>g_disp_mpsc := q\<rparr>"
    using assms(2) True pop P(3) by (simp_all add: nx_dispatcher_pump_once_def Let_def)
  then show ?thesis using P(1,2) by simp
next
  case False
  then show ?thesis using assms by (simp add: nx_dispatcher_pump_once_def)
qed

lemma pump_disp_inv:
  assumes "ipc_disciplined E" "disp_inv s Q" "nx_dispatcher_pump_once E s = Some (n, t)"
  shows "\<exists>new. disp_inv t (tl Q @ new)"
proof (cases Q)
  case Nil
  then have q: "queue_is s []" using assms(2) by (simp add: disp_inv_def ipc_inv_def)
  note P = pump_empty [OF q assms(3)]
  then obtain u where u: "t = s\<lparr>g_disp_mpsc := u\<rparr>" "mq_stub u = mq_stub (g_disp_mpsc s)" by metis
  have "held t = held s" "count_for t [] r = count_for s [] r" for r by (simp_all add: u held_def count_for_def)
  then have "ipc_inv (\<lambda>_. 0) t []" using assms(2) P Nil u by (simp add: disp_inv_def ipc_inv_def reply_pool_owns_def)
  moreover have "pool_inv t {}" using assms(2) Nil pool_same [of t s] u by (simp add: disp_inv_def)
  ultimately show ?thesis by (simp add: Nil disp_inv_def exI [of _ "[]"])
next
  case (Cons m R)
  obtain rc u where d: "pump_deliver E m (taken s) = (rc, u)" by fastforce
  have "ipc_inv (\<lambda>_. 0) s (m # R)" "pool_inv s (set (m # R))" using assms(2) Cons by (simp_all add: disp_inv_def)
  from pump_inv [OF assms(1) this assms(3) d] obtain new rs
    where "ipc_inv (\<lambda>_. 0) t (R @ new @ rs)" "pool_inv t (set (R @ new @ rs))" by blast
  then show ?thesis using Cons by (intro exI [of _ "new @ rs"]) (simp add: disp_inv_def)
qed

lemma disp_reach_inv:
  assumes "ipc_disciplined E" "disp_reach E s"
  shows "\<exists>Q. disp_inv s Q"
  using assms(2)
proof (induction rule: disp_reach.induct)
  case (dr_boot s)
  then show ?case using boot_inv by blast
next
  case (dr_acts s t)
  then show ?case using acts_disp_inv [OF _ assms(1)] by blast
next
  case (dr_send s m)
  then show ?case using acts_disp_inv [OF do_send_acts [OF assms(1)] assms(1)] unfolding nx_ipc_send_def by blast
next
  case (dr_flush s dst t)
  show ?case
  proof (cases "dst = NULL")
    case True
    then show ?thesis using dr_flush by (simp add: nx_ipc_flush_hold_queue_def)
  next
    case False
    then have "flush_walk E dst None s = Some t" using dr_flush.hyps(2) by (simp add: nx_ipc_flush_hold_queue_def)
    from flush_walk_inv [OF this assms(1)] dr_flush.IH show ?thesis by blast
  qed
next
  case (dr_pump s n t)
  then show ?case using pump_disp_inv [OF assms(1)] by blast
qed

section \<open>Properties\<close>

lemma in_use_bits:
  "nx_dispatcher_reply_pool_in_use s = card {i. i < NX_REPLY_POOL_SIZE \<and> pool_bit (g_reply_pool_inuse s) i}"
proof -
  have b: "w AND push_bit n 1 \<noteq> 0 \<longleftrightarrow> bit w n" for w :: u64 and n
    by (metis bit_iff_and_push_bit_not_eq_0)
  have "nx_dispatcher_reply_pool_in_use s =
      length (filter (\<lambda>i. pool_bit (g_reply_pool_inuse s) i) [0..<NX_REPLY_POOL_SIZE])"
    unfolding nx_dispatcher_reply_pool_in_use_def pool_bit_def b ..
  also have "\<dots> = card (set (filter (\<lambda>i. pool_bit (g_reply_pool_inuse s) i) [0..<NX_REPLY_POOL_SIZE]))"
    by (rule distinct_card [symmetric]) simp
  also have "set (filter (\<lambda>i. pool_bit (g_reply_pool_inuse s) i) [0..<NX_REPLY_POOL_SIZE]) =
      {i. i < NX_REPLY_POOL_SIZE \<and> pool_bit (g_reply_pool_inuse s) i}" by auto
  finally show ?thesis .
qed

lemma in_use_replies:
  assumes "disp_inv s Q"
  shows "nx_dispatcher_reply_pool_in_use s = length (filter (\<lambda>m. reply_pool_owns m s) Q)"
proof -
  have pool: "pool_inv s (set Q)" and dist: "distinct Q" using assms by (auto simp: disp_inv_def ipc_inv_def)
  note P = pool_inv_placed [OF pool]
  let ?I = "{i. i < NX_REPLY_POOL_SIZE \<and> pool_bit (g_reply_pool_inuse s) i}"
  have img: "reply_entry s ` ?I = {m \<in> set Q. reply_pool_owns m s}"
  proof (intro set_eqI iffI)
    fix m
    assume "m \<in> reply_entry s ` ?I"
    then obtain i where "i < NX_REPLY_POOL_SIZE" "pool_bit (g_reply_pool_inuse s) i" "m = reply_entry s i" by blast
    then show "m \<in> {m \<in> set Q. reply_pool_owns m s}"
      using entry_facts(3) [OF P] pool unfolding pool_inv_def by blast
  next
    fix m
    assume "m \<in> {m \<in> set Q. reply_pool_owns m s}"
    then obtain i where "i < NX_REPLY_POOL_SIZE" "m = reply_entry s i" "m \<in> set Q"
      using pool unfolding pool_inv_def by blast
    then show "m \<in> reply_entry s ` ?I" using pool unfolding pool_inv_def by blast
  qed
  have "inj_on (reply_entry s) ?I" using entry_inj [OF P] by (auto simp: inj_on_def)
  from card_image [OF this] have "card ?I = card {m \<in> set Q. reply_pool_owns m s}" unfolding img by (rule sym)
  also have "{m \<in> set Q. reply_pool_owns m s} = set (filter (\<lambda>m. reply_pool_owns m s) Q)" by auto
  also have "card \<dots> = length (filter (\<lambda>m. reply_pool_owns m s) Q)" using dist by (intro distinct_card) simp
  finally show ?thesis by (simp add: in_use_bits)
qed

lemma pool_room:
  assumes "disp_inv s Q" "nx_dispatcher_reply_pool_in_use s < NX_REPLY_POOL_SIZE"
  obtains i where "i < NX_REPLY_POOL_SIZE" "reply_entry s i \<notin> set Q"
proof -
  have "{i. i < NX_REPLY_POOL_SIZE \<and> pool_bit (g_reply_pool_inuse s) i} \<noteq> {..<NX_REPLY_POOL_SIZE}"
    using assms(2) unfolding in_use_bits by (metis card_lessThan less_irrefl)
  then obtain i where "i < NX_REPLY_POOL_SIZE" "\<not> pool_bit (g_reply_pool_inuse s) i" by auto
  then show thesis using that assms(1) by (auto simp: disp_inv_def pool_inv_def)
qed

text \<open>
  C4. Through any history of sends, rounds of the dispatcher, flushes of held messages and steps of well-behaved hooks
  and handlers: no message is on two lists, the counter of messages in flight of every slot is the number of messages
  queued for it, the dispatcher's own count is the length of its queue, and the replies taken from the pool are exactly
  those in the queue. So a counter of zero, for which the pause protocol waits, means that no message for the slot is
  left, and an empty queue means that no reply has leaked.
\<close>

theorem dispatch_accounting:
  assumes "ipc_disciplined E" "disp_reach E s"
  shows "\<exists>Q. queue_is s Q \<and> distinct (Q @ held s) \<and>
    (\<forall>r. sl_in_flight_calls (slots s r) = of_nat (count_for s Q r)) \<and> g_disp_pending s = of_nat (length Q) \<and>
    nx_dispatcher_reply_pool_in_use s = length (filter (\<lambda>m. reply_pool_owns m s) Q) \<and>
    (\<forall>r. length Q < 2 ^ 32 \<and> sl_in_flight_calls (slots s r) = 0 \<longrightarrow> (\<forall>m \<in> set Q. im_dst_slot (msgs s m) \<noteq> r))"
proof -
  obtain Q where Q: "disp_inv s Q" using disp_reach_inv [OF assms] by blast
  then have inv: "ipc_inv (\<lambda>_. 0) s Q" by (simp add: disp_inv_def)
  have "\<forall>m \<in> set Q. im_dst_slot (msgs s m) \<noteq> r" if "length Q < 2 ^ 32" "sl_in_flight_calls (slots s r) = 0" for r
  proof -
    have "count_for s Q r \<le> length Q" by (simp add: count_for_def)
    then have "count_for s Q r < 2 ^ 32" using that(1) by simp
    moreover have "(of_nat (count_for s Q r) :: u32) = 0" using inv that(2) by (simp add: ipc_inv_def)
    ultimately have "count_for s Q r = 0" by (simp add: word_of_nat_eq_0_iff) (metis dvd_imp_le leD neq0_conv)
    then show ?thesis by (auto simp: count_for_def filter_empty_conv)
  qed
  then show ?thesis using inv in_use_replies [OF Q] by (intro exI [of _ Q]) (auto simp: ipc_inv_def)
qed


section \<open>A concrete dispatcher\<close>

text \<open>
  Slots that are bound to one component, whose message handler returns 7. The message at 4096 asks slot 1 for a reply
  to slot 2.
\<close>

definition demo_message :: nx_ipc_message where
  "demo_message =
     \<lparr>im_src_slot = 2, im_dst_slot = 1, im_msg_type = 5, im_flags = NX_MSG_FLAG_REPLY_REQUESTED, im_caps = [],
      im_payload_len = 0, im_payload = None, im_reply_payload_len = 0\<rparr>"

definition demo_env :: "ipc_state ipc_env" where
  "demo_env =
     \<lparr>env_run = (\<lambda>f c u s. (NX_HOOK_CONTINUE, s)), env_handle_msg = (\<lambda>d. Some (\<lambda>impl m s. (7, s))),
      env_calloc = (\<lambda>s. None)\<rparr>"

definition demo_router :: ipc_state where
  "demo_router =
     (graph.extend demo_memory
       (ipc_state.fields (\<lambda>m. demo_message) [] [] (nx_mpsc_init demo_mpsc) False [] 0 0x100000 (replicate 4 0)))
     \<lparr>comps := (\<lambda>c. (comps demo_memory c)\<lparr>cm_descriptor := 9\<rparr>),
       slots := (\<lambda>r. (demo_slot 0x40001000 ''vfs'')\<lparr>sl_active := 3\<rparr>)\<rparr>"

definition demo_queued :: ipc_state where
  "demo_queued = snd (nx_dispatcher_enqueue 0x1000 demo_router)"

lemma demo_env_disciplined: "ipc_disciplined demo_env"
  by (simp add: ipc_disciplined_def demo_env_def ia_none)

lemma demo_router_fields [simp]:
  "g_disp_mpsc demo_router = nx_mpsc_init demo_mpsc" "g_reply_pool demo_router = 0x100000"
  "\<not> g_disp_mpsc_initialized demo_router" "g_holds demo_router = []" "g_detached demo_router = []"
  "g_disp_pending demo_router = 0" "g_reply_pool_inuse demo_router = replicate 4 0" "msgs demo_router m = demo_message"
  "sl_in_flight_calls (slots demo_router r) = 0" "g_chains demo_router p = []" "g_dispatching demo_router = 0"
  "sl_active (slots demo_router r) = 3" "cm_descriptor (comps demo_router c) = 9" "mq_stub (nx_mpsc_init demo_mpsc) = 8"
  by (simp_all add: demo_router_def demo_slot_def demo_memory_def nx_mpsc_init_def demo_mpsc_def graph.defs ipc_state.defs)

lemma demo_router_boot: "disp_boot demo_router"
proof -
  have placed: "pool_placed demo_router" by (simp add: pool_placed_def)
  have "node_of (reply_entry demo_router i) \<noteq> 8" if "i < 256" for i
  proof
    assume "node_of (reply_entry demo_router i) = 8"
    moreover have "unat (node_of (reply_entry demo_router i)) = 0x100000 + i * 592 + 72"
      using entry_unat [OF placed that] that by (simp add: node_of_def unat_word_ariths)
    ultimately show False by simp
  qed
  then show ?thesis using placed by (simp add: disp_boot_def)
qed

lemma demo_queue: "disp_inv demo_queued [0x1000]" "disp_reach demo_env demo_queued"
proof -
  have i: "ipc_inv (\<lambda>_. 0) demo_router []" "pool_inv demo_router {}"
    using boot_inv [OF demo_router_boot] by (simp_all add: disp_inv_def)
  have d: "im_dst_slot (msgs demo_router 0x1000) \<noteq> NULL" by (simp add: demo_message_def)
  have E: "ipc_inv (\<lambda>_. 0) demo_queued [0x1000]" "keeps demo_router [] demo_queued"
    using inv_enqueue [OF i(1) _ d] by (simp_all add: demo_queued_def node_of_def held_def)
  have own: "\<not> reply_pool_owns 0x1000 demo_router" by (simp add: reply_pool_owns_def)
  then show "disp_inv demo_queued [0x1000]"
    using pool_keeps [of demo_router "[]" "{}" demo_queued "[0x1000]"] i(2) E by (simp add: disp_inv_def)
  have "sendable demo_router 0x1000" using own by (simp add: sendable_def queue_is_def node_of_def held_def)
  then have "ipc_acts demo_env demo_router demo_queued" unfolding demo_queued_def by (rule ia_enqueue [OF ia_none])
  then show "disp_reach demo_env demo_queued" by (rule dr_acts [OF dr_boot [OF demo_router_boot]])
qed

theorem dispatch_accounting_witness:
  "sl_in_flight_calls (slots demo_queued 1) = 1 \<and>
   (\<exists>Q. queue_is demo_queued Q \<and> distinct (Q @ held demo_queued) \<and> g_disp_pending demo_queued = of_nat (length Q) \<and>
      nx_dispatcher_reply_pool_in_use demo_queued = length (filter (\<lambda>m. reply_pool_owns m demo_queued) Q))"
proof
  have "im_dst_slot (msgs demo_router 0x1000) = 1" by (simp add: demo_message_def)
  then show "sl_in_flight_calls (slots demo_queued 1) = 1"
    using enqueue_simps(9) [of "0x1000" demo_router 1] by (simp add: demo_queued_def)
  from dispatch_accounting [OF demo_env_disciplined demo_queue(2)]
  show "\<exists>Q. queue_is demo_queued Q \<and> distinct (Q @ held demo_queued) \<and> g_disp_pending demo_queued = of_nat (length Q) \<and>
      nx_dispatcher_reply_pool_in_use demo_queued = length (filter (\<lambda>m. reply_pool_owns m demo_queued) Q)" by blast
qed


end
