(* ===== verification/Nx_Flush.thy ===== *)
theory Nx_Flush
  imports Nx_Dispatcher
begin

text \<open>
  What becomes of the messages that the router holds for a paused slot (\<^verbatim>\<open>nx_ipc_flush_hold_queue\<close> of
  \<^verbatim>\<open>framework/ipc.c\<close>): once the slot accepts messages again, the flush returns, and puts every one of them into the
  dispatcher's queue, in order.
\<close>

definition no_hooks :: "'a ipc_state_scheme \<Rightarrow> bool" where
  "no_hooks s \<longleftrightarrow> (\<forall>p. g_chains s p = []) \<and> g_dispatching s = 0"

text \<open>A message that its edge lets through to the dispatcher.\<close>

definition passes :: "'a ipc_state_scheme \<Rightarrow> msg_ref \<Rightarrow> bool" where
  "passes s m \<longleftrightarrow>
     (let src = im_src_slot (msgs s m); dst = im_dst_slot (msgs s m); edge = find_edge src dst s in
      m \<noteq> NULL \<and> src \<noteq> NULL \<and> dst \<noteq> NULL \<and> edge \<noteq> NULL \<and> cn_mode (conns s edge) = NX_CONN_ASYNC \<and>
      nx_ipc_scan_send_caps src m s = NX_OK \<and> nx_slot_pause_state_of dst s = NX_SLOT_PAUSE_NONE)"

lemma send_passes:
  assumes "no_hooks s" "passes s m"
  shows "nx_ipc_send E m s = (nx_rc NX_OK, snd (nx_dispatcher_enqueue m s))"
proof -
  have h: "nx_hook_dispatch (env_run E) ctx s = (NX_HOOK_CONTINUE, s)" for ctx
    using dispatch_no_hooks assms(1) by (auto simp: no_hooks_def)
  have "fst (nx_dispatcher_enqueue m s) = NX_OK"
    using assms(2) enqueue_simps(1) [of m s] by (simp add: passes_def Let_def)
  then show ?thesis
    unfolding nx_ipc_send_def using assms(2)
    by (simp add: do_send.simps h passes_def Let_def deliver_def split_beta)
qed

text \<open>The tests of the router read the graph, the pause states and the messages.\<close>

definition route_same :: "'a ipc_state_scheme \<Rightarrow> 'a ipc_state_scheme \<Rightarrow> bool" where
  "route_same s t \<longleftrightarrow>
     msgs t = msgs s \<and> g_slots t = g_slots s \<and> conns t = conns s \<and> g_chains t = g_chains s \<and>
     g_dispatching t = g_dispatching s \<and> (\<forall>r. sl_pause_state (slots t r) = sl_pause_state (slots s r))"

lemma route_same_refl [simp]: "route_same s s"
  by (simp add: route_same_def)

lemma route_same_trans: "route_same s t \<Longrightarrow> route_same t u \<Longrightarrow> route_same s u"
  by (simp add: route_same_def)

lemma route_same_passes:
  assumes "route_same s t"
  shows "passes t m \<longleftrightarrow> passes s m" "no_hooks t \<longleftrightarrow> no_hooks s"
proof -
  have e: "find_edge a b t = find_edge a b s" for a b
    using assms by (simp add: find_edge_def nx_slot_foreach_dependency_def slot_node_for_def route_same_def)
  have c: "scan_caps a cs t = scan_caps a cs s" for a cs
    by (induction cs) (simp_all add: e)
  show "passes t m \<longleftrightarrow> passes s m"
    using assms by (simp add: passes_def Let_def e c nx_ipc_scan_send_caps_def nx_slot_pause_state_of_def route_same_def)
  show "no_hooks t \<longleftrightarrow> no_hooks s" using assms by (simp add: no_hooks_def route_same_def)
qed

lemma route_same_enqueue: "route_same s (snd (nx_dispatcher_enqueue m s))"
  by (simp add: route_same_def nx_dispatcher_enqueue_def Let_def set_slot_def ensure_queue_init_def)

section \<open>One entry\<close>

lemma flush_entry_replays:
  assumes "disp_inv s Q" "no_hooks s" "g_detached s = \<lparr>he_addr = a, he_src = x, he_dst = y, he_msgs = ms\<rparr> # ds"
    and "\<And>m. m \<in> set ms \<Longrightarrow> passes s m"
  shows "\<exists>t. flush_entry E a s = Some t \<and> disp_inv t (Q @ ms) \<and> route_same s t \<and> g_holds t = g_holds s \<and> g_detached t = ds"
  using assms
proof (induction ms arbitrary: s Q)
  case Nil
  have d: "distinct (map he_addr (g_detached s))" using Nil.prems(1) by (simp add: disp_inv_def ipc_inv_def)
  have "filter (\<lambda>e. he_addr e \<noteq> a) (g_detached s) = ds"
    using d Nil.prems(3) by (auto simp: filter_id_conv)
  then have "flush_entry E a s = Some (free_entry a s)" "g_detached (free_entry a s) = ds"
    using Nil.prems(3) by (simp_all add: flush_entry.simps free_entry_def)
  then show ?case using free_disp_inv [OF Nil.prems(1), of a]
    by (auto simp: free_entry_def route_same_def)
next
  case (Cons m ms)
  let ?e = "\<lparr>he_addr = a, he_src = x, he_dst = y, he_msgs = m # ms\<rparr>"
  let ?s1 = "hold_dequeue a ms s" and ?s2 = "snd (nx_dispatcher_enqueue m (hold_dequeue a ms s))"
  have d: "distinct (map he_addr (g_detached s))" using Cons.prems(1) by (simp add: disp_inv_def ipc_inv_def)
  have det: "g_detached ?s1 = \<lparr>he_addr = a, he_src = x, he_dst = y, he_msgs = ms\<rparr> # ds"
    using d Cons.prems(3) by (auto simp: hold_dequeue_def intro!: map_idI)
  have s1: "disp_inv ?s1 Q" "sendable ?s1 m" using dequeue_disp_inv [OF Cons.prems(1), of ?e m ms] Cons.prems(3) by simp_all
  have r1: "route_same s ?s1" by (simp add: route_same_def hold_dequeue_def)
  note p = route_same_passes [OF r1]
  have pm: "passes ?s1 m" "no_hooks ?s1" using p Cons.prems(2,4) by simp_all
  note send = send_passes [OF pm(2,1), of E]
  have m: "m \<noteq> NULL" "im_dst_slot (msgs ?s1 m) \<noteq> NULL" using pm(1) unfolding passes_def Let_def by blast+
  have q: "queue_is ?s1 Q" "m \<notin> set Q" "m \<notin> set (held ?s1)" "node_of m \<noteq> NULL" "node_of m \<noteq> mq_stub (g_disp_mpsc ?s1)"
    "\<not> reply_pool_owns m ?s1"
    using s1 unfolding disp_inv_def ipc_inv_def sendable_def by blast+
  have inv1: "ipc_inv (\<lambda>_. 0) ?s1 Q" "pool_inv ?s1 (set Q)" using s1(1) by (simp_all add: disp_inv_def)
  note I = inv_enqueue [OF inv1(1) m q(4,5,2,3)]
  have "pool_inv ?s2 (set (Q @ [m]))" using pool_keeps [of ?s1 Q "{}" ?s2 "[m]"] inv1(2) I(2) q(6) by simp
  then have s2: "disp_inv ?s2 (Q @ [m])" using I(1) by (simp add: disp_inv_def)
  have r2: "route_same s ?s2" by (rule route_same_trans [OF r1 route_same_enqueue])
  have h2: "g_holds ?s2 = g_holds s" "g_detached ?s2 = \<lparr>he_addr = a, he_src = x, he_dst = y, he_msgs = ms\<rparr> # ds"
    using enqueue_simps(3) [OF m] det by (simp_all add: hold_dequeue_def)
  have "no_hooks ?s2" "\<And>k. k \<in> set ms \<Longrightarrow> passes ?s2 k"
    using route_same_passes [OF r2] Cons.prems(2,4) by simp_all
  then obtain t where t: "flush_entry E a ?s2 = Some t" "disp_inv t ((Q @ [m]) @ ms)" "route_same ?s2 t"
    "g_holds t = g_holds ?s2" "g_detached t = ds" using Cons.IH [OF s2 _ h2(2)] by blast
  have "flush_entry E a s = flush_entry E a ?s2"
    by (subst flush_entry.simps) (simp add: Cons.prems(3) send)
  then show ?case using t h2(1) route_same_trans [OF r2 t(3)] by (intro exI [of _ t]) simp
qed

section \<open>The whole flush\<close>

lemma addr_notin: "a \<notin> he_addr ` A \<Longrightarrow> x \<in> A \<Longrightarrow> he_addr x \<noteq> a"
  by blast

lemma detach_first:
  assumes "distinct (map he_addr (pre @ e # suf))"
  shows "filter (\<lambda>x. he_addr x \<noteq> he_addr e) (pre @ e # suf) = pre @ suf"
proof -
  have "he_addr e \<notin> he_addr ` set pre" "he_addr e \<notin> he_addr ` set suf" using assms by simp_all
  then have "filter (\<lambda>x. he_addr x \<noteq> he_addr e) pre = pre" "filter (\<lambda>x. he_addr x \<noteq> he_addr e) suf = suf"
    by (simp_all add: filter_id_conv addr_notin)
  then show ?thesis by simp
qed

definition cursor_after :: "ipc_hold_entry list \<Rightarrow> hold_ref option" where
  "cursor_after pre = (if pre = [] then None else Some (he_addr (last pre)))"

lemma at_cursor_after:
  assumes "distinct (map he_addr (pre @ suf))" "g_holds s = pre @ suf"
  shows "at_cursor (cursor_after pre) s = Some (chain_head suf)"
proof (cases pre rule: rev_cases)
  case Nil
  then show ?thesis using assms(2) by (simp add: at_cursor_def cursor_after_def)
next
  case (snoc pre' p)
  have "he_addr p \<notin> he_addr ` set pre'" using assms(1) snoc by simp
  then have "dropWhile (\<lambda>e. he_addr e \<noteq> he_addr p) (pre' @ p # suf) = p # suf" by (subst dropWhile_append2) (simp_all add: addr_notin)
  moreover have "entry_at (he_addr p) s \<noteq> None" using assms(2) snoc by (auto simp: entry_at_def find_None_iff)
  ultimately show ?thesis using assms(2) snoc by (simp add: at_cursor_def cursor_after_def)
qed

lemma flush_walk_replays:
  assumes "disp_inv s Q" "no_hooks s" "g_holds s = pre @ suf"
    and "\<And>e m. e \<in> set suf \<Longrightarrow> he_dst e = dst \<Longrightarrow> m \<in> set (he_msgs e) \<Longrightarrow> passes s m"
  shows "\<exists>t. flush_walk E dst (cursor_after pre) s = Some t \<and>
    disp_inv t (Q @ concat (map he_msgs (filter (\<lambda>e. he_dst e = dst) suf))) \<and>
    g_holds t = pre @ filter (\<lambda>e. he_dst e \<noteq> dst) suf \<and> route_same s t"
  using assms
proof (induction suf arbitrary: s Q pre)
  case Nil
  have d: "distinct (map he_addr (g_holds s))" using Nil.prems(1) by (simp add: disp_inv_def ipc_inv_def)
  have "at_cursor (cursor_after pre) s = Some None"
    using at_cursor_after [of pre "[]" s] d Nil.prems(3) by (simp add: chain_head_def)
  then show ?case using Nil.prems by (subst flush_walk.simps) auto
next
  case (Cons e suf)
  have d: "distinct (map he_addr (g_holds s))" using Cons.prems(1) by (simp add: disp_inv_def ipc_inv_def)
  have cur: "at_cursor (cursor_after pre) s = Some (Some e)"
    using at_cursor_after [of pre "e # suf" s] d Cons.prems(3) by (simp add: chain_head_def)
  show ?case
  proof (cases "he_dst e = dst")
    case False
    have "flush_walk E dst (cursor_after pre) s = flush_walk E dst (cursor_after (pre @ [e])) s"
      using cur False by (subst flush_walk.simps) (simp add: cursor_after_def)
    then show ?thesis using Cons.IH [of s Q "pre @ [e]"] Cons.prems False by auto
  next
    case True
    let ?s1 = "detach_entry e s"
    have det: "g_holds ?s1 = pre @ suf" "g_detached ?s1 = e # g_detached s"
      using detach_first [of pre e suf] d Cons.prems(3) by (simp_all add: detach_entry_def)
    have s1: "disp_inv ?s1 Q" using detach_disp_inv [OF Cons.prems(1), of e] Cons.prems(3) by simp
    have r1: "route_same s ?s1" by (simp add: route_same_def detach_entry_def)
    note p1 = route_same_passes [OF r1]
    have ps: "passes ?s1 m" if "m \<in> set (he_msgs e)" for m using Cons.prems(4) [OF _ True that] p1(1) by simp
    obtain u where u: "flush_entry E (he_addr e) ?s1 = Some u" "disp_inv u (Q @ he_msgs e)" "route_same ?s1 u"
      "g_holds u = pre @ suf"
      using flush_entry_replays [OF s1, of "he_addr e" "he_src e" "he_dst e" "he_msgs e" "g_detached s" E] det ps p1 Cons.prems(2)
      by auto
    have r2: "route_same s u" by (rule route_same_trans [OF r1 u(3)])
    have "\<And>e m. e \<in> set suf \<Longrightarrow> he_dst e = dst \<Longrightarrow> m \<in> set (he_msgs e) \<Longrightarrow> passes u m" "no_hooks u"
      using route_same_passes [OF r2] Cons.prems(2,4) by auto
    then obtain t where t: "flush_walk E dst (cursor_after pre) u = Some t"
      "disp_inv t ((Q @ he_msgs e) @ concat (map he_msgs (filter (\<lambda>e. he_dst e = dst) suf)))"
      "g_holds t = pre @ filter (\<lambda>e. he_dst e \<noteq> dst) suf" "route_same u t"
      using Cons.IH [OF u(2) _ u(4)] by blast
    have "flush_walk E dst (cursor_after pre) s = Some t"
      using cur True u(1) t(1) by (subst flush_walk.simps) simp
    then show ?thesis using t True route_same_trans [OF r2 t(4)] by (intro exI [of _ t]) simp
  qed
qed

section \<open>Properties\<close>

text \<open>
  C16. No held message is lost or overtaken: when a slot takes messages again (it is not paused, no hook is installed, and
  the edges of the held messages still exist and are asynchronous), the flush of its hold queues returns, appends the
  held messages of each sender to the dispatcher's queue in the order in which they were sent, and leaves exactly the
  messages that are held for other slots.
\<close>

theorem held_messages_replayed:
  assumes "ipc_disciplined E" "disp_reach E s" "queue_is s Q" "no_hooks s" "dst \<noteq> NULL"
    and "\<And>e m. e \<in> set (g_holds s) \<Longrightarrow> he_dst e = dst \<Longrightarrow> m \<in> set (he_msgs e) \<Longrightarrow> passes s m"
  shows "\<exists>t. nx_ipc_flush_hold_queue E dst s = Some t \<and>
    queue_is t (Q @ concat (map he_msgs (filter (\<lambda>e. he_dst e = dst) (g_holds s)))) \<and>
    g_holds t = filter (\<lambda>e. he_dst e \<noteq> dst) (g_holds s) \<and> nx_ipc_hold_queue_depth src dst t = 0"
proof -
  obtain R where R: "disp_inv s R" using disp_reach_inv [OF assms(1,2)] by blast
  then have inv: "disp_inv s Q" using queue_unique assms(3) by (auto simp: disp_inv_def ipc_inv_def)
  obtain t where t: "flush_walk E dst (cursor_after []) s = Some t"
    "disp_inv t (Q @ concat (map he_msgs (filter (\<lambda>e. he_dst e = dst) (g_holds s))))"
    "g_holds t = filter (\<lambda>e. he_dst e \<noteq> dst) (g_holds s)"
    using flush_walk_replays [OF inv assms(4), of "[]" "g_holds s" dst E] assms(6) by auto
  have "hold_find src dst t = None" by (auto simp: hold_find_def t(3) find_None_iff)
  then show ?thesis using t assms(5)
    by (intro exI [of _ t])
      (simp add: nx_ipc_flush_hold_queue_def cursor_after_def disp_inv_def ipc_inv_def nx_ipc_hold_queue_depth_def)
qed

text \<open>A message from slot 2 to slot 1, held while slot 1 was paused, over an asynchronous edge at the address 4.\<close>

definition demo_edge :: nx_connection where
  "demo_edge = \<lparr>cn_from_slot = 2, cn_to_slot = 1, cn_mode = NX_CONN_ASYNC, cn_stateful = False,
     cn_policy = NX_PAUSE_QUEUE, cn_installed_gen = 0\<rparr>"

definition demo_open :: ipc_state where
  "demo_open = demo_router\<lparr>conns := (\<lambda>c. demo_edge),
     g_slots := [\<lparr>sn_slot = 2, sn_incoming = [], sn_outgoing = [4], sn_created_gen = 0\<rparr>]\<rparr>"

definition demo_calloc :: "ipc_state ipc_env" where
  "demo_calloc = demo_env\<lparr>env_calloc := (\<lambda>s. if g_holds s = [] \<and> g_detached s = [] then Some 0x2000 else None)\<rparr>"

definition demo_held :: ipc_state where
  "demo_held = snd (hold_message demo_calloc 0x1000 demo_open)"

lemma demo_held_reach: "ipc_disciplined demo_calloc" "disp_reach demo_calloc demo_held"
proof -
  show "ipc_disciplined demo_calloc" by (simp add: ipc_disciplined_def demo_calloc_def demo_env_def ia_none)
  have same: "router_same demo_router demo_open" by (simp add: router_same_def demo_open_def)
  have "sendable demo_router 0x1000"
    by (simp add: sendable_def queue_is_def node_of_def held_def reply_pool_owns_def)
  then have "ipc_acts demo_calloc demo_router demo_held"
    unfolding demo_held_def by (intro ia_hold ia_other [OF ia_none same] router_same_sendable [OF same])
  then show "disp_reach demo_calloc demo_held" by (rule dr_acts [OF dr_boot [OF demo_router_boot]])
qed

theorem held_messages_replayed_witness:
  "nx_ipc_hold_queue_depth 2 1 demo_held = 1 \<and>
   (\<exists>t. nx_ipc_flush_hold_queue demo_calloc 1 demo_held = Some t \<and> queue_is t [0x1000] \<and> g_holds t = [] \<and>
      nx_ipc_hold_queue_depth 2 1 t = 0)"
proof -
  let ?e = "\<lparr>he_addr = 0x2000, he_src = 2, he_dst = 1, he_msgs = [0x1000]\<rparr>"
  have h: "demo_held = demo_open\<lparr>g_holds := [?e]\<rparr>"
    by (simp add: demo_held_def hold_message_def hold_entry_for_def hold_find_def hold_enqueue_def hold_upd_def
        demo_calloc_def demo_open_def demo_message_def)
  have q: "queue_is demo_held []" by (simp add: h demo_open_def queue_is_def)
  have n: "no_hooks demo_held" by (simp add: h demo_open_def no_hooks_def)
  have p: "passes demo_held 0x1000"
  proof -
    have "sl_pause_state (slots demo_router r) = NX_SLOT_PAUSE_NONE" for r
      by (simp add: demo_router_def demo_slot_def graph.defs ipc_state.defs)
    then show ?thesis
      by (simp add: passes_def h demo_open_def demo_message_def find_edge_def nx_slot_foreach_dependency_def
          slot_node_for_def demo_edge_def nx_ipc_scan_send_caps_def nx_slot_pause_state_of_def Let_def)
  qed
  have "g_holds demo_held = [?e]" by (simp add: h)
  moreover from this have "nx_ipc_hold_queue_depth 2 1 demo_held = 1"
    by (simp add: nx_ipc_hold_queue_depth_def hold_find_def)
  ultimately show ?thesis
    using held_messages_replayed [OF demo_held_reach q n, of 1 2] p by auto
qed

end
