(* ===== verification/Nx_Component.thy ===== *)
theory Nx_Component
  imports Nx_Flush Nx_Waitq
begin

text \<open>
  The component lifecycle (\<^verbatim>\<open>framework/component.c\<close>, kernel build): the six verbs, the pause protocol that stops a
  component's slots, drains them and rolls back when the component refuses, and the resolution of dependencies. The
  operations of components, what other tasks do while the drain loop yields, and the counter register are the
  parameter \<open>C\<close>. A verb that does not return has the result None.
\<close>

section \<open>Operations of components\<close>

text \<open>Each operation by descriptor; none when the descriptor has no operations or leaves this one out.\<close>

record 's comp_env =
  ce_ipc :: "'s ipc_env"
  ce_init :: "ptr \<Rightarrow> (ptr \<Rightarrow> 's \<Rightarrow> int \<times> 's) option"
  ce_enable :: "ptr \<Rightarrow> (ptr \<Rightarrow> 's \<Rightarrow> int \<times> 's) option"
  ce_pause_hook :: "ptr \<Rightarrow> (ptr \<Rightarrow> 's \<Rightarrow> int \<times> 's) option"
  ce_pause :: "ptr \<Rightarrow> (ptr \<Rightarrow> 's \<Rightarrow> int \<times> 's) option"
  ce_resume :: "ptr \<Rightarrow> (ptr \<Rightarrow> 's \<Rightarrow> int \<times> 's) option"
  ce_disable :: "ptr \<Rightarrow> (ptr \<Rightarrow> 's \<Rightarrow> int \<times> 's) option"
  ce_destroy :: "ptr \<Rightarrow> (ptr \<Rightarrow> 's \<Rightarrow> 's) option"
  ce_on_dep_swapped :: "ptr \<Rightarrow> (ptr \<Rightarrow> slot_ref \<Rightarrow> comp_ref \<Rightarrow> comp_ref \<Rightarrow> u32 \<Rightarrow> 's \<Rightarrow> int \<times> 's) option"
  ce_yield :: "'s \<Rightarrow> 's"
  ce_counter :: "'s \<Rightarrow> u64"
  ce_freq :: u64

text \<open>The test \<^verbatim>\<open>c->descriptor && c->descriptor->ops && c->descriptor->ops->op\<close> and the call.\<close>

definition op_of :: "(ptr \<Rightarrow> 'f option) \<Rightarrow> comp_ref \<Rightarrow> 'a graph_scheme \<Rightarrow> 'f option" where
  "op_of sel c s = (if cm_descriptor (comps s c) = NULL then None else sel (cm_descriptor (comps s c)))"

definition call_op :: "(ptr \<Rightarrow> (ptr \<Rightarrow> 'a ipc_state_scheme \<Rightarrow> int \<times> 'a ipc_state_scheme) option) \<Rightarrow> comp_ref \<Rightarrow>
    'a ipc_state_scheme \<Rightarrow> int \<times> 'a ipc_state_scheme" where
  "call_op sel c s = (case op_of sel c s of None \<Rightarrow> (nx_rc NX_OK, s) | Some f \<Rightarrow> f (cm_impl (comps s c)) s)"

section \<open>The state machine\<close>

fun nx_lifecycle_transition_legal :: "nx_lifecycle_state \<Rightarrow> nx_lifecycle_state \<Rightarrow> bool" where
  "nx_lifecycle_transition_legal NX_LC_UNINIT to = (to = NX_LC_INIT \<or> to = NX_LC_READY)"
| "nx_lifecycle_transition_legal NX_LC_INIT to = (to = NX_LC_READY)"
| "nx_lifecycle_transition_legal NX_LC_READY to = (to = NX_LC_ACTIVE \<or> to = NX_LC_DESTROYED)"
| "nx_lifecycle_transition_legal NX_LC_ACTIVE to = (to = NX_LC_PAUSED \<or> to = NX_LC_READY)"
| "nx_lifecycle_transition_legal NX_LC_PAUSED to = (to = NX_LC_ACTIVE \<or> to = NX_LC_READY)"
| "nx_lifecycle_transition_legal NX_LC_DESTROYED to = False"

fun nx_lifecycle_state_name :: "nx_lifecycle_state \<Rightarrow> string" where
  "nx_lifecycle_state_name NX_LC_UNINIT = ''uninit''"
| "nx_lifecycle_state_name NX_LC_INIT = ''init''"
| "nx_lifecycle_state_name NX_LC_READY = ''ready''"
| "nx_lifecycle_state_name NX_LC_ACTIVE = ''active''"
| "nx_lifecycle_state_name NX_LC_PAUSED = ''paused''"
| "nx_lifecycle_state_name NX_LC_DESTROYED = ''destroyed''"

definition dispatch_lifecycle_hook :: "'a ipc_state_scheme comp_env \<Rightarrow> nx_hook_point \<Rightarrow> comp_ref \<Rightarrow> nx_lifecycle_state \<Rightarrow>
    'a ipc_state_scheme \<Rightarrow> int \<times> 'a ipc_state_scheme" where
  "dispatch_lifecycle_hook C point c to s =
     (case nx_hook_dispatch (env_run (ce_ipc C)) \<lparr>ctx_point = point, ctx_u = ctx_comp c (cm_state (comps s c)) to\<rparr> s of
        (NX_HOOK_ABORT, s1) \<Rightarrow> (nx_rc NX_EABORT, s1)
      | (NX_HOOK_CONTINUE, s1) \<Rightarrow> (nx_rc NX_OK, s1))"

definition state_set :: "comp_ref \<Rightarrow> nx_lifecycle_state \<Rightarrow> 'a ipc_state_scheme \<Rightarrow> int \<times> 'a ipc_state_scheme" where
  "state_set c to s = (let (st, s1) = nx_component_state_set c to s in (nx_rc st, s1))"

definition transition_from :: "comp_ref \<Rightarrow> nx_lifecycle_state \<Rightarrow> nx_lifecycle_state \<Rightarrow> 'a ipc_state_scheme \<Rightarrow>
    int \<times> 'a ipc_state_scheme" where
  "transition_from c expected_from to s =
     (if c = NULL then (nx_rc NX_EINVAL, s)
      else if cm_state (comps s c) \<noteq> expected_from then (nx_rc NX_ESTATE, s)
      else if \<not> nx_lifecycle_transition_legal expected_from to then (nx_rc NX_ESTATE, s)
      else state_set c to s)"

definition nx_component_init :: "'a ipc_state_scheme comp_env \<Rightarrow> comp_ref \<Rightarrow> 'a ipc_state_scheme \<Rightarrow>
    int \<times> 'a ipc_state_scheme" where
  "nx_component_init C c s =
     (if c = NULL then (nx_rc NX_EINVAL, s)
      else if cm_state (comps s c) \<noteq> NX_LC_UNINIT then (nx_rc NX_ESTATE, s)
      else case call_op (ce_init C) c s of (orc, s1) \<Rightarrow>
             if orc \<noteq> nx_rc NX_OK then (orc, s1)
             else transition_from c NX_LC_UNINIT NX_LC_READY s1)"

definition nx_component_enable :: "'a ipc_state_scheme comp_env \<Rightarrow> comp_ref \<Rightarrow> 'a ipc_state_scheme \<Rightarrow>
    int \<times> 'a ipc_state_scheme" where
  "nx_component_enable C c s =
     (if c = NULL then (nx_rc NX_EINVAL, s)
      else if cm_state (comps s c) \<noteq> NX_LC_READY then (nx_rc NX_ESTATE, s)
      else case dispatch_lifecycle_hook C NX_HOOK_COMPONENT_ENABLE c NX_LC_ACTIVE s of (rc, s1) \<Rightarrow>
             if rc \<noteq> nx_rc NX_OK then (rc, s1)
             else case call_op (ce_enable C) c s1 of (orc, s2) \<Rightarrow>
                    if orc \<noteq> nx_rc NX_OK then (orc, s2)
                    else transition_from c NX_LC_READY NX_LC_ACTIVE s2)"

section \<open>Pause and resume\<close>

definition slot_cutoff_cb :: "slot_ref \<Rightarrow> 'a ipc_state_scheme \<Rightarrow> 'a ipc_state_scheme" where
  "slot_cutoff_cb r s = snd (nx_slot_set_pause_state r NX_SLOT_PAUSE_CUTTING s)"

partial_function (option) drain_loop :: "('a ipc_state_scheme \<Rightarrow> 'a ipc_state_scheme) \<Rightarrow> slot_ref \<Rightarrow>
    'a ipc_state_scheme \<Rightarrow> 'a ipc_state_scheme option" where
  "drain_loop yield r s = (if sl_in_flight_calls (slots s r) > 0 then drain_loop yield r (yield s) else Some s)"

definition slot_drain_cb :: "'a ipc_state_scheme comp_env \<Rightarrow> slot_ref \<Rightarrow> 'a ipc_state_scheme \<Rightarrow>
    'a ipc_state_scheme option" where
  "slot_drain_cb C r s = drain_loop (ce_yield C) r (snd (nx_slot_set_pause_state r NX_SLOT_PAUSE_DRAINING s))"

definition slot_done_cb :: "slot_ref \<Rightarrow> 'a ipc_state_scheme \<Rightarrow> 'a ipc_state_scheme" where
  "slot_done_cb r s = snd (nx_slot_set_pause_state r NX_SLOT_PAUSE_DONE s)"

definition slot_resume_cb :: "'a ipc_state_scheme comp_env \<Rightarrow> slot_ref \<Rightarrow> 'a ipc_state_scheme \<Rightarrow>
    'a ipc_state_scheme option" where
  "slot_resume_cb C r s =
     nx_ipc_flush_hold_queue (ce_ipc C) r (snd (nx_slot_set_pause_state r NX_SLOT_PAUSE_NONE s))"

text \<open>The walk over the bound slots with a callback that may not return.\<close>

fun walk_bound :: "(slot_ref \<Rightarrow> 'a ipc_state_scheme \<Rightarrow> 'a ipc_state_scheme option) \<Rightarrow> comp_ref \<Rightarrow> slot_ref list \<Rightarrow>
    'a ipc_state_scheme \<Rightarrow> 'a ipc_state_scheme option" where
  "walk_bound cb c [] s = Some s"
| "walk_bound cb c (r # rs) s =
     Option.bind (if sl_active (slots s r) = c then cb r s else Some s) (walk_bound cb c rs)"

definition foreach_bound :: "comp_ref \<Rightarrow> (slot_ref \<Rightarrow> 'a ipc_state_scheme \<Rightarrow> 'a ipc_state_scheme option) \<Rightarrow>
    'a ipc_state_scheme \<Rightarrow> 'a ipc_state_scheme option" where
  "foreach_bound c cb s = (if c = NULL then Some s else walk_bound cb c (reg_slots s) s)"

definition rollback_pause :: "'a ipc_state_scheme comp_env \<Rightarrow> comp_ref \<Rightarrow> 'a ipc_state_scheme \<Rightarrow>
    'a ipc_state_scheme option" where
  "rollback_pause C c s = foreach_bound c (slot_resume_cb C) s"

abbreviation (input) NX_PAUSE_HOOK_DEADLINE_NS :: u64 where "NX_PAUSE_HOOK_DEADLINE_NS \<equiv> 1000000"

definition run_pause_hook :: "'a ipc_state_scheme comp_env \<Rightarrow> comp_ref \<Rightarrow> 'a ipc_state_scheme \<Rightarrow>
    int \<times> 'a ipc_state_scheme" where
  "run_pause_hook C c s =
     (if op_of (ce_pause_hook C) c s = None then (nx_rc NX_OK, s)
      else let dl = nx_deadline_start (ce_counter C s) (ce_freq C) NX_PAUSE_HOOK_DEADLINE_NS;
               (hrc, s1) = call_op (ce_pause_hook C) c s
           in (if hrc = nx_rc NX_OK \<and> nx_deadline_exceeded (ce_counter C s1) dl then nx_rc NX_EDEADLINE else hrc, s1))"

text \<open>The two operations of the component between drain and completion; the second is skipped when the first fails.\<close>

definition pause_ops :: "'a ipc_state_scheme comp_env \<Rightarrow> comp_ref \<Rightarrow> 'a ipc_state_scheme \<Rightarrow> int \<times> 'a ipc_state_scheme" where
  "pause_ops C c s =
     (case run_pause_hook C c s of (hrc, s1) \<Rightarrow> if hrc \<noteq> nx_rc NX_OK then (hrc, s1) else call_op (ce_pause C) c s1)"

definition nx_component_pause :: "'a ipc_state_scheme comp_env \<Rightarrow> comp_ref \<Rightarrow> 'a ipc_state_scheme \<Rightarrow>
    (int \<times> 'a ipc_state_scheme) option" where
  "nx_component_pause C c s =
     (if c = NULL then Some (nx_rc NX_EINVAL, s)
      else if cm_state (comps s c) \<noteq> NX_LC_ACTIVE then Some (nx_rc NX_ESTATE, s)
      else case dispatch_lifecycle_hook C NX_HOOK_COMPONENT_PAUSE c NX_LC_PAUSED s of (rc, s1) \<Rightarrow>
        if rc \<noteq> nx_rc NX_OK then Some (rc, s1)
        else let s2 = nx_component_foreach_bound_slot c slot_cutoff_cb s1 in
             Option.bind (foreach_bound c (slot_drain_cb C) s2)
               (\<lambda>s3. case pause_ops C c s3 of (orc, s4) \<Rightarrow>
                  if orc \<noteq> nx_rc NX_OK then map_option (\<lambda>s5. (orc, s5)) (rollback_pause C c s4)
                  else Some (transition_from c NX_LC_ACTIVE NX_LC_PAUSED (nx_component_foreach_bound_slot c slot_done_cb s4))))"

definition nx_component_resume :: "'a ipc_state_scheme comp_env \<Rightarrow> comp_ref \<Rightarrow> 'a ipc_state_scheme \<Rightarrow>
    (int \<times> 'a ipc_state_scheme) option" where
  "nx_component_resume C c s =
     (if c = NULL then Some (nx_rc NX_EINVAL, s)
      else if cm_state (comps s c) \<noteq> NX_LC_PAUSED then Some (nx_rc NX_ESTATE, s)
      else case dispatch_lifecycle_hook C NX_HOOK_COMPONENT_RESUME c NX_LC_ACTIVE s of (rc, s1) \<Rightarrow>
        if rc \<noteq> nx_rc NX_OK then Some (rc, s1)
        else case call_op (ce_resume C) c s1 of (orc, s2) \<Rightarrow>
               if orc \<noteq> nx_rc NX_OK then Some (orc, s2)
               else map_option (transition_from c NX_LC_PAUSED NX_LC_ACTIVE) (foreach_bound c (slot_resume_cb C) s2))"

definition nx_component_disable :: "'a ipc_state_scheme comp_env \<Rightarrow> comp_ref \<Rightarrow> 'a ipc_state_scheme \<Rightarrow>
    int \<times> 'a ipc_state_scheme" where
  "nx_component_disable C c s =
     (if c = NULL then (nx_rc NX_EINVAL, s)
      else if cm_state (comps s c) \<noteq> NX_LC_ACTIVE \<and> cm_state (comps s c) \<noteq> NX_LC_PAUSED then (nx_rc NX_ESTATE, s)
      else case dispatch_lifecycle_hook C NX_HOOK_COMPONENT_DISABLE c NX_LC_READY s of (rc, s1) \<Rightarrow>
             if rc \<noteq> nx_rc NX_OK then (rc, s1)
             else case call_op (ce_disable C) c s1 of (orc, s2) \<Rightarrow>
                    if orc \<noteq> nx_rc NX_OK then (orc, s2) else state_set c NX_LC_READY s2)"

definition nx_component_destroy :: "'a ipc_state_scheme comp_env \<Rightarrow> comp_ref \<Rightarrow> 'a ipc_state_scheme \<Rightarrow>
    int \<times> 'a ipc_state_scheme" where
  "nx_component_destroy C c s =
     (if c = NULL then (nx_rc NX_EINVAL, s)
      else if cm_state (comps s c) \<noteq> NX_LC_READY then (nx_rc NX_ESTATE, s)
      else if nx_component_is_bound c s then (nx_rc NX_EBUSY, s)
      else let s1 = (case op_of (ce_destroy C) c s of None \<Rightarrow> s | Some f \<Rightarrow> f (cm_impl (comps s c)) s)
           in transition_from c NX_LC_READY NX_LC_DESTROYED s1)"

section \<open>Dependencies\<close>

record nx_dep_descriptor =
  dep_name :: "string option"
  dep_offset :: nat
  dep_required :: bool
  dep_mode :: nx_conn_mode
  dep_stateful :: bool
  dep_policy :: nx_pause_policy

text \<open>
  The result has the pointers written into the component's container, as pairs of offset and slot; \<open>alloc\<close> is the
  allocator's answer to the next registration.
\<close>

fun resolve_loop :: "('a graph_scheme \<Rightarrow> conn_ref option) \<Rightarrow> slot_ref \<Rightarrow> nx_dep_descriptor list \<Rightarrow> 'a graph_scheme \<Rightarrow>
    (nx_status \<times> (nat \<times> slot_ref) list) \<times> 'a graph_scheme" where
  "resolve_loop alloc self [] s = ((NX_OK, []), s)"
| "resolve_loop alloc self (d # ds) s =
     (let tgt = nx_slot_lookup (dep_name d) s in
      if tgt = NULL then if dep_required d then ((NX_ENOENT, []), s) else resolve_loop alloc self ds s
      else case nx_connection_register (alloc s) self tgt (dep_mode d) (dep_stateful d) (dep_policy d) s of
             (Inl err, s1) \<Rightarrow> ((err, [(dep_offset d, tgt)]), s1)
           | (Inr _, s1) \<Rightarrow>
               (case resolve_loop alloc self ds s1 of ((st, ws), s2) \<Rightarrow> ((st, (dep_offset d, tgt) # ws), s2)))"

definition nx_resolve_deps :: "('a graph_scheme \<Rightarrow> conn_ref option) \<Rightarrow> nx_dep_descriptor list option \<Rightarrow> slot_ref \<Rightarrow> ptr \<Rightarrow>
    'a graph_scheme \<Rightarrow> (nx_status \<times> (nat \<times> slot_ref) list) \<times> 'a graph_scheme" where
  "nx_resolve_deps alloc d self_slot container s =
     (case d of
        None \<Rightarrow> ((NX_EINVAL, []), s)
      | Some deps \<Rightarrow> if container = NULL then ((NX_EINVAL, []), s) else resolve_loop alloc self_slot deps s)"

section \<open>What the router leaves alone\<close>

text \<open>The part of the state that the lifecycle reads: the bindings and the components, and the pause states.\<close>

definition shape :: "'a graph_scheme \<Rightarrow> slot_ref list \<times> comp_ref list \<times> (slot_ref \<Rightarrow> comp_ref) \<times> (comp_ref \<Rightarrow> ptr \<times> ptr)" where
  "shape s = (reg_slots s, reg_comps s, (\<lambda>r. sl_active (slots s r)), (\<lambda>c. (cm_descriptor (comps s c), cm_impl (comps s c))))"

definition states :: "'a graph_scheme \<Rightarrow> comp_ref \<Rightarrow> nx_lifecycle_state" where
  "states s c = cm_state (comps s c)"

definition pauses :: "'a graph_scheme \<Rightarrow> slot_ref \<Rightarrow> nx_slot_pause_state" where
  "pauses s r = sl_pause_state (slots s r)"

definition still :: "'a graph_scheme \<Rightarrow> 'a graph_scheme \<Rightarrow> bool" where
  "still s t \<longleftrightarrow> shape t = shape s \<and> states t = states s \<and> pauses t = pauses s"

lemma still_refl [simp]: "still s s"
  by (simp add: still_def)

lemma still_trans: "still s t \<Longrightarrow> still t u \<Longrightarrow> still s u"
  by (simp add: still_def)

text \<open>A property of states that every callback and every write of the router keeps, a send and a flush keep.\<close>

definition router_keeps :: "'a ipc_state_scheme ipc_env \<Rightarrow> ('a ipc_state_scheme \<Rightarrow> bool) \<Rightarrow> bool" where
  "router_keeps E P \<longleftrightarrow>
     (\<forall>f c u s. P s \<longrightarrow> P (snd (env_run E f c u s))) \<and>
     (\<forall>d h i m s. env_handle_msg E d = Some h \<longrightarrow> P s \<longrightarrow> P (snd (h i m s))) \<and>
     (\<forall>s hs cs n. P s \<longrightarrow> P (s\<lparr>hooks := hs, g_chains := cs, g_dispatching := n\<rparr>)) \<and>
     (\<forall>m f s. P s \<longrightarrow> P (set_msg m f s)) \<and> (\<forall>m s. P s \<longrightarrow> P (snd (nx_dispatcher_enqueue m s))) \<and>
     (\<forall>hs s. P s \<longrightarrow> P (s\<lparr>g_holds := hs\<rparr>)) \<and> (\<forall>ds s. P s \<longrightarrow> P (s\<lparr>g_detached := ds\<rparr>))"

lemma keeps_hooks: "router_keeps E P \<Longrightarrow> P s \<Longrightarrow> P (snd (nx_hook_dispatch (env_run E) ctx s))"
  by (rule dispatch_keeps [of P "env_run E"]) (simp_all add: router_keeps_def)

lemma keeps_deliver:
  assumes "router_keeps E P" "P s"
  shows "P (snd (deliver E edge m s))"
proof -
  have "P (snd (invoke_handler E d m s))" for d
    using assms by (auto simp: invoke_handler_def Let_def router_keeps_def split: option.splits)
  moreover have "P (snd (nx_dispatcher_enqueue m s))" using assms by (simp add: router_keeps_def)
  ultimately show ?thesis by (simp add: deliver_def split_beta)
qed

lemma keeps_hold: "router_keeps E P \<Longrightarrow> P s \<Longrightarrow> P (snd (hold_message E m s))"
  by (auto simp: hold_message_def hold_entry_for_def hold_enqueue_def hold_upd_def router_keeps_def split: option.splits)

lemma keeps_send: "router_keeps E P \<Longrightarrow> P s \<Longrightarrow> P (snd (do_send E m depth s))"
proof (induction E m depth s rule: do_send.induct)
  case (1 E m depth s)
  let ?ctx = "\<lparr>ctx_point = NX_HOOK_IPC_SEND, ctx_u = ctx_ipc (im_src_slot (msgs s m)) (im_dst_slot (msgs s m)) m NULL\<rparr>"
  obtain a s1 where d: "nx_hook_dispatch (env_run E) ?ctx s = (a, s1)" by fastforce
  have s1: "P s1" using keeps_hooks [OF "1.prems", of ?ctx] d by simp
  note del = keeps_deliver [OF "1.prems"(1) s1] and hold = keeps_hold [OF "1.prems"(1) s1]
  let ?r = "set_msg m (\<lambda>x. x\<lparr>im_dst_slot := sl_fallback (slots s1 (im_dst_slot (msgs s1 m)))\<rparr>) s1"
  have r: "P ?r" using s1 "1.prems"(1) by (simp add: router_keeps_def)
  show ?case
  proof (cases "m = NULL \<or> im_src_slot (msgs s m) = NULL \<or> im_dst_slot (msgs s m) = NULL \<or> a = NX_HOOK_ABORT")
    case True
    then show ?thesis
      using d s1 "1.prems"(2) by (auto simp: do_send.simps [of E m depth s] split: nx_hook_action.split)
  next
    case False
    then have a: "a = NX_HOOK_CONTINUE" by (cases a) auto
    have "P (snd (do_send E m (depth + 1) ?r))"
      if "find_edge (im_src_slot (msgs s1 m)) (im_dst_slot (msgs s1 m)) s1 \<noteq> NULL"
        "nx_ipc_scan_send_caps (im_src_slot (msgs s1 m)) m s1 = NX_OK"
        "nx_slot_pause_state_of (im_dst_slot (msgs s1 m)) s1 \<noteq> NX_SLOT_PAUSE_NONE"
        "cn_policy (conns s1 (find_edge (im_src_slot (msgs s1 m)) (im_dst_slot (msgs s1 m)) s1)) = NX_PAUSE_REDIRECT"
        "\<not> depth \<ge> NX_IPC_REDIRECT_DEPTH_MAX" "sl_fallback (slots s1 (im_dst_slot (msgs s1 m))) \<noteq> NULL"
      using False that "1.prems"(1) r d a by (intro "1.IH") auto
    then show ?thesis
      using False d a s1 del hold by (auto simp: do_send.simps [of E m depth s] Let_def split: nx_pause_policy.split)
  qed
qed

lemma keeps_flush_entry:
  assumes "flush_entry E a s = Some t" "router_keeps E P" "P s"
  shows "P t"
proof -
  let ?P = "\<lambda>E a s t. router_keeps E P \<longrightarrow> P s \<longrightarrow> P t"
  have "?P E a s t"
  proof (rule flush_entry.raw_induct [where P = ?P, OF _ assms(1)], intro impI)
    fix f E a s t
    assume IH: "\<And>E a s t. f E a s = Some t \<Longrightarrow> ?P E a s t"
      and step: "(case find (\<lambda>e. he_addr e = a) (g_detached s) of None \<Rightarrow> None
        | Some e \<Rightarrow> (case he_msgs e of [] \<Rightarrow> Some (free_entry a s)
          | m # rest \<Rightarrow> f E a (snd (nx_ipc_send E m (hold_dequeue a rest s))))) = Some t"
      and E: "router_keeps E P" and P: "P s"
    have "P (free_entry a s)" "P (snd (nx_ipc_send E m (hold_dequeue a rest s)))" for m rest
      using E P keeps_send [OF E] by (simp_all add: nx_ipc_send_def free_entry_def hold_dequeue_def router_keeps_def)
    then show "P t" using step IH E by (auto split: option.splits list.splits)
  qed
  then show ?thesis using assms(2,3) by blast
qed

lemma keeps_flush:
  assumes "nx_ipc_flush_hold_queue E dst s = Some t" "router_keeps E P" "P s"
  shows "P t"
proof -
  let ?P = "\<lambda>E dst pp s t. router_keeps E P \<longrightarrow> P s \<longrightarrow> P t"
  have walk: "?P E dst pp s t" if "flush_walk E dst pp s = Some t" for pp
  proof (rule flush_walk.raw_induct [where P = ?P, OF _ that], intro impI)
    fix f E dst pp s t
    assume IH: "\<And>E dst pp s t. f E dst pp s = Some t \<Longrightarrow> ?P E dst pp s t"
      and step: "(case at_cursor pp s of None \<Rightarrow> None | Some None \<Rightarrow> Some s
        | Some (Some e) \<Rightarrow> if he_dst e \<noteq> dst then f E dst (Some (he_addr e)) s
            else Option.bind (flush_entry E (he_addr e) (detach_entry e s)) (f E dst pp)) = Some t"
      and E: "router_keeps E P" and P: "P s"
    have "P (s\<lparr>g_holds := hs, g_detached := ds\<rparr>)" for hs ds using E P by (simp add: router_keeps_def)
    then have "P (detach_entry e s)" for e by (simp add: detach_entry_def)
    then have "P u" if "flush_entry E (he_addr e) (detach_entry e s) = Some u" for e u
      using keeps_flush_entry [OF that E] by blast
    then show "P t" using step IH E P by (auto simp: bind_eq_Some_conv split: option.splits if_splits)
  qed
  then show ?thesis using assms by (auto simp: nx_ipc_flush_hold_queue_def split: if_splits)
qed

text \<open>
  Components that keep to their own business: no hook, handler or operation, and no task that runs during a yield, binds
  slots, pauses them or moves a component to another state.
\<close>

definition quiet :: "'a ipc_state_scheme comp_env \<Rightarrow> bool" where
  "quiet C \<longleftrightarrow>
     (\<forall>f c u s. still s (snd (env_run (ce_ipc C) f c u s))) \<and>
     (\<forall>d h i m s. env_handle_msg (ce_ipc C) d = Some h \<longrightarrow> still s (snd (h i m s))) \<and>
     (\<forall>sel \<in> {ce_init C, ce_enable C, ce_pause_hook C, ce_pause C, ce_resume C, ce_disable C}.
        \<forall>d f i s. sel d = Some f \<longrightarrow> still s (snd (f i s))) \<and>
     (\<forall>d f i s. ce_destroy C d = Some f \<longrightarrow> still s (f i s)) \<and> (\<forall>s. still s (ce_yield C s))"

lemma still_write:
  "still s (t\<lparr>hooks := hs, g_chains := cs, g_dispatching := n\<rparr>) \<longleftrightarrow> still s t"
  "still s (set_msg m f t) \<longleftrightarrow> still s t" "still s (snd (nx_dispatcher_enqueue m t)) \<longleftrightarrow> still s t"
  "still s (t\<lparr>g_holds := es\<rparr>) \<longleftrightarrow> still s t" "still s (t\<lparr>g_detached := es\<rparr>) \<longleftrightarrow> still s t"
proof -
  show "still s (snd (nx_dispatcher_enqueue m t)) \<longleftrightarrow> still s t"
    by (auto simp: still_def shape_def states_def pauses_def fun_eq_iff nx_dispatcher_enqueue_def Let_def set_slot_def
        ensure_queue_init_def)
qed (simp_all add: still_def shape_def states_def pauses_def set_msg_def fun_eq_iff)

lemma quiet_router: "quiet C \<Longrightarrow> router_keeps (ce_ipc C) (still s)"
  unfolding router_keeps_def still_write by (auto simp: quiet_def intro: still_trans)

section \<open>What the verbs do\<close>

lemma quiet_op:
  assumes "quiet C" "sel \<in> {ce_init C, ce_enable C, ce_pause_hook C, ce_pause C, ce_resume C, ce_disable C}"
  shows "still s (snd (call_op sel c s))"
proof -
  have "still s (snd (f i s))" if "sel d = Some f" for d f i using assms that unfolding quiet_def by blast
  then show ?thesis by (auto simp: call_op_def op_of_def split: option.splits)
qed

lemma quiet_hook: "quiet C \<Longrightarrow> still s (snd (dispatch_lifecycle_hook C p c to s))"
  using keeps_hooks [OF quiet_router [of C s], of s] still_refl
  by (auto simp: dispatch_lifecycle_hook_def split: prod.split nx_hook_action.split) (metis snd_conv)+

lemma quiet_pause_ops: "quiet C \<Longrightarrow> still s (snd (pause_ops C c s))"
proof -
  assume q: "quiet C"
  have h: "still s (snd (run_pause_hook C c s))"
    using quiet_op [OF q, of "ce_pause_hook C" s c] by (simp add: run_pause_hook_def Let_def split_beta)
  show ?thesis
    using h still_trans [OF h quiet_op [OF q, of "ce_pause C" "snd (run_pause_hook C c s)" c]]
    by (simp add: pause_ops_def split_beta)
qed

text \<open>Where the node of a registered slot or component is found, its state is written.\<close>

lemma set_pause_effect:
  assumes "r \<in> set (reg_slots s)" "NULL \<notin> set (reg_slots s)"
  shows "shape (snd (nx_slot_set_pause_state r st s)) = shape s"
    "states (snd (nx_slot_set_pause_state r st s)) = states s"
    "pauses (snd (nx_slot_set_pause_state r st s)) = (pauses s)(r := st)"
  using slot_node_for_None [OF assms(2), of r] assms(1)
  by (auto simp: nx_slot_set_pause_state_def shape_def states_def pauses_def set_slot_def fun_eq_iff)

lemma state_set_effect:
  assumes "state_set c to s = (rc, t)"
  shows "shape t = shape s" "pauses t = pauses s"
    "rc = nx_rc NX_OK \<and> states t = (states s)(c := to) \<and> c \<in> set (reg_comps s) \<or>
     rc = nx_rc NX_ENOENT \<and> t = s \<and> component_node_for c s = None"
  using assms
  by (auto simp: state_set_def nx_component_state_set_def Let_def shape_def states_def pauses_def set_comp_def fun_eq_iff
      bump_gen_def component_node_for_def find_Some_iff split: if_splits)

text \<open>The slots bound to a component, and a walk that gives each of them a pause state.\<close>

definition bound_to :: "comp_ref \<Rightarrow> 'a graph_scheme \<Rightarrow> slot_ref \<Rightarrow> bool" where
  "bound_to c s r \<longleftrightarrow> r \<in> set (reg_slots s) \<and> sl_active (slots s r) = c"

lemma shape_bound: "shape t = shape s \<Longrightarrow> bound_to c t = bound_to c s"
  by (auto simp: shape_def bound_to_def fun_eq_iff)

lemma shape_reg: "shape t = shape s \<Longrightarrow> reg_slots t = reg_slots s"
  unfolding shape_def by blast

lemma walk_bound_effect:
  assumes cb: "\<And>r u v. r \<in> set (reg_slots s) \<Longrightarrow> shape u = shape s \<Longrightarrow> cb r u = Some v \<Longrightarrow>
      shape v = shape s \<and> states v = states u \<and> pauses v = (pauses u)(r := st)"
    and "walk_bound cb c rs u = Some t" "set rs \<subseteq> set (reg_slots s)" "shape u = shape s"
  shows "shape t = shape s \<and> states t = states u \<and>
    pauses t = (\<lambda>r. if r \<in> set rs \<and> sl_active (slots s r) = c then st else pauses u r)"
  using assms(2-)
proof (induction rs arbitrary: u)
  case Nil
  then show ?case by simp
next
  case (Cons r rs)
  have act: "sl_active (slots u r) = sl_active (slots s r)"
    using Cons.prems(3) by (auto simp: shape_def dest: fun_cong)
  obtain v where v: "(if sl_active (slots u r) = c then cb r u else Some u) = Some v" "walk_bound cb c rs v = Some t"
    using Cons.prems(1) by (auto simp: bind_eq_Some_conv)
  have step: "shape v = shape s \<and> states v = states u \<and>
      pauses v = (if sl_active (slots s r) = c then (pauses u)(r := st) else pauses u)"
    using cb [of r u v] v(1) Cons.prems(2,3) act by (auto split: if_splits)
  have "set rs \<subseteq> set (reg_slots s)" using Cons.prems(2) by simp
  from Cons.IH [OF v(2) this] step
  have t: "shape t = shape s" "states t = states u"
    "pauses t = (\<lambda>q. if q \<in> set rs \<and> sl_active (slots s q) = c then st else pauses v q)" by simp_all
  have "pauses t q = (if q \<in> set (r # rs) \<and> sl_active (slots s q) = c then st else pauses u q)" for q
    using step by (simp add: t(3))
  then show ?case using t(1,2) by blast
qed

lemma foreach_bound_effect:
  assumes "\<And>r u v. r \<in> set (reg_slots s) \<Longrightarrow> shape u = shape s \<Longrightarrow> cb r u = Some v \<Longrightarrow>
      shape v = shape s \<and> states v = states u \<and> pauses v = (pauses u)(r := st)"
    and "foreach_bound c cb u = Some t" "shape u = shape s" "c \<noteq> NULL"
  shows "shape t = shape s \<and> states t = states u \<and> pauses t = (\<lambda>r. if bound_to c s r then st else pauses u r)"
proof -
  have "walk_bound cb c (reg_slots s) u = Some t"
    using assms(2,4) unfolding foreach_bound_def shape_reg [OF assms(3)] by simp
  from walk_bound_effect [OF assms(1) this _ assms(3)] show ?thesis unfolding bound_to_def by blast
qed

text \<open>The registry's own walk is the walk with a callback that returns.\<close>

lemma walk_bound_total:
  "walk_bound (\<lambda>r s. Some (f r s)) c rs s = Some (fold (\<lambda>r t. if sl_active (slots t r) = c then f r t else t) rs s)"
  by (induction rs arbitrary: s) simp_all

lemma foreach_total: "foreach_bound c (\<lambda>r s. Some (f r s)) s = Some (nx_component_foreach_bound_slot c f s)"
  by (simp add: foreach_bound_def nx_component_foreach_bound_slot_def walk_bound_total)

lemma foreach_set_pause:
  fixes u s :: "'a ipc_state_scheme"
  assumes "shape u = shape s" "NULL \<notin> set (reg_slots s)" "c \<noteq> NULL"
    and "f = (\<lambda>r s. snd (nx_slot_set_pause_state r st s))"
  shows "shape (nx_component_foreach_bound_slot c f u) = shape s"
    "states (nx_component_foreach_bound_slot c f u) = states u"
    "pauses (nx_component_foreach_bound_slot c f u) = (\<lambda>r. if bound_to c s r then st else pauses u r)"
proof -
  have cb: "shape v = shape s \<and> states v = states w \<and> pauses v = (pauses w)(r := st)"
    if "r \<in> set (reg_slots s)" "shape w = shape s" "Some (f r w) = Some v" for r w v
    using set_pause_effect [of r w st, unfolded shape_reg [OF that(2)], OF that(1) assms(2)] that(2,3) assms(4) by auto
  have "shape (nx_component_foreach_bound_slot c f u) = shape s \<and>
    states (nx_component_foreach_bound_slot c f u) = states u \<and>
    pauses (nx_component_foreach_bound_slot c f u) = (\<lambda>r. if bound_to c s r then st else pauses u r)"
    by (rule foreach_bound_effect [OF cb foreach_total assms(1,3)])
  then show "shape (nx_component_foreach_bound_slot c f u) = shape s"
    "states (nx_component_foreach_bound_slot c f u) = states u"
    "pauses (nx_component_foreach_bound_slot c f u) = (\<lambda>r. if bound_to c s r then st else pauses u r)" by blast+
qed

lemma drain_still:
  assumes "drain_loop y r s = Some t" "\<And>s. still s (y s)"
  shows "still s t \<and> sl_in_flight_calls (slots t r) = 0"
proof -
  let ?P = "\<lambda>y r s t. (\<forall>s. still s (y s)) \<longrightarrow> still s t \<and> sl_in_flight_calls (slots t r) = 0"
  have "?P y r s t"
  proof (rule drain_loop.raw_induct [where P = ?P, OF _ assms(1)], intro impI)
    fix f y r s t
    assume IH: "\<And>y r s t. f y r s = Some t \<Longrightarrow> ?P y r s t"
      and step: "(if sl_in_flight_calls (slots s r) > 0 then f y r (y s) else Some s) = Some t"
      and y: "\<forall>s. still s (y s)"
    show "still s t \<and> sl_in_flight_calls (slots t r) = 0"
    proof (cases "sl_in_flight_calls (slots s r) > 0")
      case True
      then have "still (y s) t \<and> sl_in_flight_calls (slots t r) = 0" using IH step y by simp
      then show ?thesis using still_trans y by blast
    next
      case False
      then show ?thesis using step by (simp add: word_gt_0)
    qed
  qed
  then show ?thesis using assms(2) by blast
qed

lemma callback_effects:
  assumes "quiet C" "r \<in> set (reg_slots u)" "NULL \<notin> set (reg_slots u)"
  shows "slot_drain_cb C r u = Some v \<Longrightarrow>
      shape v = shape u \<and> states v = states u \<and> pauses v = (pauses u)(r := NX_SLOT_PAUSE_DRAINING)"
    and "slot_resume_cb C r u = Some v \<Longrightarrow>
      shape v = shape u \<and> states v = states u \<and> pauses v = (pauses u)(r := NX_SLOT_PAUSE_NONE)"
proof -
  note e = set_pause_effect [OF assms(2,3)]
  have y: "still s (ce_yield C s)" for s using assms(1) unfolding quiet_def by blast
  show "slot_drain_cb C r u = Some v \<Longrightarrow>
      shape v = shape u \<and> states v = states u \<and> pauses v = (pauses u)(r := NX_SLOT_PAUSE_DRAINING)"
    using drain_still [OF _ y, where r = r] e by (simp add: slot_drain_cb_def still_def)
  show "slot_resume_cb C r u = Some v \<Longrightarrow>
      shape v = shape u \<and> states v = states u \<and> pauses v = (pauses u)(r := NX_SLOT_PAUSE_NONE)"
    using keeps_flush [OF _ quiet_router [OF assms(1)] still_refl] e by (simp add: slot_resume_cb_def still_def)
qed

lemma foreach_effects:
  assumes "quiet C" "shape u = shape s" "NULL \<notin> set (reg_slots s)" "c \<noteq> NULL"
  shows "foreach_bound c (slot_drain_cb C) u = Some v \<Longrightarrow> shape v = shape s \<and> states v = states u \<and>
      pauses v = (\<lambda>r. if bound_to c s r then NX_SLOT_PAUSE_DRAINING else pauses u r)"
    and "foreach_bound c (slot_resume_cb C) u = Some v \<Longrightarrow> shape v = shape s \<and> states v = states u \<and>
      pauses v = (\<lambda>r. if bound_to c s r then NX_SLOT_PAUSE_NONE else pauses u r)"
proof -
  have d: "shape v = shape s \<and> states v = states w \<and> pauses v = (pauses w)(r := NX_SLOT_PAUSE_DRAINING)"
    if "r \<in> set (reg_slots s)" "shape w = shape s" "slot_drain_cb C r w = Some v" for r w v
    using callback_effects(1) [OF assms(1), of r w v, unfolded shape_reg [OF that(2)], OF that(1) assms(3) that(3)] that(2)
    by auto
  have n: "shape v = shape s \<and> states v = states w \<and> pauses v = (pauses w)(r := NX_SLOT_PAUSE_NONE)"
    if "r \<in> set (reg_slots s)" "shape w = shape s" "slot_resume_cb C r w = Some v" for r w v
    using callback_effects(2) [OF assms(1), of r w v, unfolded shape_reg [OF that(2)], OF that(1) assms(3) that(3)] that(2)
    by auto
  show "foreach_bound c (slot_drain_cb C) u = Some v \<Longrightarrow> shape v = shape s \<and> states v = states u \<and>
      pauses v = (\<lambda>r. if bound_to c s r then NX_SLOT_PAUSE_DRAINING else pauses u r)"
    by (rule foreach_bound_effect [OF d _ assms(2,4)])
  show "foreach_bound c (slot_resume_cb C) u = Some v \<Longrightarrow> shape v = shape s \<and> states v = states u \<and>
      pauses v = (\<lambda>r. if bound_to c s r then NX_SLOT_PAUSE_NONE else pauses u r)"
    by (rule foreach_bound_effect [OF n _ assms(2,4)])
qed

lemma transition_effect:
  fixes s b :: "'a ipc_state_scheme"
  assumes "transition_from c from to s = (rc, t)" "nx_lifecycle_transition_legal from to" "states s c = from" "c \<noteq> NULL"
    and "shape s = shape b"
  shows "shape t = shape b" "pauses t = pauses s"
    "rc = nx_rc NX_OK \<and> states t = (states s)(c := to) \<or>
     rc = nx_rc NX_ENOENT \<and> states t = states s \<and> c \<notin> set (reg_comps b)"
proof -
  have set: "state_set c to s = (rc, t)" using assms by (simp add: transition_from_def states_def split: if_splits)
  note e = state_set_effect [OF set]
  have "reg_comps s = reg_comps b" using assms(5) unfolding shape_def by blast
  moreover have "component_node_for c s = None \<Longrightarrow> c \<notin> set (reg_comps s)"
    using assms(4) by (auto simp: component_node_for_def find_None_iff)
  ultimately show "shape t = shape b" "pauses t = pauses s"
    "rc = nx_rc NX_OK \<and> states t = (states s)(c := to) \<or>
     rc = nx_rc NX_ENOENT \<and> states t = states s \<and> c \<notin> set (reg_comps b)" using e assms(5) by auto
qed

text \<open>The bound slots all in one pause state, the others as they were.\<close>

definition paused_as :: "nx_slot_pause_state \<Rightarrow> comp_ref \<Rightarrow> 'a graph_scheme \<Rightarrow> slot_ref \<Rightarrow> nx_slot_pause_state" where
  "paused_as st c s = (\<lambda>r. if bound_to c s r then st else pauses s r)"

lemma pause_outcome:
  assumes "quiet C" "NULL \<notin> set (reg_slots s)" "nx_component_pause C c s = Some (rc, t)"
  shows "shape t = shape s"
    "rc = nx_rc NX_OK \<and> states s c = NX_LC_ACTIVE \<and> states t = (states s)(c := NX_LC_PAUSED) \<and>
       pauses t = paused_as NX_SLOT_PAUSE_DONE c s \<or>
     rc \<noteq> nx_rc NX_OK \<and> states t = states s \<and> (pauses t = pauses s \<or> pauses t = paused_as NX_SLOT_PAUSE_NONE c s \<or>
       states s c = NX_LC_ACTIVE \<and> c \<notin> set (reg_comps s))"
proof -
  let ?G = "shape t = shape s \<and> (rc = nx_rc NX_OK \<and> states s c = NX_LC_ACTIVE \<and> states t = (states s)(c := NX_LC_PAUSED) \<and>
       pauses t = paused_as NX_SLOT_PAUSE_DONE c s \<or>
     rc \<noteq> nx_rc NX_OK \<and> states t = states s \<and> (pauses t = pauses s \<or> pauses t = paused_as NX_SLOT_PAUSE_NONE c s \<or>
       states s c = NX_LC_ACTIVE \<and> c \<notin> set (reg_comps s)))"
  obtain hrc s1 where h: "dispatch_lifecycle_hook C NX_HOOK_COMPONENT_PAUSE c NX_LC_PAUSED s = (hrc, s1)" by fastforce
  have s1: "still s s1" using quiet_hook [OF assms(1), of s NX_HOOK_COMPONENT_PAUSE c NX_LC_PAUSED] h by simp
  have ?G
  proof (cases "c = NULL \<or> cm_state (comps s c) \<noteq> NX_LC_ACTIVE \<or> hrc \<noteq> nx_rc NX_OK")
    case True
    then show ?thesis using assms(3) h s1 by (auto simp: nx_component_pause_def still_def split: if_splits)
  next
    case False
    then have c: "c \<noteq> NULL" "states s c = NX_LC_ACTIVE" by (simp_all add: states_def)
    let ?s2 = "nx_component_foreach_bound_slot c slot_cutoff_cb s1"
    obtain s3 where s3: "foreach_bound c (slot_drain_cb C) ?s2 = Some s3"
      and body: "(case pause_ops C c s3 of (orc, s4) \<Rightarrow>
         if orc \<noteq> nx_rc NX_OK then map_option (\<lambda>s5. (orc, s5)) (rollback_pause C c s4)
         else Some (transition_from c NX_LC_ACTIVE NX_LC_PAUSED (nx_component_foreach_bound_slot c slot_done_cb s4))) = Some (rc, t)"
      using assms(3) False h by (auto simp: nx_component_pause_def Let_def bind_eq_Some_conv)
    obtain orc s4 where s4: "pause_ops C c s3 = (orc, s4)" by fastforce
    note rest = body [unfolded s4 prod.case]
    have sh1: "shape s1 = shape s" using s1 by (simp add: still_def)
    have cb: "slot_cutoff_cb = (\<lambda>r s. snd (nx_slot_set_pause_state r NX_SLOT_PAUSE_CUTTING s))"
      "slot_done_cb = (\<lambda>r s. snd (nx_slot_set_pause_state r NX_SLOT_PAUSE_DONE s))"
      by (auto simp: fun_eq_iff slot_cutoff_cb_def slot_done_cb_def)
    note e2 = foreach_set_pause [OF sh1 assms(2) c(1) cb(1)]
    note e3 = foreach_effects(1) [OF assms(1) e2(1) assms(2) c(1) s3]
    have "still s3 s4" using quiet_pause_ops [OF assms(1), of s3 c] s4 by simp
    then have v4: "shape s4 = shape s" "states s4 = states s"
      "pauses s4 = (\<lambda>r. if bound_to c s r then NX_SLOT_PAUSE_DRAINING else pauses s r)"
      using e2 e3 s1 by (auto simp: still_def fun_eq_iff)
    show ?thesis
    proof (cases "orc = nx_rc NX_OK")
      case False
      then have "foreach_bound c (slot_resume_cb C) s4 = Some t" "rc = orc" using rest by (auto simp: rollback_pause_def)
      from foreach_effects(2) [OF assms(1) v4(1) assms(2) c(1) this(1)] this(2) False v4
      show ?thesis by (auto simp: paused_as_def fun_eq_iff)
    next
      case True
      note e5 = foreach_set_pause [OF v4(1) assms(2) c(1) cb(2)]
      have "transition_from c NX_LC_ACTIVE NX_LC_PAUSED (nx_component_foreach_bound_slot c slot_done_cb s4) = (rc, t)"
        using rest True by simp
      from transition_effect [OF this _ _ c(1) e5(1)] show ?thesis
        using e5 v4 c(2) by (auto simp: paused_as_def fun_eq_iff)
    qed
  qed
  then show "shape t = shape s"
    "rc = nx_rc NX_OK \<and> states s c = NX_LC_ACTIVE \<and> states t = (states s)(c := NX_LC_PAUSED) \<and>
       pauses t = paused_as NX_SLOT_PAUSE_DONE c s \<or>
     rc \<noteq> nx_rc NX_OK \<and> states t = states s \<and> (pauses t = pauses s \<or> pauses t = paused_as NX_SLOT_PAUSE_NONE c s \<or>
       states s c = NX_LC_ACTIVE \<and> c \<notin> set (reg_comps s))" by blast+
qed

lemma resume_outcome:
  assumes "quiet C" "NULL \<notin> set (reg_slots s)" "nx_component_resume C c s = Some (rc, t)"
  shows "shape t = shape s"
    "rc = nx_rc NX_OK \<and> states s c = NX_LC_PAUSED \<and> states t = (states s)(c := NX_LC_ACTIVE) \<and>
       pauses t = paused_as NX_SLOT_PAUSE_NONE c s \<or>
     rc \<noteq> nx_rc NX_OK \<and> states t = states s \<and> (pauses t = pauses s \<or> states s c = NX_LC_PAUSED \<and> c \<notin> set (reg_comps s))"
proof -
  let ?G = "shape t = shape s \<and> (rc = nx_rc NX_OK \<and> states s c = NX_LC_PAUSED \<and> states t = (states s)(c := NX_LC_ACTIVE) \<and>
       pauses t = paused_as NX_SLOT_PAUSE_NONE c s \<or>
     rc \<noteq> nx_rc NX_OK \<and> states t = states s \<and> (pauses t = pauses s \<or> states s c = NX_LC_PAUSED \<and> c \<notin> set (reg_comps s)))"
  obtain hrc s1 where h: "dispatch_lifecycle_hook C NX_HOOK_COMPONENT_RESUME c NX_LC_ACTIVE s = (hrc, s1)" by fastforce
  obtain orc s2 where o: "call_op (ce_resume C) c s1 = (orc, s2)" by fastforce
  have s1: "still s s1" using quiet_hook [OF assms(1), of s NX_HOOK_COMPONENT_RESUME c NX_LC_ACTIVE] h by simp
  have s2: "still s s2" using still_trans [OF s1] quiet_op [OF assms(1), of "ce_resume C" s1 c] o by simp
  have ?G
  proof (cases "c = NULL \<or> cm_state (comps s c) \<noteq> NX_LC_PAUSED \<or> hrc \<noteq> nx_rc NX_OK \<or> orc \<noteq> nx_rc NX_OK")
    case True
    then show ?thesis using assms(3) h o s1 s2 by (auto simp: nx_component_resume_def still_def split: if_splits)
  next
    case False
    then have c: "c \<noteq> NULL" "states s c = NX_LC_PAUSED" by (simp_all add: states_def)
    obtain s3 where s3: "foreach_bound c (slot_resume_cb C) s2 = Some s3"
      "transition_from c NX_LC_PAUSED NX_LC_ACTIVE s3 = (rc, t)"
      using assms(3) False h o by (auto simp: nx_component_resume_def)
    have sh2: "shape s2 = shape s" using s2 by (simp add: still_def)
    note e3 = foreach_effects(2) [OF assms(1) sh2 assms(2) c(1) s3(1)]
    from transition_effect [OF s3(2) _ _ c(1), of s] show ?thesis
      using e3 s2 c(2) by (auto simp: paused_as_def fun_eq_iff still_def)
  qed
  then show "shape t = shape s"
    "rc = nx_rc NX_OK \<and> states s c = NX_LC_PAUSED \<and> states t = (states s)(c := NX_LC_ACTIVE) \<and>
       pauses t = paused_as NX_SLOT_PAUSE_NONE c s \<or>
     rc \<noteq> nx_rc NX_OK \<and> states t = states s \<and> (pauses t = pauses s \<or> states s c = NX_LC_PAUSED \<and> c \<notin> set (reg_comps s))"
    by blast+
qed

section \<open>The drain ends\<close>

text \<open>Handlers that send nothing themselves.\<close>

definition silent :: "'a ipc_state_scheme ipc_env \<Rightarrow> bool" where
  "silent E \<longleftrightarrow> (\<forall>d h i m s Q. env_handle_msg E d = Some h \<longrightarrow> queue_is s Q \<longrightarrow> queue_is (snd (h i m s)) Q)"

definition asks :: "'a ipc_state_scheme \<Rightarrow> msg_ref \<Rightarrow> bool" where
  "asks s m \<longleftrightarrow> im_flags (msgs s m) AND NX_MSG_FLAG_REPLY_REQUESTED \<noteq> 0"

text \<open>The rounds that a queue takes: one for each message and one for each reply.\<close>

definition rounds :: "'a ipc_state_scheme \<Rightarrow> msg_ref list \<Rightarrow> nat" where
  "rounds s Q = length Q + length (filter (asks s) Q)"

lemma silent_round:
  assumes E: "ipc_disciplined E" "silent E" and inv: "disp_inv s (m # R)" and len: "length (m # R) < NX_REPLY_POOL_SIZE"
  shows "\<exists>t Q. nx_dispatcher_pump_once E s = Some (1, t) \<and> disp_inv t Q \<and> length Q \<le> length (m # R) \<and>
    rounds t Q < rounds s (m # R)"
proof -
  have i: "ipc_inv (\<lambda>_. 0) s (m # R)" "pool_inv s (set (m # R))" using inv by (simp_all add: disp_inv_def)
  have init: "g_disp_mpsc_initialized s" using i(1) by (auto simp: ipc_inv_def queue_is_def split: if_splits)
  have "nx_dispatcher_reply_pool_in_use s < NX_REPLY_POOL_SIZE"
    using in_use_replies [OF inv] len length_filter_le [of "\<lambda>m. reply_pool_owns m s" "m # R"] by simp
  then obtain j where "j < NX_REPLY_POOL_SIZE" "reply_entry s j \<notin> set (m # R)" by (rule pool_room [OF inv])
  then obtain n t where p: "nx_dispatcher_pump_once E s = Some (n, t)" using pump_total [OF E(1) i] by fastforce
  obtain rc u where d: "pump_deliver E m (taken s) = (rc, u)" by fastforce
  obtain nd q where pop: "nx_mpsc_pop (g_disp_mpsc s) = (nd, q)" by fastforce
  have "queue_is (taken s) R"
    using take_inv(3) [OF i init pop] unfolding ipc_inv_def taken_def pop snd_conv by blast
  moreover have "queue_is (snd (nx_hook_dispatch (env_run E) ctx v)) R" if "queue_is v R" for ctx v
    using dispatch_router_same [OF E(1), of v ctx] router_same_queue that by blast
  moreover have "queue_is (snd (invoke_handler E dst m v)) R" if "queue_is v R" for dst v
    using E(2) that by (auto simp: invoke_handler_def Let_def silent_def split: option.splits)
  ultimately have u: "queue_is u R"
    using d by (auto simp: pump_deliver_def Let_def split: prod.splits nx_hook_action.splits) (metis snd_conv)+
  from pump_inv [OF E(1) i p d] obtain new rs
    where n: "n = 1" and new: "queue_is u (R @ new)" and t: "ipc_inv (\<lambda>_. 0) t (R @ new @ rs)" "pool_inv t (set (R @ new @ rs))"
      "\<forall>k \<in> set R. msgs t k = msgs s k"
      and rs: "if asks s m \<and> im_src_slot (msgs u m) \<noteq> NULL then \<exists>r. rs = [r] \<and> msgs t r = reply_to (msgs u m) rc else rs = []"
    by (auto simp: asks_def split: if_splits)
  have "new = []" using queue_unique [OF new u] by simp
  moreover have "filter (asks t) R = filter (asks s) R" using t(3) by (intro filter_cong) (simp_all add: asks_def)
  moreover have "length rs \<le> 1 \<and> filter (asks t) rs = [] \<and> (rs \<noteq> [] \<longrightarrow> asks s m)"
    using rs by (auto simp: asks_def reply_to_def split: if_splits)
  ultimately show ?thesis using p n t
    by (intro exI [of _ t] exI [of _ "R @ rs"]) (auto simp: disp_inv_def rounds_def)
qed

lemma pump_all_drains:
  assumes E: "ipc_disciplined E" "silent E"
  shows "disp_inv s Q \<Longrightarrow> length Q < NX_REPLY_POOL_SIZE \<Longrightarrow> \<exists>t. pump_all E s = Some t \<and> disp_inv t []"
proof (induction "rounds s Q" arbitrary: s Q rule: less_induct)
  case less
  show ?case
  proof (cases Q)
    case Nil
    have q: "queue_is s []" using less.prems(1) Nil by (simp add: disp_inv_def ipc_inv_def)
    have "nx_dispatcher_pump_once E s \<noteq> None"
    proof (cases "g_disp_mpsc_initialized s")
      case True
      obtain nd q' where pop: "nx_mpsc_pop (g_disp_mpsc s) = (nd, q')" by fastforce
      then show ?thesis using queue_pop(3) [OF q True pop] True by (simp add: nx_dispatcher_pump_once_def Let_def)
    qed (simp add: nx_dispatcher_pump_once_def)
    then obtain n t where p: "nx_dispatcher_pump_once E s = Some (n, t)" by auto
    then have "n = 0" using pump_empty [OF q] by blast
    moreover obtain new where new: "disp_inv t (tl Q @ new)" using pump_disp_inv [OF E(1) less.prems(1) p] by blast
    then have "queue_is t new" using Nil by (simp add: disp_inv_def ipc_inv_def)
    then have "new = []" using pump_empty [OF q p] queue_unique by blast
    then have "disp_inv t []" using new Nil by simp
    ultimately show ?thesis using p by (subst pump_all.simps) simp
  next
    case (Cons m R)
    then obtain t P where t: "nx_dispatcher_pump_once E s = Some (1, t)" "disp_inv t P" "length P \<le> length Q"
      "rounds t P < rounds s Q" using silent_round [OF E, of s m R] less.prems by auto
    then obtain u where "pump_all E t = Some u" "disp_inv u []" using less.hyps [OF t(4) t(2)] less.prems(2) by auto
    then show ?thesis using t(1) by (subst pump_all.simps) simp
  qed
qed

text \<open>A yield during which the dispatcher thread runs until it sleeps.\<close>

definition dispatcher_runs :: "'a ipc_state_scheme ipc_env \<Rightarrow> 'a ipc_state_scheme \<Rightarrow> 'a ipc_state_scheme" where
  "dispatcher_runs E s = (case pump_all E s of None \<Rightarrow> s | Some t \<Rightarrow> t)"

lemma drain_returns:
  assumes "ipc_disciplined E" "silent E" "disp_inv s Q" "length Q < NX_REPLY_POOL_SIZE"
  shows "\<exists>t P. drain_loop (dispatcher_runs E) r s = Some t \<and> disp_inv t P \<and> length P < NX_REPLY_POOL_SIZE"
proof (cases "sl_in_flight_calls (slots s r) > 0")
  case True
  obtain t where t: "pump_all E s = Some t" "disp_inv t []" using pump_all_drains [OF assms(1-4)] by blast
  then have "sl_in_flight_calls (slots t r) = 0" by (simp add: disp_inv_def ipc_inv_def count_for_def)
  then have "drain_loop (dispatcher_runs E) r t = Some t" by (subst drain_loop.simps) simp
  then have "drain_loop (dispatcher_runs E) r s = Some t"
    using True t(1) by (subst drain_loop.simps) (simp add: dispatcher_runs_def)
  then show ?thesis using t(2) by (intro exI [of _ t] exI [of _ "[]"]) simp
next
  case False
  then show ?thesis using assms(3,4) by (subst drain_loop.simps) auto
qed

lemma set_pause_disp: "disp_inv (snd (nx_slot_set_pause_state r st s)) Q \<longleftrightarrow> disp_inv s Q"
  by (auto simp: nx_slot_set_pause_state_def disp_inv_def ipc_inv_def set_slot_def pool_inv_def queue_is_def held_def
      count_for_def reply_pool_owns_def reply_entry_def)

lemma walk_drains:
  assumes "ipc_disciplined (ce_ipc C)" "silent (ce_ipc C)" "ce_yield C = dispatcher_runs (ce_ipc C)"
  shows "disp_inv s Q \<Longrightarrow> length Q < NX_REPLY_POOL_SIZE \<Longrightarrow> \<exists>t. walk_bound (slot_drain_cb C) c rs s = Some t"
proof (induction rs arbitrary: s Q)
  case Nil
  then show ?case by simp
next
  case (Cons r rs)
  show ?case
  proof (cases "sl_active (slots s r) = c")
    case False
    then show ?thesis using Cons by simp
  next
    case True
    let ?s1 = "snd (nx_slot_set_pause_state r NX_SLOT_PAUSE_DRAINING s)"
    have "disp_inv ?s1 Q" using Cons.prems(1) by (simp add: set_pause_disp)
    from drain_returns [OF assms(1,2) this Cons.prems(2), of r] obtain t P
      where "slot_drain_cb C r s = Some t" "disp_inv t P" "length P < NX_REPLY_POOL_SIZE"
      by (auto simp: slot_drain_cb_def assms(3))
    then show ?thesis using Cons.IH [of t P] True by simp
  qed
qed

lemma foreach_disp:
  assumes "f = (\<lambda>r s. snd (nx_slot_set_pause_state r st s))"
  shows "disp_inv (nx_component_foreach_bound_slot c f s) Q \<longleftrightarrow> disp_inv s Q"
proof -
  have "disp_inv (fold (\<lambda>r t. if sl_active (slots t r) = c then f r t else t) rs s) Q \<longleftrightarrow> disp_inv s Q" for rs
    by (induction rs arbitrary: s) (simp_all add: assms set_pause_disp)
  then show ?thesis by (simp add: nx_component_foreach_bound_slot_def)
qed

section \<open>Properties\<close>

text \<open>The six verbs with the state that each aims at.\<close>

datatype lc_verb = V_init | V_enable | V_pause | V_resume | V_disable | V_destroy

fun run_verb :: "'a ipc_state_scheme comp_env \<Rightarrow> lc_verb \<Rightarrow> comp_ref \<Rightarrow> 'a ipc_state_scheme \<Rightarrow>
    (int \<times> 'a ipc_state_scheme) option" where
  "run_verb C V_init c s = Some (nx_component_init C c s)"
| "run_verb C V_enable c s = Some (nx_component_enable C c s)"
| "run_verb C V_pause c s = nx_component_pause C c s"
| "run_verb C V_resume c s = nx_component_resume C c s"
| "run_verb C V_disable c s = Some (nx_component_disable C c s)"
| "run_verb C V_destroy c s = Some (nx_component_destroy C c s)"

fun verb_target :: "lc_verb \<Rightarrow> nx_lifecycle_state" where
  "verb_target V_init = NX_LC_READY"
| "verb_target V_enable = NX_LC_ACTIVE"
| "verb_target V_pause = NX_LC_PAUSED"
| "verb_target V_resume = NX_LC_ACTIVE"
| "verb_target V_disable = NX_LC_READY"
| "verb_target V_destroy = NX_LC_DESTROYED"

text \<open>The outcome of a verb that leaves the slots alone: a transition, or no change.\<close>

definition moves :: "nx_lifecycle_state \<Rightarrow> comp_ref \<Rightarrow> 'a graph_scheme \<Rightarrow> int \<times> 'a graph_scheme \<Rightarrow> bool" where
  "moves to c s r \<longleftrightarrow>
     shape (snd r) = shape s \<and> pauses (snd r) = pauses s \<and>
     (fst r = nx_rc NX_OK \<and> nx_lifecycle_transition_legal (states s c) to \<and> states (snd r) = (states s)(c := to) \<or>
      fst r \<noteq> nx_rc NX_OK \<and> states (snd r) = states s)"

lemma moves_fail: "still s (snd r) \<Longrightarrow> fst r \<noteq> nx_rc NX_OK \<Longrightarrow> moves to c s r"
  by (simp add: moves_def still_def)

lemma moves_set: "still s t \<Longrightarrow> nx_lifecycle_transition_legal (states s c) to \<Longrightarrow> moves to c s (state_set c to t)"
  using state_set_effect [of c to t] by (cases "state_set c to t") (fastforce simp: moves_def still_def)

lemma moves_transition:
  assumes "still s t" "states s c = from"
  shows "moves to c s (transition_from c from to t)"
proof (cases "c = NULL \<or> \<not> nx_lifecycle_transition_legal from to")
  case True
  then show ?thesis using assms moves_fail [of s "(nx_rc NX_EINVAL, t)"] moves_fail [of s "(nx_rc NX_ESTATE, t)"]
    by (auto simp: transition_from_def)
next
  case False
  have "cm_state (comps t c) = from" using assms by (auto simp: still_def states_def dest: fun_cong)
  then show ?thesis using False moves_set [OF assms(1), of c to] assms(2) by (simp add: transition_from_def)
qed

lemma verb_moves:
  assumes q: "quiet C"
  shows "moves NX_LC_READY c s (nx_component_init C c s)" "moves NX_LC_ACTIVE c s (nx_component_enable C c s)"
    "moves NX_LC_READY c s (nx_component_disable C c s)" "moves NX_LC_DESTROYED c s (nx_component_destroy C c s)"
proof -
  note simps = moves_fail moves_transition moves_set states_def
  show "moves NX_LC_READY c s (nx_component_init C c s)"
    using quiet_op [OF q, of "ce_init C" s c]
    by (auto simp: nx_component_init_def simps split: prod.split)
  have hk: "still s (snd (dispatch_lifecycle_hook C p c to s))" for p to by (rule quiet_hook [OF q])
  have op: "still s (snd (call_op sel c (snd (dispatch_lifecycle_hook C p c to s))))"
    if "sel \<in> {ce_init C, ce_enable C, ce_pause_hook C, ce_pause C, ce_resume C, ce_disable C}" for sel p to
    by (rule still_trans [OF hk quiet_op [OF q that]])
  show "moves NX_LC_ACTIVE c s (nx_component_enable C c s)"
    using hk [of NX_HOOK_COMPONENT_ENABLE NX_LC_ACTIVE]
      op [of "ce_enable C" NX_HOOK_COMPONENT_ENABLE NX_LC_ACTIVE]
    by (auto simp: nx_component_enable_def simps split_beta)
  show "moves NX_LC_READY c s (nx_component_disable C c s)"
    using hk [of NX_HOOK_COMPONENT_DISABLE NX_LC_READY]
      op [of "ce_disable C" NX_HOOK_COMPONENT_DISABLE NX_LC_READY]
    by (auto simp: nx_component_disable_def simps split_beta)
  have "still s (case op_of (ce_destroy C) c s of None \<Rightarrow> s | Some f \<Rightarrow> f (cm_impl (comps s c)) s)"
    using q by (auto simp: op_of_def quiet_def split: option.splits if_splits)
  then show "moves NX_LC_DESTROYED c s (nx_component_destroy C c s)"
    by (auto simp: nx_component_destroy_def Let_def simps)
qed

lemma pause_completes:
  assumes "quiet C" "ipc_disciplined (ce_ipc C)" "silent (ce_ipc C)" "ce_yield C = dispatcher_runs (ce_ipc C)"
    and "disp_reach (ce_ipc C) s" "queue_is s Q" "length Q < NX_REPLY_POOL_SIZE" "no_hooks s"
    and "NULL \<notin> set (reg_slots s)" "c \<in> set (reg_comps s)" "c \<noteq> NULL" "cm_state (comps s c) = NX_LC_ACTIVE"
    and "\<And>u. fst (pause_ops C c u) = nx_rc NX_OK"
  shows "\<exists>t. nx_component_pause C c s = Some (nx_rc NX_OK, t) \<and> cm_state (comps t c) = NX_LC_PAUSED"
proof -
  have inv: "disp_inv s Q"
    using disp_reach_inv [OF assms(2,5)] queue_unique [OF assms(6)] by (auto simp: disp_inv_def ipc_inv_def)
  have hook: "dispatch_lifecycle_hook C p c to s = (nx_rc NX_OK, s)" for p to
    using dispatch_no_hooks [of s] assms(8) by (simp add: dispatch_lifecycle_hook_def no_hooks_def)
  have cb: "slot_cutoff_cb = (\<lambda>r s. snd (nx_slot_set_pause_state r NX_SLOT_PAUSE_CUTTING s))"
    "slot_done_cb = (\<lambda>r s. snd (nx_slot_set_pause_state r NX_SLOT_PAUSE_DONE s))"
    by (auto simp: fun_eq_iff slot_cutoff_cb_def slot_done_cb_def)
  let ?s2 = "nx_component_foreach_bound_slot c slot_cutoff_cb s"
  have "disp_inv ?s2 Q" using inv foreach_disp [OF cb(1)] by blast
  from walk_drains [OF assms(2-4) this assms(7)] obtain s3 where s3: "foreach_bound c (slot_drain_cb C) ?s2 = Some s3"
    using assms(11) by (auto simp: foreach_bound_def)
  obtain s4 where s4: "pause_ops C c s3 = (nx_rc NX_OK, s4)" using assms(13) [of s3] by (metis prod.collapse)
  let ?s5 = "nx_component_foreach_bound_slot c slot_done_cb s4"
  obtain rc t where t: "transition_from c NX_LC_ACTIVE NX_LC_PAUSED ?s5 = (rc, t)" by fastforce
  have p: "nx_component_pause C c s = Some (rc, t)"
    using assms(11,12) hook s3 s4 t by (simp add: nx_component_pause_def Let_def)
  note e2 = foreach_set_pause [OF refl assms(9,11) cb(1)]
  note e3 = foreach_effects(1) [OF assms(1) e2(1) assms(9,11) s3]
  have s4': "shape s4 = shape s" "states s4 = states s"
    using quiet_pause_ops [OF assms(1), of s3 c] s4 e2 e3 by (simp_all add: still_def)
  note e5 = foreach_set_pause [OF s4'(1) assms(9,11) cb(2)]
  have "states ?s5 c = NX_LC_ACTIVE" using e5(2) s4'(2) assms(12) by (simp add: states_def)
  from transition_effect(3) [OF t _ this assms(11) e5(1)] assms(10)
  have "rc = nx_rc NX_OK" "states t c = NX_LC_PAUSED" by auto
  then show ?thesis using p by (simp add: states_def)
qed

text \<open>
  C12. The lifecycle is the state machine of the transition matrix. Whatever the operations of a component return, a verb
  that reports success was legal in the state where it was called and moves this component, and no other, to its target;
  a verb that reports an error, whatever the reason, leaves every component in its state. In particular nothing leads out
  of the destroyed state.
\<close>

theorem lifecycle_follows_matrix:
  assumes "quiet C" "NULL \<notin> set (reg_slots s)" "run_verb C v c s = Some (rc, t)"
  shows "(if rc = nx_rc NX_OK
     then nx_lifecycle_transition_legal (cm_state (comps s c)) (verb_target v) \<and> cm_state (comps t c) = verb_target v \<and>
       (\<forall>d. d \<noteq> c \<longrightarrow> cm_state (comps t d) = cm_state (comps s d))
     else \<forall>d. cm_state (comps t d) = cm_state (comps s d))"
proof -
  have "rc = nx_rc NX_OK \<and> nx_lifecycle_transition_legal (states s c) (verb_target v) \<and>
      states t = (states s)(c := verb_target v) \<or> rc \<noteq> nx_rc NX_OK \<and> states t = states s"
  proof (cases v)
    case V_pause
    then show ?thesis using pause_outcome(2) [OF assms(1,2), of c rc t] assms(3) by auto
  next
    case V_resume
    then show ?thesis using resume_outcome(2) [OF assms(1,2), of c rc t] assms(3) by auto
  qed (use assms(3) verb_moves [OF assms(1), of c s] in \<open>auto simp: moves_def\<close>)
  then show ?thesis by (auto simp: states_def fun_eq_iff)
qed

text \<open>
  C13. A pause is all or nothing. Called on a registered component whose slots accept messages, it either succeeds, and
  then the component is paused and exactly the slots bound to it have stopped; or it reports an error of the component
  (a refusal, or an overrun of the 1 ms budget of the pause hook) or of a hook, and then component states, bindings and
  the pause states of all slots are what they were. A successful resume after a successful pause restores all of them.
\<close>

theorem pause_all_or_nothing:
  assumes "quiet C" "NULL \<notin> set (reg_slots s)" "c \<in> set (reg_comps s)"
    and "\<And>r. bound_to c s r \<Longrightarrow> sl_pause_state (slots s r) = NX_SLOT_PAUSE_NONE"
    and "nx_component_pause C c s = Some (rc, t)"
  shows "(if rc = nx_rc NX_OK
     then cm_state (comps t c) = NX_LC_PAUSED \<and>
       (\<forall>r. sl_pause_state (slots t r) = (if bound_to c s r then NX_SLOT_PAUSE_DONE else sl_pause_state (slots s r)))
     else still s t) \<and>
    (\<forall>u. rc = nx_rc NX_OK \<and> nx_component_resume C c t = Some (nx_rc NX_OK, u) \<longrightarrow> still s u)"
proof -
  note P = pause_outcome [OF assms(1,2,5)]
  have none: "paused_as NX_SLOT_PAUSE_NONE c s = pauses s"
    using assms(4) by (auto simp: paused_as_def pauses_def fun_eq_iff)
  have again: "still s u" if "rc = nx_rc NX_OK" "nx_component_resume C c t = Some (nx_rc NX_OK, u)" for u
  proof -
    note rc = that(1) and r = that(2)
    have N: "NULL \<notin> set (reg_slots t)" using assms(2) shape_reg [OF P(1)] by simp
    note R = resume_outcome [OF assms(1) N r]
    have "pauses u = paused_as NX_SLOT_PAUSE_NONE c s"
      using R(2) P(2) rc shape_bound [OF P(1), of c] by (auto simp: paused_as_def fun_eq_iff)
    moreover have "states u = (states s)(c := NX_LC_ACTIVE)" "states s c = NX_LC_ACTIVE" using R(2) P(2) rc by auto
    ultimately show ?thesis using none R(1) P(1) by (auto simp: still_def)
  qed
  show ?thesis
  proof (cases "rc = nx_rc NX_OK")
    case True
    then have "states t c = NX_LC_PAUSED" "pauses t = paused_as NX_SLOT_PAUSE_DONE c s" using P(2) by auto
    then show ?thesis using True again by (auto simp: states_def pauses_def paused_as_def fun_eq_iff)
  next
    case False
    then show ?thesis using P none assms(3) by (auto simp: still_def)
  qed
qed


section \<open>A concrete component\<close>

text \<open>
  The dispatcher of the earlier example with its queued request, whose handler is that of the active component 3, the one
  component of the graph, bound to slot 1. It has no operations of its own.
\<close>

definition demo_ops :: "ipc_state comp_env" where
  "demo_ops =
     \<lparr>ce_ipc = demo_env, ce_init = (\<lambda>d. None), ce_enable = (\<lambda>d. None), ce_pause_hook = (\<lambda>d. None), ce_pause = (\<lambda>d. None),
      ce_resume = (\<lambda>d. None), ce_disable = (\<lambda>d. None), ce_destroy = (\<lambda>d. None), ce_on_dep_swapped = (\<lambda>d. None),
      ce_yield = dispatcher_runs demo_env, ce_counter = (\<lambda>s. 0), ce_freq = 62500000\<rparr>"

definition demo_active :: ipc_state where
  "demo_active = demo_queued\<lparr>comps := (\<lambda>c. (comps demo_queued c)\<lparr>cm_state := NX_LC_ACTIVE\<rparr>),
     g_slots := [\<lparr>sn_slot = 1, sn_incoming = [], sn_outgoing = [], sn_created_gen = 0\<rparr>],
     g_components := [\<lparr>cmn_comp = 3, cmn_created_gen = 0\<rparr>]\<rparr>"

lemma still_disp:
  "still s (t\<lparr>g_disp_mpsc := q\<rparr>) \<longleftrightarrow> still s t" "still s (t\<lparr>g_disp_pending := n\<rparr>) \<longleftrightarrow> still s t"
  "still s (t\<lparr>g_reply_pool_inuse := ws\<rparr>) \<longleftrightarrow> still s t" "still s (in_flight_done r t) \<longleftrightarrow> still s t"
proof -
  show "still s (in_flight_done r t) \<longleftrightarrow> still s t"
    by (auto simp: still_def shape_def states_def pauses_def fun_eq_iff in_flight_done_def set_slot_def)
qed (simp_all add: still_def shape_def states_def pauses_def fun_eq_iff)

lemma still_reply:
  assumes "pump_reply rr fr m rc u = Some t"
  shows "still s t \<longleftrightarrow> still s u"
proof -
  have b: "still s v \<longleftrightarrow> still s u" if "build_reply m rc u = Some (k, v)" for k v
    using that by (auto simp: build_reply_def reply_pool_alloc_def Let_def still_write still_disp split: option.splits if_splits)
  have f: "still s (reply_pool_free m v) \<longleftrightarrow> still s v" for v
    unfolding reply_pool_free_def Let_def if_distrib [of "still s"] still_disp by (simp only: if_cancel)
  obtain v where v: "t = (if fr then reply_pool_free m v else v)"
    "(if rr \<and> im_src_slot (msgs u m) \<noteq> NULL
      then map_option (\<lambda>(r, s1). snd (nx_dispatcher_enqueue r s1)) (build_reply m rc u) else Some u) = Some v"
    using assms unfolding pump_reply_def by (auto split: option.splits)
  have "still s v \<longleftrightarrow> still s u"
    using v(2) by (auto simp: still_write b split: if_splits)
  then show ?thesis using f unfolding v(1) by presburger
qed

lemma keeps_pump:
  assumes "router_keeps E (still s)" "still s u" "nx_dispatcher_pump_once E u = Some (n, t)"
  shows "still s t"
proof -
  have h: "still s (snd (invoke_handler E d m v))" if "still s v" for d m v
    using assms(1) that by (auto simp: invoke_handler_def Let_def router_keeps_def split: option.splits)
  have d: "still s (snd (pump_deliver E m v))" if "still s v" for m v
    using keeps_hooks [OF assms(1) that] h
    by (auto simp: pump_deliver_def Let_def split: prod.split nx_hook_action.split) (metis snd_conv)+
  obtain nd q where pop: "nx_mpsc_pop (g_disp_mpsc u) = (nd, q)" by fastforce
  let ?v = "u\<lparr>g_disp_mpsc := q, g_disp_pending := g_disp_pending u - 1\<rparr>"
  obtain rc w where w: "pump_deliver E (node_to_msg nd) ?v = (rc, w)" by fastforce
  have "still s w" using d [of ?v "node_to_msg nd"] assms(2) w by (simp add: still_disp)
  then have "still s t" if "pump_reply rr fr m rc (in_flight_done r w) = Some t" for rr fr m r
    using still_reply [OF that] by (simp only: still_disp)
  moreover have "still s (u\<lparr>g_disp_mpsc := q\<rparr>)" using assms(2) by (simp only: still_disp)
  ultimately show ?thesis
    using assms(2,3) pop w by (auto simp: nx_dispatcher_pump_once_def Let_def split: if_splits)
qed

lemma demo_quiet: "quiet demo_ops"
proof -
  have E: "router_keeps demo_env (still s)" for s
    unfolding router_keeps_def still_write by (simp add: demo_env_def)
  have pump: "still s t" if "pump_all demo_env s = Some t" for s t
  proof -
    let ?P = "\<lambda>E s t. E = demo_env \<longrightarrow> still s t"
    have "?P demo_env s t"
    proof (rule pump_all.raw_induct [where P = ?P, OF _ that], intro impI)
      fix f and E :: "ipc_state ipc_env" and s t
      assume IH: "\<And>E s t. f E s = Some t \<Longrightarrow> ?P E s t" and demo: "E = demo_env"
        and step: "(case nx_dispatcher_pump_once E s of None \<Rightarrow> None
          | Some (n, t) \<Rightarrow> if n = 0 then Some t else f E t) = Some t"
      obtain n u where u: "nx_dispatcher_pump_once E s = Some (n, u)" using step by (auto split: option.splits)
      have "still s u" using keeps_pump [OF E still_refl] u demo by blast
      then show "still s t" using step u IH [of E u t] demo still_trans [of s u t] by (auto split: if_splits)
    qed
    then show ?thesis by blast
  qed
  then have "still s (dispatcher_runs demo_env s)" for s by (auto simp: dispatcher_runs_def split: option.split)
  then show ?thesis by (simp add: quiet_def demo_ops_def demo_env_def)
qed

lemma demo_active_fields:
  "reg_slots demo_active = [1]" "reg_comps demo_active = [3]" "cm_state (comps demo_active c) = NX_LC_ACTIVE"
  "sl_pause_state (slots demo_active r) = NX_SLOT_PAUSE_NONE" "no_hooks demo_active" "bound_to 3 demo_active 1"
  "queue_is demo_active [0x1000]" "disp_reach demo_env demo_active"
proof -
  have same: "router_same demo_queued demo_active" by (simp add: router_same_def demo_active_def)
  then show "disp_reach demo_env demo_active" by (intro dr_acts [OF demo_queue(2)] ia_other [OF ia_none])
  show "queue_is demo_active [0x1000]"
    using router_same_queue [OF same] demo_queue(1) by (simp add: disp_inv_def ipc_inv_def)
  have "sl_pause_state (slots demo_router r) = NX_SLOT_PAUSE_NONE" for r
    by (simp add: demo_router_def demo_slot_def graph.defs ipc_state.defs)
  then show "sl_pause_state (slots demo_active r) = NX_SLOT_PAUSE_NONE" "bound_to 3 demo_active 1" "no_hooks demo_active"
    by (simp_all add: demo_active_def demo_queued_def nx_dispatcher_enqueue_def Let_def set_slot_def bound_to_def no_hooks_def
        ensure_queue_init_def)
qed (simp_all add: demo_active_def)

lemma demo_silent: "silent (ce_ipc demo_ops)" "ce_ipc demo_ops = demo_env" "ce_yield demo_ops = dispatcher_runs demo_env"
  "fst (pause_ops demo_ops c u) = nx_rc NX_OK"
  by (auto simp: silent_def demo_ops_def demo_env_def pause_ops_def run_pause_hook_def call_op_def op_of_def)


theorem lifecycle_follows_matrix_witness:
  "fst (nx_component_disable demo_ops 3 demo_active) = nx_rc NX_OK \<and>
   cm_state (comps (snd (nx_component_disable demo_ops 3 demo_active)) 3) = NX_LC_READY \<and>
   run_verb demo_ops V_resume 3 demo_active = Some (nx_rc NX_ESTATE, demo_active)"
proof -
  obtain rc t where t: "nx_component_disable demo_ops 3 demo_active = (rc, t)" by fastforce
  have hook: "dispatch_lifecycle_hook demo_ops p c to demo_active = (nx_rc NX_OK, demo_active)" for p c to
    using dispatch_no_hooks [of demo_active] demo_active_fields(5) by (simp add: dispatch_lifecycle_hook_def no_hooks_def)
  have "call_op (ce_disable demo_ops) 3 demo_active = (nx_rc NX_OK, demo_active)"
    by (simp add: call_op_def op_of_def demo_ops_def)
  then have set: "state_set 3 NX_LC_READY demo_active = (rc, t)"
    using t by (simp add: nx_component_disable_def hook demo_active_fields)
  have "component_node_for 3 demo_active \<noteq> None" by (simp add: component_node_for_def demo_active_def)
  then have rc: "rc = nx_rc NX_OK" using state_set_effect(3) [OF set] by auto
  moreover have "run_verb demo_ops V_resume 3 demo_active = Some (nx_rc NX_ESTATE, demo_active)"
    by (simp add: nx_component_resume_def demo_active_fields)
  moreover have "NULL \<notin> set (reg_slots demo_active)" by (simp add: demo_active_fields)
  ultimately show ?thesis
    using lifecycle_follows_matrix [OF demo_quiet, of demo_active V_disable 3 rc t] t by simp
qed

theorem pause_all_or_nothing_witness:
  "\<exists>t. nx_component_pause demo_ops 3 demo_active = Some (nx_rc NX_OK, t) \<and>
     sl_pause_state (slots demo_active 1) = NX_SLOT_PAUSE_NONE \<and> sl_pause_state (slots t 1) = NX_SLOT_PAUSE_DONE"
proof -
  have n: "NULL \<notin> set (reg_slots demo_active)" "3 \<in> set (reg_comps demo_active)" by (simp_all add: demo_active_fields)
  have "\<exists>t. nx_component_pause demo_ops 3 demo_active = Some (nx_rc NX_OK, t) \<and> cm_state (comps t 3) = NX_LC_PAUSED"
    by (rule pause_completes [OF demo_quiet _ demo_silent(1), where Q = "[0x1000]"])
      (use demo_silent demo_env_disciplined demo_active_fields in simp_all)
  then obtain t where t: "nx_component_pause demo_ops 3 demo_active = Some (nx_rc NX_OK, t)" by blast
  from pause_all_or_nothing [OF demo_quiet n _ t]
  have "\<forall>r. sl_pause_state (slots t r) = (if bound_to 3 demo_active r then NX_SLOT_PAUSE_DONE else sl_pause_state (slots demo_active r))"
    by (simp add: demo_active_fields)
  then have "sl_pause_state (slots t 1) = NX_SLOT_PAUSE_DONE" using demo_active_fields(6) by simp
  then show ?thesis using t demo_active_fields(4) by blast
qed

end
