(* ===== verification/Nx_Irq.thy ===== *)
theory Nx_Irq
  imports Nx_Component
begin

text \<open>
  Interrupts and the tick: the driver of the interrupt controller (\<^verbatim>\<open>core/irq/gic.c\<close>), the handler table
  (\<^verbatim>\<open>core/irq/irq.c\<close>) and the periodic timer with its nested pause (\<^verbatim>\<open>core/timer/timer.c\<close>). What the drivers do to
  the hardware is the sequence of their register writes. What the controller makes of them, that a bit written to a
  set-enable or clear-enable register unmasks or masks its interrupt, is in the function \<open>unmasked\<close>, which only the
  properties use. The value of the acknowledge register and the handlers are arguments.
\<close>

section \<open>State\<close>

datatype reg_write = W8 u64 u8 | W32 u64 u32 | Cntp_tval u64 | Cntp_ctl u64

record irq_entry =
  ie_fn :: ptr
  ie_data :: ptr

record irq_state = ipc_state +
  mmio :: "reg_write list"
  g_table :: "irq_entry list"
  g_interval :: u64
  g_ticks :: u64
  g_pause_nest :: u32

abbreviation (input) IRQ_TABLE_SIZE :: nat where "IRQ_TABLE_SIZE \<equiv> 128"
abbreviation (input) TIMER_PPI :: nat where "TIMER_PPI \<equiv> 30"
abbreviation (input) GICD_BASE :: u64 where "GICD_BASE \<equiv> 0x08000000"
abbreviation (input) GICC_BASE :: u64 where "GICC_BASE \<equiv> 0x08010000"

definition GICD_ISENABLER :: "nat \<Rightarrow> u64" where
  "GICD_ISENABLER n = GICD_BASE + 0x100 + of_nat (n * 4)"

definition GICD_ICENABLER :: "nat \<Rightarrow> u64" where
  "GICD_ICENABLER n = GICD_BASE + 0x180 + of_nat (n * 4)"

definition wr :: "reg_write \<Rightarrow> 'a irq_state_scheme \<Rightarrow> 'a irq_state_scheme" where
  "wr w s = s\<lparr>mmio := mmio s @ [w]\<rparr>"

section \<open>The interrupt controller\<close>

definition gic_init :: "'a irq_state_scheme \<Rightarrow> 'a irq_state_scheme" where
  "gic_init s = wr (W32 (GICC_BASE + 0x000) 0x3) (wr (W32 (GICC_BASE + 0x004) 0xFF) (wr (W32 (GICD_BASE + 0x000) 0x3) s))"

definition gic_enable :: "nat \<Rightarrow> 'a irq_state_scheme \<Rightarrow> 'a irq_state_scheme" where
  "gic_enable irq s =
     wr (W32 (GICD_ISENABLER (irq div 32)) (push_bit (irq mod 32) 1)) (wr (W8 (GICD_BASE + 0x400 + of_nat irq) 0x00) s)"

definition gic_disable :: "nat \<Rightarrow> 'a irq_state_scheme \<Rightarrow> 'a irq_state_scheme" where
  "gic_disable irq s = wr (W32 (GICD_ICENABLER (irq div 32)) (push_bit (irq mod 32) 1)) s"

definition gic_ack :: "u32 \<Rightarrow> nat" where
  "gic_ack iar = unat (iar AND 0x3FF)"

definition gic_eoi :: "nat \<Rightarrow> 'a irq_state_scheme \<Rightarrow> 'a irq_state_scheme" where
  "gic_eoi irq s = wr (W32 (GICC_BASE + 0x010) (of_nat irq)) s"

section \<open>The handler table\<close>

definition irq_register :: "nat \<Rightarrow> ptr \<Rightarrow> ptr \<Rightarrow> 'a irq_state_scheme \<Rightarrow> int \<times> 'a irq_state_scheme" where
  "irq_register irq fn data s =
     (if irq \<ge> IRQ_TABLE_SIZE then (-1, s)
      else if ie_fn (g_table s ! irq) \<noteq> NULL then (-1, s)
      else (0, s\<lparr>g_table := (g_table s)[irq := \<lparr>ie_fn = fn, ie_data = data\<rparr>]\<rparr>))"

definition irq_unregister :: "nat \<Rightarrow> 'a irq_state_scheme \<Rightarrow> 'a irq_state_scheme" where
  "irq_unregister irq s =
     (if irq \<ge> IRQ_TABLE_SIZE then s else s\<lparr>g_table := (g_table s)[irq := \<lparr>ie_fn = NULL, ie_data = NULL\<rparr>]\<rparr>)"

text \<open>\<open>isr\<close> runs the handler at an address with its argument; \<open>iar\<close> is the value of the acknowledge register.\<close>

definition irq_dispatch :: "(ptr \<Rightarrow> ptr \<Rightarrow> 'a irq_state_scheme \<Rightarrow> 'a irq_state_scheme) \<Rightarrow> u32 \<Rightarrow>
    'a irq_state_scheme \<Rightarrow> 'a irq_state_scheme" where
  "irq_dispatch isr iar s =
     (let irq = gic_ack iar in
      if irq \<ge> 1020 then s
      else let fn = (if irq < IRQ_TABLE_SIZE then ie_fn (g_table s ! irq) else NULL);
               s1 = (if fn \<noteq> NULL then isr fn (ie_data (g_table s ! irq)) s else gic_disable irq s)
           in gic_eoi irq s1)"

section \<open>The timer\<close>

text \<open>\<open>tick\<close> is the scheduler's part of the tick.\<close>

definition on_tick :: "('a irq_state_scheme \<Rightarrow> 'a irq_state_scheme) \<Rightarrow> 'a irq_state_scheme \<Rightarrow> 'a irq_state_scheme" where
  "on_tick tick s = tick ((wr (Cntp_tval (g_interval s)) s)\<lparr>g_ticks := g_ticks s + 1\<rparr>)"

definition timer_init :: "ptr \<Rightarrow> u64 \<Rightarrow> u32 \<Rightarrow> 'a irq_state_scheme \<Rightarrow> 'a irq_state_scheme" where
  "timer_init on_tick_fn freq hz s =
     (let hz1 = (if hz = 0 then 1 else hz);
          s1 = s\<lparr>g_interval := freq div ucast hz1\<rparr>;
          s2 = gic_enable TIMER_PPI (snd (irq_register TIMER_PPI on_tick_fn 0 s1))
      in wr (Cntp_ctl 1) (wr (Cntp_tval (g_interval s2)) s2))"

definition timer_ticks :: "'a irq_state_scheme \<Rightarrow> u64" where
  "timer_ticks s = g_ticks s"

definition timer_pause :: "'a irq_state_scheme \<Rightarrow> 'a irq_state_scheme" where
  "timer_pause s =
     (let prev = g_pause_nest s; s1 = s\<lparr>g_pause_nest := prev + 1\<rparr> in
      if prev = 0 then gic_disable TIMER_PPI s1 else s1)"

text \<open>The compare-and-swap loop as the exchange that succeeds.\<close>

definition timer_resume :: "'a irq_state_scheme \<Rightarrow> 'a irq_state_scheme" where
  "timer_resume s =
     (let cur = g_pause_nest s in
      if cur = 0 then s
      else let s1 = s\<lparr>g_pause_nest := cur - 1\<rparr> in
           if cur = 1 then gic_enable TIMER_PPI s1 else s1)"

section \<open>What the controller makes of the writes\<close>

fun apply_write :: "nat \<Rightarrow> reg_write \<Rightarrow> bool \<Rightarrow> bool" where
  "apply_write irq (W32 a v) b =
     (if a = GICD_ISENABLER (irq div 32) \<and> bit v (irq mod 32) then True
      else if a = GICD_ICENABLER (irq div 32) \<and> bit v (irq mod 32) then False else b)"
| "apply_write irq _ b = b"

definition unmasked :: "nat \<Rightarrow> 'a irq_state_scheme \<Rightarrow> bool" where
  "unmasked irq s = fold (apply_write irq) (mmio s) False"

lemma enabler_addresses:
  assumes "m < 32" "n < 32"
  shows "GICD_ISENABLER m = GICD_ISENABLER n \<longleftrightarrow> m = n" "GICD_ICENABLER m = GICD_ICENABLER n \<longleftrightarrow> m = n"
    "GICD_ISENABLER m \<noteq> GICD_ICENABLER n" "GICD_ISENABLER m \<noteq> GICC_BASE + 0x010" "GICD_ICENABLER m \<noteq> GICC_BASE + 0x010"
proof -
  have u: "unat (GICD_ISENABLER k) = 0x08000100 + k * 4" "unat (GICD_ICENABLER k) = 0x08000180 + k * 4" if "k < 32" for k
  proof -
    have "GICD_ISENABLER k = of_nat (0x08000100 + k * 4)" "GICD_ICENABLER k = of_nat (0x08000180 + k * 4)"
      by (simp_all add: GICD_ISENABLER_def GICD_ICENABLER_def)
    moreover have "0x08000100 + k * 4 < 2 ^ 64" "0x08000180 + k * 4 < 2 ^ 64" using that by simp_all
    ultimately show "unat (GICD_ISENABLER k) = 0x08000100 + k * 4" "unat (GICD_ICENABLER k) = 0x08000180 + k * 4"
      by (simp_all only: unat_of_nat_u64)
  qed
  define A B D :: nat where "A = 0x08000100" and "B = 0x08000180" and "D = 0x08010010"
  have AB: "A + 128 = B" "B + 128 < D" by (simp_all add: A_def B_def D_def)
  have uA: "unat (GICD_ISENABLER k) = A + k * 4" and uB: "unat (GICD_ICENABLER k) = B + k * 4" if "k < 32" for k
    using u [OF that] by (simp_all only: A_def B_def)
  have uD: "unat (GICC_BASE + 0x010) = D" by (simp add: D_def)
  have eq: "x = y \<longleftrightarrow> unat x = unat y" for x y :: u64 by (rule word_unat_eq_iff)
  note U = uA [OF assms(1)] uA [OF assms(2)] uB [OF assms(1)] uB [OF assms(2)] uD
  show "GICD_ISENABLER m = GICD_ISENABLER n \<longleftrightarrow> m = n" "GICD_ICENABLER m = GICD_ICENABLER n \<longleftrightarrow> m = n"
    "GICD_ISENABLER m \<noteq> GICD_ICENABLER n" "GICD_ISENABLER m \<noteq> GICC_BASE + 0x010" "GICD_ICENABLER m \<noteq> GICC_BASE + 0x010"
    unfolding eq U using AB assms by linarith+
qed

lemma unmasked_wr: "unmasked irq (wr w s) = apply_write irq w (unmasked irq s)"
  by (simp add: unmasked_def wr_def)

lemma unmasked_same: "mmio t = mmio s \<Longrightarrow> unmasked irq t = unmasked irq s"
  by (simp add: unmasked_def)

lemma index_split: "i = j \<longleftrightarrow> i div 32 = j div 32 \<and> i mod 32 = j mod 32" for i j :: nat
  by (metis div_mult_mod_eq)

lemma one_bit: "k < 32 \<Longrightarrow> n < 32 \<Longrightarrow> bit (push_bit k 1 :: u32) n \<longleftrightarrow> n = k"
  by (auto simp: push_bit_eq_mult bit_exp_iff)

lemma unmasked_gic:
  assumes "irq < 1020" "q < 1020"
  shows "unmasked q (gic_enable irq s) \<longleftrightarrow> q = irq \<or> unmasked q s"
    "unmasked q (gic_disable irq s) \<longleftrightarrow> q \<noteq> irq \<and> unmasked q s"
    "unmasked q (gic_eoi irq s) \<longleftrightarrow> unmasked q s"
proof -
  have d: "irq div 32 < 32" "q div 32 < 32" using assms by (simp_all add: less_mult_imp_div_less)
  note a = enabler_addresses [OF d(2,1)] enabler_addresses [OF d(1,2)] one_bit [of "irq mod 32" "q mod 32"] index_split [of q irq]
  show "unmasked q (gic_enable irq s) \<longleftrightarrow> q = irq \<or> unmasked q s"
    using a by (auto simp: gic_enable_def unmasked_wr)
  show "unmasked q (gic_disable irq s) \<longleftrightarrow> q \<noteq> irq \<and> unmasked q s"
    using a by (auto simp: gic_disable_def unmasked_wr)
  show "unmasked q (gic_eoi irq s) \<longleftrightarrow> unmasked q s"
    using a(4,5) by (auto simp: gic_eoi_def unmasked_wr)
qed

section \<open>Nested pauses\<close>

text \<open>The tick is masked exactly while pauses are open.\<close>

definition timer_inv :: "nat \<Rightarrow> 'a irq_state_scheme \<Rightarrow> bool" where
  "timer_inv d s \<longleftrightarrow> unat (g_pause_nest s) = d \<and> (unmasked TIMER_PPI s \<longleftrightarrow> d = 0)"

lemma nest_simps [simp]:
  "g_pause_nest (gic_enable i s) = g_pause_nest s" "g_pause_nest (gic_disable i s) = g_pause_nest s"
  by (simp_all add: gic_enable_def gic_disable_def wr_def)

lemma timer_pause_inv:
  assumes "timer_inv d s" "d + 1 < 2 ^ 32"
  shows "timer_inv (d + 1) (timer_pause s)"
proof -
  let ?s1 = "s\<lparr>g_pause_nest := g_pause_nest s + 1\<rparr>"
  have n: "unat (g_pause_nest s + 1) = d + 1" using assms by (simp add: timer_inv_def unat_word_ariths)
  have m: "unmasked TIMER_PPI ?s1 = unmasked TIMER_PPI s" by (rule unmasked_same) simp
  have z: "g_pause_nest s = 0 \<longleftrightarrow> d = 0" using assms(1) by (auto simp: timer_inv_def unat_eq_zero)
  show ?thesis
    using n m z assms(1) unmasked_gic(2) [of 30 30 ?s1] by (auto simp: timer_inv_def timer_pause_def Let_def)
qed

lemma timer_resume_inv:
  assumes "timer_inv d s"
  shows "timer_inv (d - 1) (timer_resume s)"
proof (cases d)
  case 0
  then show ?thesis using assms by (simp add: timer_inv_def timer_resume_def unat_eq_zero)
next
  case (Suc k)
  let ?s1 = "s\<lparr>g_pause_nest := g_pause_nest s - 1\<rparr>"
  have c: "g_pause_nest s \<noteq> 0" "unat (g_pause_nest s) = Suc k" using assms Suc by (auto simp: timer_inv_def)
  have n: "unat (g_pause_nest s - 1) = k" using c by (simp add: unat_minus_one)
  have m: "unmasked TIMER_PPI ?s1 = unmasked TIMER_PPI s" by (rule unmasked_same) simp
  have one: "g_pause_nest s = 1 \<longleftrightarrow> k = 0" using c(2) by (simp add: word_unat_eq_iff)
  show ?thesis
    using n m one c Suc assms unmasked_gic(1) [of 30 30 ?s1] by (auto simp: timer_inv_def timer_resume_def Let_def)
qed

section \<open>Properties\<close>

text \<open>
  C34. An interrupt that nobody claims cannot storm: when the table has no handler for it, or it lies outside the table,
  the dispatch masks exactly this interrupt at the controller, leaves the handler table alone, and completes the
  interrupt as its last write. A spurious interrupt has no effect at all.
\<close>

theorem unclaimed_interrupt_masked:
  assumes "gic_ack iar < IRQ_TABLE_SIZE \<Longrightarrow> ie_fn (g_table s ! gic_ack iar) = NULL" "q < 1020"
  shows "let t = irq_dispatch isr iar s in if gic_ack iar < 1020
    then (unmasked q t \<longleftrightarrow> q \<noteq> gic_ack iar \<and> unmasked q s) \<and> g_table t = g_table s \<and>
      last (mmio t) = W32 (GICC_BASE + 0x010) (of_nat (gic_ack iar))
    else t = s"
proof (cases "gic_ack iar < 1020")
  case False
  then show ?thesis by (simp add: irq_dispatch_def Let_def)
next
  case True
  then have t: "irq_dispatch isr iar s = gic_eoi (gic_ack iar) (gic_disable (gic_ack iar) s)"
    using assms(1) by (auto simp: irq_dispatch_def Let_def)
  let ?t = "gic_eoi (gic_ack iar) (gic_disable (gic_ack iar) s)"
  have "g_table ?t = g_table s" "last (mmio ?t) = W32 (GICC_BASE + 0x010) (of_nat (gic_ack iar))"
    by (simp_all add: gic_eoi_def gic_disable_def wr_def)
  moreover have "unmasked q ?t \<longleftrightarrow> q \<noteq> gic_ack iar \<and> unmasked q s"
    unfolding unmasked_gic [OF True assms(2)] by (rule refl)
  ultimately show ?thesis unfolding t Let_def using True by presburger
qed

definition demo_irqs :: irq_state where
  "demo_irqs = ipc_state.extend demo_router
     \<lparr>mmio = [], g_table = replicate 128 \<lparr>ie_fn = NULL, ie_data = NULL\<rparr>, g_interval = 0, g_ticks = 0, g_pause_nest = 0\<rparr>"

text \<open>Interrupt 33 has no handler and is unmasked.\<close>

theorem unclaimed_interrupt_masked_witness:
  "unmasked 33 (gic_enable 33 demo_irqs) \<and> \<not> unmasked 33 (irq_dispatch (\<lambda>f d s. s) 33 (gic_enable 33 demo_irqs))"
proof -
  have a: "gic_ack 33 = 33" by (simp add: gic_ack_def)
  have "ie_fn (g_table (gic_enable 33 demo_irqs) ! 33) = NULL"
    by (simp add: demo_irqs_def gic_enable_def wr_def ipc_state.defs)
  then show ?thesis
    using unclaimed_interrupt_masked [of 33 "gic_enable 33 demo_irqs" 33 "\<lambda>f d s. s"] unmasked_gic(1) [of 33 33 demo_irqs]
    by (simp add: a Let_def)
qed

end
