(* ===== verification/Nx_Recompose.thy ===== *)
theory Nx_Recompose
  imports Nx_Irq
begin

text \<open>
  Recomposition at run time (\<^verbatim>\<open>framework/recompose.c\<close>): the order in which the slots of a plan are paused, computed
  by Kahn's algorithm on arrays of fixed size, and the orchestrator that validates, pauses, rewires, resumes and
  notifies. A plan that makes a component wait forever has the result None.
\<close>

section \<open>Plans\<close>

abbreviation (input) NX_SLOT_REPLACE :: u32 where "NX_SLOT_REPLACE \<equiv> 1"
abbreviation (input) NX_CONN_ADD :: u32 where "NX_CONN_ADD \<equiv> 1"
abbreviation (input) NX_CONN_REMOVE :: u32 where "NX_CONN_REMOVE \<equiv> 2"
abbreviation (input) NX_CONN_REWIRE :: u32 where "NX_CONN_REWIRE \<equiv> 3"
abbreviation (input) RECOMP_MAX_SLOTS :: nat where "RECOMP_MAX_SLOTS \<equiv> 32"
abbreviation (input) RECOMP_MAX_EDGES :: nat where "RECOMP_MAX_EDGES \<equiv> 1024"
abbreviation (input) NX_SWAP_STATE_LOST :: u32 where "NX_SWAP_STATE_LOST \<equiv> 1"

record nx_slot_change =
  sc_slot :: slot_ref
  sc_action :: u32
  sc_new_comp :: comp_ref
  sc_state_lost :: bool

record nx_conn_change =
  cc_from_slot :: slot_ref
  cc_to_slot :: slot_ref
  cc_action :: u32
  cc_mode :: nx_conn_mode
  cc_stateful :: bool
  cc_policy :: nx_pause_policy

text \<open>The two arrays and their counts; the entries in use are the first ones. The timeout is not used by the code.\<close>

record recomp_plan =
  rp_changes :: "nx_slot_change list"
  rp_num_changes :: int
  rp_connections :: "nx_conn_change list"
  rp_num_connections :: int
  rp_timeout_ms :: u32

definition changes :: "recomp_plan \<Rightarrow> nx_slot_change list" where
  "changes plan = take (nat (rp_num_changes plan)) (rp_changes plan)"

definition connections :: "recomp_plan \<Rightarrow> nx_conn_change list" where
  "connections plan = take (nat (rp_num_connections plan)) (rp_connections plan)"

section \<open>The pause order\<close>

text \<open>Collecting the affected slots; none when the array is full.\<close>

fun collect_changes :: "nx_slot_change list \<Rightarrow> slot_ref list \<Rightarrow> slot_ref list option" where
  "collect_changes [] xs = Some xs"
| "collect_changes (sc # scs) xs =
     (if length xs \<ge> RECOMP_MAX_SLOTS then None else collect_changes scs (xs @ [sc_slot sc]))"

fun collect_receivers :: "nx_conn_change list \<Rightarrow> slot_ref list \<Rightarrow> slot_ref list option" where
  "collect_receivers [] xs = Some xs"
| "collect_receivers (cc # ccs) xs =
     (if cc_action cc \<noteq> NX_CONN_REWIRE \<or> cc_to_slot cc = NULL then collect_receivers ccs xs
      else if cc_to_slot cc \<in> set xs then collect_receivers ccs xs
      else if length xs \<ge> RECOMP_MAX_SLOTS then None
      else collect_receivers ccs (xs @ [cc_to_slot cc]))"

definition affected :: "recomp_plan \<Rightarrow> slot_ref list option" where
  "affected plan = Option.bind (collect_changes (changes plan) []) (collect_receivers (connections plan))"

text \<open>The edges found so far, the in-degrees, and whether the edge table overflowed.\<close>

record scan_dep_ctx =
  sd_edges :: "(nat \<times> nat) list"
  sd_deg :: "int list"
  sd_overflow :: bool

definition scan_dep_cb :: "slot_ref list \<Rightarrow> nat \<Rightarrow> slot_ref \<Rightarrow> scan_dep_ctx \<Rightarrow> scan_dep_ctx" where
  "scan_dep_cb xs src_idx to x =
     (case find_idx (\<lambda>q. q = to) xs of
        None \<Rightarrow> x
      | Some j \<Rightarrow>
          if length (sd_edges x) \<ge> RECOMP_MAX_EDGES then x\<lparr>sd_overflow := True\<rparr>
          else x\<lparr>sd_edges := sd_edges x @ [(src_idx, j)], sd_deg := (sd_deg x)[j := sd_deg x ! j + 1]\<rparr>)"

definition scan_slot :: "slot_ref list \<Rightarrow> 'a graph_scheme \<Rightarrow> nat \<Rightarrow> scan_dep_ctx \<Rightarrow> scan_dep_ctx" where
  "scan_slot xs s i x = fold (\<lambda>c. scan_dep_cb xs i (cn_to_slot (conns s c))) (nx_slot_foreach_dependency (xs ! i) s) x"

text \<open>The loop over the sources stops at the first overflow.\<close>

fun scan_all :: "slot_ref list \<Rightarrow> 'a graph_scheme \<Rightarrow> nat list \<Rightarrow> scan_dep_ctx \<Rightarrow> scan_dep_ctx option" where
  "scan_all xs s [] x = Some x"
| "scan_all xs s (i # is) x =
     (let x1 = scan_slot xs s i x in if sd_overflow x1 then None else scan_all xs s is x1)"

record kahn =
  kh_order :: "slot_ref list"
  kh_deg :: "int list"
  kh_done :: "bool list"
  kh_progress :: bool

definition release_edges :: "(nat \<times> nat) list \<Rightarrow> nat \<Rightarrow> int list \<Rightarrow> int list" where
  "release_edges edges i deg = fold (\<lambda>(a, b) d. if a = i then d[b := d ! b - 1] else d) edges deg"

definition kahn_visit :: "slot_ref list \<Rightarrow> (nat \<times> nat) list \<Rightarrow> nat \<Rightarrow> kahn \<Rightarrow> kahn" where
  "kahn_visit xs edges i k =
     (if kh_done k ! i \<or> kh_deg k ! i \<noteq> 0 then k
      else \<lparr>kh_order = kh_order k @ [xs ! i], kh_deg = release_edges edges i (kh_deg k), kh_done = (kh_done k)[i := True],
            kh_progress = True\<rparr>)"

definition kahn_pass :: "slot_ref list \<Rightarrow> (nat \<times> nat) list \<Rightarrow> kahn \<Rightarrow> kahn" where
  "kahn_pass xs edges k = fold (kahn_visit xs edges) [0..<length xs] (k\<lparr>kh_progress := False\<rparr>)"

lemma visit_order: "length (kh_order k) \<le> length (kh_order (kahn_visit xs edges i k)) \<and>
    (kh_progress (kahn_visit xs edges i k) \<longrightarrow> kh_progress k \<or> length (kh_order k) < length (kh_order (kahn_visit xs edges i k)))"
  by (simp add: kahn_visit_def)

lemma pass_progress:
  "kh_progress (kahn_pass xs edges k) \<Longrightarrow> length (kh_order k) < length (kh_order (kahn_pass xs edges k))"
proof -
  have "length (kh_order k) \<le> length (kh_order (fold (kahn_visit xs edges) is k)) \<and>
      (kh_progress (fold (kahn_visit xs edges) is k) \<longrightarrow>
         kh_progress k \<or> length (kh_order k) < length (kh_order (fold (kahn_visit xs edges) is k)))" for "is" k
  proof (induction "is" arbitrary: k)
    case Nil
    then show ?case by simp
  next
    case (Cons i "is")
    show ?case using Cons [of "kahn_visit xs edges i k"] visit_order [of k xs edges i] by auto
  qed
  from this [of "k\<lparr>kh_progress := False\<rparr>" "[0..<length xs]"] show
    "kh_progress (kahn_pass xs edges k) \<Longrightarrow> length (kh_order k) < length (kh_order (kahn_pass xs edges k))"
    by (simp add: kahn_pass_def)
qed

function kahn_loop :: "slot_ref list \<Rightarrow> (nat \<times> nat) list \<Rightarrow> kahn \<Rightarrow> nx_status \<times> kahn" where
  "kahn_loop xs edges k =
     (if length (kh_order k) < length xs
      then let k1 = kahn_pass xs edges k in if \<not> kh_progress k1 then (NX_EINVAL, k1) else kahn_loop xs edges k1
      else (NX_OK, k))"
  by pat_completeness auto

termination kahn_loop
proof (relation "measure (\<lambda>(xs, edges, k). length xs - length (kh_order k))")
  fix xs edges k k1
  assume "length (kh_order k) < length xs" "k1 = kahn_pass xs edges k" "\<not> \<not> kh_progress k1"
  then show "((xs, edges, k1), xs, edges, k) \<in> measure (\<lambda>(xs, edges, k). length xs - length (kh_order k))"
    using pass_progress [of xs edges k] by simp
qed simp

declare kahn_loop.simps [simp del]

definition scan_start :: "slot_ref list \<Rightarrow> scan_dep_ctx" where
  "scan_start xs = \<lparr>sd_edges = [], sd_deg = replicate (length xs) 0, sd_overflow = False\<rparr>"

definition kahn_start :: "slot_ref list \<Rightarrow> int list \<Rightarrow> kahn" where
  "kahn_start xs deg = \<lparr>kh_order = [], kh_deg = deg, kh_done = replicate (length xs) False, kh_progress = False\<rparr>"

definition build_pause_order :: "recomp_plan \<Rightarrow> 'a graph_scheme \<Rightarrow> nx_status \<times> slot_ref list" where
  "build_pause_order plan s =
     (case affected plan of
        None \<Rightarrow> (NX_ENOMEM, [])
      | Some xs \<Rightarrow>
          (case scan_all xs s [0..<length xs] (scan_start xs) of
             None \<Rightarrow> (NX_ENOMEM, [])
           | Some x \<Rightarrow>
               (let (st, k) = kahn_loop xs (sd_edges x) (kahn_start xs (sd_deg x)) in (st, kh_order k))))"

section \<open>The orchestrator\<close>

definition conn_find :: "slot_ref \<Rightarrow> slot_ref \<Rightarrow> 'a graph_scheme \<Rightarrow> conn_ref option" where
  "conn_find frm to s =
     find (\<lambda>c. cn_from_slot (conns s c) = frm \<and> cn_to_slot (conns s c) = to) (nx_graph_foreach_connection s)"

definition dep_notify_cb :: "'a irq_state_scheme comp_env \<Rightarrow> slot_ref \<Rightarrow> comp_ref \<Rightarrow> comp_ref \<Rightarrow> u32 \<Rightarrow> conn_ref \<Rightarrow>
    'a irq_state_scheme \<Rightarrow> 'a irq_state_scheme" where
  "dep_notify_cb C changed_slot old_comp new_comp flags conn s =
     (let frm = cn_from_slot (conns s conn) in
      if frm = NULL \<or> sl_active (slots s frm) = NULL then s
      else let c = sl_active (slots s frm) in
           case op_of (ce_on_dep_swapped C) c s of
             None \<Rightarrow> s
           | Some f \<Rightarrow> snd (f (cm_impl (comps s c)) changed_slot old_comp new_comp flags s))"

definition slot_clear_pause :: "'a irq_state_scheme comp_env \<Rightarrow> slot_ref \<Rightarrow> 'a irq_state_scheme \<Rightarrow>
    'a irq_state_scheme option" where
  "slot_clear_pause C r s = nx_ipc_flush_hold_queue (ce_ipc C) r (snd (nx_slot_set_pause_state r NX_SLOT_PAUSE_NONE s))"

fun validate :: "nx_slot_change list \<Rightarrow> 'a graph_scheme \<Rightarrow> nx_status" where
  "validate [] s = NX_OK"
| "validate (sc # scs) s =
     (if sc_slot sc = NULL then NX_EINVAL
      else if sl_mutability (slots s (sc_slot sc)) = NX_MUT_FROZEN then NX_EPERM
      else if sc_action sc = NX_SLOT_REPLACE \<and> sc_new_comp sc = NULL then NX_EINVAL
      else if sc_action sc = NX_SLOT_REPLACE \<and> cm_state (comps s (sc_new_comp sc)) \<noteq> NX_LC_READY then NX_ESTATE
      else validate scs s)"

text \<open>Resuming the components paused so far, the last one first.\<close>

fun rollback_phase :: "'a irq_state_scheme comp_env \<Rightarrow> slot_ref list \<Rightarrow> 'a irq_state_scheme \<Rightarrow> 'a irq_state_scheme option" where
  "rollback_phase C [] s = Some s"
| "rollback_phase C (r # rs) s =
     (let c = sl_active (slots s r) in
      if c \<noteq> NULL \<and> cm_state (comps s c) = NX_LC_PAUSED
      then Option.bind (nx_component_resume C c s) (\<lambda>(_, s1). rollback_phase C rs s1)
      else rollback_phase C rs s)"

fun pause_phase :: "'a irq_state_scheme comp_env \<Rightarrow> slot_ref list \<Rightarrow> slot_ref list \<Rightarrow> 'a irq_state_scheme \<Rightarrow>
    (int \<times> 'a irq_state_scheme) option" where
  "pause_phase C ps [] s = Some (nx_rc NX_OK, s)"
| "pause_phase C ps (r # rs) s =
     (let c = sl_active (slots s r) in
      if c = NULL \<or> cm_state (comps s c) \<noteq> NX_LC_ACTIVE then pause_phase C (r # ps) rs s
      else Option.bind (nx_component_pause C c s)
             (\<lambda>(rc, s1). if rc \<noteq> nx_rc NX_OK then map_option (\<lambda>s2. (rc, s2)) (rollback_phase C ps s1)
                         else pause_phase C (r # ps) rs s1))"

definition remove_edge :: "nx_conn_change \<Rightarrow> 'a irq_state_scheme \<Rightarrow> 'a irq_state_scheme" where
  "remove_edge cc s =
     (if cc_action cc \<noteq> NX_CONN_REMOVE then s
      else case conn_find (cc_from_slot cc) (cc_to_slot cc) s of
             None \<Rightarrow> s | Some c \<Rightarrow> snd (nx_connection_unregister c s))"

definition swap_comp :: "'a irq_state_scheme comp_env \<Rightarrow> nx_slot_change \<times> comp_ref \<Rightarrow> 'a irq_state_scheme \<Rightarrow>
    'a irq_state_scheme" where
  "swap_comp C = (\<lambda>(sc, old) s.
     if sc_action sc \<noteq> NX_SLOT_REPLACE then s
     else let s1 = (if old \<noteq> NULL \<and> (cm_state (comps s old) = NX_LC_PAUSED \<or> cm_state (comps s old) = NX_LC_ACTIVE)
                    then snd (nx_component_disable C old s) else s);
              s2 = snd (nx_slot_swap (env_run (ce_ipc C)) (sc_slot sc) (sc_new_comp sc) s1)
          in if old \<noteq> NULL \<and> cm_state (comps s2 old) = NX_LC_READY \<and> \<not> nx_component_is_bound old s2
             then snd (nx_component_destroy C old s2) else s2)"

definition add_edge :: "('a irq_state_scheme \<Rightarrow> conn_ref option) \<Rightarrow> nx_conn_change \<Rightarrow> 'a irq_state_scheme \<Rightarrow>
    'a irq_state_scheme" where
  "add_edge alloc cc s =
     (if cc_action cc = NX_CONN_ADD
      then snd (nx_connection_register (alloc s) (cc_from_slot cc) (cc_to_slot cc) (cc_mode cc) (cc_stateful cc) (cc_policy cc) s)
      else if cc_action cc = NX_CONN_REWIRE
      then case conn_find (cc_from_slot cc) (cc_to_slot cc) s of
             None \<Rightarrow> s
           | Some c \<Rightarrow> snd (nx_connection_retune c (cc_mode cc) (cn_stateful (conns s c)) s)
      else s)"

fun resume_phase :: "'a irq_state_scheme comp_env \<Rightarrow> slot_ref list \<Rightarrow> 'a irq_state_scheme \<Rightarrow> 'a irq_state_scheme option" where
  "resume_phase C [] s = Some s"
| "resume_phase C (r # rs) s =
     (let c = sl_active (slots s r) in
      if c = NULL then resume_phase C rs s
      else if cm_state (comps s c) = NX_LC_READY
      then Option.bind (slot_clear_pause C r (snd (nx_component_enable C c s))) (resume_phase C rs)
      else if cm_state (comps s c) = NX_LC_PAUSED
      then Option.bind (nx_component_resume C c s) (\<lambda>(_, s1). resume_phase C rs s1)
      else resume_phase C rs s)"

definition notify_dependents :: "'a irq_state_scheme comp_env \<Rightarrow> nx_slot_change \<times> comp_ref \<Rightarrow> 'a irq_state_scheme \<Rightarrow>
    'a irq_state_scheme" where
  "notify_dependents C = (\<lambda>(sc, old) s.
     if sc_action sc \<noteq> NX_SLOT_REPLACE then s
     else fold (dep_notify_cb C (sc_slot sc) old (sc_new_comp sc) (if sc_state_lost sc then NX_SWAP_STATE_LOST else 0))
            (nx_slot_foreach_dependent (sc_slot sc) s) s)"

definition nx_recompose :: "'a irq_state_scheme comp_env \<Rightarrow> ('a irq_state_scheme \<Rightarrow> conn_ref option) \<Rightarrow> recomp_plan option \<Rightarrow>
    'a irq_state_scheme \<Rightarrow> (int \<times> 'a irq_state_scheme) option" where
  "nx_recompose C alloc plan_arg s =
     (case plan_arg of
        None \<Rightarrow> Some (nx_rc NX_EINVAL, s)
      | Some plan \<Rightarrow>
          if rp_num_changes plan < 0 \<or> rp_num_connections plan < 0 then Some (nx_rc NX_EINVAL, s)
          else if validate (changes plan) s \<noteq> NX_OK then Some (nx_rc (validate (changes plan) s), s)
          else case build_pause_order plan s of (st, order) \<Rightarrow>
            if st \<noteq> NX_OK then Some (nx_rc st, s)
            else let olds = map (\<lambda>sc. (sc, sl_active (slots s (sc_slot sc)))) (changes plan) in
                 Option.bind (pause_phase C [] order (timer_pause s))
                   (\<lambda>(rc, s1).
                      if rc \<noteq> nx_rc NX_OK then Some (rc, timer_resume s1)
                      else let s2 = fold remove_edge (connections plan) s1;
                               s3 = fold (swap_comp C) olds s2;
                               s4 = fold (add_edge alloc) (connections plan) s3
                           in map_option (\<lambda>s5. (nx_rc NX_OK, fold (notify_dependents C) olds (timer_resume s5)))
                                (resume_phase C (rev order) s4)))"

section \<open>Kahn's algorithm\<close>

definition ahead :: "'a list \<Rightarrow> 'a \<Rightarrow> 'a \<Rightarrow> bool" where
  "ahead xs a b \<longleftrightarrow> (\<exists>u v. xs = u @ a # v \<and> b \<in> set v)"

lemma ahead_snoc: "ahead xs a b \<Longrightarrow> ahead (xs @ [c]) a b"
  by (auto simp: ahead_def) (metis UnCI append_assoc append_Cons set_append)

lemma ahead_last: "a \<in> set xs \<Longrightarrow> ahead (xs @ [c]) a c"
  by (auto simp: ahead_def dest!: split_list) (metis Un_iff append_assoc append_Cons list.set_intros(1) set_append)

lemma ahead_map: "ahead xs a b \<Longrightarrow> ahead (map f xs) (f a) (f b)"
  by (auto simp: ahead_def) (metis imageI list.set_map)

definition into :: "nat \<Rightarrow> nat list \<Rightarrow> (nat \<times> nat) list \<Rightarrow> nat" where
  "into j is edges = length (filter (\<lambda>(a, b). b = j \<and> a \<notin> set is) edges)"

text \<open>
  \<open>is\<close> are the indices whose slots are in the order: they are the ones marked, each in-degree counts the edges from the
  others, and no slot comes before one that depends on it.
\<close>

definition kahn_inv :: "slot_ref list \<Rightarrow> (nat \<times> nat) list \<Rightarrow> nat list \<Rightarrow> kahn \<Rightarrow> bool" where
  "kahn_inv xs edges is k \<longleftrightarrow>
     kh_order k = map ((!) xs) is \<and> distinct is \<and> set is = {i. i < length xs \<and> kh_done k ! i} \<and>
     length (kh_done k) = length xs \<and> length (kh_deg k) = length xs \<and>
     (\<forall>j < length xs. kh_deg k ! j = int (into j is edges)) \<and>
     (\<forall>a b. (a, b) \<in> set edges \<longrightarrow> b \<in> set is \<longrightarrow> ahead is a b)"

lemma kahn_invD:
  assumes "kahn_inv xs edges is k"
  shows "kh_order k = map ((!) xs) is" "distinct is" "set is = {i. i < length xs \<and> kh_done k ! i}"
    "length (kh_done k) = length xs" "length (kh_deg k) = length xs"
    "j < length xs \<Longrightarrow> kh_deg k ! j = int (into j is edges)"
    "(a, b) \<in> set edges \<Longrightarrow> b \<in> set is \<Longrightarrow> ahead is a b"
  using assms by (simp_all only: kahn_inv_def)

lemma release_nth:
  "(\<And>a b. (a, b) \<in> set edges \<Longrightarrow> b < length deg) \<Longrightarrow> j < length deg \<Longrightarrow>
   length (release_edges edges i deg) = length deg \<and>
   release_edges edges i deg ! j = deg ! j - int (length (filter (\<lambda>(a, b). a = i \<and> b = j) edges))"
proof (induction edges arbitrary: deg)
  case Nil
  then show ?case by (simp add: release_edges_def)
next
  case (Cons e edges)
  obtain a b where e: "e = (a, b)" by (cases e)
  let ?d = "if a = i then deg[b := deg ! b - 1] else deg"
  have b: "b < length deg" using Cons.prems(1) [of a b] e by simp
  have l: "length ?d = length deg" by simp
  have "length (release_edges edges i ?d) = length ?d \<and>
      release_edges edges i ?d ! j = ?d ! j - int (length (filter (\<lambda>(a, b). a = i \<and> b = j) edges))"
    using Cons.prems by (intro Cons.IH) (auto simp: l)
  moreover have "release_edges (e # edges) i deg = release_edges edges i ?d" by (simp add: release_edges_def e)
  moreover have "?d ! j = (if a = i \<and> b = j then deg ! j - 1 else deg ! j)" using b Cons.prems(2) by (auto simp: nth_list_update)
  ultimately show ?case using e by auto
qed

lemma into_snoc:
  assumes "i \<notin> set is"
  shows "int (into j (is @ [i]) edges) = int (into j is edges) - int (length (filter (\<lambda>(a, b). a = i \<and> b = j) edges))"
proof (induction edges)
  case Nil
  then show ?case by (simp add: into_def)
next
  case (Cons e edges)
  then show ?case using assms by (cases e) (auto simp: into_def)
qed

lemma into_zero: "into j is edges = 0 \<longleftrightarrow> (\<forall>a. (a, j) \<in> set edges \<longrightarrow> a \<in> set is)"
  by (auto simp: into_def filter_empty_conv)

lemma visit_inv:
  assumes inv: "kahn_inv xs edges is k" and i: "i < length xs"
    and wf: "\<And>a b. (a, b) \<in> set edges \<Longrightarrow> a < length xs \<and> b < length xs"
  shows "\<exists>is'. kahn_inv xs edges is' (kahn_visit xs edges i k)"
proof (cases "kh_done k ! i \<or> kh_deg k ! i \<noteq> 0")
  case True
  then show ?thesis using inv by (auto simp: kahn_visit_def)
next
  case False
  let ?k = "kahn_visit xs edges i k" and ?is = "is @ [i]"
  have k: "?k = \<lparr>kh_order = kh_order k @ [xs ! i], kh_deg = release_edges edges i (kh_deg k), kh_done = (kh_done k)[i := True],
      kh_progress = True\<rparr>" using False by (simp add: kahn_visit_def)
  have ni: "i \<notin> set is" using kahn_invD(3) [OF inv] False by auto
  note len = kahn_invD(5,4) [OF inv]
  have r: "length (release_edges edges i (kh_deg k)) = length xs"
    "j < length xs \<Longrightarrow> kh_deg ?k ! j = int (into j ?is edges)" for j
    using release_nth [of edges "kh_deg k" _ i] wf len i kahn_invD(6) [OF inv] into_snoc [OF ni] by (auto simp: k)
  have marked: "set ?is = {j. j < length xs \<and> kh_done ?k ! j}"
    using kahn_invD(3) [OF inv] i len by (auto simp: k nth_list_update)
  have "into i is edges = 0" using False kahn_invD(6) [OF inv i] by simp
  then have src: "a \<in> set is" if "(a, i) \<in> set edges" for a using that unfolding into_zero by blast
  have bef: "ahead ?is a b" if "(a, b) \<in> set edges" "b \<in> set ?is" for a b
  proof (cases "b = i")
    case True
    then show ?thesis using ahead_last [OF src, of a i] that(1) by simp
  next
    case False
    then show ?thesis using kahn_invD(7) [OF inv that(1)] that(2) by (simp add: ahead_snoc)
  qed
  have f: "kh_order ?k = map ((!) xs) ?is" "length (kh_done ?k) = length xs" "length (kh_deg ?k) = length xs"
    using kahn_invD(1) [OF inv] r(1) len(2) by (simp_all add: k)
  have "distinct ?is" using kahn_invD(2) [OF inv] ni by simp
  then have "kahn_inv xs edges ?is ?k"
    unfolding kahn_inv_def by (intro conjI allI impI f marked r(2) bef)
  then show ?thesis by blast
qed

lemma pass_inv:
  assumes "kahn_inv xs edges is k" "\<And>a b. (a, b) \<in> set edges \<Longrightarrow> a < length xs \<and> b < length xs"
  shows "\<exists>is'. kahn_inv xs edges is' (kahn_pass xs edges k)"
proof -
  have F: "\<exists>is'. kahn_inv xs edges is' (fold (kahn_visit xs edges) js k)" if "kahn_inv xs edges is k" "set js \<subseteq> {..<length xs}" for js "is" k
    using that
  proof (induction js arbitrary: "is" k)
    case Nil
    then show ?case by auto
  next
    case (Cons j js)
    have "j < length xs" using Cons.prems(2) by simp
    from visit_inv [OF Cons.prems(1) this assms(2)] obtain is' where "kahn_inv xs edges is' (kahn_visit xs edges j k)" by blast
    from Cons.IH [OF this] Cons.prems show ?case by simp
  qed
  have "kahn_inv xs edges is (k\<lparr>kh_progress := False\<rparr>)" using assms(1) by (simp add: kahn_inv_def)
  from F [OF this, of "[0..<length xs]"] show ?thesis by (simp add: kahn_pass_def atLeast0LessThan)
qed

lemma pass_stuck:
  assumes "\<not> kh_progress (kahn_pass xs edges k)"
  shows "kahn_pass xs edges k = k\<lparr>kh_progress := False\<rparr>" "i < length xs \<Longrightarrow> kh_done k ! i \<or> kh_deg k ! i \<noteq> 0"
proof -
  have p: "kh_progress (fold (kahn_visit xs edges) js k)" if "kh_progress k" for js k
    using that by (induction js arbitrary: k) (simp_all add: kahn_visit_def)
  have "fold (kahn_visit xs edges) js k = k \<and> (\<forall>j \<in> set js. kh_done k ! j \<or> kh_deg k ! j \<noteq> 0)"
    if "\<not> kh_progress (fold (kahn_visit xs edges) js k)" for js k
    using that
  proof (induction js arbitrary: k)
    case Nil
    then show ?case by simp
  next
    case (Cons j js)
    have np: "\<not> kh_progress (kahn_visit xs edges j k)" using Cons.prems p by auto
    then have "kahn_visit xs edges j k = k" "kh_done k ! j \<or> kh_deg k ! j \<noteq> 0" by (auto simp: kahn_visit_def split: if_splits)
    then show ?case using Cons by simp
  qed
  from this [of "[0..<length xs]" "k\<lparr>kh_progress := False\<rparr>"] assms
  show "kahn_pass xs edges k = k\<lparr>kh_progress := False\<rparr>" "i < length xs \<Longrightarrow> kh_done k ! i \<or> kh_deg k ! i \<noteq> 0"
    by (auto simp: kahn_pass_def)
qed

lemma stuck_cycle:
  assumes inv: "kahn_inv xs edges is k" and stuck: "\<And>i. i < length xs \<Longrightarrow> kh_done k ! i \<or> kh_deg k ! i \<noteq> 0"
    and wf: "\<And>a b. (a, b) \<in> set edges \<Longrightarrow> a < length xs \<and> b < length xs" and less: "length (kh_order k) < length xs"
  shows "\<not> acyclic (set edges)"
proof
  assume "acyclic (set edges)"
  then have W: "wf (set edges)" by (simp add: finite_acyclic_wf)
  let ?N = "{i. i < length xs \<and> i \<notin> set is}"
  have "card (set is) < length xs" using inv less distinct_card [of "is"] by (simp add: kahn_inv_def)
  moreover have "set is \<subseteq> {..<length xs}" using inv by (auto simp: kahn_inv_def)
  ultimately obtain i where "i \<in> ?N" by (metis (no_types, lifting) card_lessThan less_irrefl lessThan_iff mem_Collect_eq subsetI subset_antisym)
  then obtain z where z: "z \<in> ?N" "\<And>y. (y, z) \<in> set edges \<Longrightarrow> y \<notin> ?N" using wfE_min [OF W, of i ?N] by blast
  then have "kh_deg k ! z \<noteq> 0" using stuck [of z] kahn_invD(3) [OF inv] by auto
  then have "into z is edges \<noteq> 0" using kahn_invD(6) [OF inv, of z] z(1) by simp
  then obtain a where "(a, z) \<in> set edges" "a \<notin> set is" unfolding into_zero by blast
  then show False using z(2) wf by blast
qed

lemma kahn_order_length: "kahn_inv xs edges is k \<Longrightarrow> length (kh_order k) \<le> length xs"
proof -
  assume inv: "kahn_inv xs edges is k"
  have "set is \<subseteq> {..<length xs}" using kahn_invD(3) [OF inv] by auto
  from card_mono [OF _ this] show ?thesis
    using distinct_card [OF kahn_invD(2) [OF inv]] kahn_invD(1) [OF inv] by simp
qed

lemma kahn_bounded:
  assumes "kahn_inv xs edges is k" "\<And>a b. (a, b) \<in> set edges \<Longrightarrow> a < length xs \<and> b < length xs"
    and "kahn_loop xs edges k = (st, k')"
  shows "length (kh_order k') \<le> length xs"
  using assms
proof (induction xs edges k arbitrary: "is" rule: kahn_loop.induct)
  case (1 xs edges k)
  obtain is1 where is1: "kahn_inv xs edges is1 (kahn_pass xs edges k)" using pass_inv [OF "1.prems"(1,2)] by blast
  show ?case
    using "1.prems"(3) "1.IH" [OF _ refl _ is1 "1.prems"(2)] kahn_order_length [OF is1] kahn_order_length [OF "1.prems"(1)]
    by (auto simp: kahn_loop.simps [of xs edges k] Let_def split: if_splits)
qed

lemma kahn_correct:
  assumes "kahn_inv xs edges is k" "\<And>a b. (a, b) \<in> set edges \<Longrightarrow> a < length xs \<and> b < length xs"
    and "kahn_loop xs edges k = (st, k')"
  shows "(st = NX_OK \<and> (\<exists>is'. kh_order k' = map ((!) xs) is' \<and> distinct is' \<and> set is' = {..<length xs} \<and>
            (\<forall>a b. (a, b) \<in> set edges \<longrightarrow> ahead is' a b))) \<or>
         (st = NX_EINVAL \<and> \<not> acyclic (set edges))"
  using assms
proof (induction xs edges k arbitrary: "is" rule: kahn_loop.induct)
  case (1 xs edges k)
  note wf = "1.prems"(2)
  show ?case
  proof (cases "length (kh_order k) < length xs")
    case False
    have k': "st = NX_OK" "k' = k" using "1.prems"(3) False by (simp_all add: kahn_loop.simps [of xs edges k])
    have sub: "set is \<subseteq> {..<length xs}" using "1.prems"(1) by (auto simp: kahn_inv_def)
    have len: "card (set is) = length is" "length is = length (kh_order k)"
      using distinct_card [OF kahn_invD(2) [OF "1.prems"(1)]] kahn_invD(1) [OF "1.prems"(1)] by simp_all
    moreover have "card (set is) \<le> length xs" using card_mono [OF _ sub] by simp
    ultimately have "card (set is) = card {..<length xs}" using False by simp
    then have "set is = {..<length xs}" using sub by (intro card_subset_eq) simp_all
    then show ?thesis using k' "1.prems"(1) wf by (intro disjI1) (auto simp: kahn_inv_def)
  next
    case True
    let ?k1 = "kahn_pass xs edges k"
    obtain is1 where is1: "kahn_inv xs edges is1 ?k1" using pass_inv [OF "1.prems"(1) wf] by blast
    show ?thesis
    proof (cases "kh_progress ?k1")
      case p: True
      then have "kahn_loop xs edges ?k1 = (st, k')" using "1.prems"(3) True by (simp add: kahn_loop.simps [of xs edges k] Let_def)
      then show ?thesis using "1.IH" [OF True refl _ is1 wf] p by blast
    next
      case False
      then have "st = NX_EINVAL" using "1.prems"(3) True by (simp add: kahn_loop.simps [of xs edges k] Let_def)
      moreover have "\<not> acyclic (set edges)" using stuck_cycle [OF "1.prems"(1) pass_stuck(2) [OF False] wf True] by blast
      ultimately show ?thesis by blast
    qed
  qed
qed

section \<open>The edges of the affected slots\<close>

text \<open>Calls between affected slots: a pair for every connection from one of them to one of them.\<close>

definition depends :: "slot_ref list \<Rightarrow> 'a graph_scheme \<Rightarrow> (slot_ref \<times> slot_ref) set" where
  "depends xs s =
     {(a, b). a \<in> set xs \<and> b \<in> set xs \<and> (\<exists>c \<in> set (nx_slot_foreach_dependency a s). cn_to_slot (conns s c) = b)}"

lemma finite_depends: "finite (depends xs s)"
  by (rule finite_subset [of _ "set xs \<times> set xs"]) (auto simp: depends_def)

definition scan_inv :: "slot_ref list \<Rightarrow> 'a graph_scheme \<Rightarrow> scan_dep_ctx \<Rightarrow> bool" where
  "scan_inv xs s x \<longleftrightarrow>
     length (sd_deg x) = length xs \<and> length (sd_edges x) \<le> RECOMP_MAX_EDGES \<and>
     (\<forall>j < length xs. sd_deg x ! j = int (into j [] (sd_edges x))) \<and>
     (\<forall>a b. (a, b) \<in> set (sd_edges x) \<longrightarrow> a < length xs \<and> b < length xs \<and> (xs ! a, xs ! b) \<in> depends xs s)"

lemma scan_cb_inv:
  assumes inv: "scan_inv xs s x" and i: "i < length xs" and c: "c \<in> set (nx_slot_foreach_dependency (xs ! i) s)"
  defines "y \<equiv> scan_dep_cb xs i (cn_to_slot (conns s c)) x"
  shows "scan_inv xs s y" "set (sd_edges x) \<subseteq> set (sd_edges y)" "sd_overflow x \<Longrightarrow> sd_overflow y"
    "find_idx (\<lambda>q. q = cn_to_slot (conns s c)) xs = Some j \<Longrightarrow> \<not> sd_overflow y \<Longrightarrow> (i, j) \<in> set (sd_edges y)"
proof -
  have len: "length (sd_deg x) = length xs" using inv by (simp add: scan_inv_def)
  have "scan_inv xs s y \<and> set (sd_edges x) \<subseteq> set (sd_edges y) \<and> (sd_overflow x \<longrightarrow> sd_overflow y) \<and>
      (\<forall>j. find_idx (\<lambda>q. q = cn_to_slot (conns s c)) xs = Some j \<longrightarrow> \<not> sd_overflow y \<longrightarrow> (i, j) \<in> set (sd_edges y))"
  proof (cases "find_idx (\<lambda>q. q = cn_to_slot (conns s c)) xs")
    case None
    then show ?thesis using inv by (simp add: y_def scan_dep_cb_def)
  next
    case (Some j)
    note J = find_idx_SomeD [OF Some]
    have dep: "(xs ! i, xs ! j) \<in> depends xs s" using J(1,2) nth_mem [OF J(1)] i c by (auto simp: depends_def)
    show ?thesis
    proof (cases "length (sd_edges x) \<ge> RECOMP_MAX_EDGES")
      case True
      then have "y = x\<lparr>sd_overflow := True\<rparr>" by (simp add: y_def scan_dep_cb_def Some)
      then show ?thesis using inv by (simp add: scan_inv_def)
    next
      case False
      let ?y = "x\<lparr>sd_edges := sd_edges x @ [(i, j)], sd_deg := (sd_deg x)[j := sd_deg x ! j + 1]\<rparr>"
      have y: "y = ?y" using False by (simp add: y_def scan_dep_cb_def Some)
      have "sd_deg ?y ! q = int (into q [] (sd_edges ?y))" if "q < length xs" for q
        using inv that J(1) len by (simp add: scan_inv_def into_def nth_list_update)
      then have "scan_inv xs s ?y" using inv False i J(1) dep len by (auto simp: scan_inv_def)
      then show ?thesis using Some by (simp add: y subset_insertI)
    qed
  qed
  then show "scan_inv xs s y" "set (sd_edges x) \<subseteq> set (sd_edges y)" "sd_overflow x \<Longrightarrow> sd_overflow y"
    "find_idx (\<lambda>q. q = cn_to_slot (conns s c)) xs = Some j \<Longrightarrow> \<not> sd_overflow y \<Longrightarrow> (i, j) \<in> set (sd_edges y)" by blast+
qed

lemma scan_slot_inv:
  assumes "i < length xs"
  shows "scan_inv xs s x \<Longrightarrow> scan_inv xs s (scan_slot xs s i x) \<and> set (sd_edges x) \<subseteq> set (sd_edges (scan_slot xs s i x)) \<and>
    (\<not> sd_overflow (scan_slot xs s i x) \<longrightarrow> (\<forall>c j. c \<in> set (nx_slot_foreach_dependency (xs ! i) s) \<longrightarrow>
       find_idx (\<lambda>q. q = cn_to_slot (conns s c)) xs = Some j \<longrightarrow> (i, j) \<in> set (sd_edges (scan_slot xs s i x))))"
proof -
  let ?f = "\<lambda>c. scan_dep_cb xs i (cn_to_slot (conns s c))"
  have "scan_inv xs s x \<Longrightarrow> set cs \<subseteq> set (nx_slot_foreach_dependency (xs ! i) s) \<Longrightarrow>
      scan_inv xs s (fold ?f cs x) \<and> set (sd_edges x) \<subseteq> set (sd_edges (fold ?f cs x)) \<and>
      (sd_overflow x \<longrightarrow> sd_overflow (fold ?f cs x)) \<and>
      (\<not> sd_overflow (fold ?f cs x) \<longrightarrow> (\<forall>c j. c \<in> set cs \<longrightarrow>
         find_idx (\<lambda>q. q = cn_to_slot (conns s c)) xs = Some j \<longrightarrow> (i, j) \<in> set (sd_edges (fold ?f cs x))))" for cs x
  proof (induction cs arbitrary: x)
    case Nil
    then show ?case by simp
  next
    case (Cons c cs)
    have c: "c \<in> set (nx_slot_foreach_dependency (xs ! i) s)" using Cons.prems(2) by simp
    note S = scan_cb_inv [OF Cons.prems(1) assms c]
    have cs: "set cs \<subseteq> set (nx_slot_foreach_dependency (xs ! i) s)" using Cons.prems(2) by simp
    from Cons.IH [OF S(1) cs] S(2-4) show ?case by (simp; blast)
  qed
  then show "scan_inv xs s x \<Longrightarrow> scan_inv xs s (scan_slot xs s i x) \<and> set (sd_edges x) \<subseteq> set (sd_edges (scan_slot xs s i x)) \<and>
    (\<not> sd_overflow (scan_slot xs s i x) \<longrightarrow> (\<forall>c j. c \<in> set (nx_slot_foreach_dependency (xs ! i) s) \<longrightarrow>
       find_idx (\<lambda>q. q = cn_to_slot (conns s c)) xs = Some j \<longrightarrow> (i, j) \<in> set (sd_edges (scan_slot xs s i x))))"
    unfolding scan_slot_def by blast
qed

lemma scan_all_inv:
  "scan_all xs s is x = Some y \<Longrightarrow> scan_inv xs s x \<Longrightarrow> set is \<subseteq> {..<length xs} \<Longrightarrow>
   scan_inv xs s y \<and> set (sd_edges x) \<subseteq> set (sd_edges y) \<and>
   (\<forall>i c j. i \<in> set is \<longrightarrow> c \<in> set (nx_slot_foreach_dependency (xs ! i) s) \<longrightarrow>
      find_idx (\<lambda>q. q = cn_to_slot (conns s c)) xs = Some j \<longrightarrow> (i, j) \<in> set (sd_edges y))"
proof (induction "is" arbitrary: x)
  case Nil
  then show ?case by simp
next
  case (Cons i "is")
  let ?x = "scan_slot xs s i x"
  have i: "i < length xs" using Cons.prems(3) by simp
  have o: "\<not> sd_overflow ?x" "scan_all xs s is ?x = Some y" using Cons.prems(1) by (simp_all add: Let_def split: if_splits)
  note S = scan_slot_inv [OF i Cons.prems(2)]
  have "set is \<subseteq> {..<length xs}" using Cons.prems(3) by simp
  from Cons.IH [OF o(2) conjunct1 [OF S] this] S o(1) show ?case by (simp; blast)
qed

lemma scan_start_inv: "scan_inv xs s (scan_start xs)"
  by (simp add: scan_inv_def scan_start_def into_def)

lemma kahn_start_inv:
  assumes "scan_inv xs s x"
  shows "kahn_inv xs (sd_edges x) [] (kahn_start xs (sd_deg x))"
  using assms by (auto simp: kahn_inv_def kahn_start_def scan_inv_def)

section \<open>The pause order is right\<close>

definition position :: "nat list \<Rightarrow> nat \<Rightarrow> nat" where
  "position is i = length (takeWhile (\<lambda>j. j \<noteq> i) is)"

lemma ahead_position:
  assumes "distinct is" "ahead is a b"
  shows "position is a < position is b"
proof -
  obtain u v where "is": "is = u @ a # v" "b \<in> set v" using assms(2) by (auto simp: ahead_def)
  then have "a \<notin> set u" "b \<notin> set u" "a \<noteq> b" using assms(1) by auto
  then have "takeWhile (\<lambda>j. j \<noteq> a) is = u" "takeWhile (\<lambda>j. j \<noteq> b) is = u @ a # takeWhile (\<lambda>j. j \<noteq> b) v"
    using "is"(1) by (auto simp: takeWhile_append2 takeWhile_append)
  then show ?thesis by (simp add: position_def)
qed

lemma order_correct:
  assumes x: "scan_all xs s [0..<length xs] (scan_start xs) = Some x"
    and k: "kahn_loop xs (sd_edges x) (kahn_start xs (sd_deg x)) = (st, k)"
  shows "st = NX_OK \<and> mset (kh_order k) = mset xs \<and> acyclic (depends xs s) \<and>
      (\<forall>a b. (a, b) \<in> depends xs s \<longrightarrow> ahead (kh_order k) a b) \<or>
    st = NX_EINVAL \<and> \<not> acyclic (depends xs s)"
proof -
  have S: "scan_inv xs s x" and E: "\<And>i c j. i < length xs \<Longrightarrow> c \<in> set (nx_slot_foreach_dependency (xs ! i) s) \<Longrightarrow>
      find_idx (\<lambda>q. q = cn_to_slot (conns s c)) xs = Some j \<Longrightarrow> (i, j) \<in> set (sd_edges x)"
    using scan_all_inv [OF x scan_start_inv] by (auto simp: atLeast0LessThan)
  let ?e = "set (sd_edges x)"
  have wf: "a < length xs \<and> b < length xs" "(xs ! a, xs ! b) \<in> depends xs s" if "(a, b) \<in> ?e" for a b
    using S that by (auto simp: scan_inv_def)
  have edge: "\<exists>i j. (i, j) \<in> ?e \<and> find_idx (\<lambda>q. q = a) xs = Some i \<and> find_idx (\<lambda>q. q = b) xs = Some j"
    if dep: "(a, b) \<in> depends xs s" for a b
  proof -
    obtain c where c: "a \<in> set xs" "b \<in> set xs" "c \<in> set (nx_slot_foreach_dependency a s)" "cn_to_slot (conns s c) = b"
      using dep by (auto simp: depends_def)
    obtain i j where ij: "find_idx (\<lambda>q. q = a) xs = Some i" "find_idx (\<lambda>q. q = b) xs = Some j"
      using c(1,2) find_idx_None_iff [of "\<lambda>q. q = a" xs] find_idx_None_iff [of "\<lambda>q. q = b" xs] by fastforce
    then show ?thesis using E [of i c j] c find_idx_SomeD [OF ij(1)] by auto
  qed
  have first: "xs ! i = a" if "find_idx (\<lambda>q. q = a) xs = Some i" for a i using find_idx_SomeD(2) [OF that] .
  from kahn_correct [OF kahn_start_inv [OF S] wf(1) k] consider
      (ok) "is" where "st = NX_OK" "kh_order k = map ((!) xs) is" "distinct is" "set is = {..<length xs}"
        "\<And>a b. (a, b) \<in> ?e \<Longrightarrow> ahead is a b"
    | (cyclic) "st = NX_EINVAL" "\<not> acyclic ?e" by blast
  then show ?thesis
  proof cases
    case ok
    have "mset is = mset [0..<length xs]" using ok(3,4) by (intro set_eq_iff_mset_eq_distinct [THEN iffD1]) (auto simp: atLeast0LessThan)
    then have "mset (kh_order k) = mset (map ((!) xs) [0..<length xs])" by (simp add: ok(2))
    then have m: "mset (kh_order k) = mset xs" by (simp add: map_nth)
    have a: "ahead (kh_order k) a b" if "(a, b) \<in> depends xs s" for a b
      using edge [OF that] ok(5) ahead_map [of "is" _ _ "(!) xs"] first unfolding ok(2) by metis
    let ?p = "\<lambda>a. position is (the (find_idx (\<lambda>q. q = a) xs))"
    have "depends xs s \<subseteq> measure ?p"
      using edge ok(5) ahead_position [OF ok(3)] by (fastforce simp: in_measure)
    then have "acyclic (depends xs s)" using wf_subset [OF wf_measure] wf_acyclic by blast
    then show ?thesis using ok(1) m a by blast
  next
    case cyclic
    have "acyclic ?e" if "acyclic (depends xs s)"
    proof -
      have "wf (depends xs s)" using finite_acyclic_wf [OF finite_depends that] .
      then have "wf (inv_image (depends xs s) ((!) xs))" by (rule wf_inv_image)
      moreover have "?e \<subseteq> inv_image (depends xs s) ((!) xs)" using wf(2) by (auto simp: inv_image_def)
      ultimately show ?thesis using wf_subset wf_acyclic by blast
    qed
    then show ?thesis using cyclic by blast
  qed
qed

section \<open>What the verbs leave alone\<close>

lemma dispatch_continues:
  assumes "\<And>f c u s. fst (run f c u s) = NX_HOOK_CONTINUE"
  shows "fst (nx_hook_dispatch run ctx s) = NX_HOOK_CONTINUE"
proof -
  have "fst (hook_walk run ctx n ho s) = NX_HOOK_CONTINUE" for n ho s
  proof (induction n arbitrary: ho s)
    case (Suc n)
    then show ?case by (cases ho) (simp_all only: walk_None walk_Suc assms, simp_all)
  qed simp
  then show ?thesis by (simp add: nx_hook_dispatch_def Let_def split_beta)
qed

text \<open>A property of states that all callbacks and all writes of the verbs keep.\<close>

definition comp_keeps :: "'a ipc_state_scheme comp_env \<Rightarrow> ('a ipc_state_scheme \<Rightarrow> bool) \<Rightarrow> bool" where
  "comp_keeps C P \<longleftrightarrow>
     router_keeps (ce_ipc C) P \<and>
     (\<forall>sel \<in> {ce_pause_hook C, ce_pause C, ce_resume C}. \<forall>d f i s. sel d = Some f \<longrightarrow> P s \<longrightarrow> P (snd (f i s))) \<and>
     (\<forall>s. P s \<longrightarrow> P (ce_yield C s)) \<and> (\<forall>r st s. P s \<longrightarrow> P (snd (nx_slot_set_pause_state r st s))) \<and>
     (\<forall>c to s. P s \<longrightarrow> P (snd (state_set c to s)))"

lemma keeps_op: "comp_keeps C P \<Longrightarrow> sel \<in> {ce_pause_hook C, ce_pause C, ce_resume C} \<Longrightarrow> P s \<Longrightarrow> P (snd (call_op sel c s))"
  unfolding call_op_def op_of_def comp_keeps_def by (auto split: option.splits)

lemma keeps_lifecycle_hook: "comp_keeps C P \<Longrightarrow> P s \<Longrightarrow> P (snd (dispatch_lifecycle_hook C p c to s))"
proof -
  assume a: "comp_keeps C P" "P s"
  have "P (snd (nx_hook_dispatch (env_run (ce_ipc C)) ctx s))" for ctx
    using keeps_hooks [of "ce_ipc C" P s] a unfolding comp_keeps_def by blast
  then show ?thesis
    by (auto simp: dispatch_lifecycle_hook_def split: prod.split nx_hook_action.split) (metis snd_conv)+
qed

lemma keeps_drain:
  assumes "drain_loop y r s = Some t" "\<And>s. P s \<Longrightarrow> P (y s)" "P s"
  shows "P t"
proof -
  let ?P = "\<lambda>y r s t. (\<forall>s. P s \<longrightarrow> P (y s)) \<longrightarrow> P s \<longrightarrow> P t"
  have "?P y r s t"
    by (rule drain_loop.raw_induct [where P = ?P, OF _ assms(1)]) (auto split: if_splits)
  then show ?thesis using assms(2,3) by blast
qed

lemma keeps_walk:
  assumes "\<And>r u v. cb r u = Some v \<Longrightarrow> P u \<Longrightarrow> P v"
  shows "walk_bound cb c rs s = Some t \<Longrightarrow> P s \<Longrightarrow> P t"
proof (induction rs arbitrary: s)
  case (Cons r rs)
  then obtain u where "(if sl_active (slots s r) = c then cb r s else Some s) = Some u" "walk_bound cb c rs u = Some t"
    by (auto simp: bind_eq_Some_conv)
  then show ?case using Cons assms by (auto split: if_splits)
qed simp

lemma keeps_foreach:
  "comp_keeps C P \<Longrightarrow> foreach_bound c (slot_drain_cb C) s = Some t \<Longrightarrow> P s \<Longrightarrow> P t"
  "comp_keeps C P \<Longrightarrow> foreach_bound c (slot_resume_cb C) s = Some t \<Longrightarrow> P s \<Longrightarrow> P t"
  "comp_keeps C P \<Longrightarrow> P s \<Longrightarrow> f = (\<lambda>r s. snd (nx_slot_set_pause_state r st s)) \<Longrightarrow> P (nx_component_foreach_bound_slot c f s)"
proof -
  assume C: "comp_keeps C P"
  have d: "P v" if "slot_drain_cb C r u = Some v" "P u" for r u v
    using keeps_drain [of "ce_yield C" r _ v P] that C by (auto simp: slot_drain_cb_def comp_keeps_def)
  show "foreach_bound c (slot_drain_cb C) s = Some t \<Longrightarrow> P s \<Longrightarrow> P t"
    using keeps_walk [of "slot_drain_cb C" P, OF d] by (auto simp: foreach_bound_def split: if_splits)
  have r: "P v" if "slot_resume_cb C r u = Some v" "P u" for r u v
    using keeps_flush [of "ce_ipc C" r _ v P] that C by (auto simp: slot_resume_cb_def comp_keeps_def)
  show "foreach_bound c (slot_resume_cb C) s = Some t \<Longrightarrow> P s \<Longrightarrow> P t"
    using keeps_walk [of "slot_resume_cb C" P, OF r] by (auto simp: foreach_bound_def split: if_splits)
  have w: "P (fold (\<lambda>r t. if sl_active (slots t r) = c then f r t else t) rs s)"
    if "f = (\<lambda>r s. snd (nx_slot_set_pause_state r st s))" "P s" for rs s
    using that(2) C by (induction rs arbitrary: s) (auto simp: that(1) comp_keeps_def)
  show "P s \<Longrightarrow> f = (\<lambda>r s. snd (nx_slot_set_pause_state r st s)) \<Longrightarrow> P (nx_component_foreach_bound_slot c f s)"
    using w by (auto simp: nx_component_foreach_bound_slot_def)
qed

lemma keeps_transition: "comp_keeps C P \<Longrightarrow> P s \<Longrightarrow> P (snd (transition_from c from to s))"
  by (auto simp: transition_from_def comp_keeps_def)

lemma keeps_pause:
  assumes C: "comp_keeps C P" and s: "P s" and p: "nx_component_pause C c s = Some (rc, t)"
  shows "P t"
proof -
  obtain hrc s1 where h: "dispatch_lifecycle_hook C NX_HOOK_COMPONENT_PAUSE c NX_LC_PAUSED s = (hrc, s1)" by fastforce
  have s1: "P s1" using keeps_lifecycle_hook [OF C s, of NX_HOOK_COMPONENT_PAUSE c NX_LC_PAUSED] h by simp
  show ?thesis
  proof (cases "c = NULL \<or> cm_state (comps s c) \<noteq> NX_LC_ACTIVE \<or> hrc \<noteq> nx_rc NX_OK")
    case True
    then show ?thesis using p h s s1 by (auto simp: nx_component_pause_def split: if_splits)
  next
    case False
    have cb: "slot_cutoff_cb = (\<lambda>r s. snd (nx_slot_set_pause_state r NX_SLOT_PAUSE_CUTTING s))"
      "slot_done_cb = (\<lambda>r s. snd (nx_slot_set_pause_state r NX_SLOT_PAUSE_DONE s))"
      by (auto simp: fun_eq_iff slot_cutoff_cb_def slot_done_cb_def)
    obtain s3 where s3: "foreach_bound c (slot_drain_cb C) (nx_component_foreach_bound_slot c slot_cutoff_cb s1) = Some s3"
      and body: "(case pause_ops C c s3 of (orc, s4) \<Rightarrow>
         if orc \<noteq> nx_rc NX_OK then map_option (\<lambda>s5. (orc, s5)) (rollback_pause C c s4)
         else Some (transition_from c NX_LC_ACTIVE NX_LC_PAUSED (nx_component_foreach_bound_slot c slot_done_cb s4))) = Some (rc, t)"
      using p False h by (auto simp: nx_component_pause_def Let_def bind_eq_Some_conv)
    have "P s3" using keeps_foreach(1) [OF C s3 keeps_foreach(3) [OF C s1 cb(1)]] .
    moreover have hk: "P (snd (run_pause_hook C c u))" if "P u" for u
      using keeps_op [OF C, of "ce_pause_hook C" u c] that by (simp add: run_pause_hook_def Let_def split_beta)
    moreover have "P (snd (call_op (ce_pause C) c u))" if "P u" for u using keeps_op [OF C _ that, of "ce_pause C" c] by simp
    ultimately have s4: "P (snd (pause_ops C c s3))" by (simp add: pause_ops_def split_beta)
    obtain orc s4' where o: "pause_ops C c s3 = (orc, s4')" by fastforce
    have "P s4'" using s4 o by simp
    then show ?thesis
      using body keeps_foreach(2) [OF C] keeps_transition [OF C keeps_foreach(3) [OF C _ cb(2)]]
      by (auto simp: o rollback_pause_def split: if_splits) (metis snd_conv)
  qed
qed

lemma keeps_resume:
  assumes C: "comp_keeps C P" and s: "P s" and r: "nx_component_resume C c s = Some (rc, t)"
  shows "P t"
proof -
  obtain hrc s1 where h: "dispatch_lifecycle_hook C NX_HOOK_COMPONENT_RESUME c NX_LC_ACTIVE s = (hrc, s1)" by fastforce
  obtain orc s2 where o: "call_op (ce_resume C) c s1 = (orc, s2)" by fastforce
  have s1: "P s1" using keeps_lifecycle_hook [OF C s, of NX_HOOK_COMPONENT_RESUME c NX_LC_ACTIVE] h by simp
  have s2: "P s2" using keeps_op [OF C _ s1, of "ce_resume C" c] o by simp
  show ?thesis
    using r h o s s1 s2 keeps_foreach(2) [OF C _ s2] keeps_transition [OF C]
    by (auto simp: nx_component_resume_def split: if_splits) (metis snd_conv)
qed

section \<open>A failed pause is undone\<close>

text \<open>Components that agree to be resumed, and hooks that do not object.\<close>

definition agreeable :: "'a ipc_state_scheme comp_env \<Rightarrow> bool" where
  "agreeable C \<longleftrightarrow>
     (\<forall>f c u s. fst (env_run (ce_ipc C) f c u s) = NX_HOOK_CONTINUE) \<and>
     (\<forall>d f i s. ce_resume C d = Some f \<longrightarrow> fst (f i s) = nx_rc NX_OK)"

lemma resume_succeeds:
  assumes "quiet C" "agreeable C" "NULL \<notin> set (reg_slots s)" "c \<in> set (reg_comps s)" "c \<noteq> NULL" "states s c = NX_LC_PAUSED"
    and "nx_component_resume C c s = Some (rc, t)"
  shows "shape t = shape s" "states t = (states s)(c := NX_LC_ACTIVE)" "pauses t = paused_as NX_SLOT_PAUSE_NONE c s"
proof -
  obtain hrc s1 where h: "dispatch_lifecycle_hook C NX_HOOK_COMPONENT_RESUME c NX_LC_ACTIVE s = (hrc, s1)" by fastforce
  have "fst (nx_hook_dispatch (env_run (ce_ipc C)) ctx s) = NX_HOOK_CONTINUE" for ctx
    using dispatch_continues [of "env_run (ce_ipc C)"] assms(2) by (simp add: agreeable_def)
  then have hrc: "hrc = nx_rc NX_OK"
    using h by (auto simp: dispatch_lifecycle_hook_def split: prod.splits nx_hook_action.splits) (metis fst_conv nx_hook_action.distinct(1))
  obtain orc s2 where o: "call_op (ce_resume C) c s1 = (orc, s2)" by fastforce
  then have orc: "orc = nx_rc NX_OK"
    using assms(2) by (auto simp: call_op_def op_of_def agreeable_def split: option.splits if_splits) (metis fst_conv)+
  have s1: "still s s1" using quiet_hook [OF assms(1), of s NX_HOOK_COMPONENT_RESUME c NX_LC_ACTIVE] h by simp
  have s2: "still s s2" using still_trans [OF s1] quiet_op [OF assms(1), of "ce_resume C" s1 c] o by simp
  obtain s3 where s3: "foreach_bound c (slot_resume_cb C) s2 = Some s3" "transition_from c NX_LC_PAUSED NX_LC_ACTIVE s3 = (rc, t)"
    using assms(5-7) h hrc o orc by (auto simp: nx_component_resume_def states_def)
  have sh2: "shape s2 = shape s" using s2 by (simp add: still_def)
  note e3 = foreach_effects(2) [OF assms(1) sh2 assms(3,5) s3(1)]
  from transition_effect [OF s3(2) _ _ assms(5), of s]
  show "shape t = shape s" "states t = (states s)(c := NX_LC_ACTIVE)" "pauses t = paused_as NX_SLOT_PAUSE_NONE c s"
    using e3 s2 assms(4,6) by (auto simp: paused_as_def fun_eq_iff still_def)
qed

text \<open>The state in which exactly the components of \<open>P\<close> have been paused since \<open>s\<close>.\<close>

definition stopped :: "comp_ref set \<Rightarrow> 'a graph_scheme \<Rightarrow> 'a graph_scheme \<Rightarrow> bool" where
  "stopped P s u \<longleftrightarrow>
     shape u = shape s \<and> states u = (\<lambda>c. if c \<in> P then NX_LC_PAUSED else states s c) \<and>
     pauses u = (\<lambda>r. if \<exists>c \<in> P. bound_to c s r then NX_SLOT_PAUSE_DONE else pauses s r)"

definition ready_to_pause :: "'a graph_scheme \<Rightarrow> slot_ref list \<Rightarrow> bool" where
  "ready_to_pause s rs \<longleftrightarrow>
     NULL \<notin> set (reg_slots s) \<and>
     (\<forall>r c. states s c = NX_LC_ACTIVE \<longrightarrow> bound_to c s r \<longrightarrow> pauses s r = NX_SLOT_PAUSE_NONE) \<and>
     (\<forall>r \<in> set rs. sl_active (slots s r) \<noteq> NULL \<longrightarrow>
        sl_active (slots s r) \<in> set (reg_comps s) \<and> states s (sl_active (slots s r)) \<noteq> NX_LC_PAUSED)"

lemma bound_unique: "bound_to c s r \<Longrightarrow> bound_to d s r \<Longrightarrow> c = d"
  by (simp add: bound_to_def)

lemma stopped_facts:
  fixes s u :: "'a ipc_state_scheme"
  assumes "stopped P s u"
  shows "reg_slots u = reg_slots s" "reg_comps u = reg_comps s" "sl_active (slots u r) = sl_active (slots s r)"
    "bound_to c u = bound_to c s" "cm_state (comps u c) = (if c \<in> P then NX_LC_PAUSED else states s c)"
proof -
  have sh: "shape u = shape s" using assms by (simp add: stopped_def)
  show "reg_slots u = reg_slots s" "bound_to c u = bound_to c s" by (rule shape_reg [OF sh], rule shape_bound [OF sh])
  show "reg_comps u = reg_comps s" using sh unfolding shape_def by blast
  have "(\<lambda>r. sl_active (slots u r)) = (\<lambda>r. sl_active (slots s r))" using sh unfolding shape_def by blast
  then show "sl_active (slots u r) = sl_active (slots s r)" by (rule fun_cong)
  have "states u c = (if c \<in> P then NX_LC_PAUSED else states s c)" using assms unfolding stopped_def by simp
  then show "cm_state (comps u c) = (if c \<in> P then NX_LC_PAUSED else states s c)" by (simp add: states_def)
qed

lemma rollback_restores:
  assumes "quiet C" "agreeable C" "ready_to_pause s rs"
  shows "rollback_phase C rs u = Some t \<Longrightarrow> stopped P s u \<Longrightarrow> (\<And>c. c \<in> P \<Longrightarrow> states s c = NX_LC_ACTIVE \<and> c \<noteq> NULL) \<Longrightarrow>
    P \<subseteq> (\<lambda>r. sl_active (slots s r)) ` set rs \<Longrightarrow> still s t"
  using assms(3)
proof (induction rs arbitrary: u P)
  case Nil
  then show ?case by (simp add: stopped_def still_def)
next
  case (Cons r rs)
  let ?c = "sl_active (slots s r)"
  note F = stopped_facts [OF Cons.prems(2)]
  have rd: "ready_to_pause s rs" using Cons.prems(5) by (simp add: ready_to_pause_def)
  have act: "sl_active (slots u r) = ?c" by (rule F(3))
  have st: "cm_state (comps u ?c) = NX_LC_PAUSED \<longleftrightarrow> ?c \<in> P" if "?c \<noteq> NULL"
    using F(5) [of ?c] Cons.prems(5) that by (auto simp: ready_to_pause_def)
  show ?case
  proof (cases "?c \<noteq> NULL \<and> ?c \<in> P")
    case False
    then have "rollback_phase C rs u = Some t" using Cons.prems(1) act st by (auto simp: Let_def split: if_splits)
    moreover have "?c \<notin> P" using False Cons.prems(3) by blast
    then have "P \<subseteq> (\<lambda>r. sl_active (slots s r)) ` set rs" using Cons.prems(4) by auto
    ultimately show ?thesis using Cons.IH Cons.prems(2,3) rd by blast
  next
    case True
    then obtain rc v where v: "nx_component_resume C ?c u = Some (rc, v)" "rollback_phase C rs v = Some t"
      using Cons.prems(1) act st by (auto simp: Let_def bind_eq_Some_conv split: prod.splits)
    have n: "NULL \<notin> set (reg_slots u)" "?c \<in> set (reg_comps u)" "states u ?c = NX_LC_PAUSED"
      using Cons.prems(5) F(1,2) True F(5) [of ?c] by (auto simp: ready_to_pause_def states_def)
    note R = resume_succeeds [OF assms(1,2) n(1,2) _ n(3) v(1)]
    have none: "pauses s q = NX_SLOT_PAUSE_NONE" if "bound_to ?c s q" for q
      using Cons.prems(3,5) True that by (auto simp: ready_to_pause_def)
    have "stopped (P - {?c}) s v"
      using R Cons.prems(2,3) True none F(4) unfolding stopped_def
      by (auto simp: fun_eq_iff paused_as_def dest: bound_unique)
    moreover have "P - {?c} \<subseteq> (\<lambda>r. sl_active (slots s r)) ` set rs" using Cons.prems(4) by auto
    ultimately show ?thesis using Cons.IH [OF v(2)] Cons.prems(3) rd by blast
  qed
qed

lemma pause_phase_undone:
  assumes "quiet C" "agreeable C"
  shows "pause_phase C ps rs u = Some (rc, t) \<Longrightarrow> rc \<noteq> nx_rc NX_OK \<Longrightarrow> ready_to_pause s (ps @ rs) \<Longrightarrow> stopped P s u \<Longrightarrow>
    (\<And>c. c \<in> P \<Longrightarrow> states s c = NX_LC_ACTIVE \<and> c \<noteq> NULL) \<Longrightarrow> P \<subseteq> (\<lambda>r. sl_active (slots s r)) ` set ps \<Longrightarrow> still s t"
proof (induction rs arbitrary: u P ps)
  case Nil
  then show ?case by simp
next
  case (Cons r rs)
  let ?c = "sl_active (slots s r)"
  note F = stopped_facts [OF Cons.prems(4)]
  have act: "sl_active (slots u r) = ?c" by (rule F(3))
  have rd: "ready_to_pause s ((r # ps) @ rs)" "ready_to_pause s ps" using Cons.prems(3) by (auto simp: ready_to_pause_def)
  show ?case
  proof (cases "?c = NULL \<or> cm_state (comps u ?c) \<noteq> NX_LC_ACTIVE")
    case True
    then have "pause_phase C (r # ps) rs u = Some (rc, t)" using Cons.prems(1) act by (simp add: Let_def split: if_splits)
    from Cons.IH [OF this Cons.prems(2) rd(1) Cons.prems(4,5)] Cons.prems(6) show ?thesis by auto
  next
    case False
    then have c: "?c \<noteq> NULL" "?c \<notin> P" "states s ?c = NX_LC_ACTIVE" using F(5) [of ?c] by (auto split: if_splits)
    obtain prc v where v: "nx_component_pause C ?c u = Some (prc, v)"
      and rest: "(if prc \<noteq> nx_rc NX_OK then map_option (\<lambda>s2. (prc, s2)) (rollback_phase C ps v)
        else pause_phase C (r # ps) rs v) = Some (rc, t)"
      using Cons.prems(1) act False by (auto simp: Let_def bind_eq_Some_conv split: prod.splits)
    have n: "NULL \<notin> set (reg_slots u)" "?c \<in> set (reg_comps u)"
      using Cons.prems(3) c(1) F(1,2) by (auto simp: ready_to_pause_def)
    note O = pause_outcome [OF assms(1) n(1) v]
    have bnd: "pauses u q = NX_SLOT_PAUSE_NONE" if "bound_to ?c s q" for q
      using Cons.prems(3,4) c that by (auto simp: stopped_def ready_to_pause_def dest: bound_unique)
    have none: "paused_as NX_SLOT_PAUSE_NONE ?c u = pauses u"
      using bnd F(4) by (auto simp: paused_as_def fun_eq_iff)
    show ?thesis
    proof (cases "prc = nx_rc NX_OK")
      case True
      then have st: "stopped (insert ?c P) s v"
        using O Cons.prems(4) F(4) unfolding stopped_def by (auto simp: fun_eq_iff paused_as_def)
      have pp: "pause_phase C (r # ps) rs v = Some (rc, t)" using rest True by simp
      have "states s d = NX_LC_ACTIVE \<and> d \<noteq> NULL" if "d \<in> insert ?c P" for d using that Cons.prems(5) c by auto
      then show ?thesis by (rule Cons.IH [OF pp Cons.prems(2) rd(1) st]) (use Cons.prems(6) in auto)
    next
      case False
      then have "still u v" using O none n(2) by (auto simp: still_def)
      then have st: "stopped P s v" using Cons.prems(4) by (simp add: stopped_def still_def)
      have rb: "rollback_phase C ps v = Some t" using rest False by auto
      show ?thesis by (rule rollback_restores [OF assms rd(2) rb st Cons.prems(5,6)])
    qed
  qed
qed

text \<open>The view of the timer, and callbacks that leave the timer alone.\<close>

definition timer_view :: "'a irq_state_scheme \<Rightarrow> reg_write list \<times> u32" where
  "timer_view s = (mmio s, g_pause_nest s)"

lemma timer_view_inv: "timer_view t = timer_view s \<Longrightarrow> timer_inv d t \<longleftrightarrow> timer_inv d s"
  by (simp add: timer_view_def timer_inv_def unmasked_def)

definition timer_calm :: "'a irq_state_scheme comp_env \<Rightarrow> bool" where
  "timer_calm C \<longleftrightarrow>
     (\<forall>f c u s. timer_view (snd (env_run (ce_ipc C) f c u s)) = timer_view s) \<and>
     (\<forall>d h i m s. env_handle_msg (ce_ipc C) d = Some h \<longrightarrow> timer_view (snd (h i m s)) = timer_view s) \<and>
     (\<forall>sel \<in> {ce_pause_hook C, ce_pause C, ce_resume C}. \<forall>d f i s. sel d = Some f \<longrightarrow> timer_view (snd (f i s)) = timer_view s) \<and>
     (\<forall>s. timer_view (ce_yield C s) = timer_view s)"

lemma timer_keeps:
  assumes "timer_calm C"
  shows "comp_keeps C (\<lambda>t. timer_view t = timer_view s)"
proof -
  have w: "timer_view (t\<lparr>hooks := hs, g_chains := cs, g_dispatching := n\<rparr>) = timer_view t"
    "timer_view (set_msg m f t) = timer_view t" "timer_view (snd (nx_dispatcher_enqueue m t)) = timer_view t"
    "timer_view (t\<lparr>g_holds := es\<rparr>) = timer_view t" "timer_view (t\<lparr>g_detached := es\<rparr>) = timer_view t"
    "timer_view (snd (nx_slot_set_pause_state r st t)) = timer_view t"
    for t :: "'a irq_state_scheme" and hs cs n m f es r st
    by (simp_all add: timer_view_def set_msg_def nx_dispatcher_enqueue_def Let_def set_slot_def ensure_queue_init_def
        nx_slot_set_pause_state_def)
  have e: "timer_view (emit_event a t) = timer_view t" for a and t :: "'a irq_state_scheme"
    by (simp add: timer_view_def emit_event_def change_log_append_def Let_def)
  have "timer_view (snd (state_set c to t)) = timer_view t" for c to and t :: "'a irq_state_scheme"
  proof -
    have "timer_view (bump_gen (set_comp c f t)) = timer_view t" for f by (simp add: timer_view_def bump_gen_def set_comp_def)
    then show ?thesis by (simp add: state_set_def nx_component_state_set_def Let_def e)
  qed
  then show ?thesis
    unfolding comp_keeps_def router_keeps_def w using assms by (auto simp: timer_calm_def)
qed

lemma phase_timer:
  assumes "timer_calm C"
  shows "rollback_phase C rs u = Some t \<Longrightarrow> timer_view t = timer_view u"
    "pause_phase C ps rs u = Some (rc, t) \<Longrightarrow> timer_view t = timer_view u"
proof -
  have r: "timer_view v = timer_view u" if "nx_component_resume C c u = Some (rc, v)" for c u rc v
    using keeps_resume [OF timer_keeps [OF assms] refl that] .
  have p: "timer_view v = timer_view u" if "nx_component_pause C c u = Some (rc, v)" for c u rc v
    using keeps_pause [OF timer_keeps [OF assms] refl that] .
  show roll: "timer_view t = timer_view u" if "rollback_phase C rs u = Some t" for rs u t
    using that
  proof (induction rs arbitrary: u)
    case (Cons r' rs)
    then show ?case using r by (auto simp: Let_def bind_eq_Some_conv split: if_splits)
  qed simp
  show "pause_phase C ps rs u = Some (rc, t) \<Longrightarrow> timer_view t = timer_view u"
  proof (induction rs arbitrary: u ps)
    case (Cons r' rs)
    let ?c = "sl_active (slots u r')"
    show ?case
    proof (cases "?c = NULL \<or> cm_state (comps u ?c) \<noteq> NX_LC_ACTIVE")
      case True
      then have "pause_phase C (r' # ps) rs u = Some (rc, t)" using Cons.prems by (simp add: Let_def split: if_splits)
      then show ?thesis by (rule Cons.IH)
    next
      case False
      then obtain prc v where v: "nx_component_pause C ?c u = Some (prc, v)"
        and rest: "(if prc \<noteq> nx_rc NX_OK then map_option (\<lambda>s2. (prc, s2)) (rollback_phase C ps v)
          else pause_phase C (r' # ps) rs v) = Some (rc, t)"
        using Cons.prems by (auto simp: Let_def bind_eq_Some_conv split: prod.splits)
      have "timer_view t = timer_view v" using rest roll Cons.IH by (auto split: if_splits)
      then show ?thesis using p [OF v] by simp
    qed
  qed simp
qed

section \<open>Properties\<close>


lemma collect_bounds:
  "collect_changes scs xs = Some ys \<Longrightarrow> length xs \<le> 32 \<Longrightarrow> length ys \<le> 32 \<and> length ys = length xs + length scs"
  "collect_receivers ccs xs = Some ys \<Longrightarrow> length xs \<le> 32 \<Longrightarrow> length ys \<le> 32 \<and> length xs \<le> length ys"
proof -
  show "collect_changes scs xs = Some ys \<Longrightarrow> length xs \<le> 32 \<Longrightarrow> length ys \<le> 32 \<and> length ys = length xs + length scs"
    by (induction scs arbitrary: xs) (fastforce split: if_splits)+
  show "collect_receivers ccs xs = Some ys \<Longrightarrow> length xs \<le> 32 \<Longrightarrow> length ys \<le> 32 \<and> length xs \<le> length ys"
    by (induction ccs arbitrary: xs) (fastforce split: if_splits)+
qed


lemma still_timer: "still s (timer_pause t) \<longleftrightarrow> still s t" "still s (timer_resume t) \<longleftrightarrow> still s t"
  by (simp_all add: still_def shape_def states_def pauses_def timer_pause_def timer_resume_def Let_def gic_disable_def
      gic_enable_def wr_def fun_eq_iff)


lemma order_status:
  assumes "affected plan = Some xs" "scan_all xs s [0..<length xs] (scan_start xs) = Some x"
  shows "fst (build_pause_order plan s) \<noteq> NX_ENOMEM"
proof -
  obtain st k where k: "kahn_loop xs (sd_edges x) (kahn_start xs (sd_deg x)) = (st, k)" by fastforce
  then show ?thesis using order_correct [OF assms(2) k] by (auto simp: build_pause_order_def assms)
qed

section \<open>Concrete plans\<close>

text \<open>A plan for slots 1 and 2 of the graph of the earlier example, where slot 2 calls slot 1.\<close>

definition demo_plan :: recomp_plan where
  "demo_plan =
     \<lparr>rp_changes = [\<lparr>sc_slot = 1, sc_action = 1, sc_new_comp = 5, sc_state_lost = False\<rparr>,
        \<lparr>sc_slot = 2, sc_action = 1, sc_new_comp = 6, sc_state_lost = False\<rparr>],
      rp_num_changes = 2, rp_connections = [], rp_num_connections = 0, rp_timeout_ms = 0\<rparr>"

lemma demo_affected: "affected demo_plan = Some [1, 2]"
  by (simp add: affected_def demo_plan_def changes_def connections_def)

lemma demo_dependency:
  "nx_slot_foreach_dependency 2 demo_open = [4]" "r \<noteq> 2 \<Longrightarrow> nx_slot_foreach_dependency r demo_open = []"
  "cn_to_slot (conns demo_open c) = 1"
  by (simp_all add: nx_slot_foreach_dependency_def slot_node_for_def demo_open_def demo_edge_def)

lemma demo_scan: "scan_all [1, 2] demo_open [0..<2] (scan_start [1, 2]) \<noteq> None"
proof -
  have "[0..<2] = [0, 1 :: nat]" by (simp add: upt_rec)
  then show ?thesis
    by (simp add: scan_slot_def demo_dependency scan_dep_cb_def scan_start_def Let_def)
qed

lemma demo_depends: "depends [1, 2] demo_open = {(2, 1)}"
  using demo_dependency by (auto simp: depends_def)

lemma demo_status: "fst (build_pause_order demo_plan demo_open) \<noteq> NX_ENOMEM"
proof -
  obtain x where "scan_all [1, 2] demo_open [0..<2] (scan_start [1, 2]) = Some x" using demo_scan by blast
  moreover have "length [1 :: slot_ref, 2] = 2" by simp
  ultimately show ?thesis using order_status [OF demo_affected] by metis
qed



text \<open>
  A component 3 that refuses to be paused, active and bound to slot 1; components 5 and 6 are ready to replace it and the
  tick is unmasked.
\<close>

definition demo_refusal :: "irq_state comp_env" where
  "demo_refusal =
     \<lparr>ce_ipc = \<lparr>env_run = (\<lambda>f c u s. (NX_HOOK_CONTINUE, s)), env_handle_msg = (\<lambda>d. None), env_calloc = (\<lambda>s. None)\<rparr>,
      ce_init = (\<lambda>d. None), ce_enable = (\<lambda>d. None), ce_pause_hook = (\<lambda>d. None), ce_pause = (\<lambda>d. Some (\<lambda>i s. (- 5, s))),
      ce_resume = (\<lambda>d. None), ce_disable = (\<lambda>d. None), ce_destroy = (\<lambda>d. None), ce_on_dep_swapped = (\<lambda>d. None),
      ce_yield = (\<lambda>s. s), ce_counter = (\<lambda>s. 0), ce_freq = 62500000\<rparr>"

definition demo_running :: irq_state where
  "demo_running = gic_enable 30 (demo_irqs
     \<lparr>comps := (\<lambda>c. (comps demo_irqs c)\<lparr>cm_state := (if c = 3 then NX_LC_ACTIVE else NX_LC_READY)\<rparr>),
      g_slots := [\<lparr>sn_slot = 1, sn_incoming = [], sn_outgoing = [], sn_created_gen = 0\<rparr>],
      g_components := [\<lparr>cmn_comp = 3, cmn_created_gen = 0\<rparr>]\<rparr>)"

definition demo_swap :: recomp_plan where
  "demo_swap =
     \<lparr>rp_changes = [\<lparr>sc_slot = 1, sc_action = 1, sc_new_comp = 5, sc_state_lost = False\<rparr>], rp_num_changes = 1,
      rp_connections = [], rp_num_connections = 0, rp_timeout_ms = 0\<rparr>"

lemma demo_running_fields [simp]:
  "reg_slots demo_running = [1]" "g_slots demo_running = [\<lparr>sn_slot = 1, sn_incoming = [], sn_outgoing = [], sn_created_gen = 0\<rparr>]"
  "g_components demo_running = [\<lparr>cmn_comp = 3, cmn_created_gen = 0\<rparr>]"
  "cm_state (comps demo_running c) = (if c = 3 then NX_LC_ACTIVE else NX_LC_READY)" "cm_descriptor (comps demo_running c) = 9"
  "sl_active (slots demo_running r) = 3" "sl_pause_state (slots demo_running r) = NX_SLOT_PAUSE_NONE"
  "sl_in_flight_calls (slots demo_running r) = 0" "sl_mutability (slots demo_running r) = NX_MUT_HOT"
  "g_chains demo_running p = []" "g_dispatching demo_running = 0" "g_holds demo_running = []" "g_pause_nest demo_running = 0"
  by (simp_all add: demo_running_def demo_irqs_def gic_enable_def wr_def demo_router_def demo_slot_def demo_memory_def
      graph.defs ipc_state.defs)

lemma demo_order: "build_pause_order demo_swap demo_running = (NX_OK, [1])"
proof -
  have a: "affected demo_swap = Some [1]" by (simp add: affected_def demo_swap_def changes_def connections_def)
  have d: "nx_slot_foreach_dependency 1 demo_running = []"
    by (simp add: nx_slot_foreach_dependency_def slot_node_for_def)
  have s: "scan_all [1] demo_running [0..<length [1 :: slot_ref]] (scan_start [1]) = Some (scan_start [1])"
    by (simp add: scan_slot_def d Let_def) (simp add: scan_start_def)
  obtain st k where k: "kahn_loop [1] (sd_edges (scan_start [1])) (kahn_start [1] (sd_deg (scan_start [1]))) = (st, k)"
    by fastforce
  have "depends [1] demo_running = {}" by (auto simp: depends_def d)
  then have "st = NX_OK" "mset (kh_order k) = {#1#}" using order_correct [OF s k] by (auto simp: acyclic_def)
  then show ?thesis unfolding build_pause_order_def a option.case s k by simp
qed

lemma demo_refused:
  assumes "s = timer_pause demo_running"
  shows "\<exists>t. nx_component_pause demo_refusal 3 s = Some (- 5, t)"
proof -
  have f: "g_slots s = g_slots demo_running" "slots s = slots demo_running" "comps s = comps demo_running"
    "g_holds s = []" "g_chains s p = []" "g_dispatching s = 0" for p
    by (simp_all add: assms timer_pause_def Let_def gic_disable_def wr_def)
  have hook: "dispatch_lifecycle_hook demo_refusal p c to s = (nx_rc NX_OK, s)" for p c to
    using dispatch_no_hooks [of s] f(5,6) by (simp add: dispatch_lifecycle_hook_def)
  have ops: "pause_ops demo_refusal 3 u = (- 5, u)" if "cm_descriptor (comps u 3) = 9" for u
    using that by (simp add: pause_ops_def run_pause_hook_def call_op_def op_of_def demo_refusal_def)
  show ?thesis
    by (simp add: nx_component_pause_def f hook ops nx_component_foreach_bound_slot_def slot_cutoff_cb_def
        nx_slot_set_pause_state_def slot_node_for_def set_slot_def foreach_bound_def slot_drain_cb_def drain_loop.simps
        rollback_pause_def slot_resume_cb_def nx_ipc_flush_hold_queue_def flush_walk.simps at_cursor_def chain_head_def)
qed

lemma demo_quiet_refusal: "quiet demo_refusal" "agreeable demo_refusal" "timer_calm demo_refusal"
  by (simp_all add: quiet_def agreeable_def timer_calm_def demo_refusal_def)


end
