(* ===== verification/Spec2Isabelle.thy ===== *)
theory Spec2Isabelle
  imports Nx_Handle Nx_Channel Nx_Waitq Nx_Buddy Nx_Kheap Nx_Vfs Nx_Snapshot Nx_Recompose
begin

text \<open>
  \<^bold>\<open>nonux\<close>: a verification development for a component-based microkernel for 64-bit ARM.

  \<^bold>\<open>The program.\<close> The kernel proper (\<^verbatim>\<open>core/\<close>) owns pages, the heap, the run queue and the wait queues. On top of
  it the framework (\<^verbatim>\<open>framework/\<close>) offers capabilities (handles), message channels and the graph of components: a
  registry of slots, components and connections, hooks on its events, a router that sends messages along connections, a
  dispatcher thread that delivers them, the lifecycle of components and recomposition at run time. Replaceable components (\<^verbatim>\<open>components/\<close>) implement the interfaces of \<^verbatim>\<open>interfaces/\<close>: two scheduling
  policies, a page allocator, a RAM file system and the VFS that routes paths to file systems. The initial
  file system is an archive that \<^verbatim>\<open>tools/pack-initramfs.py\<close> writes at build time and the kernel reads at boot.

  \<^bold>\<open>Theories and sources.\<close>

  \<^item> \<^verbatim>\<open>Nx_Prelude\<close>: machine integers (\<open>u8\<close> .. \<open>u64\<close>, \<open>ptr\<close>), the status codes of \<^verbatim>\<open>framework/registry.h\<close>, first-match
    scans of tables, and the lemmas on lists and words that the components share.
  \<^item> \<^verbatim>\<open>Nx_Handle\<close> (\<^verbatim>\<open>framework/handle.c\<close>): the capability table of a process. State: the 64-entry array with 32-bit
    generations. Shown: the table refines a map from handle values to capabilities; a closed handle stays dead for
    fewer than \<open>2^32 - 1\<close> further operations; rights never grow. The interface is the locale \<open>capability_table\<close>.
  \<^item> \<^verbatim>\<open>Nx_Fifo\<close>, \<^verbatim>\<open>Nx_Channel\<close> (\<^verbatim>\<open>framework/channel.c\<close>): the locale \<open>fifo\<close> of bounded queues, and channels as two
    rings with reference counts, interpreted in it. Shown: in-order delivery in every interleaving, the branch
    behaviour of send and receive, lifetime, and the double free of two racing closers as a step sequence.
  \<^item> \<^verbatim>\<open>Nx_List\<close> (\<^verbatim>\<open>core/lib/list.h\<close>): the intrusive list on an explicit store of links, refined to HOL lists.
  \<^item> \<^verbatim>\<open>Nx_Sched\<close> (\<^verbatim>\<open>core/sched/task.h\<close>, \<^verbatim>\<open>interfaces/scheduler.h\<close>, \<^verbatim>\<open>components/sched_rr\<close>,
    \<^verbatim>\<open>components/sched_priority\<close>): tasks, the policy interface as the locale \<open>scheduler_policy\<close>, and both policies,
    interpreted as \<open>rr\<close> and \<open>prio\<close>.
  \<^item> \<^verbatim>\<open>Nx_Waitq\<close> (\<^verbatim>\<open>core/sched/sched.c\<close>, \<^verbatim>\<open>core/sched/waitq.c\<close>, \<^verbatim>\<open>core/cpu/monotonic.h\<close>): the scheduler driver, wait
    queues and deadlines over an arbitrary policy. Shown: each task is linked exactly once in every history, under
    both policies; which waiters a tick and a wake-up release.
  \<^item> \<^verbatim>\<open>Nx_Buddy\<close> (\<^verbatim>\<open>components/mm_buddy/mm_buddy.c\<close>): the sixteen-page buddy allocator with its address arithmetic.
    Shown: handed-out blocks are aligned and disjoint, allocation is complete, releasing everything coalesces fully.
  \<^item> \<^verbatim>\<open>Nx_Pmm\<close> (\<^verbatim>\<open>core/pmm/pmm.c\<close>): the page bitmap. Shown: first fit, and conservation of pages in every history.
  \<^item> \<^verbatim>\<open>Nx_Kheap\<close> (\<^verbatim>\<open>core/lib/kheap.c\<close>): the slab and large-block heap over \<^verbatim>\<open>Nx_Pmm\<close>. Shown: live blocks are aligned and
    disjoint, also from the pages of the other page-allocator clients.
  \<^item> \<^verbatim>\<open>Nx_Ramfs\<close> (\<^verbatim>\<open>components/ramfs/ramfs.c\<close>, \<^verbatim>\<open>tools/pack-initramfs.py\<close>): the file system and the archive format.
    Shown: the loader inverts the packer, reads return what was written, listings end and are complete.
  \<^item> \<^verbatim>\<open>Nx_Vfs\<close> (\<^verbatim>\<open>framework/fs_call.c\<close>, \<^verbatim>\<open>framework/fs_dispatch.h\<close>, \<^verbatim>\<open>interfaces/fs_msg.h\<close>,
    \<^verbatim>\<open>components/vfs_simple\<close>): the driver interface as the locale \<open>fs_drivers\<close>, the message encoding of calls, and the
    mount table. Shown: message calls equal direct calls, and over ramfs the open table of the VFS mirrors the
    reference counts of the driver.
  \<^item> \<^verbatim>\<open>Nx_Hook\<close> (\<^verbatim>\<open>framework/hook.c\<close>): priority chains of callbacks, dispatch, and removal during a dispatch. Shown: the
    chains stay sorted and free of duplicates through callbacks that register and unregister hooks, and a dispatch
    runs the live hooks in order.
  \<^item> \<^verbatim>\<open>Nx_Registry\<close> (\<^verbatim>\<open>framework/registry.c\<close>): slots, components, connections, events, subscribers and the ring of the
    change log. Shown: the graph is consistent after every history, each mutation is logged, and the log returns the
    recent events.
  \<^item> \<^verbatim>\<open>Nx_Json\<close>, \<^verbatim>\<open>Nx_Snapshot\<close> (\<^verbatim>\<open>framework/registry.c\<close>): snapshots of the graph and their JSON text, against a JSON
    reader. Shown: reading the text gives back the snapshot, and the same for the change log.
  \<^item> \<^verbatim>\<open>Nx_Mpsc\<close> (\<^verbatim>\<open>core/lib/mpsc.h\<close>): the intrusive queue with many producers, as atomic steps, interpreted in \<open>fifo\<close>.
    Shown: in-order delivery in every interleaving, and that a pop of a settled queue finds its element.
  \<^item> \<^verbatim>\<open>Nx_Ipc\<close>, \<^verbatim>\<open>Nx_Flush\<close> (\<^verbatim>\<open>framework/ipc.c\<close>): the router with capability scan, pause policies, redirection and hold
    queues. Shown: a flush replays the held messages in order.
  \<^item> \<^verbatim>\<open>Nx_Dispatcher\<close> (\<^verbatim>\<open>framework/dispatcher.c\<close>): the reply pool with its bitmap and the rounds of the dispatcher. Shown:
    the counters agree with the queue in every history, and each request is answered.
  \<^item> \<^verbatim>\<open>Nx_Component\<close> (\<^verbatim>\<open>framework/component.c\<close>): the lifecycle verbs, the pause protocol and dependency resolution. Shown:
    the verbs follow the transition matrix, a pause is all or nothing, and it ends.
  \<^item> \<^verbatim>\<open>Nx_Irq\<close> (\<^verbatim>\<open>core/irq/gic.c\<close>, \<^verbatim>\<open>core/irq/irq.c\<close>, \<^verbatim>\<open>core/timer/timer.c\<close>): interrupt dispatch and the timer, with
    register writes as a log. Shown: an unclaimed interrupt is masked; pauses of the tick nest.
  \<^item> \<^verbatim>\<open>Nx_Recompose\<close> (\<^verbatim>\<open>framework/recompose.c\<close>): the pause order and the orchestrator. Shown: the order is topological and
    found whenever there is one, the fixed tables are not overrun, and a failed recomposition leaves no trace.

  The state of the framework is one extensible record: \<open>hook_state\<close> of \<^verbatim>\<open>Nx_Hook\<close> is extended to \<open>graph\<close>, \<open>ipc_state\<close> and
  \<open>irq_state\<close>, and each operation is defined on the scheme of the part it uses, so that later theories apply it as it is.

  \<^bold>\<open>Conventions.\<close> A structure is a \<^verbatim>\<open>record\<close>, an enumeration a \<^verbatim>\<open>datatype\<close>; integers whose width matters are words,
  sizes and indices that cannot wrap are naturals. A pointer to a component's own state and a pointer to a result
  become an argument and a result of the definition, so their NULL tests have no counterpart; NULL of a data pointer
  is modelled, as \<open>None\<close> or as address 0. A status code is a value of \<open>nx_status\<close>; "a count or a negative error" is a
  sum. Each function is one step: interrupt masking and atomic accesses add nothing to it, except where the steps
  themselves are the subject (\<open>close_step\<close> of the channel, the steps of \<^verbatim>\<open>Nx_Mpsc\<close>). Where preprocessor conditions
  choose between a hosted and a kernel build, the kernel build is modelled.

  Code that the framework calls through pointers (hooks, message handlers, operations of components, interrupt handlers)
  is an argument of the definitions, as are the answers of an allocator and the values of hardware registers. What such
  callbacks may do is stated where a theorem needs it: as a closure of the operations they may call (\<open>graph_acts\<close>,
  \<open>ipc_acts\<close>, with \<open>ipc_disciplined\<close>), or as a part of the state they leave alone (\<open>quiet\<close>, \<open>timer_calm\<close>).

  \<^bold>\<open>Bounds and fuel.\<close> The traversal of an intrusive list takes fuel; the representation lemma gives the number of nodes
  plus one as enough, and the theorem on doubly linked nodes says that no fuel is. The walk over a
  hook chain has fuel \<open>2^64\<close>, the number of addresses, which a chain without duplicates cannot exceed. A loop that may not
  end, because handlers send new messages or a drain waits for others, and code that reads freed memory or panics, is a
  \<^verbatim>\<open>partial_function\<close> with the value None; theorems that such code returns say so. Every other loop is structural or
  has a termination proof. Table sizes (64 handles, 8 ring cells, 16 buddy pages, 32 files with 128 opens, 108 VFS
  opens, 256 replies, 256 log entries, 32 slots and 1024 edges of a plan) are those of the source.

  \<^bold>\<open>Not modelled.\<close> Code that only drives the processor or a device (boot, exception vectors, context switch, the UART,
  formatted output) has no state that a definition could stand for beyond what the theories above carry. The message
  shims that the interface generator writes for the scheduler, memory, VFS and character-device interfaces follow the
  scheme of the file-system shim. Blocking calls (\<^verbatim>\<open>slot_call.c\<close>, \<^verbatim>\<open>posix_shim\<close>), processes and the ELF loader, the system
  calls, page tables, task creation, boot-time configuration, the console and procfs are not covered; they sit above the
  parts that are, or need an account of user memory and address translation. User-space wrappers and build tools other
  than the packer are outside the kernel.
\<close>

end
